(* ===== verification/Prelude.thy ===== *)
theory Prelude
  imports Complex_Main "HOL-Library.AList" "HOL-Library.Sublist" "HOL-Library.Code_Target_Nat"
begin

text \<open>
  Shared vocabulary of the development: JavaScript strings over Latin-1 code units,
  JavaScript values as they arrive from parsed JSON, the insertion-ordered \<open>Map\<close> and
  \<open>Set\<close> of the language, the wire patterns of lower-case hex, and decimal numerals.
  Every string of the modelled code is ASCII on the wire; code units above 255 are outside
  the model. The lemma collection \<open>orbit_simps\<close> gathers the equations that component
  proofs rewrite with, and \<open>guard_simps\<close> the rules that read a chain of early returns as the
  conjunction of the guards it passed.
\<close>

named_theorems orbit_simps
named_theorems guard_simps

section \<open>Chains of guards\<close>

lemma guard_Inr [guard_simps]: "(if P then Inl e else x) = Inr y \<longleftrightarrow> \<not> P \<and> x = Inr y"
  by simp

lemma guard_option_Inr [guard_simps]:
  "(case z of None \<Rightarrow> Inl e | Some v \<Rightarrow> f v) = Inr y \<longleftrightarrow> (\<exists>v. z = Some v \<and> f v = Inr y)"
  by (cases z) simp_all

lemma guard_sum_Inr [guard_simps]:
  "(case z of Inl a \<Rightarrow> Inl (g a) | Inr v \<Rightarrow> f v) = Inr y \<longleftrightarrow> (\<exists>v. z = Inr v \<and> f v = Inr y)"
  by (cases z) simp_all

lemma guard_error_Inr [guard_simps]:
  "(case z of None \<Rightarrow> x | Some e \<Rightarrow> Inl (g e)) = Inr y \<longleftrightarrow> z = None \<and> x = Inr y"
  by (cases z) simp_all

section \<open>Strings\<close>

type_synonym str = string

definition js_ws :: "char \<Rightarrow> bool" where
  "js_ws c = (let n = (of_char c :: nat) in (9 \<le> n \<and> n \<le> 13) \<or> n = 32 \<or> n = 160)"

definition js_trim :: "str \<Rightarrow> str" where
  "js_trim s = rev (dropWhile js_ws (rev (dropWhile js_ws s)))"

definition js_lower_char :: "char \<Rightarrow> char" where
  "js_lower_char c = (let n = (of_char c :: nat) in
     if (65 \<le> n \<and> n \<le> 90) \<or> (192 \<le> n \<and> n \<le> 222 \<and> n \<noteq> 215) then char_of (n + 32) else c)"

definition js_lower :: "str \<Rightarrow> str" where
  "js_lower s = map js_lower_char s"

fun js_includes :: "str \<Rightarrow> str \<Rightarrow> bool" where
  "js_includes p [] = (p = [])"
| "js_includes p (c # s) = (prefix p (c # s) \<or> js_includes p s)"

definition js_starts_with :: "str \<Rightarrow> str \<Rightarrow> bool" where
  "js_starts_with p s = prefix p s"

definition js_ends_with :: "str \<Rightarrow> str \<Rightarrow> bool" where
  "js_ends_with p s = prefix (rev p) (rev s)"

fun js_split :: "char \<Rightarrow> str \<Rightarrow> str list" where
  "js_split c [] = [[]]"
| "js_split c (x # xs) =
     (if x = c then [] # js_split c xs
      else case js_split c xs of [] \<Rightarrow> [[x]] | y # ys \<Rightarrow> (x # y) # ys)"

fun js_join :: "char \<Rightarrow> str list \<Rightarrow> str" where
  "js_join c [] = []"
| "js_join c [x] = x"
| "js_join c (x # y # ys) = x @ c # js_join c (y # ys)"

lemma js_includes_sublist: "js_includes p s \<longleftrightarrow> sublist p s"
  by (induction p s rule: js_includes.induct)
    (auto simp: sublist_Cons_right)

lemma js_split_not_Nil [simp]: "js_split c s \<noteq> []"
  by (induction s) (auto split: list.splits)

lemma js_split_no_sep: "c \<notin> set s \<Longrightarrow> js_split c s = [s]"
  by (induction s) auto

lemma js_split_append:
  "c \<notin> set x \<Longrightarrow> js_split c (x @ c # s) = x # js_split c s"
  by (induction x) auto

lemma js_split_join:
  assumes "xs \<noteq> []" and "\<forall>x \<in> set xs. c \<notin> set x"
  shows "js_split c (js_join c xs) = xs"
  using assms
  by (induction c xs rule: js_join.induct) (auto simp: js_split_no_sep js_split_append)

lemma js_split_parts: "x \<in> set (js_split c s) \<Longrightarrow> c \<notin> set x \<and> set x \<subseteq> set s"
proof (induction s arbitrary: x)
  case Nil
  then show ?case by simp
next
  case (Cons a s)
  obtain y ys where y: "js_split c s = y # ys"
    by (cases "js_split c s") auto
  show ?case
  proof (cases "a = c")
    case True
    then show ?thesis using Cons by auto
  next
    case False
    with Cons.prems y consider "x = a # y" | "x \<in> set ys" by auto
    then show ?thesis
    proof cases
      case 1
      then show ?thesis using Cons.IH [of y] y False by auto
    next
      case 2
      then show ?thesis using Cons.IH [of x] y by auto
    qed
  qed
qed

text \<open>
  Joining is injective on lists of equally many separator-free fields: this is what makes a
  newline-joined signing string determine the fields it was built from.
\<close>

lemma js_join_inject:
  assumes "js_join c xs = js_join c ys" and "xs \<noteq> []" and "ys \<noteq> []"
    and "\<forall>x \<in> set xs. c \<notin> set x" and "\<forall>y \<in> set ys. c \<notin> set y"
  shows "xs = ys"
proof -
  have "xs = js_split c (js_join c xs)"
    by (rule js_split_join [OF assms(2,4), symmetric])
  also have "\<dots> = js_split c (js_join c ys)"
    by (simp only: assms(1))
  also have "\<dots> = ys"
    by (rule js_split_join [OF assms(3,5)])
  finally show ?thesis .
qed

lemma js_trim_no_ws:
  assumes "s \<noteq> [] \<longrightarrow> \<not> js_ws (hd s) \<and> \<not> js_ws (last s)"
  shows "js_trim s = s"
proof (cases s)
  case Nil
  then show ?thesis by (simp add: js_trim_def)
next
  case (Cons a t)
  with assms have "\<not> js_ws a" and "\<not> js_ws (last s)" by auto
  moreover from Cons have "rev s = last s # rev (butlast s)"
    by (metis append_butlast_last_id list.distinct(1) rev.simps(2) rev_rev_ident)
  ultimately show ?thesis using Cons
    by (simp add: js_trim_def)
qed

lemma js_trim_ends:
  assumes "js_trim s \<noteq> []"
  shows "\<not> js_ws (hd (js_trim s))" and "\<not> js_ws (last (js_trim s))"
proof -
  let ?u = "dropWhile js_ws s"
  let ?v = "dropWhile js_ws (rev ?u)"
  have v: "?v \<noteq> []" using assms by (simp add: js_trim_def)
  then have "\<not> js_ws (hd ?v)" by (rule hd_dropWhile)
  with v show "\<not> js_ws (last (js_trim s))"
    by (simp add: js_trim_def last_rev)
  have "?u \<noteq> []" using v by (metis dropWhile.simps(1) rev.simps(1))
  then have u: "\<not> js_ws (hd ?u)" by (rule hd_dropWhile)
  have "rev ?u = takeWhile js_ws (rev ?u) @ ?v" by simp
  then have split: "?u = rev ?v @ rev (takeWhile js_ws (rev ?u))"
    by (metis rev_append rev_rev_ident)
  then have "hd ?u = hd (rev ?v)"
    using v by (metis hd_append2 rev_is_Nil_conv)
  with u show "\<not> js_ws (hd (js_trim s))" by (simp add: js_trim_def)
qed

lemma js_trim_idem [simp]: "js_trim (js_trim s) = js_trim s"
  using js_trim_ends [of s] by (intro js_trim_no_ws) auto

section \<open>Patterns of the wire\<close>

definition is_digit :: "char \<Rightarrow> bool" where
  "is_digit c = (let n = (of_char c :: nat) in 48 \<le> n \<and> n \<le> 57)"

definition is_hex :: "char \<Rightarrow> bool" where
  "is_hex c = (let n = (of_char c :: nat) in (48 \<le> n \<and> n \<le> 57) \<or> (97 \<le> n \<and> n \<le> 102))"

text \<open>The pattern \<^verbatim>\<open>/^[0-9a-f]{n}$/\<close>.\<close>

definition hex_pattern :: "nat \<Rightarrow> str \<Rightarrow> bool" where
  "hex_pattern n s = (length s = n \<and> list_all is_hex s)"

text \<open>The pattern \<^verbatim>\<open>/^\d+$/\<close>.\<close>

definition digits_pattern :: "str \<Rightarrow> bool" where
  "digits_pattern s = (s \<noteq> [] \<and> list_all is_digit s)"

lemma is_hex_not_ws [simp]: "is_hex c \<Longrightarrow> \<not> js_ws c"
  by (auto simp: is_hex_def js_ws_def Let_def)

lemma hex_pattern_chars: "hex_pattern n s \<Longrightarrow> c \<in> set s \<Longrightarrow> is_hex c"
  by (auto simp: hex_pattern_def list_all_iff)

lemma is_digit_code: "is_digit c \<Longrightarrow> 48 \<le> (of_char c :: nat) \<and> (of_char c :: nat) \<le> 57"
  by (simp add: is_digit_def Let_def)

section \<open>Decimal numerals\<close>

text \<open>\<open>String(n)\<close> of a natural number, and \<open>Number(s)\<close> of a digit string.\<close>

fun dec_of_nat :: "nat \<Rightarrow> str" where
  "dec_of_nat n = (if n < 10 then [char_of (48 + n)] else dec_of_nat (n div 10) @ [char_of (48 + n mod 10)])"

declare dec_of_nat.simps [simp del]

definition nat_of_dec :: "str \<Rightarrow> nat" where
  "nat_of_dec s = foldl (\<lambda>n c. 10 * n + (of_char c - 48)) 0 s"

lemma nat_of_dec_snoc: "nat_of_dec (s @ [c]) = 10 * nat_of_dec s + (of_char c - 48)"
  by (simp add: nat_of_dec_def)

lemma of_char_digit: "d < 10 \<Longrightarrow> (of_char (char_of (48 + d :: nat)) :: nat) = 48 + d"
  by simp

lemma nat_of_dec_of_nat [simp]: "nat_of_dec (dec_of_nat n) = n"
proof (induction n rule: dec_of_nat.induct)
  case (1 n)
  show ?case
  proof (cases "n < 10")
    case True
    then have "(of_char (char_of (48 + n)) :: nat) = 48 + n"
      by (rule of_char_digit)
    then show ?thesis using True
      by (subst dec_of_nat.simps) (simp add: nat_of_dec_def del: of_char_of)
  next
    case False
    have "(of_char (char_of (48 + n mod 10)) :: nat) = 48 + n mod 10"
      by (rule of_char_digit) simp
    then show ?thesis using False 1
      by (subst dec_of_nat.simps) (simp add: nat_of_dec_snoc del: of_char_of)
  qed
qed

lemma dec_of_nat_digits: "digits_pattern (dec_of_nat n)"
proof (induction n rule: dec_of_nat.induct)
  case (1 n)
  have d: "d < 10 \<Longrightarrow> is_digit (char_of (48 + d))" for d :: nat
    using of_char_digit [of d] by (simp add: is_digit_def Let_def del: of_char_of)
  show ?case
    using 1 d [of n] d [of "n mod 10"]
    by (subst dec_of_nat.simps) (auto simp: digits_pattern_def)
qed

lemma dec_of_nat_inject [simp]: "dec_of_nat m = dec_of_nat n \<longleftrightarrow> m = n"
  by (metis nat_of_dec_of_nat)

section \<open>JavaScript values\<close>

text \<open>
  A value of unknown type, as a handler receives it: numbers are rationals or the
  non-finite ones (NaN and the infinities, which the modelled code never tells apart).
  An object keeps its own enumerable properties in order.
\<close>

datatype jsval =
    JUndefined
  | JNull
  | JBool bool
  | JNum rat
  | JNonFinite
  | JStr str
  | JFun
  | JArr "jsval list"
  | JObj "(str \<times> jsval) list"

definition js_get :: "str \<Rightarrow> (str \<times> jsval) list \<Rightarrow> jsval" where
  "js_get k ps = (case map_of ps k of None \<Rightarrow> JUndefined | Some v \<Rightarrow> v)"

fun is_obj :: "jsval \<Rightarrow> bool" where
  "is_obj (JObj _) = True"
| "is_obj _ = False"

section \<open>Ordered maps and sets\<close>

text \<open>
  \<open>Map.set\<close> keeps the position of an existing key and appends a new one, which is
  \<^const>\<open>AList.update\<close>; \<open>Map.delete\<close> is \<^const>\<open>AList.delete\<close>. A \<open>Set\<close> is a duplicate-free
  list in insertion order.
\<close>

type_synonym ('k, 'v) omap = "('k \<times> 'v) list"

abbreviation omap_wf :: "('k, 'v) omap \<Rightarrow> bool" where
  "omap_wf m \<equiv> distinct (map fst m)"

definition set_add :: "'a \<Rightarrow> 'a list \<Rightarrow> 'a list" where
  "set_add x xs = (if x \<in> set xs then xs else xs @ [x])"

lemma set_set_add [simp]: "set (set_add x xs) = insert x (set xs)"
  by (auto simp: set_add_def)

lemma distinct_set_add [simp]: "distinct (set_add x xs) = distinct xs"
  by (auto simp: set_add_def)

lemma map_of_update [orbit_simps]: "map_of (AList.update k v m) = (map_of m)(k \<mapsto> v)"
  by (rule update_conv')

lemma map_of_delete [orbit_simps]: "map_of (AList.delete k m) = (map_of m)(k := None)"
  by (rule delete_conv')

lemma omap_wf_update [simp]: "omap_wf m \<Longrightarrow> omap_wf (AList.update k v m)"
  by (rule distinct_update)

lemma omap_wf_delete [simp]: "omap_wf m \<Longrightarrow> omap_wf (AList.delete k m)"
  by (rule distinct_delete)

lemma omap_keys: "fst ` set m = dom (map_of m)"
  by (simp add: dom_map_of_conv_image_fst)

lemma omap_length_update:
  assumes "omap_wf m"
  shows "length (AList.update k v m) = (if k \<in> dom (map_of m) then length m else Suc (length m))"
  using assms
  by (induction m) (auto simp: dom_map_of_conv_image_fst)

lemma omap_length_delete:
  assumes "omap_wf m"
  shows "length (AList.delete k m) = (if k \<in> dom (map_of m) then length m - 1 else length m)"
proof (cases "k \<in> dom (map_of m)")
  case False
  then have "AList.delete k m = m"
    by (auto simp: omap_keys [symmetric] intro!: delete_id [simplified])
  with False show ?thesis by simp
next
  case True
  have "card (fst ` set (AList.delete k m)) = card (fst ` set m - {k})"
    by (simp add: dom_map_of_conv_image_fst [symmetric] map_of_delete)
  moreover have "card (fst ` set xs) = length xs" if "omap_wf xs" for xs :: "('a \<times> 'b) list"
    using that by (metis distinct_card length_map set_map)
  ultimately show ?thesis
    using assms True by (simp add: omap_keys card_Diff_singleton_if)
qed

lemma map_of_filter_wf:
  assumes "omap_wf m"
  shows "map_of (filter P m) k = (case map_of m k of None \<Rightarrow> None | Some v \<Rightarrow> if P (k, v) then Some v else None)"
  using assms
proof (induction m)
  case (Cons kv m)
  then have "map_of m (fst kv) = None" by (simp add: map_of_eq_None_iff)
  with Cons show ?case by (cases kv) (auto split: option.splits)
qed simp

lemma omap_wf_filter [simp]: "omap_wf m \<Longrightarrow> omap_wf (filter P m)"
  by (rule distinct_map_filter)

lemma update_absent: "k \<notin> fst ` set m \<Longrightarrow> AList.update k v m = m @ [(k, v)]"
  by (induction m) auto

lemma omap_count_update:
  assumes "omap_wf m" "map_of m k = Some v"
  shows "length (filter (\<lambda>(k, v). P v) (AList.update k v' m)) + (if P v then 1 else 0)
       = length (filter (\<lambda>(k, v). P v) m) + (if P v' then 1 else 0)"
  using assms
proof (induction m)
  case (Cons kv m)
  obtain l w where kv: "kv = (l, w)" by (cases kv)
  show ?case
  proof (cases "l = k")
    case True
    with Cons.prems kv have "w = v" by simp
    with True kv show ?thesis by simp
  next
    case False
    with Cons kv show ?thesis by simp
  qed
qed simp

end
