(* ===== verification/Protocol.thy ===== *)
theory Protocol
  imports Prelude
begin

text \<open>
  The wire constants of \<^verbatim>\<open>src/registry/protocol.mjs\<close>: identifier patterns, the two signing
  strings, the route-domain grammar and the deterministic public authority of a node.
  Times are milliseconds since the epoch unless a name says seconds.
\<close>

section \<open>Constants and patterns\<close>

definition MACHINE_V1_LABEL :: str where "MACHINE_V1_LABEL = ''ORBIT-MACHINE-V1''"
definition REENROLL_V1_LABEL :: str where "REENROLL_V1_LABEL = ''ORBIT-REENROLL-V1''"
definition ROUTE_V1_LABEL :: str where "ROUTE_V1_LABEL = ''ORBIT-ROUTE-V1''"

definition SIGNATURE_SKEW_SECONDS :: int where "SIGNATURE_SKEW_SECONDS = 30"
definition ROUTE_SKEW_MS :: int where "ROUTE_SKEW_MS = 30 * 1000"

definition node_id_pattern :: "str \<Rightarrow> bool" where
  "node_id_pattern s = (prefix ''node_'' s \<and> hex_pattern 32 (drop 5 s))"

definition key_id_pattern :: "str \<Rightarrow> bool" where "key_id_pattern = hex_pattern 32"
definition nonce_pattern :: "str \<Rightarrow> bool" where "nonce_pattern = hex_pattern 32"
definition public_key_pattern :: "str \<Rightarrow> bool" where "public_key_pattern = hex_pattern 64"
definition signature_pattern :: "str \<Rightarrow> bool" where "signature_pattern = hex_pattern 128"
definition token_pattern :: "str \<Rightarrow> bool" where "token_pattern = hex_pattern 32"
definition request_id_pattern :: "str \<Rightarrow> bool" where "request_id_pattern = hex_pattern 32"

lemmas wire_pattern_defs =
  key_id_pattern_def nonce_pattern_def public_key_pattern_def signature_pattern_def
  token_pattern_def request_id_pattern_def

lemma node_id_pattern_iff:
  "node_id_pattern s \<longleftrightarrow> (\<exists>h. s = ''node_'' @ h \<and> hex_pattern 32 h)"
  by (auto simp: node_id_pattern_def prefix_def)

section \<open>Signing strings\<close>

definition newline :: char where "newline = CHR 0x0A"

text \<open>\<open>[label, ...].join("\n")\<close>; the timestamp arrives as the string that is signed.\<close>

definition buildSigningString ::
  "str \<Rightarrow> str \<Rightarrow> str \<Rightarrow> str \<Rightarrow> str \<Rightarrow> str \<Rightarrow> str \<Rightarrow> str" where
  "buildSigningString label meth path timestamp nonce bodyHash nodeId =
     js_join newline [label, meth, path, timestamp, nonce, bodyHash, nodeId]"

definition buildRouteSigningString ::
  "str \<Rightarrow> str \<Rightarrow> str \<Rightarrow> str \<Rightarrow> str \<Rightarrow> str \<Rightarrow> str \<Rightarrow> str" where
  "buildRouteSigningString label nodeId routeAuthority meth rawTarget timestamp nonce =
     js_join newline [label, nodeId, routeAuthority, meth, rawTarget, timestamp, nonce]"

definition one_line :: "str \<Rightarrow> bool" where
  "one_line s = (newline \<notin> set s)"

lemma one_line_hex: "hex_pattern n s \<Longrightarrow> one_line s"
proof -
  assume h: "hex_pattern n s"
  have "\<not> is_hex newline" by (simp add: is_hex_def newline_def)
  with h show "one_line s" by (auto simp: one_line_def dest: hex_pattern_chars)
qed

lemma one_line_digits: "digits_pattern s \<Longrightarrow> one_line s"
proof -
  assume h: "digits_pattern s"
  have "\<not> is_digit newline" by (simp add: is_digit_def newline_def)
  with h show "one_line s" by (auto simp: one_line_def digits_pattern_def list_all_iff)
qed

lemma one_line_append: "one_line (a @ b) \<longleftrightarrow> one_line a \<and> one_line b"
  by (simp add: one_line_def)

lemma one_line_node_id: "node_id_pattern s \<Longrightarrow> one_line s"
proof -
  assume "node_id_pattern s"
  then obtain h where s: "s = ''node_'' @ h" and "hex_pattern 32 h"
    by (auto simp: node_id_pattern_iff)
  then have "one_line h" by (simp add: one_line_hex)
  moreover have "one_line ''node_''" by (simp add: one_line_def newline_def)
  ultimately show ?thesis unfolding s by (simp only: one_line_append)
qed

lemma join7_inject:
  assumes "js_join newline [a1,a2,a3,a4,a5,a6,a7] = js_join newline [b1,b2,b3,b4,b5,b6,b7]"
    and "list_all one_line [a1,a2,a3,a4,a5,a6,a7]" and "list_all one_line [b1,b2,b3,b4,b5,b6,b7]"
  shows "[a1,a2,a3,a4,a5,a6,a7] = [b1,b2,b3,b4,b5,b6,b7]"
  by (rule js_join_inject [OF assms(1)])
    (use assms(2,3) in \<open>auto simp: one_line_def list_all_iff\<close>)

section \<open>Route domain and route authority\<close>

datatype domain_error = DomainRequired | DomainDecorated | DomainMalformed

definition strip_dots :: "str \<Rightarrow> str" where
  "strip_dots s = rev (dropWhile (\<lambda>c. c = CHR ''.'') (rev (dropWhile (\<lambda>c. c = CHR ''.'') s)))"

text \<open>The character class \<^verbatim>\<open>[a-z0-9.-]\<close>.\<close>

definition domain_char :: "char \<Rightarrow> bool" where
  "domain_char c = (let n = (of_char c :: nat) in
     (97 \<le> n \<and> n \<le> 122) \<or> (48 \<le> n \<and> n \<le> 57) \<or> n = 46 \<or> n = 45)"

text \<open>
  The pattern \<^verbatim>\<open>/^[a-z0-9.-]+(:[0-9]+)?$/\<close>: the class has no colon, so the text before
  the first colon is the host part and the rest, if any, the port.
\<close>

definition authority_grammar :: "str \<Rightarrow> bool" where
  "authority_grammar s = (case js_split (CHR '':'') s of
     [h] \<Rightarrow> h \<noteq> [] \<and> list_all domain_char h
   | [h, p] \<Rightarrow> h \<noteq> [] \<and> list_all domain_char h \<and> digits_pattern p
   | _ \<Rightarrow> False)"

definition validateRouteDomain :: "str \<Rightarrow> domain_error + str" where
  "validateRouteDomain value =
     (if js_trim value = [] then Inl DomainRequired
      else let trimmed = strip_dots (js_lower (js_trim value)) in
        if CHR ''/'' \<in> set trimmed \<or> CHR ''?'' \<in> set trimmed \<or>
           CHR ''#'' \<in> set trimmed \<or> CHR ''@'' \<in> set trimmed then Inl DomainDecorated
        else if \<not> authority_grammar trimmed then Inl DomainMalformed
        else Inr trimmed)"

datatype authority_error = InvalidNodeId | BadDomain domain_error

definition computeRouteAuthority :: "str \<Rightarrow> str \<Rightarrow> authority_error + str" where
  "computeRouteAuthority nodeId routeDomain =
     (if \<not> node_id_pattern nodeId then Inl InvalidNodeId
      else case validateRouteDomain routeDomain of
        Inl e \<Rightarrow> Inl (BadDomain e)
      | Inr cleanDomain \<Rightarrow> Inr (''n-'' @ drop 5 nodeId @ ''.'' @ cleanDomain))"

text \<open>Origin-form request targets (RFC 9112).\<close>

definition isValidOriginFormTarget :: "str \<Rightarrow> bool" where
  "isValidOriginFormTarget target =
     (if \<not> js_starts_with ''/'' target \<or> js_starts_with ''//'' target then False
      else let pathOnly = takeWhile (\<lambda>c. c \<noteq> CHR ''?'') target in
        \<not> (js_starts_with ''//'' pathOnly \<or> js_includes ''://'' pathOnly \<or> CHR 0x5C \<in> set pathOnly))"

lemma js_join_split: "js_join c (js_split c s) = s"
proof (induction s)
  case (Cons a s)
  obtain y ys where "js_split c s = y # ys"
    by (cases "js_split c s") auto
  with Cons show ?case by (cases ys) auto
qed simp

lemma authority_grammar_cases:
  assumes "authority_grammar s"
  obtains (plain) "s \<noteq> []" "list_all domain_char s" "js_split (CHR '':'') s = [s]"
  | (port) h p where "s = h @ '':'' @ p" "h \<noteq> []" "list_all domain_char h" "digits_pattern p"
      "js_split (CHR '':'') s = [h, p]"
proof (cases "js_split (CHR '':'') s")
  case Nil
  then show thesis by simp
next
  case (Cons h t)
  note split = Cons
  have join: "s = js_join (CHR '':'') (h # t)"
    using js_join_split [of "CHR '':''" s] split by simp
  show thesis
  proof (cases t)
    case Nil
    have "js_join (CHR '':'') (h # t) = h" by (simp add: Nil)
    with join have sh: "s = h" by (rule trans)
    have g: "h \<noteq> [] \<and> list_all domain_char h"
      using assms split unfolding Nil authority_grammar_def by simp
    show thesis by (rule plain) (use g split Nil sh in simp_all)
  next
    case (Cons p t')
    have nil: "t' = []"
      using assms split unfolding Cons authority_grammar_def by (cases t') simp_all
    have "js_join (CHR '':'') (h # t) = h @ '':'' @ p" by (simp add: Cons nil)
    with join have sh: "s = h @ '':'' @ p" by (rule trans)
    have g: "h \<noteq> [] \<and> list_all domain_char h \<and> digits_pattern p"
      using assms split unfolding Cons nil authority_grammar_def by simp
    show thesis by (rule port [OF sh]) (use g split Cons nil in simp_all)
  qed
qed

lemma domain_char_not: "domain_char c \<Longrightarrow> c \<noteq> CHR '':'' \<and> c \<noteq> CHR ''['' \<and> \<not> js_ws c"
  by (auto simp: domain_char_def js_ws_def Let_def)

lemma is_hex_domain_char: "is_hex c \<Longrightarrow> domain_char c"
  by (auto simp: is_hex_def domain_char_def Let_def)

lemma is_digit_domain_char: "is_digit c \<Longrightarrow> domain_char c"
  by (auto simp: is_digit_def domain_char_def Let_def)

lemma js_lower_char_domain: "domain_char c \<or> c = CHR '':'' \<Longrightarrow> js_lower_char c = c"
  by (auto simp: domain_char_def js_lower_char_def Let_def)

lemma js_lower_domain:
  "\<forall>c \<in> set s. domain_char c \<or> c = CHR '':'' \<Longrightarrow> js_lower s = s"
  by (induction s) (auto simp: js_lower_def js_lower_char_domain)

lemma authority_grammar_chars:
  "authority_grammar s \<Longrightarrow> \<forall>c \<in> set s. domain_char c \<or> c = CHR '':''"
  by (erule authority_grammar_cases)
    (auto simp: list_all_iff digits_pattern_def dest: is_digit_domain_char)

lemma authority_grammar_not_Nil [simp]: "\<not> authority_grammar []"
  by (simp add: authority_grammar_def)

lemma authority_grammar_clean:
  assumes "authority_grammar s"
  shows "js_lower s = s" and "js_trim s = s"
proof -
  have c: "\<forall>c \<in> set s. domain_char c \<or> c = CHR '':''"
    using assms by (rule authority_grammar_chars)
  then show "js_lower s = s" by (rule js_lower_domain)
  have "\<not> js_ws x" if "x \<in> set s" for x
  proof -
    from c that have "domain_char x \<or> x = CHR '':''" by blast
    then show ?thesis
    proof
      assume "domain_char x"
      then show ?thesis by (simp add: domain_char_not)
    next
      assume "x = CHR '':''"
      then show ?thesis by (simp add: js_ws_def)
    qed
  qed
  then show "js_trim s = s" by (intro js_trim_no_ws) auto
qed

lemma validateRouteDomain_grammar: "validateRouteDomain v = Inr d \<Longrightarrow> authority_grammar d"
  by (auto simp: validateRouteDomain_def Let_def split: if_splits)

lemma computeRouteAuthority_Inr:
  "computeRouteAuthority n d = Inr a \<longleftrightarrow>
     (\<exists>h c. n = ''node_'' @ h \<and> hex_pattern 32 h \<and> validateRouteDomain d = Inr c \<and>
        a = ''n-'' @ h @ ''.'' @ c)"
  by (auto simp: computeRouteAuthority_def node_id_pattern_iff split: sum.splits if_splits)

end
