(* ===== verification/HostAuthority.thy ===== *)
theory HostAuthority
  imports Protocol
begin

text \<open>
  Host-header classification of \<^verbatim>\<open>src/registry/route-proxy.mjs\<close>: whether a request is for the
  selector, for exactly one node, for a malformed name inside the route domain (refused), or
  for a host outside it. The Host header is \<open>None\<close> when it is absent.
\<close>

datatype invalid_reason =
    MultipleTrailingDots | MalformedAuthorityGrammar | PortMismatch | UnexpectedPort
  | NonNodeSubdomain | DomainSuffixMismatch

datatype host_class =
    NodeRoute (route_node: str) (route_authority: str)
  | SelectorApex str
  | InvalidRouteDomain invalid_reason
  | Unrelated "str option"

abbreviation dot :: char where "dot \<equiv> CHR ''.''"
abbreviation colon :: char where "colon \<equiv> CHR '':''"

definition strip_trailing_dots :: "str \<Rightarrow> str" where
  "strip_trailing_dots s = rev (dropWhile (\<lambda>c. c = dot) (rev s))"

text \<open>
  \<^verbatim>\<open>cleanHost.replace(/\.(:\d+)?$/, "$1")\<close>: the pattern is anchored at the end, so it matches a
  final dot, or a dot followed by a final port.
\<close>

definition strip_fqdn_dot :: "str \<Rightarrow> str" where
  "strip_fqdn_dot s =
     (if s \<noteq> [] \<and> last s = dot then butlast s
      else let digits = takeWhile is_digit (rev s); rest = dropWhile is_digit (rev s) in
        case rest of
          c # d # front \<Rightarrow>
            if digits \<noteq> [] \<and> c = colon \<and> d = dot then rev front @ colon # rev digits else s
        | _ \<Rightarrow> s)"

text \<open>The match of \<^verbatim>\<open>/^n-([0-9a-f]{32})\.(.+)$/i\<close> on a lower-case host name.\<close>

definition route_host_match :: "str \<Rightarrow> (str \<times> str) option" where
  "route_host_match s =
     (let h = take 32 (drop 2 s); r = drop 34 s in
      if take 2 s = ''n-'' \<and> hex_pattern 32 h \<and> r \<noteq> [] \<and> hd r = dot \<and> tl r \<noteq> []
      then Some (h, tl r) else None)"

definition host_port :: "str \<Rightarrow> str option" where
  "host_port s = (case js_split colon s of [h, p] \<Rightarrow> Some p | _ \<Rightarrow> None)"

definition host_name :: "str \<Rightarrow> str" where
  "host_name s = hd (js_split colon s)"

definition in_subdomain :: "str \<Rightarrow> str \<Rightarrow> bool" where
  "in_subdomain domain host = js_ends_with (dot # domain) host"

definition classifyHostAuthority :: "str option \<Rightarrow> str option \<Rightarrow> authority_error + host_class" where
  "classifyHostAuthority hostHeader configuredRouteDomain =
     (case hostHeader of
        None \<Rightarrow> Inr (Unrelated None)
      | Some raw \<Rightarrow>
     if raw = [] then Inr (Unrelated None)
     else let cleanHost = js_lower (js_trim raw) in
     case configuredRouteDomain of
        None \<Rightarrow> Inr (Unrelated (Some cleanHost))
      | Some configured \<Rightarrow>
     if configured = [] then Inr (Unrelated (Some cleanHost))
     else case validateRouteDomain configured of
        Inl _ \<Rightarrow> Inr (Unrelated (Some cleanHost))
      | Inr cleanDomain \<Rightarrow>
     let domainHostname = host_name cleanDomain; domainPort = host_port cleanDomain in
     if js_starts_with ''['' cleanHost then Inr (Unrelated (Some cleanHost))
     else let
       rawHostname = takeWhile (\<lambda>c. c \<noteq> colon) cleanHost;
       namespaceHostname = strip_trailing_dots rawHostname;
       trailingDots = length rawHostname - length namespaceHostname in
     if namespaceHostname \<noteq> domainHostname \<and> \<not> in_subdomain domainHostname namespaceHostname
     then Inr (Unrelated (Some cleanHost))
     else if trailingDots > 1 then Inr (InvalidRouteDomain MultipleTrailingDots)
     else let normalizedHost = strip_fqdn_dot cleanHost in
     if \<not> authority_grammar normalizedHost then Inr (InvalidRouteDomain MalformedAuthorityGrammar)
     else let hostHostname = host_name normalizedHost; hostPort = host_port normalizedHost in
     if domainPort \<noteq> None \<and> hostPort \<noteq> domainPort then Inr (InvalidRouteDomain PortMismatch)
     else if domainPort = None \<and> hostPort \<noteq> None then Inr (InvalidRouteDomain UnexpectedPort)
     else if hostHostname = domainHostname then Inr (SelectorApex cleanDomain)
     else case route_host_match hostHostname of
        None \<Rightarrow> Inr (InvalidRouteDomain NonNodeSubdomain)
      | Some (hex, domainPart) \<Rightarrow>
     if domainPart \<noteq> domainHostname then Inr (InvalidRouteDomain DomainSuffixMismatch)
     else let nodeId = ''node_'' @ js_lower hex in
     case computeRouteAuthority nodeId configured of
        Inl e \<Rightarrow> Inl e
      | Inr routeAuthority \<Rightarrow> Inr (NodeRoute nodeId routeAuthority))"

definition isRouteDomainHost :: "str option \<Rightarrow> str option \<Rightarrow> authority_error + bool" where
  "isRouteDomainHost hostHeader configured =
     (case classifyHostAuthority hostHeader configured of
        Inl e \<Rightarrow> Inl e
      | Inr c \<Rightarrow> Inr (case c of NodeRoute _ _ \<Rightarrow> True | SelectorApex _ \<Rightarrow> True
                              | InvalidRouteDomain _ \<Rightarrow> True | Unrelated _ \<Rightarrow> False))"

definition parseRouteAuthority :: "str option \<Rightarrow> str option \<Rightarrow> authority_error + (str \<times> str) option" where
  "parseRouteAuthority hostHeader configured =
     (case classifyHostAuthority hostHeader configured of
        Inl e \<Rightarrow> Inl e
      | Inr c \<Rightarrow> Inr (case c of NodeRoute n a \<Rightarrow> Some (n, a) | _ \<Rightarrow> None))"

section \<open>Lemmas\<close>

lemma strip_trailing_dots_id: "s \<noteq> [] \<Longrightarrow> last s \<noteq> dot \<Longrightarrow> strip_trailing_dots s = s"
proof -
  assume s: "s \<noteq> []" "last s \<noteq> dot"
  then have "dropWhile (\<lambda>c. c = dot) (rev s) = rev s"
    by (intro dropWhile_eq_self_iff [THEN iffD2]) (simp add: hd_rev)
  then show ?thesis by (simp add: strip_trailing_dots_def)
qed

lemma route_host_match_Some:
  "route_host_match s = Some (h, d) \<longleftrightarrow> s = ''n-'' @ h @ dot # d \<and> hex_pattern 32 h \<and> d \<noteq> []"
proof
  assume m: "route_host_match s = Some (h, d)"
  define r where "r = drop 34 s"
  define x where "x = take 32 (drop 2 s)"
  have m': "(if take 2 s = ''n-'' \<and> hex_pattern 32 x \<and> r \<noteq> [] \<and> hd r = dot \<and> tl r \<noteq> []
      then Some (x, tl r) else None) = Some (h, d)"
    using m by (simp only: route_host_match_def Let_def r_def x_def)
  then have f: "take 2 s = ''n-''" "hex_pattern 32 x" "r \<noteq> []" "hd r = dot" "x = h" "tl r = d" "d \<noteq> []"
    by (simp_all split: if_splits)
  have "s = take 2 s @ drop 2 s" by simp
  also have "drop 2 s = x @ drop 32 (drop 2 s)" by (simp only: x_def append_take_drop_id)
  also have "drop 32 (drop 2 s) = r" by (simp add: r_def)
  also have "r = dot # d" using f(3,4,6) by (cases r) simp_all
  finally show "s = ''n-'' @ h @ dot # d \<and> hex_pattern 32 h \<and> d \<noteq> []"
    using f(1,2,5,7) by simp
next
  assume a: "s = ''n-'' @ h @ dot # d \<and> hex_pattern 32 h \<and> d \<noteq> []"
  then have "length h = 32" by (simp add: hex_pattern_def)
  with a show "route_host_match s = Some (h, d)"
    by (simp add: route_host_match_def Let_def)
qed

lemma host_name_port:
  assumes "authority_grammar s"
  shows "s = host_name s @ (case host_port s of None \<Rightarrow> [] | Some p \<Rightarrow> colon # p)"
    and "list_all domain_char (host_name s)" and "host_name s \<noteq> []"
  using assms by (auto elim!: authority_grammar_cases simp: host_name_def host_port_def)

lemma host_split:
  assumes "list_all domain_char h" "h \<noteq> []"
  shows "host_name h = h" "host_port h = None"
    and "host_name (h @ colon # p) = h"
    and "colon \<notin> set p \<Longrightarrow> host_port (h @ colon # p) = Some p"
proof -
  have c: "colon \<notin> set h" using assms by (auto simp: list_all_iff dest: domain_char_not)
  then show "host_name h = h" "host_port h = None"
    by (simp_all add: host_name_def host_port_def js_split_no_sep)
  from c show "host_name (h @ colon # p) = h"
    by (simp add: host_name_def js_split_append)
  from c show "colon \<notin> set p \<Longrightarrow> host_port (h @ colon # p) = Some p"
    by (simp add: host_port_def js_split_append js_split_no_sep)
qed

lemma js_lower_hex: "hex_pattern n h \<Longrightarrow> js_lower h = h"
  by (rule js_lower_domain) (auto dest: hex_pattern_chars is_hex_domain_char)

lemma classify_NodeRoute:
  assumes "classifyHostAuthority (Some raw) (Some d) = Inr (NodeRoute n a)"
  obtains c h norm where "validateRouteDomain d = Inr c"
    and "norm = strip_fqdn_dot (js_lower (js_trim raw))" and "authority_grammar norm"
    and "host_port norm = host_port c" and "host_name norm = ''n-'' @ h @ dot # host_name c"
    and "hex_pattern 32 h" and "n = ''node_'' @ h" and "computeRouteAuthority n d = Inr a"
proof -
  obtain c where c: "validateRouteDomain d = Inr c"
    using assms by (cases "validateRouteDomain d")
      (simp_all add: classifyHostAuthority_def Let_def split: if_splits)
  define norm where "norm = strip_fqdn_dot (js_lower (js_trim raw))"
  obtain h p where m: "route_host_match (host_name norm) = Some (h, p)"
    and g: "authority_grammar norm" "p = host_name c" "n = ''node_'' @ js_lower h"
      "computeRouteAuthority n d = Inr a"
    and port: "host_port norm = host_port c"
    using assms
    by (simp add: classifyHostAuthority_def Let_def c norm_def [symmetric]
        split: if_splits option.splits prod.splits sum.splits) auto
  from m have "host_name norm = ''n-'' @ h @ dot # p" "hex_pattern 32 h"
    by (simp_all add: route_host_match_Some)
  with g port c show thesis
    by (intro that [of c norm h]) (simp_all add: norm_def js_lower_hex)
qed

lemma classify_total: "classifyHostAuthority host configured \<noteq> Inl e"
proof
  assume i: "classifyHostAuthority host configured = Inl e"
  then obtain raw d where hd: "host = Some raw" "configured = Some d"
    by (cases host; cases configured)
      (simp_all add: classifyHostAuthority_def Let_def split: if_splits)
  obtain c where c: "validateRouteDomain d = Inr c"
    using i hd by (cases "validateRouteDomain d")
      (simp_all add: classifyHostAuthority_def Let_def split: if_splits)
  obtain h p where "route_host_match (host_name (strip_fqdn_dot (js_lower (js_trim raw)))) = Some (h, p)"
    and e: "computeRouteAuthority (''node_'' @ js_lower h) d = Inl e"
    using i unfolding hd
    by (simp add: classifyHostAuthority_def Let_def c
        split: if_splits option.splits prod.splits sum.splits)
  then have "hex_pattern 32 h" by (simp add: route_host_match_Some)
  then have "computeRouteAuthority (''node_'' @ js_lower h) d = Inr (''n-'' @ h @ ''.'' @ c)"
    unfolding computeRouteAuthority_Inr using c by (auto simp: js_lower_hex)
  with e show False by simp
qed

lemma authority_grammar_prefix:
  assumes x: "list_all domain_char x" and c: "authority_grammar c"
  shows "authority_grammar (x @ c)" and "host_name (x @ c) = x @ host_name c"
    and "host_port (x @ c) = host_port c"
proof -
  have nc: "colon \<notin> set x" using x by (auto simp: list_all_iff dest: domain_char_not)
  have "js_split colon (x @ s) = (x @ hd (js_split colon s)) # tl (js_split colon s)" for s
    using nc
  proof (induction x)
    case (Cons b x)
    then show ?case by auto
  qed simp
  note split = this [of c]
  obtain h t where ht: "js_split colon c = h # t" by (cases "js_split colon c") auto
  show "host_name (x @ c) = x @ host_name c" "host_port (x @ c) = host_port c"
    by (simp_all add: host_name_def host_port_def split ht split: list.splits)
  show "authority_grammar (x @ c)"
    using c x unfolding authority_grammar_def split ht
    by (cases t; cases "tl t") auto
qed

lemma takeWhile_host_name:
  assumes "authority_grammar s" shows "takeWhile (\<lambda>c. c \<noteq> colon) s = host_name s"
proof -
  have "list_all domain_char (host_name s)" using assms by (rule host_name_port)
  then have nc: "\<forall>c \<in> set (host_name s). c \<noteq> colon"
    by (auto simp: list_all_iff dest: domain_char_not)
  have "takeWhile (\<lambda>c. c \<noteq> colon) (host_name s @ t) = host_name s"
    if "t = [] \<or> hd t = colon" for t
    using nc that by (cases t) (auto simp: takeWhile_append)
  then show ?thesis
    using host_name_port(1) [OF assms] by (cases "host_port s") (metis list.sel(1) option.simps)+
qed

lemma host_port_digits:
  "authority_grammar s \<Longrightarrow> host_port s = Some p \<Longrightarrow> digits_pattern p"
  by (erule authority_grammar_cases) (auto simp: host_port_def)

lemma strip_fqdn_dot_id:
  assumes g: "authority_grammar s" and l: "last (host_name s) \<noteq> dot"
  shows "strip_fqdn_dot s = s"
proof (cases "host_port s")
  case None
  then have s: "s = host_name s" using host_name_port(1) [OF g] by simp
  have nc: "colon \<notin> set s"
    using host_name_port(2) [OF g] s by (metis domain_char_not list_all_iff)
  have "dropWhile is_digit (rev s) = c # r \<Longrightarrow> c \<noteq> colon" for c r
    using nc by (metis list.set_intros(1) set_dropWhileD set_rev)
  then show ?thesis
    using l s unfolding strip_fqdn_dot_def Let_def by (auto split: list.splits)
next
  case (Some p)
  let ?h = "host_name s"
  have s: "s = ?h @ colon # p" using host_name_port(1) [OF g] Some by simp
  have p: "p \<noteq> []" "\<forall>c \<in> set (rev p). is_digit c"
    using host_port_digits [OF g Some] by (auto simp: digits_pattern_def list_all_iff)
  have nd: "\<not> is_digit colon" "\<not> is_digit dot" by (simp_all add: is_digit_def)
  have "last s = last p" using s p(1) by (metis last_appendR last_ConsR list.distinct(1))
  then have last: "last s \<noteq> dot" using p nd by (metis last_in_set set_rev)
  have r: "rev s = rev p @ colon # rev ?h"
    by (subst s) simp
  have "dropWhile is_digit (rev s) = colon # rev ?h"
    unfolding r using p(2) nd(1) by (subst dropWhile_append2) auto
  moreover have "rev ?h = d # f \<Longrightarrow> d \<noteq> dot" for d f
    using l by (metis last_snoc rev.simps(2) rev_rev_ident)
  ultimately show ?thesis
    using last unfolding strip_fqdn_dot_def Let_def by (auto split: list.splits)
qed

section \<open>Properties\<close>

text \<open>
  C13. Fail-closed routing: a Host header is classified as a node route only when, up to
  surrounding blanks, case and one trailing dot, it is exactly the deterministic authority of
  that node, so no other spelling and no other node's name ever reaches a node.
\<close>

theorem node_route_only_own_authority:
  assumes "classifyHostAuthority (Some raw) (Some d) = Inr (NodeRoute n a)"
  shows "computeRouteAuthority n d = Inr a \<and> strip_fqdn_dot (js_lower (js_trim raw)) = a"
proof -
  obtain c h norm where f: "validateRouteDomain d = Inr c"
    "norm = strip_fqdn_dot (js_lower (js_trim raw))" "authority_grammar norm"
    "host_port norm = host_port c" "host_name norm = ''n-'' @ h @ dot # host_name c"
    "hex_pattern 32 h" "n = ''node_'' @ h" "computeRouteAuthority n d = Inr a"
    by (rule classify_NodeRoute [OF assms])
  have "authority_grammar c" using f(1) by (rule validateRouteDomain_grammar)
  then have "norm = ''n-'' @ h @ dot # c"
    using host_name_port(1) [OF f(3)] host_name_port(1) [of c] f(4,5) by simp
  moreover have "a = ''n-'' @ h @ dot # c"
    using f(1,7,8) by (simp add: computeRouteAuthority_Inr)
  ultimately show ?thesis using f(2,8) by simp
qed

theorem node_route_only_own_authority_witness:
  "computeRouteAuthority ''node_00112233445566778899aabbccddeeff'' ''dsh.example.com''
     = Inr ''n-00112233445566778899aabbccddeeff.dsh.example.com''
   \<and> strip_fqdn_dot (js_lower (js_trim ''N-00112233445566778899AABBccddeeff.dsh.example.com.''))
     = ''n-00112233445566778899aabbccddeeff.dsh.example.com''"
  by (rule node_route_only_own_authority) code_simp

text \<open>
  Authority round trip: the public authority computed for a node under a route domain
  (whose host part does not end in a dot) is classified back to exactly that node.
\<close>

theorem route_authority_classified:
  assumes "validateRouteDomain d = Inr c" and "last (host_name c) \<noteq> dot"
    and "computeRouteAuthority n d = Inr a"
  shows "classifyHostAuthority (Some a) (Some d) = Inr (NodeRoute n a)"
proof -
  obtain h where h: "n = ''node_'' @ h" "hex_pattern 32 h" and a: "a = (''n-'' @ h @ ''.'') @ c"
    using assms(1,3) by (auto simp: computeRouteAuthority_Inr)
  let ?x = "''n-'' @ h @ ''.''"
  have g: "authority_grammar c" using assms(1) by (rule validateRouteDomain_grammar)
  have "list_all domain_char h"
    using h(2) by (auto simp: list_all_iff dest: hex_pattern_chars is_hex_domain_char)
  then have x: "list_all domain_char ?x" by (simp add: domain_char_def)
  note pre = authority_grammar_prefix [OF x g]
  have ga: "authority_grammar a" unfolding a by (rule pre(1))
  have hn: "host_name a = ''n-'' @ h @ dot # host_name c" unfolding a pre(2) by simp
  have hp: "host_port a = host_port c" unfolding a by (rule pre(3))
  have ne: "host_name c \<noteq> []" using g by (rule host_name_port)
  then have l: "last (host_name a) \<noteq> dot" using assms(2) by (simp add: hn)
  have clean: "js_lower (js_trim a) = a" using ga by (simp add: authority_grammar_clean)
  have st: "strip_trailing_dots (host_name a) = host_name a"
    using l by (intro strip_trailing_dots_id) (simp_all add: hn)
  have sub: "in_subdomain (host_name c) (host_name a)"
    by (simp add: in_subdomain_def js_ends_with_def hn)
  have br: "\<not> js_starts_with ''['' a" "a \<noteq> []" by (simp_all add: a js_starts_with_def)
  have m: "route_host_match (host_name a) = Some (h, host_name c)"
    using h(2) ne by (simp add: route_host_match_Some hn)
  have "host_name a \<noteq> host_name c" by (simp add: hn)
  moreover have "d \<noteq> []" using assms(1) by (auto simp: validateRouteDomain_def js_trim_def)
  moreover have "computeRouteAuthority (''node_'' @ js_lower h) d = Inr a"
    using assms(3) h by (simp add: js_lower_hex)
  moreover have "js_lower h = h" using h(2) by (rule js_lower_hex)
  ultimately show ?thesis
    using assms(1) br ga l
    by (cases "host_port c") (simp_all add: classifyHostAuthority_def Let_def clean takeWhile_host_name [OF ga] st sub
        strip_fqdn_dot_id hp m h)
qed

theorem route_authority_classified_witness:
  "classifyHostAuthority (Some ''n-00112233445566778899aabbccddeeff.dsh.example.com:8443'')
     (Some ''.DSH.example.com:8443'')
   = Inr (NodeRoute ''node_00112233445566778899aabbccddeeff''
       ''n-00112233445566778899aabbccddeeff.dsh.example.com:8443'')"
proof (rule route_authority_classified [where c = "''dsh.example.com:8443''"])
  show "validateRouteDomain ''.DSH.example.com:8443'' = Inr ''dsh.example.com:8443''" by code_simp
  show "last (host_name ''dsh.example.com:8443'') \<noteq> dot" by code_simp
  show "computeRouteAuthority ''node_00112233445566778899aabbccddeeff'' ''.DSH.example.com:8443''
     = Inr ''n-00112233445566778899aabbccddeeff.dsh.example.com:8443''" by code_simp
qed

text \<open>
  Nothing inside the route domain falls through: when the host part of a Host header,
  ignoring case and trailing dots, is the route domain or a name under it, the request is
  classified as the selector, as one node, or as invalid, never as unrelated.
\<close>

theorem route_namespace_never_unrelated:
  assumes "validateRouteDomain d = Inr c" and "\<not> js_starts_with ''['' (js_lower (js_trim raw))"
    and "ns = strip_trailing_dots (takeWhile (\<lambda>ch. ch \<noteq> colon) (js_lower (js_trim raw)))"
    and "ns = host_name c \<or> in_subdomain (host_name c) ns"
  shows "isRouteDomainHost (Some raw) (Some d) = Inr True"
proof -
  have "d \<noteq> []" using assms(1) by (auto simp: validateRouteDomain_def js_trim_def)
  moreover have "raw \<noteq> []"
  proof
    assume "raw = []"
    then have "ns = []" using assms(3) by (simp add: js_trim_def js_lower_def strip_trailing_dots_def)
    then show False
      using assms(4) host_name_port(3) [OF validateRouteDomain_grammar [OF assms(1)]]
      by (simp add: in_subdomain_def js_ends_with_def)
  qed
  ultimately have "classifyHostAuthority (Some raw) (Some d) \<noteq> Inr (Unrelated u)" for u
    using assms by (auto simp: classifyHostAuthority_def Let_def split: if_splits option.splits sum.splits)
  then show ?thesis
    using classify_total [of "Some raw" "Some d"]
    by (auto simp: isRouteDomainHost_def split: sum.splits host_class.splits)
qed

theorem route_namespace_never_unrelated_witness:
  "isRouteDomainHost (Some ''n-zz.DSH.example.com..:80'') (Some ''dsh.example.com'') = Inr True"
proof (rule route_namespace_never_unrelated [where c = "''dsh.example.com''" and ns = "''n-zz.dsh.example.com''"])
  show "validateRouteDomain ''dsh.example.com'' = Inr ''dsh.example.com''" by code_simp
  show "\<not> js_starts_with ''['' (js_lower (js_trim ''n-zz.DSH.example.com..:80''))" by code_simp
  show "''n-zz.dsh.example.com'' = strip_trailing_dots
     (takeWhile (\<lambda>ch. ch \<noteq> colon) (js_lower (js_trim ''n-zz.DSH.example.com..:80'')))" by code_simp
  show "''n-zz.dsh.example.com'' = host_name ''dsh.example.com''
     \<or> in_subdomain (host_name ''dsh.example.com'') ''n-zz.dsh.example.com''" by code_simp
qed

end
