(* ===== verification/FlowLedger.thy ===== *)
theory FlowLedger
  imports Prelude
begin

text \<open>
  The interface between the Hub's request handlers and whatever counts their flows: a ledger
  of held flows, each on one node. A handler acquires a flow before it proxies a request and
  releases it when the request ends; the client lemmas say what the ledger holds after any
  sequence of such calls.
\<close>

datatype ('n, 'f) ledger_op = Acquire 'n 'f | Release 'f

primrec op_flow :: "('n, 'f) ledger_op \<Rightarrow> 'f" where
  "op_flow (Acquire n f) = f"
| "op_flow (Release f) = f"

locale flow_ledger =
  fixes inv :: "'s \<Rightarrow> bool"
    and held :: "'s \<Rightarrow> ('f \<rightharpoonup> 'n)"
    and acquire :: "'s \<Rightarrow> 'n \<Rightarrow> 'f \<Rightarrow> 's option"
    and release :: "'s \<Rightarrow> 'f \<Rightarrow> 's"
  assumes acquire_held: "inv s \<Longrightarrow> acquire s n f = Some s' \<Longrightarrow>
      held s f = None \<and> held s' = (held s)(f \<mapsto> n) \<and> inv s'"
    and release_held: "inv s \<Longrightarrow> held (release s f) = (held s)(f := None)"
    and release_inv: "inv s \<Longrightarrow> inv (release s f)"
begin

primrec apply_op :: "('n, 'f) ledger_op \<Rightarrow> 's \<Rightarrow> 's" where
  "apply_op (Acquire n f) s = (case acquire s n f of None \<Rightarrow> s | Some s' \<Rightarrow> s')"
| "apply_op (Release f) s = release s f"

lemma apply_op_inv: "inv s \<Longrightarrow> inv (apply_op x s)"
  by (cases x) (auto split: option.splits dest: acquire_held release_inv)

lemma run_inv: "inv s \<Longrightarrow> inv (fold apply_op xs s)"
  by (induction xs arbitrary: s) (simp_all add: apply_op_inv)

lemma apply_op_frame:
  assumes "inv s" "op_flow x \<noteq> f" shows "held (apply_op x s) f = held s f"
  using assms by (cases x) (auto split: option.splits dest: acquire_held simp: release_held)

lemma run_frame:
  "inv s \<Longrightarrow> f \<notin> op_flow ` set xs \<Longrightarrow> held (fold apply_op xs s) f = held s f"
  by (induction xs arbitrary: s) (auto simp: apply_op_inv apply_op_frame)

lemma acquire_run_release:
  assumes "inv s" and "acquire s n f = Some s'" and "f \<notin> op_flow ` set xs"
  shows "held (fold apply_op xs s') f = Some n"
    and "held (release (fold apply_op xs s') f) f = None"
    and "\<And>g. g \<noteq> f \<Longrightarrow> held (release (fold apply_op xs s') f) g = held (fold apply_op xs s') g"
proof -
  from acquire_held [OF assms(1,2)] have s': "held s' f = Some n" "inv s'" by simp_all
  then show "held (fold apply_op xs s') f = Some n"
    using run_frame [OF s'(2) assms(3)] by simp
  have i: "inv (fold apply_op xs s')" using s'(2) by (rule run_inv)
  show "held (release (fold apply_op xs s') f) f = None"
    using release_held [OF i] by simp
  show "\<And>g. g \<noteq> f \<Longrightarrow> held (release (fold apply_op xs s') f) g = held (fold apply_op xs s') g"
    using release_held [OF i] by simp
qed

end

end
