(* ===== verification/FlowTracker.thy ===== *)
theory FlowTracker
  imports Protocol FlowLedger "HOL-Library.Extended_Nat"
begin

text \<open>
  \<^verbatim>\<open>src/registry/flow-tracker.mjs\<close>: target-scope validation and the per-node accounting of
  active browser flows. The tracker's two maps are insertion-ordered maps; a limit of
  \<open>Infinity\<close> is \<open>\<infinity>\<close>. The abstract specification of the accounting is one map from flow ids
  to nodes (\<open>flow_abs\<close>); counts are cardinalities of its fibres.
\<close>

section \<open>Target scope\<close>

datatype scope_error =
    ScopeRequired | ScopeNotString | ScopeEmpty | ScopeWildcard | ScopeMalformed

text \<open>Every scope error has the code \<^verbatim>\<open>invalid-target-scope\<close> and status 400.\<close>

definition validateTargetScope :: "jsval \<Rightarrow> scope_error + str" where
  "validateTargetScope targetNodeId = (case targetNodeId of
      JNull \<Rightarrow> Inl ScopeRequired
    | JUndefined \<Rightarrow> Inl ScopeRequired
    | JStr s \<Rightarrow>
        let trimmed = js_trim s in
        if trimmed = [] then Inl ScopeEmpty
        else let lower = js_lower trimmed in
        if lower = ''*'' \<or> lower = ''all'' \<or> lower = ''any'' \<or> lower = ''broadcast'' \<or>
           lower = ''cluster'' \<or> CHR '','' \<in> set trimmed \<or> CHR '' '' \<in> set trimmed \<or>
           CHR '';'' \<in> set trimmed then Inl ScopeWildcard
        else let normalized = (if js_starts_with ''node_'' trimmed then trimmed
                               else ''node_'' @ trimmed) in
        if \<not> node_id_pattern normalized then Inl ScopeMalformed
        else Inr normalized
    | _ \<Rightarrow> Inl ScopeNotString)"

definition ALLOWED_SCOPED_ACTIONS :: "str list" where
  "ALLOWED_SCOPED_ACTIONS = [''open'', ''status'', ''disconnect'', ''refresh'']"

datatype action_error =
    PayloadNotObject | BadScope scope_error | ActionRequired | ActionNotAllowed

definition validateScopedAction :: "jsval \<Rightarrow> action_error + (str \<times> str)" where
  "validateScopedAction payload = (case payload of
      JObj ps \<Rightarrow>
        (case validateTargetScope (js_get ''targetNodeId'' ps) of
           Inl e \<Rightarrow> Inl (BadScope e)
         | Inr nodeId \<Rightarrow>
           (case js_get ''action'' ps of
              JStr action \<Rightarrow>
                if js_trim action = [] then Inl ActionRequired
                else let cleanAction = js_lower (js_trim action) in
                  if cleanAction \<notin> set ALLOWED_SCOPED_ACTIONS then Inl ActionNotAllowed
                  else Inr (nodeId, cleanAction)
            | _ \<Rightarrow> Inl ActionRequired))
    | _ \<Rightarrow> Inl PayloadNotObject)"

section \<open>The tracker\<close>

record tracker =
  maxFlowsPerNode :: enat
  maxTotalFlows :: enat
  activeFlowsByNode :: "(str, str list) omap"
  flowToNode :: "(str, str) omap"

definition new_tracker :: "enat \<Rightarrow> enat \<Rightarrow> tracker" where
  "new_tracker perNode overall = \<lparr>maxFlowsPerNode = perNode, maxTotalFlows = overall,
     activeFlowsByNode = [], flowToNode = []\<rparr>"

definition node_flows :: "tracker \<Rightarrow> str \<Rightarrow> str list" where
  "node_flows t n = (case map_of (activeFlowsByNode t) n of None \<Rightarrow> [] | Some fs \<Rightarrow> fs)"

datatype track_error =
    TrackScope scope_error | FlowCapacityExceeded | NodeFlowCapacityExceeded | DuplicateFlowId

text \<open>
  \<open>trackFlow\<close> returns the new tracker and the flow id its \<open>endFlow\<close> callback is bound to; the
  generated id (\<^verbatim>\<open>flow_<random hex>\<close>) is an argument. The callback itself is \<open>end_callback\<close>.
\<close>

definition trackFlow :: "tracker \<Rightarrow> jsval \<Rightarrow> str option \<Rightarrow> str \<Rightarrow> track_error + (tracker \<times> str)" where
  "trackFlow t targetNodeId explicitFlowId generated =
     (case validateTargetScope targetNodeId of
        Inl e \<Rightarrow> Inl (TrackScope e)
      | Inr nodeId \<Rightarrow>
     if enat (length (flowToNode t)) \<ge> maxTotalFlows t then Inl FlowCapacityExceeded
     else if enat (length (node_flows t nodeId)) \<ge> maxFlowsPerNode t then Inl NodeFlowCapacityExceeded
     else let flowId = (case explicitFlowId of Some f \<Rightarrow> f | None \<Rightarrow> generated) in
     if map_of (flowToNode t) flowId \<noteq> None then Inl DuplicateFlowId
     else Inr (t\<lparr>activeFlowsByNode :=
                  AList.update nodeId (set_add flowId (node_flows t nodeId)) (activeFlowsByNode t),
                flowToNode := AList.update flowId nodeId (flowToNode t)\<rparr>, flowId))"

definition endFlow :: "tracker \<Rightarrow> str \<Rightarrow> tracker" where
  "endFlow t flowId =
     (case map_of (flowToNode t) flowId of
        None \<Rightarrow> t
      | Some nodeId \<Rightarrow>
        if nodeId = [] then t
        else let t' = t\<lparr>flowToNode := AList.delete flowId (flowToNode t)\<rparr> in
        case map_of (activeFlowsByNode t') nodeId of
          None \<Rightarrow> t'
        | Some nodeSet \<Rightarrow>
          let nodeSet' = removeAll flowId nodeSet in
          if nodeSet' = [] then t'\<lparr>activeFlowsByNode := AList.delete nodeId (activeFlowsByNode t')\<rparr>
          else t'\<lparr>activeFlowsByNode := AList.update nodeId nodeSet' (activeFlowsByNode t')\<rparr>)"

text \<open>The returned callback: its \<open>ended\<close> flag and the tracker, before and after one call.\<close>

definition end_callback :: "str \<Rightarrow> bool \<times> tracker \<Rightarrow> bool \<times> tracker" where
  "end_callback flowId s = (if fst s then s else (True, endFlow (snd s) flowId))"

definition getActiveFlowCount :: "tracker \<Rightarrow> jsval \<Rightarrow> nat" where
  "getActiveFlowCount t targetNodeId =
     (case validateTargetScope targetNodeId of
        Inl _ \<Rightarrow> 0
      | Inr nodeId \<Rightarrow> length (node_flows t nodeId))"

definition getTotalActiveFlowCount :: "tracker \<Rightarrow> nat" where
  "getTotalActiveFlowCount t = length (flowToNode t)"

definition getActiveNodeCount :: "tracker \<Rightarrow> nat" where
  "getActiveNodeCount t = length (activeFlowsByNode t)"

definition getActiveNodeIds :: "tracker \<Rightarrow> str list" where
  "getActiveNodeIds t = map fst (activeFlowsByNode t)"

definition getSnapshot :: "tracker \<Rightarrow> nat \<times> nat \<times> (str, nat) omap" where
  "getSnapshot t = (length (flowToNode t), length (activeFlowsByNode t),
     map (\<lambda>(n, fs). (n, length fs)) (activeFlowsByNode t))"

definition clear_tracker :: "tracker \<Rightarrow> tracker" where
  "clear_tracker t = t\<lparr>activeFlowsByNode := [], flowToNode := []\<rparr>"

section \<open>Target scope lemmas\<close>

lemma validateTargetScope_Inr:
  "validateTargetScope v = Inr n \<Longrightarrow> node_id_pattern n"
  by (auto simp: validateTargetScope_def Let_def split: jsval.splits if_splits)

lemma node_id_no_ws:
  assumes "node_id_pattern n" "c \<in> set n" shows "\<not> js_ws c \<and> c \<noteq> CHR '','' \<and> c \<noteq> CHR '';''"
proof -
  from assms(1) obtain h where n: "n = ''node_'' @ h" and h: "hex_pattern 32 h"
    by (auto simp: node_id_pattern_iff)
  from assms(2) n consider "c \<in> set ''node_''" | "c \<in> set h" by auto
  then show ?thesis
  proof cases
    case 1
    then show ?thesis by (auto simp: js_ws_def)
  next
    case 2
    then have "is_hex c" using h by (auto dest: hex_pattern_chars)
    then show ?thesis by (auto simp: is_hex_def js_ws_def Let_def)
  qed
qed

lemma validateTargetScope_node_id:
  assumes "node_id_pattern n" shows "validateTargetScope (JStr n) = Inr n"
proof -
  from assms obtain h where n: "n = ''node_'' @ h" and h: "hex_pattern 32 h"
    by (auto simp: node_id_pattern_iff)
  have ne: "n \<noteq> []" using n by simp
  then have t: "js_trim n = n"
    using node_id_no_ws [OF assms] by (intro js_trim_no_ws) auto
  have "length (js_lower n) = 37" using n h by (simp add: js_lower_def hex_pattern_def)
  then have l: "js_lower n \<notin> {''*'', ''all'', ''any'', ''broadcast'', ''cluster''}" by auto
  have "js_ws (CHR '' '')" by (simp add: js_ws_def)
  then have sp: "CHR '' '' \<notin> set n" using node_id_no_ws [OF assms] by blast
  have "CHR '','' \<notin> set n" "CHR '';'' \<notin> set n" using node_id_no_ws [OF assms] by auto
  with t ne l sp assms show ?thesis
    by (simp add: validateTargetScope_def Let_def js_starts_with_def n)
qed

section \<open>The accounting invariant\<close>

definition flow_abs :: "tracker \<Rightarrow> (str \<rightharpoonup> str)" where
  "flow_abs t = map_of (flowToNode t)"

definition tracker_inv :: "tracker \<Rightarrow> bool" where
  "tracker_inv t \<longleftrightarrow> omap_wf (flowToNode t) \<and> omap_wf (activeFlowsByNode t)
     \<and> (\<forall>(n, fs) \<in> set (activeFlowsByNode t). n \<noteq> [] \<and> fs \<noteq> [] \<and> distinct fs
          \<and> enat (length fs) \<le> maxFlowsPerNode t)
     \<and> (\<forall>f n. flow_abs t f = Some n \<longleftrightarrow> f \<in> set (node_flows t n))
     \<and> enat (length (flowToNode t)) \<le> maxTotalFlows t"

lemma tracker_inv_new: "tracker_inv (new_tracker a b)"
  by (simp add: tracker_inv_def new_tracker_def node_flows_def flow_abs_def zero_enat_def [symmetric])

lemma tracker_inv_clear: "tracker_inv (clear_tracker t)"
  by (simp add: tracker_inv_def clear_tracker_def node_flows_def flow_abs_def zero_enat_def [symmetric])

lemma node_flows_eq:
  "omap_wf (activeFlowsByNode t) \<Longrightarrow> (n, fs) \<in> set (activeFlowsByNode t) \<Longrightarrow> node_flows t n = fs"
  by (simp add: node_flows_def)

lemma tracker_invD:
  assumes "tracker_inv t"
  shows "omap_wf (flowToNode t)" "omap_wf (activeFlowsByNode t)"
    and "flow_abs t f = Some n \<longleftrightarrow> f \<in> set (node_flows t n)"
    and "distinct (node_flows t n)"
    and "map_of (activeFlowsByNode t) n = Some fs \<Longrightarrow> n \<noteq> [] \<and> fs \<noteq> [] \<and> distinct fs
          \<and> enat (length fs) \<le> maxFlowsPerNode t"
    and "enat (length (flowToNode t)) \<le> maxTotalFlows t"
proof -
  show "omap_wf (flowToNode t)" "omap_wf (activeFlowsByNode t)"
    "flow_abs t f = Some n \<longleftrightarrow> f \<in> set (node_flows t n)"
    "enat (length (flowToNode t)) \<le> maxTotalFlows t"
    using assms unfolding tracker_inv_def by blast+
  have e: "map_of (activeFlowsByNode t) m = Some gs \<Longrightarrow> m \<noteq> [] \<and> gs \<noteq> [] \<and> distinct gs
          \<and> enat (length gs) \<le> maxFlowsPerNode t" for m gs
  proof -
    fix m gs assume "map_of (activeFlowsByNode t) m = Some gs"
    then have mem: "(m, gs) \<in> set (activeFlowsByNode t)" by (rule map_of_SomeD)
    have all: "\<forall>x \<in> set (activeFlowsByNode t). case x of (n, fs) \<Rightarrow> n \<noteq> [] \<and> fs \<noteq> [] \<and> distinct fs
          \<and> enat (length fs) \<le> maxFlowsPerNode t"
      using assms unfolding tracker_inv_def by blast
    from bspec [OF all mem]
    show "m \<noteq> [] \<and> gs \<noteq> [] \<and> distinct gs \<and> enat (length gs) \<le> maxFlowsPerNode t" by simp
  qed
  then show "map_of (activeFlowsByNode t) n = Some fs \<Longrightarrow> n \<noteq> [] \<and> fs \<noteq> [] \<and> distinct fs
          \<and> enat (length fs) \<le> maxFlowsPerNode t" by blast
  show "distinct (node_flows t n)"
    unfolding node_flows_def using e [of n] by (cases "map_of (activeFlowsByNode t) n") simp_all
qed

lemma tracker_invI:
  assumes "omap_wf (flowToNode t)" "omap_wf (activeFlowsByNode t)"
    and "\<And>f n. flow_abs t f = Some n \<longleftrightarrow> f \<in> set (node_flows t n)"
    and "\<And>n fs. map_of (activeFlowsByNode t) n = Some fs \<Longrightarrow> n \<noteq> [] \<and> fs \<noteq> [] \<and> distinct fs
          \<and> enat (length fs) \<le> maxFlowsPerNode t"
    and "enat (length (flowToNode t)) \<le> maxTotalFlows t"
  shows "tracker_inv t"
proof -
  have "case x of (n, fs) \<Rightarrow> n \<noteq> [] \<and> fs \<noteq> [] \<and> distinct fs \<and> enat (length fs) \<le> maxFlowsPerNode t"
    if "x \<in> set (activeFlowsByNode t)" for x
    using assms(4) [of "fst x" "snd x"] that assms(2) by (cases x) simp
  then show ?thesis using assms(1-3,5) unfolding tracker_inv_def by blast
qed

lemma trackFlow_Inr:
  "trackFlow t v ex gen = Inr (t', f) \<longleftrightarrow>
     (\<exists>n. validateTargetScope v = Inr n \<and> f = (case ex of Some f \<Rightarrow> f | None \<Rightarrow> gen)
        \<and> enat (length (flowToNode t)) < maxTotalFlows t
        \<and> enat (length (node_flows t n)) < maxFlowsPerNode t \<and> flow_abs t f = None
        \<and> t' = t\<lparr>activeFlowsByNode :=
                  AList.update n (set_add f (node_flows t n)) (activeFlowsByNode t),
                flowToNode := AList.update f n (flowToNode t)\<rparr>)"
  by (auto simp: trackFlow_def Let_def flow_abs_def not_le split: sum.splits if_splits)

lemma node_flows_track:
  "node_flows (t\<lparr>activeFlowsByNode := AList.update n fs (activeFlowsByNode t), flowToNode := x\<rparr>) m
     = (if m = n then fs else node_flows t m)"
  by (simp add: node_flows_def orbit_simps)

lemma trackFlow_correct:
  assumes inv: "tracker_inv t" and tr: "trackFlow t v ex gen = Inr (t', f)"
  shows "tracker_inv t'" and "flow_abs t f = None"
    and "\<exists>n. validateTargetScope v = Inr n \<and> flow_abs t' = (flow_abs t)(f \<mapsto> n)"
proof -
  obtain n where n: "validateTargetScope v = Inr n" "enat (length (flowToNode t)) < maxTotalFlows t"
      "enat (length (node_flows t n)) < maxFlowsPerNode t" and fresh: "flow_abs t f = None"
    and t': "t' = t\<lparr>activeFlowsByNode :=
                  AList.update n (set_add f (node_flows t n)) (activeFlowsByNode t),
                flowToNode := AList.update f n (flowToNode t)\<rparr>"
    using tr by (auto simp: trackFlow_Inr)
  note d = tracker_invD [OF inv]
  have nf: "n \<noteq> []" using n(1) by (auto dest: validateTargetScope_Inr simp: node_id_pattern_def)
  have abs: "flow_abs t' = (flow_abs t)(f \<mapsto> n)"
    by (simp add: t' flow_abs_def orbit_simps)
  show "flow_abs t f = None" by (rule fresh)
  show "\<exists>n. validateTargetScope v = Inr n \<and> flow_abs t' = (flow_abs t)(f \<mapsto> n)"
    using n(1) abs by blast
  have fn: "f \<notin> set (node_flows t m)" for m
    using fresh d(3) [of f m] by auto
  have nfs: "node_flows t' m = (if m = n then node_flows t n @ [f] else node_flows t m)" for m
    using fn by (simp add: t' node_flows_track set_add_def)
  show "tracker_inv t'"
  proof (rule tracker_invI)
    show "omap_wf (flowToNode t')" "omap_wf (activeFlowsByNode t')"
      using d(1,2) by (simp_all add: t')
    fix g m
    show "flow_abs t' g = Some m \<longleftrightarrow> g \<in> set (node_flows t' m)"
      using d(3) [of g m] fn by (auto simp: abs nfs)
  next
    fix m fs assume m: "map_of (activeFlowsByNode t') m = Some fs"
    show "m \<noteq> [] \<and> fs \<noteq> [] \<and> distinct fs \<and> enat (length fs) \<le> maxFlowsPerNode t'"
    proof (cases "m = n")
      case True
      then have "fs = node_flows t n @ [f]" using m nfs [of n] by (simp add: node_flows_def)
      then show ?thesis
        using True nf d(4) [of n] fn [of n] n(3) by (simp add: t' Suc_ile_eq)
    next
      case False
      then show ?thesis using m d(5) [of m fs] by (simp add: t' orbit_simps)
    qed
  next
    have "length (AList.update f n (flowToNode t)) = Suc (length (flowToNode t))"
      using fresh d(1) by (subst omap_length_update) (auto simp: flow_abs_def)
    then show "enat (length (flowToNode t')) \<le> maxTotalFlows t'"
      using n(2) by (simp add: t' Suc_ile_eq)
  qed
qed

lemma endFlow_unknown: "flow_abs t f = None \<Longrightarrow> endFlow t f = t"
  by (simp add: endFlow_def flow_abs_def)

lemma endFlow_abs: 
  assumes "tracker_inv t" shows "flow_abs (endFlow t f) = (flow_abs t)(f := None)"
proof (cases "flow_abs t f")
  case None
  then show ?thesis by (simp add: endFlow_unknown fun_upd_idem)
next
  case (Some n)
  have "n \<noteq> []"
    using tracker_invD(3) [OF assms, of f n] tracker_invD(5) [OF assms, of n] Some
    unfolding node_flows_def by (cases "map_of (activeFlowsByNode t) n") auto
  with Some show ?thesis
    by (simp add: endFlow_def flow_abs_def Let_def orbit_simps split: option.splits)
qed

lemma endFlow_flows:
  assumes inv: "tracker_inv t" and f: "flow_abs t f = Some n"
  shows "node_flows (endFlow t f) m = (if m = n then removeAll f (node_flows t n) else node_flows t m)"
    and "flowToNode (endFlow t f) = AList.delete f (flowToNode t)"
    and "omap_wf (activeFlowsByNode (endFlow t f))"
    and "map_of (activeFlowsByNode (endFlow t f)) m = Some fs \<Longrightarrow>
       (m \<noteq> n \<and> map_of (activeFlowsByNode t) m = Some fs)
       \<or> (m = n \<and> fs \<noteq> [] \<and> fs = removeAll f (node_flows t n))"
    and "maxFlowsPerNode (endFlow t f) = maxFlowsPerNode t"
    and "maxTotalFlows (endFlow t f) = maxTotalFlows t"
proof -
  note d = tracker_invD [OF inv]
  obtain gs where gs: "map_of (activeFlowsByNode t) n = Some gs" and "n \<noteq> []"
    using d(3) [of f n] d(5) [of n] f unfolding node_flows_def
    by (cases "map_of (activeFlowsByNode t) n") auto
  have fa: "map_of (flowToNode t) f = Some n" using f by (simp add: flow_abs_def)
  have nf: "node_flows t n = gs" by (simp add: node_flows_def gs)
  note u = endFlow_def [of t f] fa gs \<open>n \<noteq> []\<close> Let_def
  show "node_flows (endFlow t f) m = (if m = n then removeAll f (node_flows t n) else node_flows t m)"
    by (simp add: u nf) (simp add: node_flows_def orbit_simps)
  show "flowToNode (endFlow t f) = AList.delete f (flowToNode t)"
    "omap_wf (activeFlowsByNode (endFlow t f))"
    "maxFlowsPerNode (endFlow t f) = maxFlowsPerNode t"
    "maxTotalFlows (endFlow t f) = maxTotalFlows t"
    using d(2) by (simp_all add: u)
  show "map_of (activeFlowsByNode (endFlow t f)) m = Some fs \<Longrightarrow>
       (m \<noteq> n \<and> map_of (activeFlowsByNode t) m = Some fs)
       \<or> (m = n \<and> fs \<noteq> [] \<and> fs = removeAll f (node_flows t n))"
    by (auto simp: u nf orbit_simps split: if_splits)
qed

lemma endFlow_inv: assumes inv: "tracker_inv t" shows "tracker_inv (endFlow t f)"
proof (cases "flow_abs t f")
  case None
  then show ?thesis using inv by (simp add: endFlow_unknown)
next
  case (Some n)
  note d = tracker_invD [OF inv] and e = endFlow_flows [OF inv Some]
  show ?thesis
  proof (rule tracker_invI)
    show "omap_wf (flowToNode (endFlow t f))" "omap_wf (activeFlowsByNode (endFlow t f))"
      using d(1) e(2,3) by simp_all
    fix g m
    show "flow_abs (endFlow t f) g = Some m \<longleftrightarrow> g \<in> set (node_flows (endFlow t f) m)"
      using d(3) [of g m] Some d(3) [of f m] by (auto simp: e(1) endFlow_abs [OF inv])
  next
    fix m fs assume m: "map_of (activeFlowsByNode (endFlow t f)) m = Some fs"
    have len: "length (removeAll f (node_flows t n)) \<le> length (node_flows t n)" by simp
    from e(4) [OF m] show "m \<noteq> [] \<and> fs \<noteq> [] \<and> distinct fs
        \<and> enat (length fs) \<le> maxFlowsPerNode (endFlow t f)"
    proof
      assume "m \<noteq> n \<and> map_of (activeFlowsByNode t) m = Some fs"
      then show ?thesis using d(5) [of m fs] by (simp add: e)
    next
      assume a: "m = n \<and> fs \<noteq> [] \<and> fs = removeAll f (node_flows t n)"
      then obtain gs where "map_of (activeFlowsByNode t) n = Some gs"
        by (auto simp: node_flows_def split: option.splits)
      with d(5) [OF this] a have "n \<noteq> []" "distinct (node_flows t n)"
          "enat (length (node_flows t n)) \<le> maxFlowsPerNode t"
        by (simp_all add: node_flows_def)
      moreover from this(3) len have "enat (length (removeAll f (node_flows t n))) \<le> maxFlowsPerNode t"
        by (meson enat_ord_simps(1) order_trans)
      ultimately show ?thesis using a by (metis distinct_removeAll e(5))
    qed
  next
    have "length (AList.delete f (flowToNode t)) \<le> length (flowToNode t)"
      by (rule length_delete_le)
    then show "enat (length (flowToNode (endFlow t f))) \<le> maxTotalFlows (endFlow t f)"
      using d(6) unfolding e(2,6) by (meson enat_ord_simps(1) order_trans)
  qed
qed

section \<open>The tracker as a flow ledger\<close>

definition tracker_acquire :: "tracker \<Rightarrow> str \<Rightarrow> str \<Rightarrow> tracker option" where
  "tracker_acquire t n f =
     (case trackFlow t (JStr n) (Some f) [] of Inl _ \<Rightarrow> None
      | Inr (t', _) \<Rightarrow> if validateTargetScope (JStr n) = Inr n then Some t' else None)"

interpretation tracked: flow_ledger tracker_inv flow_abs tracker_acquire endFlow
proof
  fix s n f s' assume inv: "tracker_inv s" and a: "tracker_acquire s n f = Some s'"
  from a obtain g where tr: "trackFlow s (JStr n) (Some f) [] = Inr (s', g)"
    and v: "validateTargetScope (JStr n) = Inr n"
    by (auto simp: tracker_acquire_def split: sum.splits prod.splits if_splits)
  from tr have g: "g = f" by (auto simp: trackFlow_Inr)
  note c = trackFlow_correct [OF inv tr [unfolded g]]
  show "flow_abs s f = None \<and> flow_abs s' = (flow_abs s)(f \<mapsto> n) \<and> tracker_inv s'"
    using c v by auto
qed (rule endFlow_abs endFlow_inv, assumption)+

section \<open>Counts\<close>

lemma total_is_card: "tracker_inv t \<Longrightarrow> length (flowToNode t) = card (dom (flow_abs t))"
  by (metis distinct_card length_map omap_keys flow_abs_def set_map tracker_invD(1))

lemma node_count_is_card:
  assumes "tracker_inv t" shows "length (node_flows t n) = card {f. flow_abs t f = Some n}"
proof -
  have "{f. flow_abs t f = Some n} = set (node_flows t n)"
    using tracker_invD(3) [OF assms] by auto
  then show ?thesis using tracker_invD(4) [OF assms] by (simp add: distinct_card)
qed

lemma active_nodes:
  assumes "tracker_inv t" shows "set (map fst (activeFlowsByNode t)) = ran (flow_abs t)"
proof -
  have "n \<in> dom (map_of (activeFlowsByNode t)) \<longleftrightarrow> node_flows t n \<noteq> []" for n
    unfolding node_flows_def using tracker_invD(5) [OF assms, of n]
    by (cases "map_of (activeFlowsByNode t) n") auto
  moreover have "node_flows t n \<noteq> [] \<longleftrightarrow> n \<in> ran (flow_abs t)" for n
  proof -
    have "node_flows t n \<noteq> [] \<longleftrightarrow> (\<exists>f. f \<in> set (node_flows t n))"
      by (cases "node_flows t n") auto
    then show ?thesis using tracker_invD(3) [OF assms] by (auto simp: ran_def)
  qed
  ultimately show ?thesis by (auto simp: omap_keys)
qed

text \<open>What request handlers do to the tracker: begin a flow, or end one.\<close>

primrec handler_call :: "(str, str) ledger_op \<Rightarrow> tracker \<Rightarrow> tracker" where
  "handler_call (Acquire n f) t = (case tracker_acquire t n f of None \<Rightarrow> t | Some t' \<Rightarrow> t')"
| "handler_call (Release f) t = endFlow t f"

lemma handler_call_eq: "handler_call = tracked.apply_op"
  by (rule ext)+ (case_tac x; simp)

datatype tracker_call = Track jsval "str option" str | End str | Clear

primrec tracker_step :: "tracker_call \<Rightarrow> tracker \<Rightarrow> tracker" where
  "tracker_step (Track v ex gen) t = (case trackFlow t v ex gen of Inl _ \<Rightarrow> t | Inr r \<Rightarrow> fst r)"
| "tracker_step (End f) t = endFlow t f"
| "tracker_step Clear t = clear_tracker t"

lemma tracker_step_inv: "tracker_inv t \<Longrightarrow> tracker_inv (tracker_step c t)"
  by (cases c) (auto split: sum.splits dest: trackFlow_correct(1) simp: endFlow_inv tracker_inv_clear)

lemma tracker_run_inv: "tracker_inv t \<Longrightarrow> tracker_inv (fold tracker_step cs t)"
  by (induction cs arbitrary: t) (simp_all add: tracker_step_inv)

lemma tracker_step_limits:
  "maxTotalFlows (tracker_step c t) = maxTotalFlows t
   \<and> maxFlowsPerNode (tracker_step c t) = maxFlowsPerNode t"
  by (cases c)
    (auto simp: trackFlow_Inr endFlow_def Let_def clear_tracker_def split: sum.splits option.splits)

lemma tracker_run_limits:
  "maxTotalFlows (fold tracker_step cs t) = maxTotalFlows t
   \<and> maxFlowsPerNode (fold tracker_step cs t) = maxFlowsPerNode t"
  by (induction cs arbitrary: t) (simp_all add: tracker_step_limits)

lemma node_flows_bound:
  assumes "tracker_inv t" shows "enat (length (node_flows t n)) \<le> maxFlowsPerNode t"
  using tracker_invD(5) [OF assms, of n] unfolding node_flows_def
  by (cases "map_of (activeFlowsByNode t) n") (auto simp: zero_enat_def [symmetric])

section \<open>Properties\<close>

text \<open>
  C34. Flow accounting: after any sequence of tracked, ended and cleared flows, the totals the
  tracker reports are the cardinalities of the set of live flows (overall, per node, and the
  nodes that have one), and neither configured capacity is ever exceeded.
\<close>

theorem flow_accounting_exact:
  "let t = fold tracker_step calls (new_tracker perNode overall) in
     getTotalActiveFlowCount t = card (dom (flow_abs t))
   \<and> (\<forall>n. node_id_pattern n \<longrightarrow> getActiveFlowCount t (JStr n) = card {f. flow_abs t f = Some n})
   \<and> set (getActiveNodeIds t) = ran (flow_abs t) \<and> getActiveNodeCount t = card (ran (flow_abs t))
   \<and> enat (getTotalActiveFlowCount t) \<le> overall
   \<and> (\<forall>n. enat (getActiveFlowCount t n) \<le> perNode)"
proof -
  define t where "t = fold tracker_step calls (new_tracker perNode overall)"
  have inv: "tracker_inv t" unfolding t_def by (intro tracker_run_inv tracker_inv_new)
  have lim: "maxTotalFlows t = overall" "maxFlowsPerNode t = perNode"
    unfolding t_def by (simp_all add: tracker_run_limits) (simp_all add: new_tracker_def)
  have "getActiveNodeCount t = card (set (map fst (activeFlowsByNode t)))"
    using tracker_invD(2) [OF inv] by (simp only: getActiveNodeCount_def distinct_card length_map)
  moreover have "enat (getActiveFlowCount t n) \<le> perNode" for n
    using node_flows_bound [OF inv] lim
    by (auto simp: getActiveFlowCount_def zero_enat_def [symmetric] split: sum.splits)
  ultimately have "getTotalActiveFlowCount t = card (dom (flow_abs t))
   \<and> (\<forall>n. node_id_pattern n \<longrightarrow> getActiveFlowCount t (JStr n) = card {f. flow_abs t f = Some n})
   \<and> set (getActiveNodeIds t) = ran (flow_abs t) \<and> getActiveNodeCount t = card (ran (flow_abs t))
   \<and> enat (getTotalActiveFlowCount t) \<le> overall
   \<and> (\<forall>n. enat (getActiveFlowCount t n) \<le> perNode)"
    using total_is_card [OF inv] node_count_is_card [OF inv] active_nodes [OF inv]
      tracker_invD(6) [OF inv] lim
    by (simp add: getTotalActiveFlowCount_def getActiveFlowCount_def getActiveNodeIds_def
        validateTargetScope_node_id)
  then show ?thesis unfolding t_def Let_def .
qed

theorem flow_accounting_exact_witness:
  "let n = ''node_00112233445566778899aabbccddeeff'';
       t = fold tracker_step [Track (JStr n) (Some ''f1'') [], Track (JStr n) (Some ''f2'') [], End ''f1'']
             (new_tracker 2 \<infinity>) in
   getActiveFlowCount t (JStr n) = 1 \<and> card {f. flow_abs t f = Some n} = 1"
proof -
  let ?n = "''node_00112233445566778899aabbccddeeff''"
  let ?t = "fold tracker_step [Track (JStr ?n) (Some ''f1'') [], Track (JStr ?n) (Some ''f2'') [], End ''f1'']
             (new_tracker 2 \<infinity>)"
  have p: "node_id_pattern ?n" by code_simp
  have c: "getActiveFlowCount ?t (JStr ?n) = 1" by code_simp
  have "getActiveFlowCount ?t (JStr ?n) = card {f. flow_abs ?t f = Some ?n}"
    using flow_accounting_exact [of "[Track (JStr ?n) (Some ''f1'') [], Track (JStr ?n) (Some ''f2'') [], End ''f1'']" 2 "\<infinity>"]
      p unfolding Let_def by blast
  with c show ?thesis unfolding Let_def by metis
qed

text \<open>
  Flow lifetime: a flow that \<open>trackFlow\<close> admitted stays attributed to its one node through
  any other handler calls; its end callback removes it and nothing else, and calling the
  callback again changes nothing.
\<close>

theorem flow_lifetime:
  assumes "tracker_inv t" and "trackFlow t v ex gen = Inr (t', f)"
    and "f \<notin> op_flow ` set calls" and "s = fold handler_call calls t'"
  shows "validateTargetScope v = Inr (the (flow_abs s f)) \<and> flow_abs s f \<noteq> None
    \<and> flow_abs (snd (end_callback f (False, s))) = (flow_abs s)(f := None)
    \<and> end_callback f (end_callback f (False, s)) = end_callback f (False, s)"
proof -
  from trackFlow_correct [OF assms(1,2)] obtain n
    where n: "validateTargetScope v = Inr n" and inv: "tracker_inv t'"
      and "flow_abs t' f = Some n"
    by auto
  with tracked.run_frame [OF inv assms(3)] have "flow_abs s f = Some n"
    by (simp add: assms(4) handler_call_eq)
  moreover have "tracker_inv s"
    using tracked.run_inv [OF inv] by (simp add: assms(4) handler_call_eq)
  ultimately show ?thesis
    using n by (simp add: end_callback_def endFlow_abs)
qed

theorem flow_lifetime_witness:
  "let n = ''node_00112233445566778899aabbccddeeff''; m = ''node_ffeeddccbbaa99887766554433221100'';
       t = new_tracker 4 8; t' = fst (projr (trackFlow t (JStr n) None ''flow_a''));
       s = fold handler_call [Acquire m ''flow_b'', Release ''flow_b''] t' in
   flow_abs s ''flow_a'' \<noteq> None
     \<and> flow_abs (snd (end_callback ''flow_a'' (False, s))) = (flow_abs s)(''flow_a'' := None)"
proof -
  let ?n = "''node_00112233445566778899aabbccddeeff''"
  let ?t = "new_tracker 4 8" and ?calls = "[Acquire ''node_ffeeddccbbaa99887766554433221100'' ''flow_b'', Release ''flow_b'']"
  let ?r = "trackFlow ?t (JStr ?n) None ''flow_a''"
  have r: "?r = Inr (fst (projr ?r), ''flow_a'')" by code_simp
  have fresh: "''flow_a'' \<notin> op_flow ` set ?calls" by simp
  from flow_lifetime [OF tracker_inv_new r fresh refl]
  show ?thesis unfolding Let_def by blast
qed

end
