(* ===== verification/Crypto.thy ===== *)
theory Crypto
  imports Protocol
begin

text \<open>
  \<^verbatim>\<open>src/registry/crypto.mjs\<close>. The hash and the Ed25519 primitives of the platform are
  arguments (\<open>sha256Hex\<close> on a hex string's bytes, \<open>edSign\<close>, \<open>edVerify\<close>); what is modelled is the
  wire contract the module checks around them. \<open>ed25519_pair\<close> states what the primitives
  document for one key pair: the signature is 64 bytes of lower-case hex and verifies.
\<close>

type_synonym ed_sign = "str \<Rightarrow> str \<Rightarrow> str"
type_synonym ed_verify = "str \<Rightarrow> str \<Rightarrow> str \<Rightarrow> bool"

definition is_hex_any :: "char \<Rightarrow> bool" where
  "is_hex_any c = (let n = (of_char c :: nat) in
     (48 \<le> n \<and> n \<le> 57) \<or> (97 \<le> n \<and> n \<le> 102) \<or> (65 \<le> n \<and> n \<le> 70))"

text \<open>\<open>Buffer.from(s, "hex").length\<close>: decoding stops at the first pair that is not hex.\<close>

fun hex_bytes :: "str \<Rightarrow> nat" where
  "hex_bytes (a # b # s) = (if is_hex_any a \<and> is_hex_any b then Suc (hex_bytes s) else 0)"
| "hex_bytes _ = 0"

datatype crypto_error = BadPublicKey | BadPrivateKey | NotPkcs8

definition deriveKeyId :: "(str \<Rightarrow> str) \<Rightarrow> str \<Rightarrow> crypto_error + str" where
  "deriveKeyId sha256Hex publicKeyHex =
     (if \<not> hex_pattern 64 publicKeyHex then Inl BadPublicKey
      else Inr (take 32 (sha256Hex publicKeyHex)))"

definition PKCS8_PREFIX :: str where
  "PKCS8_PREFIX = ''302e020100300506032b657004220420''"

definition signSigningString :: "ed_sign \<Rightarrow> str \<Rightarrow> str \<Rightarrow> crypto_error + str" where
  "signSigningString edSign privateKeyHex signingString =
     (if \<not> hex_pattern 96 privateKeyHex then Inl BadPrivateKey
      else if \<not> prefix PKCS8_PREFIX privateKeyHex then Inl NotPkcs8
      else Inr (edSign privateKeyHex signingString))"

definition verifySigningString :: "ed_verify \<Rightarrow> str \<Rightarrow> str \<Rightarrow> str \<Rightarrow> crypto_error + bool" where
  "verifySigningString edVerify publicKeyHex signingString signatureHex =
     (if hex_bytes signatureHex \<noteq> 64 then Inr False
      else if \<not> hex_pattern 64 publicKeyHex then Inl BadPublicKey
      else Inr (edVerify publicKeyHex signingString signatureHex))"

definition ed25519_pair :: "ed_sign \<Rightarrow> ed_verify \<Rightarrow> str \<Rightarrow> str \<Rightarrow> bool" where
  "ed25519_pair edSign edVerify sk pk \<longleftrightarrow>
     hex_pattern 96 sk \<and> prefix PKCS8_PREFIX sk \<and> hex_pattern 64 pk \<and>
     (\<forall>msg. hex_pattern 128 (edSign sk msg) \<and> edVerify pk msg (edSign sk msg))"

lemma is_hex_any: "is_hex c \<Longrightarrow> is_hex_any c"
  by (auto simp: is_hex_def is_hex_any_def Let_def)

lemma hex_bytes_hex: "list_all is_hex s \<Longrightarrow> hex_bytes s = length s div 2"
  by (induction s rule: hex_bytes.induct) (simp_all add: is_hex_any)

lemma hex_bytes_signature: "hex_pattern 128 s \<Longrightarrow> hex_bytes s = 64"
  by (simp add: hex_pattern_def hex_bytes_hex)

lemma verify_signed:
  assumes "ed25519_pair edSign edVerify sk pk"
  shows "signSigningString edSign sk msg = Inr (edSign sk msg)"
    and "verifySigningString edVerify pk msg (edSign sk msg) = Inr True"
  using assms
  by (simp_all add: ed25519_pair_def signSigningString_def verifySigningString_def hex_bytes_signature)

end
