(* ===== verification/ReplayGuard.thy ===== *)
theory ReplayGuard
  imports Prelude
begin

text \<open>
  The interface between an authenticated request path and the store of nonces it has seen.
  A provider promises that a nonce it accepted is remembered, and refused, for its retention
  time; the client lemma turns this into replay protection for a request path whose
  timestamps are checked against a skew window of at most half that time.
\<close>

locale replay_guard =
  fixes inv :: "int \<Rightarrow> 's \<Rightarrow> bool"
    and retention :: "'s \<Rightarrow> int"
    and seen :: "'s \<Rightarrow> ('n \<rightharpoonup> int)"
    and reserve :: "int \<Rightarrow> 'n \<Rightarrow> 's \<Rightarrow> bool \<times> 's"
    and other :: "int \<Rightarrow> 's \<Rightarrow> 's \<Rightarrow> bool"
  assumes inv_mono: "inv t s \<Longrightarrow> t \<le> t' \<Longrightarrow> inv t' s"
    and reserve_inv: "inv t s \<Longrightarrow> inv t (snd (reserve t n s))"
    and reserve_retention: "retention (snd (reserve t n s)) = retention s"
    and reserve_refuses: "inv t s \<Longrightarrow> seen s n = Some a \<Longrightarrow> t \<le> a + retention s \<Longrightarrow>
      \<not> fst (reserve t n s)"
    and reserve_records: "inv t s \<Longrightarrow> fst (reserve t n s) \<Longrightarrow> seen (snd (reserve t n s)) n = Some t"
    and reserve_keeps: "inv t s \<Longrightarrow> seen s m = Some a \<Longrightarrow> t \<le> a + retention s \<Longrightarrow>
      seen (snd (reserve t n s)) m = Some a"
    and other_keeps: "inv t s \<Longrightarrow> other t s s' \<Longrightarrow> inv t s' \<and> retention s' = retention s \<and>
      (seen s m = Some a \<longrightarrow> t \<le> a + retention s \<longrightarrow> seen s' m = Some a)"
begin

text \<open>
  A step of the system at time \<open>t\<close> leaves the store alone, reserves a nonce or is one of the provider's
  other steps.
\<close>

definition guarded :: "int \<Rightarrow> 's \<Rightarrow> 's \<Rightarrow> bool" where
  "guarded t s s' \<longleftrightarrow> s' = s \<or> (\<exists>n. s' = snd (reserve t n s)) \<or> other t s s'"

fun guarded_trace :: "int \<Rightarrow> 's \<Rightarrow> (int \<times> 's) list \<Rightarrow> bool" where
  "guarded_trace t s [] = True"
| "guarded_trace t s ((t', s') # xs) = (t \<le> t' \<and> guarded t' s s' \<and> guarded_trace t' s' xs)"

fun trace_end :: "int \<Rightarrow> 's \<Rightarrow> (int \<times> 's) list \<Rightarrow> int \<times> 's" where
  "trace_end t s [] = (t, s)"
| "trace_end t s ((t', s') # xs) = trace_end t' s' xs"

lemma guarded_keeps:
  assumes "inv t s" and "guarded t s s'" and "seen s n = Some a" and "t \<le> a + retention s"
  shows "inv t s' \<and> seen s' n = Some a \<and> retention s' = retention s"
  using assms other_keeps [OF assms(1), of s' n a]
  by (auto simp: guarded_def reserve_inv reserve_retention reserve_keeps)

lemma trace_time: "guarded_trace t s xs \<Longrightarrow> t \<le> fst (trace_end t s xs)"
proof (induction xs arbitrary: t s)
  case (Cons x xs)
  obtain t' s' where x: "x = (t', s')" by (cases x)
  from Cons.prems x have "t \<le> t'" "t' \<le> fst (trace_end t' s' xs)"
    using Cons.IH [of t' s'] by auto
  then show ?case by (simp add: x)
qed simp

lemma trace_keeps:
  assumes "inv t s" and "seen s n = Some a" and "guarded_trace t s xs"
    and "fst (trace_end t s xs) \<le> a + retention s"
  shows "inv (fst (trace_end t s xs)) (snd (trace_end t s xs))
    \<and> seen (snd (trace_end t s xs)) n = Some a
    \<and> retention (snd (trace_end t s xs)) = retention s"
  using assms
proof (induction xs arbitrary: t s)
  case Nil
  then show ?case by simp
next
  case (Cons x xs)
  obtain t' s' where x: "x = (t', s')" by (cases x)
  from Cons.prems x have g: "t \<le> t'" "guarded t' s s'" "guarded_trace t' s' xs" by auto
  have "t' \<le> a + retention s"
    using trace_time [OF g(3)] Cons.prems(4) by (simp add: x)
  from guarded_keeps [OF inv_mono [OF Cons.prems(1) g(1)] g(2) Cons.prems(2) this]
  have "inv t' s'" "seen s' n = Some a" "retention s' = retention s" by auto
  with Cons.IH [of t' s'] g(3) Cons.prems(4) show ?case by (simp add: x)
qed

text \<open>Replay protection: a reserved nonce is refused again within the retention time.\<close>

lemma no_replay:
  assumes "inv t s" and "fst (reserve t n s)"
    and "guarded_trace t (snd (reserve t n s)) xs"
    and "trace_end t (snd (reserve t n s)) xs = (t1, s1)"
    and "t1 \<le> t2" and "t2 \<le> t + retention s"
  shows "\<not> fst (reserve t2 n s1)"
proof -
  let ?s = "snd (reserve t n s)"
  have s: "inv t ?s" "seen ?s n = Some t" "retention ?s = retention s"
    using assms(1,2) by (simp_all add: reserve_inv reserve_records reserve_retention)
  have "inv t1 s1 \<and> seen s1 n = Some t \<and> retention s1 = retention s"
    using trace_keeps [OF s(1,2) assms(3)] assms(4,5,6) s(3) by simp
  then show ?thesis
    using reserve_refuses [of t2 s1 n t] inv_mono [of t1 s1 t2] assms(5,6) by simp
qed

end

end
