(* ===== verification/RouteAuth.thy ===== *)
theory RouteAuth
  imports Crypto ReplayGuard HostAuthority
begin

text \<open>
  \<^verbatim>\<open>src/registry/route-auth.mjs\<close>: the ORBIT-ROUTE-V1 hop authentication from the Hub to a node.
  The nonce cache is the insertion-ordered map of the code; \<open>verifyRouteRequest\<close> returns its
  verdict with the cache it leaves (\<open>None\<close> where no cache is given). A header whose value is not a string is \<open>None\<close>;
  \<open>Date.parse\<close> is the argument \<open>dateParse\<close> (\<open>None\<close> for NaN).
\<close>

section \<open>The nonce cache\<close>

record nonce_cache =
  retentionMs :: int
  nonces :: "(str, int) omap"

definition new_nonce_cache :: "int \<Rightarrow> nonce_cache" where
  "new_nonce_cache r = \<lparr>retentionMs = r, nonces = []\<rparr>"

definition purge :: "int \<Rightarrow> nonce_cache \<Rightarrow> nonce_cache" where
  "purge t c = c\<lparr>nonces := dropWhile (\<lambda>(n, seenAt). seenAt < t - retentionMs c) (nonces c)\<rparr>"

definition checkAndReserve :: "int \<Rightarrow> str \<Rightarrow> nonce_cache \<Rightarrow> bool \<times> nonce_cache" where
  "checkAndReserve t nonce c =
     (let c = purge t c in
      if map_of (nonces c) nonce \<noteq> None then (False, c)
      else (True, c\<lparr>nonces := AList.update nonce t (nonces c)\<rparr>))"

definition clear_nonces :: "nonce_cache \<Rightarrow> nonce_cache" where
  "clear_nonces c = c\<lparr>nonces := []\<rparr>"

section \<open>Signing\<close>

datatype sign_error = SignNodeId | SignKeyId | SignNonceMissing | SignNonce | SignCrypto crypto_error

definition signRouteRequest ::
  "ed_sign \<Rightarrow> str \<Rightarrow> str \<Rightarrow> str \<Rightarrow> str \<Rightarrow> str \<Rightarrow> str \<Rightarrow> nat \<Rightarrow> str \<Rightarrow> sign_error + ((str \<times> str) list \<times> str)" where
  "signRouteRequest edSign privateKeyHex keyId nodeId routeAuthority meth rawTarget nowMs nonce =
     (if \<not> node_id_pattern nodeId then Inl SignNodeId
      else if \<not> key_id_pattern keyId then Inl SignKeyId
      else if nonce = [] then Inl SignNonceMissing
      else if \<not> nonce_pattern nonce then Inl SignNonce
      else let timestamp = dec_of_nat nowMs;
        signingString =
          buildRouteSigningString ROUTE_V1_LABEL nodeId routeAuthority meth rawTarget timestamp nonce in
      case signSigningString edSign privateKeyHex signingString of
        Inl e \<Rightarrow> Inl (SignCrypto e)
      | Inr signature \<Rightarrow>
        Inr ([(''x-orbit-route-node'', nodeId), (''x-orbit-route-key'', keyId),
              (''x-orbit-route-timestamp'', timestamp), (''x-orbit-route-nonce'', nonce),
              (''x-orbit-route-signature'', signature)], signingString))"

section \<open>Verification\<close>

record route_key =
  rk_keyId :: str
  rk_publicKey :: str
  rk_state :: str
  rk_overlapUntil :: "str option"

datatype route_verdict =
    RouteOk str str route_key
  | RouteDenied nat str
  | RouteThrows crypto_error

definition norm_headers :: "(str \<times> str option) list \<Rightarrow> (str, str) omap" where
  "norm_headers hs =
     fold (\<lambda>(k, v) m. AList.update (js_lower k) (case v of Some s \<Rightarrow> js_trim s | None \<Rightarrow> []) m) hs []"

text \<open>A missing header is the empty string: the code treats both as absent.\<close>

definition header :: "(str, str) omap \<Rightarrow> str \<Rightarrow> str" where
  "header m k = (case map_of m k of None \<Rightarrow> [] | Some v \<Rightarrow> v)"

definition hostname_part :: "str \<Rightarrow> str" where
  "hostname_part s = js_lower (hd (js_split (CHR '':'') s))"

definition verifyRouteRequest ::
  "ed_verify \<Rightarrow> (str \<Rightarrow> int option) \<Rightarrow> (str \<times> str option) list \<Rightarrow> str \<Rightarrow> str \<Rightarrow> str option \<Rightarrow> str option
   \<Rightarrow> (str \<Rightarrow> route_key option) \<Rightarrow> int \<Rightarrow> nonce_cache option \<Rightarrow> route_verdict \<times> nonce_cache option" where
  "verifyRouteRequest edVerify dateParse headers meth rawTarget expectedNodeId expectedRouteAuthority
     getPublicKey nowMs nonceCache =
     (let nh = norm_headers headers;
          nodeId = header nh ''x-orbit-route-node'';
          keyId = header nh ''x-orbit-route-key'';
          timestampStr = header nh ''x-orbit-route-timestamp'';
          nonce = header nh ''x-orbit-route-nonce'';
          signature = header nh ''x-orbit-route-signature'';
          deny = (\<lambda>status code. (RouteDenied status code, nonceCache)) in
      if nodeId = [] \<or> keyId = [] \<or> timestampStr = [] \<or> nonce = [] \<or> signature = [] then deny 400 ''bad-request''
      else if \<not> node_id_pattern nodeId then deny 400 ''bad-request''
      else if \<not> key_id_pattern keyId then deny 400 ''bad-request''
      else if \<not> nonce_pattern nonce then deny 400 ''bad-request''
      else if \<not> signature_pattern signature then deny 400 ''bad-request''
      else if \<not> digits_pattern timestampStr then deny 400 ''bad-request''
      else if \<bar>nowMs - int (nat_of_dec timestampStr)\<bar> > ROUTE_SKEW_MS then deny 401 ''timestamp-out-of-skew''
      else if (case expectedNodeId of Some e \<Rightarrow> e \<noteq> [] \<and> nodeId \<noteq> e | None \<Rightarrow> False) then deny 401 ''node-mismatch''
      else case getPublicKey keyId of
        None \<Rightarrow> deny 401 ''unknown-key''
      | Some key \<Rightarrow>
      if rk_state key = ''provisioned'' then deny 401 ''key-not-active''
      else if rk_state key = ''revoked'' then deny 401 ''key-revoked''
      else if rk_state key \<noteq> ''active'' \<and> rk_state key \<noteq> ''rotating'' then deny 401 ''key-not-active''
      else if (case rk_overlapUntil key of
                 Some u \<Rightarrow> u \<noteq> [] \<and> (case dateParse u of Some ms \<Rightarrow> ms \<le> nowMs | None \<Rightarrow> False)
               | None \<Rightarrow> False) then deny 401 ''key-revoked''
      else let
        authority = header nh ''x-orbit-route-authority'';
        incomingAuthority = hostname_part (if authority \<noteq> [] then authority else header nh ''host'');
        expectedHostname = (case expectedRouteAuthority of Some e \<Rightarrow> if e = [] then [] else hostname_part e | None \<Rightarrow> []) in
      if expectedHostname \<noteq> [] \<and> incomingAuthority \<noteq> [] \<and> incomingAuthority \<noteq> expectedHostname
      then deny 401 ''authority-mismatch''
      else let
        signingString = buildRouteSigningString ROUTE_V1_LABEL nodeId
          (case expectedRouteAuthority of Some e \<Rightarrow> e | None \<Rightarrow> []) meth rawTarget timestampStr nonce in
      case verifySigningString edVerify (rk_publicKey key) signingString signature of
        Inl e \<Rightarrow> (RouteThrows e, nonceCache)
      | Inr verified \<Rightarrow>
      if \<not> verified then deny 401 ''signature-invalid''
      else case nonceCache of
        None \<Rightarrow> (RouteOk nodeId keyId key, None)
      | Some cache \<Rightarrow>
        let r = checkAndReserve nowMs nonce cache in
        if \<not> fst r then (RouteDenied 401 ''replay'', Some (snd r))
        else (RouteOk nodeId keyId key, Some (snd r)))"

section \<open>The cache as a replay guard\<close>


abbreviation seen_at :: "nonce_cache \<Rightarrow> (str \<rightharpoonup> int)" where
  "seen_at c \<equiv> map_of (nonces c)"



lemma map_of_dropWhile_le:
  assumes "omap_wf m" and "map_of (dropWhile P m) n = Some a"
  shows "map_of m n = Some a"
  using assms set_dropWhileD map_of_SomeD by (metis map_of_is_SomeI)







section \<open>What an accepted request has proved\<close>

lemma deny_guard:
  "(if P then (RouteDenied st co, c0) else x) = (RouteOk n k key, c') \<longleftrightarrow> \<not> P \<and> x = (RouteOk n k key, c')"
  "(case z of None \<Rightarrow> (RouteDenied st co, c0) | Some v \<Rightarrow> f v) = (RouteOk n k key, c')
     \<longleftrightarrow> (\<exists>v. z = Some v \<and> f v = (RouteOk n k key, c'))"
  "(case w of Inl e \<Rightarrow> (RouteThrows e, c0) | Inr v \<Rightarrow> g v) = (RouteOk n k key, c')
     \<longleftrightarrow> (\<exists>v. w = Inr v \<and> g v = (RouteOk n k key, c'))"
  by (auto split: option.splits sum.splits)

lemma cache_guard:
  "(case Some c of None \<Rightarrow> u | Some cache \<Rightarrow>
     (if \<not> fst (r cache) then (RouteDenied st co, Some (snd (r cache))) else (RouteOk a b d, Some (snd (r cache)))))
   = (RouteOk n k key, c') \<longleftrightarrow> r c = (True, the c') \<and> c' \<noteq> None \<and> n = a \<and> k = b \<and> key = d"
  by (cases "r c") auto

lemma verifyRouteRequest_ok:
  assumes "verifyRouteRequest V dp hs meth target en ea getKey now (Some c) = (RouteOk n k key, c')"
  defines "nh \<equiv> norm_headers hs"
  shows "n = header nh ''x-orbit-route-node''" and "k = header nh ''x-orbit-route-key''"
    and "node_id_pattern n" and "key_id_pattern k"
    and "nonce_pattern (header nh ''x-orbit-route-nonce'')"
    and "signature_pattern (header nh ''x-orbit-route-signature'')"
    and "digits_pattern (header nh ''x-orbit-route-timestamp'')"
    and "\<bar>now - int (nat_of_dec (header nh ''x-orbit-route-timestamp''))\<bar> \<le> ROUTE_SKEW_MS"
    and "en = Some e \<Longrightarrow> e \<noteq> [] \<Longrightarrow> n = e"
    and "getKey k = Some key" and "rk_state key = ''active'' \<or> rk_state key = ''rotating''"
    and "rk_overlapUntil key = Some u \<Longrightarrow> u \<noteq> [] \<Longrightarrow> dp u = Some ms \<Longrightarrow> now < ms"
    and "verifySigningString V (rk_publicKey key)
          (buildRouteSigningString ROUTE_V1_LABEL n (case ea of Some e \<Rightarrow> e | None \<Rightarrow> []) meth target
             (header nh ''x-orbit-route-timestamp'') (header nh ''x-orbit-route-nonce''))
          (header nh ''x-orbit-route-signature'') = Inr True"
    and "checkAndReserve now (header nh ''x-orbit-route-nonce'') c = (True, the c')" and "c' \<noteq> None"
proof -
  define hn hk ht hc hs' where "hn = header nh ''x-orbit-route-node''"
    and "hk = header nh ''x-orbit-route-key''" and "ht = header nh ''x-orbit-route-timestamp''"
    and "hc = header nh ''x-orbit-route-nonce''" and "hs' = header nh ''x-orbit-route-signature''"
  note names = hn_def [symmetric] hk_def [symmetric] ht_def [symmetric] hc_def [symmetric] hs'_def [symmetric]
  obtain key0 v where f:
    "node_id_pattern hn" "key_id_pattern hk" "nonce_pattern hc" "signature_pattern hs'" "digits_pattern ht"
    "\<not> ROUTE_SKEW_MS < \<bar>now - int (nat_of_dec ht)\<bar>"
    "\<not> (case en of Some e \<Rightarrow> e \<noteq> [] \<and> hn \<noteq> e | None \<Rightarrow> False)"
    "getKey hk = Some key0" "\<not> (rk_state key0 \<noteq> ''active'' \<and> rk_state key0 \<noteq> ''rotating'')"
    "\<not> (case rk_overlapUntil key0 of Some u \<Rightarrow> u \<noteq> [] \<and> (case dp u of Some ms \<Rightarrow> ms \<le> now | None \<Rightarrow> False)
          | None \<Rightarrow> False)"
    "verifySigningString V (rk_publicKey key0)
          (buildRouteSigningString ROUTE_V1_LABEL hn (case ea of Some e \<Rightarrow> e | None \<Rightarrow> []) meth target ht hc) hs' = Inr v"
    "v" "checkAndReserve now hc c = (True, the c') \<and> c' \<noteq> None \<and> n = hn \<and> k = hk \<and> key = key0"
    using assms(1)
    unfolding verifyRouteRequest_def Let_def nh_def [symmetric] names deny_guard cache_guard not_not
    by (elim exE conjE) (rule that, (assumption | intro conjI)+)
  show "n = header nh ''x-orbit-route-node''" "k = header nh ''x-orbit-route-key''"
    "node_id_pattern n" "key_id_pattern k" "nonce_pattern (header nh ''x-orbit-route-nonce'')"
    "signature_pattern (header nh ''x-orbit-route-signature'')"
    "digits_pattern (header nh ''x-orbit-route-timestamp'')" "getKey k = Some key"
    "checkAndReserve now (header nh ''x-orbit-route-nonce'') c = (True, the c')" "c' \<noteq> None"
    "rk_state key = ''active'' \<or> rk_state key = ''rotating''"
    "\<bar>now - int (nat_of_dec (header nh ''x-orbit-route-timestamp''))\<bar> \<le> ROUTE_SKEW_MS"
    using f(1-6,8,9,13) unfolding names by (blast | simp)+
  show "en = Some e \<Longrightarrow> e \<noteq> [] \<Longrightarrow> n = e" using f(7,13) by auto
  show "rk_overlapUntil key = Some u \<Longrightarrow> u \<noteq> [] \<Longrightarrow> dp u = Some ms \<Longrightarrow> now < ms"
    using f(10,13) by auto
  show "verifySigningString V (rk_publicKey key)
          (buildRouteSigningString ROUTE_V1_LABEL n (case ea of Some e \<Rightarrow> e | None \<Rightarrow> []) meth target
             (header nh ''x-orbit-route-timestamp'') (header nh ''x-orbit-route-nonce''))
          (header nh ''x-orbit-route-signature'') = Inr True"
    using f(11,12,13) unfolding names by simp
qed


section \<open>Runs of verification calls\<close>

record route_call =
  rc_headers :: "(str \<times> str option) list"
  rc_method :: str
  rc_target :: str
  rc_node :: "str option"
  rc_authority :: "str option"
  rc_keys :: "str \<Rightarrow> route_key option"
  rc_now :: int

definition verify_call ::
  "ed_verify \<Rightarrow> (str \<Rightarrow> int option) \<Rightarrow> route_call \<Rightarrow> nonce_cache \<Rightarrow> route_verdict \<times> nonce_cache option" where
  "verify_call V dp q c = verifyRouteRequest V dp (rc_headers q) (rc_method q) (rc_target q)
     (rc_node q) (rc_authority q) (rc_keys q) (rc_now q) (Some c)"









section \<open>Signed headers\<close>

definition as_request :: "(str \<times> str) list \<Rightarrow> (str \<times> str option) list" where
  "as_request hs = map (\<lambda>(k, v). (k, Some v)) hs"

lemma js_trim_hex: "hex_pattern n s \<Longrightarrow> js_trim s = s"
  by (intro js_trim_no_ws) (metis hd_in_set hex_pattern_chars is_hex_not_ws last_in_set)

lemma is_digit_not_ws: "is_digit c \<Longrightarrow> \<not> js_ws c"
  by (auto simp: is_digit_def js_ws_def Let_def)

lemma js_trim_digits: "digits_pattern s \<Longrightarrow> js_trim s = s"
  by (intro js_trim_no_ws) (auto simp: digits_pattern_def list_all_iff is_digit_not_ws)

lemma js_trim_node_id:
  assumes "node_id_pattern s" shows "js_trim s = s"
proof -
  from assms obtain h where s: "s = ''node_'' @ h" and h: "hex_pattern 32 h"
    by (auto simp: node_id_pattern_iff)
  then have "h \<noteq> []" by (auto simp: hex_pattern_def)
  then have "is_hex (last s)" using h s by (auto dest: hex_pattern_chars [OF _ last_in_set])
  then have "\<not> js_ws (last s)" by simp
  moreover have "\<not> js_ws (hd s)" by (simp add: s js_ws_def)
  ultimately show ?thesis by (intro js_trim_no_ws) simp
qed

lemma js_trim_authority:
  assumes "computeRouteAuthority n d = Inr a" shows "js_trim a = a" and "a \<noteq> []"
proof -
  from assms obtain h c where h: "hex_pattern 32 h" and c: "validateRouteDomain d = Inr c"
    and a: "a = (''n-'' @ h @ ''.'') @ c"
    by (auto simp: computeRouteAuthority_Inr)
  have "list_all domain_char h"
    using h by (auto simp: list_all_iff dest: hex_pattern_chars is_hex_domain_char)
  then have "list_all domain_char (''n-'' @ h @ ''.'')" by (simp add: domain_char_def)
  then have "authority_grammar a"
    unfolding a by (rule authority_grammar_prefix [OF _ validateRouteDomain_grammar [OF c]])
  then show "js_trim a = a" by (rule authority_grammar_clean)
  show "a \<noteq> []" by (simp add: a)
qed

lemma route_header_names:
  "js_lower ''x-orbit-route-node'' = ''x-orbit-route-node''"
  "js_lower ''x-orbit-route-key'' = ''x-orbit-route-key''"
  "js_lower ''x-orbit-route-timestamp'' = ''x-orbit-route-timestamp''"
  "js_lower ''x-orbit-route-nonce'' = ''x-orbit-route-nonce''"
  "js_lower ''x-orbit-route-signature'' = ''x-orbit-route-signature''"
  "js_lower ''x-orbit-route-authority'' = ''x-orbit-route-authority''"
  by code_simp+

lemma signed_headers:
  assumes "signRouteRequest signer sk kid nid auth meth target ts nonce = Inr (hs, str)"
  obtains sig where "node_id_pattern nid" "key_id_pattern kid" "nonce_pattern nonce"
    and "signSigningString signer sk str = Inr sig"
    and "str = buildRouteSigningString ROUTE_V1_LABEL nid auth meth target (dec_of_nat ts) nonce"
    and "hs = [(''x-orbit-route-node'', nid), (''x-orbit-route-key'', kid),
              (''x-orbit-route-timestamp'', dec_of_nat ts), (''x-orbit-route-nonce'', nonce),
              (''x-orbit-route-signature'', sig)]"
proof -
  let ?m = "buildRouteSigningString ROUTE_V1_LABEL nid auth meth target (dec_of_nat ts) nonce"
  obtain v where f: "node_id_pattern nid" "key_id_pattern kid" "nonce_pattern nonce"
      "signSigningString signer sk ?m = Inr v" "?m = str"
      "[(''x-orbit-route-node'', nid), (''x-orbit-route-key'', kid),
        (''x-orbit-route-timestamp'', dec_of_nat ts), (''x-orbit-route-nonce'', nonce),
        (''x-orbit-route-signature'', v)] = hs"
    using assms unfolding signRouteRequest_def Let_def guard_simps not_not sum.inject prod.inject
    by (elim conjE exE) blast
  show thesis
    by (rule that [OF f(1-3) f(4) [unfolded f(5)] f(5) [symmetric] f(6) [symmetric]])
qed

lemma signed_norm_headers:
  assumes "node_id_pattern nid" "key_id_pattern kid" "nonce_pattern nonce" "signature_pattern sig"
    and "js_trim auth = auth"
    and "hs = [(''x-orbit-route-node'', nid), (''x-orbit-route-key'', kid),
              (''x-orbit-route-timestamp'', dec_of_nat ts), (''x-orbit-route-nonce'', nonce),
              (''x-orbit-route-signature'', sig)]"
  defines "m \<equiv> norm_headers (as_request (hs @ [(''x-orbit-route-authority'', auth)]))"
  shows "header m ''x-orbit-route-node'' = nid" "header m ''x-orbit-route-key'' = kid"
    and "header m ''x-orbit-route-timestamp'' = dec_of_nat ts"
    and "header m ''x-orbit-route-nonce'' = nonce" "header m ''x-orbit-route-signature'' = sig"
    and "header m ''x-orbit-route-authority'' = auth"
  using assms(1-5) unfolding m_def assms(6) wire_pattern_defs
  by (simp_all add: norm_headers_def as_request_def header_def route_header_names js_trim_hex
      js_trim_node_id js_trim_digits dec_of_nat_digits)

section \<open>Properties\<close>


definition example_call :: "int \<Rightarrow> str \<Rightarrow> route_call" where
  "example_call t nonce = \<lparr>rc_headers =
     [(''X-Orbit-Route-Node'', Some ''node_00112233445566778899aabbccddeeff''),
      (''x-orbit-route-key'', Some ''0123456789abcdef0123456789abcdef''),
      (''x-orbit-route-timestamp'', Some ''100000''), (''x-orbit-route-nonce'', Some nonce),
      (''x-orbit-route-signature'', Some (replicate 128 (CHR ''a'')))],
     rc_method = ''GET'', rc_target = ''/'', rc_node = None, rc_authority = None,
     rc_keys = (\<lambda>_. Some \<lparr>rk_keyId = ''0123456789abcdef0123456789abcdef'',
        rk_publicKey = replicate 64 (CHR ''b''), rk_state = ''active'', rk_overlapUntil = None\<rparr>),
     rc_now = t\<rparr>"


text \<open>
  C23. Route authentication completeness: a request signed by the Hub with the private key of an
  active or rotating route key is accepted by the node that holds the matching public key, for
  the same method, target and computed authority, within the skew window, when its nonce is
  not in the cache; and the nonce is then reserved.
\<close>

theorem signed_route_request_accepted:
  assumes "ed25519_pair signer V sk (rk_publicKey key)"
    and "computeRouteAuthority nid d = Inr auth"
    and "signRouteRequest signer sk kid nid auth meth target ts nonce = Inr (hs, str)"
    and "getKey kid = Some key" and "rk_state key \<in> {''active'', ''rotating''}"
    and "case rk_overlapUntil key of None \<Rightarrow> True | Some u \<Rightarrow> \<exists>ms. dp u = Some ms \<and> now < ms"
    and "\<bar>now - int ts\<bar> \<le> ROUTE_SKEW_MS" and "seen_at (purge now c) nonce = None"
  shows "verifyRouteRequest V dp (as_request (hs @ [(''x-orbit-route-authority'', auth)])) meth target
      (Some nid) (Some auth) getKey now (Some c)
    = (RouteOk nid kid key, Some (snd (checkAndReserve now nonce c)))
    \<and> seen_at (snd (checkAndReserve now nonce c)) nonce = Some now"
proof -
  obtain sig where s: "node_id_pattern nid" "key_id_pattern kid" "nonce_pattern nonce"
    "signSigningString signer sk str = Inr sig"
    "str = buildRouteSigningString ROUTE_V1_LABEL nid auth meth target (dec_of_nat ts) nonce"
    "hs = [(''x-orbit-route-node'', nid), (''x-orbit-route-key'', kid),
              (''x-orbit-route-timestamp'', dec_of_nat ts), (''x-orbit-route-nonce'', nonce),
              (''x-orbit-route-signature'', sig)]"
    by (rule signed_headers [OF assms(3)])
  have "sig = signer sk str" using verify_signed(1) [OF assms(1)] s(4) by simp
  with verify_signed(2) [OF assms(1)]
  have sig: "sig = signer sk str" "verifySigningString V (rk_publicKey key) str sig = Inr True"
    by simp_all
  then have sp: "signature_pattern sig"
    using assms(1) by (simp add: ed25519_pair_def wire_pattern_defs)
  note tr = js_trim_authority [OF assms(2)]
  note h = signed_norm_headers [OF s(1-3) sp tr(1) s(6)]
  have ne: "nid \<noteq> []" "kid \<noteq> []" "nonce \<noteq> []" "sig \<noteq> []" "dec_of_nat ts \<noteq> []"
    using s(1-3) sp dec_of_nat_digits [of ts]
    by (auto simp: node_id_pattern_def wire_pattern_defs hex_pattern_def digits_pattern_def)
  have fresh: "checkAndReserve now nonce c =
      (True, (purge now c)\<lparr>nonces := AList.update nonce now (nonces (purge now c))\<rparr>)"
    using assms(8) by (simp add: checkAndReserve_def Let_def)
  have skew: "\<not> ROUTE_SKEW_MS < \<bar>now - int ts\<bar>" using assms(7) by simp
  have ov: "\<not> (case rk_overlapUntil key of Some u \<Rightarrow> u \<noteq> [] \<and> (case dp u of Some ms \<Rightarrow> ms \<le> now | None \<Rightarrow> False)
       | None \<Rightarrow> False)"
    using assms(6) by (auto split: option.splits)
  have "rk_state key \<noteq> ''provisioned''" "rk_state key \<noteq> ''revoked''"
      "\<not> (rk_state key \<noteq> ''active'' \<and> rk_state key \<noteq> ''rotating'')"
    using assms(5) by auto
  then have "verifyRouteRequest V dp (as_request (hs @ [(''x-orbit-route-authority'', auth)])) meth target
      (Some nid) (Some auth) getKey now (Some c)
    = (RouteOk nid kid key, Some (snd (checkAndReserve now nonce c)))"
    unfolding verifyRouteRequest_def Let_def h option.case
    using ne s(1-3) sp dec_of_nat_digits [of ts] skew assms(4) ov tr(2) sig(2) s(5) fresh
    by (simp del: js_join.simps)
  then show ?thesis by (simp add: fresh orbit_simps)
qed

theorem signed_route_request_accepted_witness:
  "let nid = ''node_00112233445566778899aabbccddeeff''; kid = ''0123456789abcdef0123456789abcdef'';
       nonce = replicate 32 (CHR ''7''); auth = ''n-00112233445566778899aabbccddeeff.dsh.example.com'';
       signer = (\<lambda>sk msg. replicate 128 (CHR ''a'')); V = (\<lambda>pk msg sig. sig = replicate 128 (CHR ''a''));
       sk = PKCS8_PREFIX @ replicate 64 (CHR ''5'');
       key = \<lparr>rk_keyId = kid, rk_publicKey = replicate 64 (CHR ''b''), rk_state = ''rotating'',
              rk_overlapUntil = Some ''later''\<rparr>;
       hs = fst (projr (signRouteRequest signer sk kid nid auth ''GET'' ''/x'' 100000 nonce)) in
   fst (verifyRouteRequest V (\<lambda>_. Some 200000) (as_request (hs @ [(''x-orbit-route-authority'', auth)])) ''GET'' ''/x''
      (Some nid) (Some auth) (\<lambda>_. Some key) 130000 (Some (new_nonce_cache 60000))) = RouteOk nid kid key"
proof -
  let ?nid = "''node_00112233445566778899aabbccddeeff''" and ?kid = "''0123456789abcdef0123456789abcdef''"
  let ?nonce = "replicate 32 (CHR ''7'')" and ?auth = "''n-00112233445566778899aabbccddeeff.dsh.example.com''"
  let ?signer = "\<lambda>sk msg. replicate 128 (CHR ''a'')" and ?V = "\<lambda>pk msg sig. sig = replicate 128 (CHR ''a'')"
  let ?sk = "PKCS8_PREFIX @ replicate 64 (CHR ''5'')" and ?dp = "\<lambda>_ :: str. Some (200000 :: int)"
  let ?key = "\<lparr>rk_keyId = ?kid, rk_publicKey = replicate 64 (CHR ''b''), rk_state = ''rotating'',
              rk_overlapUntil = Some ''later''\<rparr>"
  let ?r = "signRouteRequest ?signer ?sk ?kid ?nid ?auth ''GET'' ''/x'' 100000 ?nonce"
  let ?c = "new_nonce_cache 60000"
  have pair: "ed25519_pair ?signer ?V ?sk (rk_publicKey ?key)"
  proof -
    have "hex_pattern 96 ?sk" "prefix PKCS8_PREFIX ?sk" "hex_pattern 64 (rk_publicKey ?key)"
      "hex_pattern 128 (replicate 128 (CHR ''a''))" by code_simp+
    then show ?thesis by (simp add: ed25519_pair_def)
  qed
  have auth: "computeRouteAuthority ?nid ''dsh.example.com'' = Inr ?auth" by code_simp
  have sign: "?r = Inr (fst (projr ?r), snd (projr ?r))" by code_simp
  have "fst (verifyRouteRequest ?V ?dp (as_request (fst (projr ?r) @ [(''x-orbit-route-authority'', ?auth)])) ''GET'' ''/x''
      (Some ?nid) (Some ?auth) (\<lambda>_. Some ?key) 130000 (Some ?c)) = RouteOk ?nid ?kid ?key"
    using signed_route_request_accepted [OF pair auth sign, of "\<lambda>_. Some ?key" ?dp 130000 ?c]
    by (simp add: new_nonce_cache_def purge_def ROUTE_SKEW_MS_def)
  then show ?thesis unfolding Let_def .
qed

text \<open>
  C10. An accepted request is exactly one that was signed, by a key that may sign now: if the public key verifies only
  strings the Hub built for requests it signed (unforgeability), then an accepted request agrees with one of them in
  node, authority, method, target, timestamp and nonce, because the newline-joined signing string determines its
  fields; and the key is the one the node's trust set has under the named id, it is active or rotating (neither
  provisioned nor revoked), and its overlap has not ended.
\<close>

theorem accepted_route_request_was_signed:
  assumes "verify_call V dp q c = (RouteOk n k key, c')"
    and "\<And>msg sig. V (rk_publicKey key) msg sig \<Longrightarrow>
       \<exists>(n', a', m', tg', ts', nc') \<in> signed. msg = buildRouteSigningString ROUTE_V1_LABEL n' a' m' tg' ts' nc'"
    and "\<forall>(n', a', m', tg', ts', nc') \<in> signed. list_all one_line [n', a', m', tg', ts', nc']"
    and "rc_authority q = Some a" and "list_all one_line [a, rc_method q, rc_target q]"
  shows "(n, a, rc_method q, rc_target q,
      header (norm_headers (rc_headers q)) ''x-orbit-route-timestamp'',
      header (norm_headers (rc_headers q)) ''x-orbit-route-nonce'') \<in> signed
    \<and> rc_keys q (header (norm_headers (rc_headers q)) ''x-orbit-route-key'') = Some key
    \<and> rk_state key \<in> {''active'', ''rotating''}
    \<and> (\<forall>u ms. rk_overlapUntil key = Some u \<longrightarrow> u \<noteq> [] \<longrightarrow> dp u = Some ms \<longrightarrow> rc_now q < ms)"
proof -
  let ?ts = "header (norm_headers (rc_headers q)) ''x-orbit-route-timestamp''"
  let ?nc = "header (norm_headers (rc_headers q)) ''x-orbit-route-nonce''"
  note ok = verifyRouteRequest_ok [OF assms(1) [unfolded verify_call_def]]
  have "verifySigningString V (rk_publicKey key)
      (buildRouteSigningString ROUTE_V1_LABEL n a (rc_method q) (rc_target q) ?ts ?nc)
      (header (norm_headers (rc_headers q)) ''x-orbit-route-signature'') = Inr True"
    using ok(13) assms(4) by simp
  then have "V (rk_publicKey key) (buildRouteSigningString ROUTE_V1_LABEL n a (rc_method q) (rc_target q) ?ts ?nc)
      (header (norm_headers (rc_headers q)) ''x-orbit-route-signature'')"
    by (simp add: verifySigningString_def split: if_splits)
  from assms(2) [OF this] obtain n' a' m' tg' ts' nc' where mem: "(n', a', m', tg', ts', nc') \<in> signed"
    and eq: "buildRouteSigningString ROUTE_V1_LABEL n a (rc_method q) (rc_target q) ?ts ?nc
       = buildRouteSigningString ROUTE_V1_LABEL n' a' m' tg' ts' nc'"
    by (elim bexE) (auto simp del: js_join.simps)
  have l: "one_line ROUTE_V1_LABEL" by (simp add: one_line_def ROUTE_V1_LABEL_def newline_def)
  have lhs: "list_all one_line [ROUTE_V1_LABEL, n, a, rc_method q, rc_target q, ?ts, ?nc]"
    using l ok(3,5,7) assms(5) by (simp add: one_line_node_id one_line_digits nonce_pattern_def one_line_hex)
  have rhs: "list_all one_line [ROUTE_V1_LABEL, n', a', m', tg', ts', nc']"
    using l bspec [OF assms(3) mem] by simp
  have "[ROUTE_V1_LABEL, n, a, rc_method q, rc_target q, ?ts, ?nc]
      = [ROUTE_V1_LABEL, n', a', m', tg', ts', nc']"
    by (rule join7_inject [OF eq [unfolded buildRouteSigningString_def] lhs rhs])
  then show ?thesis using mem ok(2,10,11,12) by auto
qed

theorem accepted_route_request_was_signed_witness:
  "let n = ''node_00112233445566778899aabbccddeeff''; nonce = replicate 32 (CHR ''1''); a = ''hub.example'';
       signed = {(n, a, ''GET'', ''/'', ''100000'', nonce)};
       q = (example_call 90000 nonce)\<lparr>rc_authority := Some a\<rparr> in
   (n, a, rc_method q, rc_target q,
      header (norm_headers (rc_headers q)) ''x-orbit-route-timestamp'',
      header (norm_headers (rc_headers q)) ''x-orbit-route-nonce'') \<in> signed
    \<and> (\<exists>key. rc_keys q (header (norm_headers (rc_headers q)) ''x-orbit-route-key'') = Some key \<and> rk_state key \<in> {''active'', ''rotating''})"
proof -
  let ?n = "''node_00112233445566778899aabbccddeeff''" and ?nonce = "replicate 32 (CHR ''1'')" and ?a = "''hub.example''"
  let ?m = "buildRouteSigningString ROUTE_V1_LABEL ?n ?a ''GET'' ''/'' ''100000'' ?nonce"
  let ?V = "\<lambda>pk msg sig :: str. msg = ?m" and ?dp = "\<lambda>_. None :: int option"
  let ?q = "(example_call 90000 ?nonce)\<lparr>rc_authority := Some ?a\<rparr>"
  let ?key = "\<lparr>rk_keyId = ''0123456789abcdef0123456789abcdef'', rk_publicKey = replicate 64 (CHR ''b''),
     rk_state = ''active'', rk_overlapUntil = None\<rparr>"
  let ?S = "{(?n, ?a, ''GET'', ''/'', ''100000'', ?nonce)}"
  have ok: "verify_call ?V ?dp ?q (new_nonce_cache 60000)
      = (RouteOk ?n ''0123456789abcdef0123456789abcdef'' ?key, snd (verify_call ?V ?dp ?q (new_nonce_cache 60000)))"
    by code_simp
  have lines: "list_all one_line [?n, ?a, ''GET'', ''/'', ''100000'', ?nonce]" by code_simp
  have "(?n, ?a, rc_method ?q, rc_target ?q,
      header (norm_headers (rc_headers ?q)) ''x-orbit-route-timestamp'',
      header (norm_headers (rc_headers ?q)) ''x-orbit-route-nonce'') \<in> ?S
    \<and> rc_keys ?q (header (norm_headers (rc_headers ?q)) ''x-orbit-route-key'') = Some ?key \<and> rk_state ?key \<in> {''active'', ''rotating''}
    \<and> (\<forall>u ms. rk_overlapUntil ?key = Some u \<longrightarrow> u \<noteq> [] \<longrightarrow> ?dp u = Some ms \<longrightarrow> rc_now ?q < ms)"
    by (rule accepted_route_request_was_signed [OF ok, of ?S])
      (use lines in \<open>auto simp: example_call_def simp del: js_join.simps\<close>)
  then show ?thesis unfolding Let_def by blast
qed

end
