(* ===== verification/HubRouteKeys.thy ===== *)
theory HubRouteKeys
  imports RouteAuth
begin

text \<open>
  \<^verbatim>\<open>src/registry/hub-route-keys.mjs\<close>: validation of the complete Hub route-key trust set that a
  heartbeat delivers to a node. The set arrives as parsed JSON; an accepted key has the
  fields of \<^typ>\<open>route_key\<close>. The specification \<open>trust_set\<close> lists the four admissible forms.
\<close>

datatype key_set_error =
    NotArray | EmptySet | TooManyKeys | EntryNotObject | InvalidKeyId | InvalidPublicKey
  | KeyIdMismatch | DuplicateKeyId | DuplicatePublicKey | UnsupportedState | OverlapNotNull
  | OverlapNotTimestamp | OverlapInPast | BadSingleKey | BadPair

text \<open>The checks on one entry, given the ids and public keys seen before it.\<close>

definition check_entry ::
  "(str \<Rightarrow> str) \<Rightarrow> (str \<Rightarrow> int option) \<Rightarrow> int \<Rightarrow> str list \<Rightarrow> str list \<Rightarrow> jsval \<Rightarrow> key_set_error + route_key" where
  "check_entry sha dp nowMs seenKeyIds seenPublicKeys item =
     (if \<not> (case item of JObj _ \<Rightarrow> True | JArr _ \<Rightarrow> True | _ \<Rightarrow> False) then Inl EntryNotObject
      else let ps = (case item of JObj ps \<Rightarrow> ps | _ \<Rightarrow> []);
               state = js_get ''state'' ps; overlapUntil = js_get ''overlapUntil'' ps in
      case (case js_get ''keyId'' ps of JStr s \<Rightarrow> if key_id_pattern s then Some s else None | _ \<Rightarrow> None) of
        None \<Rightarrow> Inl InvalidKeyId
      | Some keyId \<Rightarrow>
      case (case js_get ''publicKey'' ps of JStr s \<Rightarrow> if public_key_pattern s then Some s else None | _ \<Rightarrow> None) of
        None \<Rightarrow> Inl InvalidPublicKey
      | Some publicKey \<Rightarrow>
      if deriveKeyId sha publicKey \<noteq> Inr keyId then Inl KeyIdMismatch
      else if keyId \<in> set seenKeyIds then Inl DuplicateKeyId
      else if publicKey \<in> set seenPublicKeys then Inl DuplicatePublicKey
      else if state \<notin> {JStr ''provisioned'', JStr ''active'', JStr ''rotating''} then Inl UnsupportedState
      else if state = JStr ''rotating'' then
        (case (case overlapUntil of JStr u \<Rightarrow> (case dp u of Some ms \<Rightarrow> Some (u, ms) | None \<Rightarrow> None) | _ \<Rightarrow> None) of
           None \<Rightarrow> Inl OverlapNotTimestamp
         | Some um \<Rightarrow>
             if snd um \<le> nowMs then Inl OverlapInPast
             else Inr \<lparr>rk_keyId = keyId, rk_publicKey = publicKey, rk_state = ''rotating'', rk_overlapUntil = Some (fst um)\<rparr>)
      else if overlapUntil \<noteq> JNull \<and> overlapUntil \<noteq> JUndefined then Inl OverlapNotNull
      else Inr \<lparr>rk_keyId = keyId, rk_publicKey = publicKey,
        rk_state = (if state = JStr ''active'' then ''active'' else ''provisioned''), rk_overlapUntil = None\<rparr>)"

fun check_entries ::
  "(str \<Rightarrow> str) \<Rightarrow> (str \<Rightarrow> int option) \<Rightarrow> int \<Rightarrow> str list \<Rightarrow> str list \<Rightarrow> jsval list \<Rightarrow> key_set_error + route_key list" where
  "check_entries sha dp nowMs ids pks [] = Inr []"
| "check_entries sha dp nowMs ids pks (item # items) =
     (case check_entry sha dp nowMs ids pks item of
        Inl e \<Rightarrow> Inl e
      | Inr k \<Rightarrow>
        case check_entries sha dp nowMs (set_add (rk_keyId k) ids) (set_add (rk_publicKey k) pks) items of
          Inl e \<Rightarrow> Inl e
        | Inr ks \<Rightarrow> Inr (k # ks))"

definition find_state :: "str \<Rightarrow> route_key list \<Rightarrow> route_key option" where
  "find_state st ks = find (\<lambda>k. rk_state k = st) ks"

definition key_set_form :: "route_key list \<Rightarrow> key_set_error + nat" where
  "key_set_form ks =
     (case ks of
        [k] \<Rightarrow> if rk_state k = ''provisioned'' \<and> rk_overlapUntil k = None then Inr 1
               else if rk_state k = ''active'' \<and> rk_overlapUntil k = None then Inr 2
               else Inl BadSingleKey
      | _ \<Rightarrow>
        (case (find_state ''active'' ks, find_state ''provisioned'' ks, find_state ''rotating'' ks) of
           (Some a, Some p, None) \<Rightarrow>
             if rk_overlapUntil a = None \<and> rk_overlapUntil p = None then Inr 3 else Inl BadPair
         | (Some a, None, Some r) \<Rightarrow>
             if rk_overlapUntil a = None \<and> rk_overlapUntil r \<noteq> None then Inr 4 else Inl BadPair
         | _ \<Rightarrow> Inl BadPair))"

definition validateHubRouteKeySet ::
  "(str \<Rightarrow> str) \<Rightarrow> (str \<Rightarrow> int option) \<Rightarrow> int \<Rightarrow> jsval \<Rightarrow> key_set_error + (nat \<times> route_key list)" where
  "validateHubRouteKeySet sha dp nowMs hubRouteKeys =
     (case hubRouteKeys of
        JArr items \<Rightarrow>
          if items = [] then Inl EmptySet
          else if length items > 2 then Inl TooManyKeys
          else (case check_entries sha dp nowMs [] [] items of
            Inl e \<Rightarrow> Inl e
          | Inr keys \<Rightarrow> (case key_set_form keys of Inl e \<Rightarrow> Inl e | Inr form \<Rightarrow> Inr (form, keys)))
      | _ \<Rightarrow> Inl NotArray)"

section \<open>The specification\<close>

definition key_well_formed :: "(str \<Rightarrow> str) \<Rightarrow> route_key \<Rightarrow> bool" where
  "key_well_formed sha k \<longleftrightarrow> key_id_pattern (rk_keyId k) \<and> public_key_pattern (rk_publicKey k)
     \<and> rk_keyId k = take 32 (sha (rk_publicKey k))"

definition provisioned_key :: "route_key \<Rightarrow> bool" where
  "provisioned_key k \<longleftrightarrow> rk_state k = ''provisioned'' \<and> rk_overlapUntil k = None"

definition active_key :: "route_key \<Rightarrow> bool" where
  "active_key k \<longleftrightarrow> rk_state k = ''active'' \<and> rk_overlapUntil k = None"

definition rotating_key :: "(str \<Rightarrow> int option) \<Rightarrow> int \<Rightarrow> route_key \<Rightarrow> bool" where
  "rotating_key dp now k \<longleftrightarrow> rk_state k = ''rotating'' \<and>
     (\<exists>u ms. rk_overlapUntil k = Some u \<and> dp u = Some ms \<and> now < ms)"

definition trust_set :: "(str \<Rightarrow> str) \<Rightarrow> (str \<Rightarrow> int option) \<Rightarrow> int \<Rightarrow> nat \<Rightarrow> route_key list \<Rightarrow> bool" where
  "trust_set sha dp now form ks \<longleftrightarrow> list_all (key_well_formed sha) ks
     \<and> distinct (map rk_keyId ks) \<and> distinct (map rk_publicKey ks)
     \<and> ((form = 1 \<and> (\<exists>k. ks = [k] \<and> provisioned_key k))
      \<or> (form = 2 \<and> (\<exists>k. ks = [k] \<and> active_key k))
      \<or> (form = 3 \<and> (\<exists>a p. (ks = [a, p] \<or> ks = [p, a]) \<and> active_key a \<and> provisioned_key p))
      \<or> (form = 4 \<and> (\<exists>a r. (ks = [a, r] \<or> ks = [r, a]) \<and> active_key a \<and> rotating_key dp now r)))"

text \<open>How a key travels in the heartbeat response.\<close>

definition key_json :: "route_key \<Rightarrow> jsval" where
  "key_json k = JObj [(''keyId'', JStr (rk_keyId k)), (''publicKey'', JStr (rk_publicKey k)),
     (''state'', JStr (rk_state k)),
     (''overlapUntil'', case rk_overlapUntil k of None \<Rightarrow> JNull | Some u \<Rightarrow> JStr u)]"

definition key_ok :: "(str \<Rightarrow> str) \<Rightarrow> (str \<Rightarrow> int option) \<Rightarrow> int \<Rightarrow> route_key \<Rightarrow> bool" where
  "key_ok sha dp now k \<longleftrightarrow> key_well_formed sha k
     \<and> (provisioned_key k \<or> active_key k \<or> rotating_key dp now k)"

lemma check_entry_Inr:
  assumes "check_entry sha dp now ids pks item = Inr k"
  shows "key_ok sha dp now k \<and> rk_keyId k \<notin> set ids \<and> rk_publicKey k \<notin> set pks"
proof -
  let ?ps = "case item of JObj ps \<Rightarrow> ps | _ \<Rightarrow> []"
  let ?o = "js_get ''overlapUntil'' ?ps"
  from assms obtain i p where
    i: "(case js_get ''keyId'' ?ps of JStr s \<Rightarrow> if key_id_pattern s then Some s else None | _ \<Rightarrow> None) = Some i"
    and p: "(case js_get ''publicKey'' ?ps of JStr s \<Rightarrow> if public_key_pattern s then Some s else None | _ \<Rightarrow> None) = Some p"
    and d: "deriveKeyId sha p = Inr i" and n: "i \<notin> set ids" "p \<notin> set pks"
    and k: "(if js_get ''state'' ?ps = JStr ''rotating'' then
        (case (case ?o of JStr u \<Rightarrow> (case dp u of Some ms \<Rightarrow> Some (u, ms) | None \<Rightarrow> None) | _ \<Rightarrow> None) of
           None \<Rightarrow> Inl OverlapNotTimestamp
         | Some um \<Rightarrow> if snd um \<le> now then Inl OverlapInPast
             else Inr \<lparr>rk_keyId = i, rk_publicKey = p, rk_state = ''rotating'', rk_overlapUntil = Some (fst um)\<rparr>)
      else if ?o \<noteq> JNull \<and> ?o \<noteq> JUndefined then Inl OverlapNotNull
      else Inr \<lparr>rk_keyId = i, rk_publicKey = p,
        rk_state = (if js_get ''state'' ?ps = JStr ''active'' then ''active'' else ''provisioned''), rk_overlapUntil = None\<rparr>) = Inr k"
    unfolding check_entry_def Let_def guard_simps not_not by (elim exE conjE) (rule that)
  have "key_id_pattern i" "public_key_pattern p"
    using i p by (auto split: jsval.splits if_splits)
  with d have w: "key_id_pattern i" "public_key_pattern p" "i = take 32 (sha p)"
    by (auto simp: deriveKeyId_def split: if_splits)
  show ?thesis
  proof (cases "js_get ''state'' ?ps = JStr ''rotating''")
    case True
    with k w n show ?thesis
      by (auto simp: guard_simps key_ok_def key_well_formed_def rotating_key_def
          split: jsval.splits option.splits if_splits)
  next
    case False
    with k w n show ?thesis
      by (auto simp: key_ok_def key_well_formed_def provisioned_key_def active_key_def split: if_splits)
  qed
qed

lemma check_entries_Inr:
  assumes "check_entries sha dp now ids pks items = Inr ks"
  shows "list_all (key_ok sha dp now) ks \<and> distinct (map rk_keyId ks) \<and> distinct (map rk_publicKey ks)
    \<and> set (map rk_keyId ks) \<inter> set ids = {} \<and> set (map rk_publicKey ks) \<inter> set pks = {}
    \<and> length ks = length items"
  using assms
proof (induction items arbitrary: ids pks ks)
  case (Cons item items)
  then obtain k ks' where k: "check_entry sha dp now ids pks item = Inr k"
    and ks': "check_entries sha dp now (set_add (rk_keyId k) ids) (set_add (rk_publicKey k) pks) items = Inr ks'"
    and ks: "ks = k # ks'"
    by (auto split: sum.splits)
  from check_entry_Inr [OF k] Cons.IH [OF ks'] show ?case by (auto simp: ks)
qed simp

lemma check_entry_json:
  assumes "key_ok sha dp now k" "rk_keyId k \<notin> set ids" "rk_publicKey k \<notin> set pks"
  shows "check_entry sha dp now ids pks (key_json k) = Inr k"
proof -
  have w: "key_id_pattern (rk_keyId k)" "public_key_pattern (rk_publicKey k)"
    "deriveKeyId sha (rk_publicKey k) = Inr (rk_keyId k)"
    using assms(1) by (auto simp: key_ok_def key_well_formed_def deriveKeyId_def public_key_pattern_def)
  from assms(1) consider "provisioned_key k" | "active_key k" | "rotating_key dp now k"
    by (auto simp: key_ok_def)
  then show ?thesis
    using w assms(2,3)
    by cases (auto simp: check_entry_def key_json_def js_get_def Let_def provisioned_key_def
        active_key_def rotating_key_def)
qed

lemma check_entries_json:
  assumes "list_all (key_ok sha dp now) ks" "distinct (map rk_keyId ks)" "distinct (map rk_publicKey ks)"
    and "set (map rk_keyId ks) \<inter> set ids = {}" "set (map rk_publicKey ks) \<inter> set pks = {}"
  shows "check_entries sha dp now ids pks (map key_json ks) = Inr ks"
  using assms
  by (induction ks arbitrary: ids pks) (simp_all add: check_entry_json)

lemma key_set_form_two:
  assumes "key_ok sha dp now x" "key_ok sha dp now y"
  shows "key_set_form [x, y] = Inr form \<longleftrightarrow>
     (form = 3 \<and> (active_key x \<and> provisioned_key y \<or> active_key y \<and> provisioned_key x))
   \<or> (form = 4 \<and> (active_key x \<and> rotating_key dp now y \<or> active_key y \<and> rotating_key dp now x))"
  using assms
  by (auto simp: key_ok_def key_set_form_def find_state_def provisioned_key_def active_key_def
      rotating_key_def)

lemma key_set_form_one:
  assumes "key_ok sha dp now x"
  shows "key_set_form [x] = Inr form \<longleftrightarrow> (form = 1 \<and> provisioned_key x) \<or> (form = 2 \<and> active_key x)"
  using assms
  by (auto simp: key_ok_def key_set_form_def provisioned_key_def active_key_def rotating_key_def)

lemma trust_set_key_ok: "trust_set sha dp now form ks \<Longrightarrow> list_all (key_ok sha dp now) ks"
  by (auto simp: trust_set_def key_ok_def)

lemma trust_set_single:
  "key_well_formed sha k \<Longrightarrow> provisioned_key k \<Longrightarrow> trust_set sha dp now 1 [k]"
  by (simp add: trust_set_def)

text \<open>
  Trust-set validation is complete: every admissible set, written as the Hub writes it, is
  accepted unchanged and with its form.
\<close>

lemma key_set_validation_complete:
  assumes "trust_set sha dp now form ks"
  shows "validateHubRouteKeySet sha dp now (JArr (map key_json ks)) = Inr (form, ks)"
proof -
  note ok = trust_set_key_ok [OF assms]
  have "check_entries sha dp now [] [] (map key_json ks) = Inr ks"
    using assms ok by (intro check_entries_json) (auto simp: trust_set_def)
  moreover have "key_set_form ks = Inr form \<and> ks \<noteq> [] \<and> length ks \<le> 2"
    using assms ok key_set_form_one [of sha dp now _ form] key_set_form_two [of sha dp now _ _ form]
    by (auto simp: trust_set_def)
  ultimately show ?thesis by (simp add: validateHubRouteKeySet_def not_less [symmetric])
qed

section \<open>Properties\<close>

text \<open>
  C30. Trust-set validation is sound: whatever JSON arrives, the keys a node adopts are one of
  the four admissible forms (one provisioned key, one active key, an active and a provisioned
  one, an active one and a rotating one whose overlap ends in the future), with distinct,
  correctly derived key ids.
\<close>

theorem key_set_validation_sound:
  assumes "validateHubRouteKeySet sha dp now v = Inr (form, keys)"
  shows "trust_set sha dp now form keys"
proof -
  obtain items where items: "length items \<le> 2"
    and c: "check_entries sha dp now [] [] items = Inr keys" and f: "key_set_form keys = Inr form"
  proof (cases v)
    case (JArr items)
    with assms have "length items \<le> 2 \<and> check_entries sha dp now [] [] items = Inr keys
        \<and> key_set_form keys = Inr form"
      by (auto simp: validateHubRouteKeySet_def split: if_splits sum.splits)
    then show ?thesis by (blast intro: that)
  qed (use assms in \<open>simp_all add: validateHubRouteKeySet_def\<close>)
  from check_entries_Inr [OF c] have ok: "list_all (key_ok sha dp now) keys"
    and d: "distinct (map rk_keyId keys)" "distinct (map rk_publicKey keys)" and "length keys \<le> 2"
    using items by auto
  then consider "keys = []" | x where "keys = [x]" | x y where "keys = [x, y]"
    by (cases keys; cases "tl keys") auto
  then show ?thesis
  proof cases
    case 1
    then show ?thesis using f by (simp add: key_set_form_def find_state_def)
  next
    case 2
    then show ?thesis using ok d f key_set_form_one [of sha dp now x form]
      by (auto simp: trust_set_def key_ok_def)
  next
    case 3
    then show ?thesis using ok d f key_set_form_two [of sha dp now x y form]
      by (auto simp: trust_set_def key_ok_def)
  qed
qed

theorem key_set_validation_sound_witness:
  "trust_set (\<lambda>p. p) (\<lambda>_. Some 500) 100 4
     [\<lparr>rk_keyId = replicate 32 (CHR ''a''), rk_publicKey = replicate 64 (CHR ''a''), rk_state = ''active'', rk_overlapUntil = None\<rparr>,
      \<lparr>rk_keyId = replicate 32 (CHR ''b''), rk_publicKey = replicate 64 (CHR ''b''), rk_state = ''rotating'', rk_overlapUntil = Some ''t''\<rparr>]"
  by (rule key_set_validation_sound [where v = "JArr [
      JObj [(''keyId'', JStr (replicate 32 (CHR ''a''))), (''publicKey'', JStr (replicate 64 (CHR ''a''))), (''state'', JStr ''active'')],
      JObj [(''keyId'', JStr (replicate 32 (CHR ''b''))), (''publicKey'', JStr (replicate 64 (CHR ''b''))), (''state'', JStr ''rotating''),
        (''overlapUntil'', JStr ''t'')]]"]) code_simp

end
