(* ===== verification/SingleUse.thy ===== *)
theory SingleUse
  imports Prelude
begin

text \<open>
  The interface of a store of single-use tickets (pairing codes here, registry tokens in the
  registry): operations run on a state, some of them mint a ticket, some redeem one. The
  provider promises that only minting makes a ticket live, that only a live ticket is redeemed,
  and that redeeming kills it; the clients get that a ticket is redeemed at most once.
\<close>

locale single_use =
  fixes ok :: "'op \<Rightarrow> bool"
    and inv :: "'s \<Rightarrow> bool"
    and run :: "'op \<Rightarrow> 's \<Rightarrow> 's"
    and live :: "'s \<Rightarrow> 'k \<Rightarrow> bool"
    and mints :: "'op \<Rightarrow> 'k \<Rightarrow> bool"
    and redeems :: "'op \<Rightarrow> 's \<Rightarrow> 'k \<Rightarrow> bool"
  assumes run_inv: "inv s \<Longrightarrow> ok op \<Longrightarrow> inv (run op s)"
    and live_minted: "inv s \<Longrightarrow> ok op \<Longrightarrow> live (run op s) k \<Longrightarrow> live s k \<or> mints op k"
    and redeem_live: "inv s \<Longrightarrow> redeems op s k \<Longrightarrow> live s k"
    and redeem_kills: "inv s \<Longrightarrow> ok op \<Longrightarrow> redeems op s k \<Longrightarrow> \<not> live (run op s) k"
begin

definition runs :: "'op list \<Rightarrow> 's \<Rightarrow> 's" where
  "runs ops s = foldl (\<lambda>s op. run op s) s ops"

lemma runs_Nil [simp]: "runs [] s = s"
  by (simp add: runs_def)

lemma runs_Cons [simp]: "runs (op # ops) s = runs ops (run op s)"
  by (simp add: runs_def)

lemma runs_append [simp]: "runs (xs @ ys) s = runs ys (runs xs s)"
  by (simp add: runs_def)

lemma runs_inv: "inv s \<Longrightarrow> list_all ok ops \<Longrightarrow> inv (runs ops s)"
  by (induction ops arbitrary: s) (auto intro: run_inv)

lemma stays_dead:
  assumes "inv s" and "list_all ok ops" and "\<not> live s k" and "list_all (\<lambda>op. \<not> mints op k) ops"
  shows "\<not> live (runs ops s) k"
  using assms
proof (induction ops arbitrary: s)
  case (Cons op ops)
  then show ?case
    using live_minted [of s op k] run_inv [of s op] by auto
qed simp

text \<open>A redeemed ticket that is not minted anew is never redeemed again.\<close>

lemma redeemed_once:
  assumes "inv s" and "ok op" and "redeems op s k"
    and "list_all ok ops" and "list_all (\<lambda>op. \<not> mints op k) ops"
  shows "\<not> redeems op' (runs ops (run op s)) k"
proof
  assume r: "redeems op' (runs ops (run op s)) k"
  have "inv (run op s)" using assms(1,2) by (rule run_inv)
  moreover have "\<not> live (run op s) k" using assms(1,2,3) by (rule redeem_kills)
  ultimately have "\<not> live (runs ops (run op s)) k" "inv (runs ops (run op s))"
    using stays_dead [of "run op s" ops k] runs_inv [of "run op s" ops] assms(4,5) by blast+
  with redeem_live r show False by blast
qed

end

end
