(* ===== verification/PairingCode.thy ===== *)
theory PairingCode
  imports SingleUse
begin

text \<open>
  \<^verbatim>\<open>src/registry/pairing-code.mjs\<close>: the engine of six-digit pairing codes, their pairing tokens
  and the failed attempts per client address. Every call takes the clock's value. Arguments
  stand for what the platform draws or parses: the integer of \<open>randomInt\<close>, the hex of
  \<open>randomBytes(24)\<close>, and \<open>parseUrl base code\<close>, the protocol and text of the URL
  \<open>new URL("/auth", base)\<close> with the code as its \<open>token\<close> parameter. The removal timer that
  \<open>generateCode\<close> arms is the operation \<open>expire_timer\<close>, which may run at any later point.
  The event broadcast does not touch this state and is left out.
\<close>

record pairing_record =
  pr_code :: str
  pr_pairingToken :: str
  pr_operatorPrincipal :: str
  pr_createdAt :: int
  pr_expiresAt :: int

record ip_stat =
  failedAttempts :: nat
  lockedUntil :: int
  lastAttemptAt :: int

record pairing_engine =
  ttlMs :: int
  maxFailedAttempts :: nat
  lockDurationMs :: int
  codes :: "(str, pairing_record) omap"
  tokens :: "(str, pairing_record) omap"
  ipAttempts :: "(str, ip_stat) omap"

datatype pairing_error = InvalidHubUrl | InsecureScheme

datatype verify_result =
    RateLimited int
  | CodeRequired
  | CodeNotFound
  | CodeExpired
  | Valid str

definition new_pairing_engine :: "int \<Rightarrow> int \<Rightarrow> int \<Rightarrow> pairing_engine" where
  "new_pairing_engine ttl maxFailed lock =
     \<lparr>ttlMs = max 10000 (min 600000 ttl), maxFailedAttempts = nat (max 1 maxFailed),
      lockDurationMs = max 10000 lock, codes = [], tokens = [], ipAttempts = []\<rparr>"

definition generateCode ::
  "(str \<Rightarrow> str \<Rightarrow> (str \<times> str) option) \<Rightarrow> int \<Rightarrow> nat \<Rightarrow> str \<Rightarrow> str \<Rightarrow> str \<Rightarrow> pairing_engine \<Rightarrow>
     (pairing_error + (pairing_record \<times> str)) \<times> pairing_engine" where
  "generateCode parseUrl nowMs drawn tokenHex operatorPrincipal hubBaseUrl e =
     (if hubBaseUrl = [] then (Inl InvalidHubUrl, e)
      else let code = dec_of_nat drawn in
        case parseUrl hubBaseUrl code of
          None \<Rightarrow> (Inl InvalidHubUrl, e)
        | Some (protocol, url) \<Rightarrow>
            if protocol \<noteq> ''https:'' then (Inl InsecureScheme, e)
            else let r = \<lparr>pr_code = code, pr_pairingToken = tokenHex,
                          pr_operatorPrincipal = (if operatorPrincipal = [] then ''operator'' else operatorPrincipal),
                          pr_createdAt = nowMs, pr_expiresAt = nowMs + ttlMs e\<rparr> in
              (Inr (r, url),
               e\<lparr>codes := AList.update code r (codes e), tokens := AList.update tokenHex r (tokens e)\<rparr>))"

definition expire_timer :: "str \<Rightarrow> str \<Rightarrow> pairing_engine \<Rightarrow> pairing_engine" where
  "expire_timer code pairingToken e =
     e\<lparr>codes := AList.delete code (codes e), tokens := AList.delete pairingToken (tokens e)\<rparr>"

text \<open>The result is the remaining whole seconds of a lock, or \<^const>\<open>None\<close> when not locked.\<close>

definition checkIpLockout :: "int \<Rightarrow> str \<Rightarrow> pairing_engine \<Rightarrow> int option \<times> pairing_engine" where
  "checkIpLockout nowMs ip e =
     (if ip = [] then (None, e)
      else case map_of (ipAttempts e) ip of
        None \<Rightarrow> (None, e)
      | Some stat \<Rightarrow>
          if lockedUntil stat \<noteq> 0 \<and> lockedUntil stat > nowMs
          then (Some (- ((nowMs - lockedUntil stat) div 1000)), e)
          else if nowMs - lastAttemptAt stat > lockDurationMs e
               \<or> (lockedUntil stat \<noteq> 0 \<and> lockedUntil stat \<le> nowMs)
          then (None, e\<lparr>ipAttempts := AList.delete ip (ipAttempts e)\<rparr>)
          else (None, e))"

definition prune_ips :: "int \<Rightarrow> pairing_engine \<Rightarrow> (str, ip_stat) omap" where
  "prune_ips nowMs e =
     (if length (ipAttempts e) > 500
      then filter (\<lambda>kv. \<not> nowMs - lastAttemptAt (snd kv) > lockDurationMs e) (ipAttempts e)
      else ipAttempts e)"

definition recordFailure :: "int \<Rightarrow> str \<Rightarrow> pairing_engine \<Rightarrow> pairing_engine" where
  "recordFailure nowMs ip e =
     (if ip = [] then e
      else let kept = prune_ips nowMs e;
               stat = (case map_of kept ip of
                 Some s \<Rightarrow> s
               | None \<Rightarrow> \<lparr>failedAttempts = 0, lockedUntil = 0, lastAttemptAt = nowMs\<rparr>);
               prior = (if nowMs - lastAttemptAt stat > lockDurationMs e \<and> lockedUntil stat = 0
                               then 0 else failedAttempts stat);
               attempts = prior + 1;
               stat' = \<lparr>failedAttempts = attempts,
                        lockedUntil = (if attempts \<ge> maxFailedAttempts e then nowMs + lockDurationMs e
                                       else lockedUntil stat),
                        lastAttemptAt = nowMs\<rparr>
      in e\<lparr>ipAttempts := AList.update ip stat' kept\<rparr>)"

definition find_record :: "str \<Rightarrow> pairing_engine \<Rightarrow> pairing_record option" where
  "find_record input e =
     (case map_of (codes e) input of Some r \<Rightarrow> Some r | None \<Rightarrow> map_of (tokens e) input)"

definition redeem_record :: "int \<Rightarrow> str \<Rightarrow> pairing_record \<Rightarrow> pairing_engine \<Rightarrow> verify_result \<times> pairing_engine" where
  "redeem_record nowMs clientIp r e =
     (let e1 = expire_timer (pr_code r) (pr_pairingToken r) e in
      if nowMs > pr_expiresAt r then (CodeExpired, recordFailure nowMs clientIp e1)
      else (Valid (pr_operatorPrincipal r),
            if clientIp = [] then e1 else e1\<lparr>ipAttempts := AList.delete clientIp (ipAttempts e1)\<rparr>))"

definition verifyCode :: "int \<Rightarrow> str \<Rightarrow> str \<Rightarrow> pairing_engine \<Rightarrow> verify_result \<times> pairing_engine" where
  "verifyCode nowMs inputCode clientIp e =
     (case checkIpLockout nowMs clientIp e of
        (Some remaining, e0) \<Rightarrow> (RateLimited remaining, e0)
      | (None, e0) \<Rightarrow>
          let trimmed = js_trim inputCode in
          if trimmed = [] then (CodeRequired, recordFailure nowMs clientIp e0)
          else case find_record trimmed e0 of
            None \<Rightarrow> (CodeNotFound, recordFailure nowMs clientIp e0)
          | Some r \<Rightarrow> redeem_record nowMs clientIp r e0)"

definition getActiveCodeCount :: "pairing_engine \<Rightarrow> nat" where
  "getActiveCodeCount e = length (codes e)"

section \<open>Runs of the engine\<close>

datatype pairing_op =
    Generate int nat str str str
  | Verify int str str
  | Timer str str

fun pairing_run :: "(str \<Rightarrow> str \<Rightarrow> (str \<times> str) option) \<Rightarrow> pairing_op \<Rightarrow> pairing_engine \<Rightarrow> pairing_engine" where
  "pairing_run url (Generate t n tk op hub) e = snd (generateCode url t n tk op hub e)"
| "pairing_run url (Verify t c ip) e = snd (verifyCode t c ip e)"
| "pairing_run url (Timer c tk) e = expire_timer c tk e"

text \<open>What the random sources promise: a six-digit code and 48 hex digits.\<close>

fun pairing_op_ok :: "pairing_op \<Rightarrow> bool" where
  "pairing_op_ok (Generate t n tk op hub) = (100000 \<le> n \<and> n < 1000000 \<and> hex_pattern 48 tk)"
| "pairing_op_ok _ = True"

definition pairing_inv :: "pairing_engine \<Rightarrow> bool" where
  "pairing_inv e \<longleftrightarrow> omap_wf (codes e) \<and> omap_wf (tokens e) \<and> omap_wf (ipAttempts e)
     \<and> (\<forall>k r. map_of (codes e) k = Some r \<longrightarrow> length k = 6 \<and> pr_code r = k \<and> length (pr_pairingToken r) = 48)
     \<and> (\<forall>k r. map_of (tokens e) k = Some r \<longrightarrow> length k = 48 \<and> pr_pairingToken r = k \<and> length (pr_code r) = 6)"

definition ticket_live :: "pairing_engine \<Rightarrow> str \<Rightarrow> bool" where
  "ticket_live e k \<longleftrightarrow> find_record k e \<noteq> None"

fun mints_ticket :: "pairing_op \<Rightarrow> str \<Rightarrow> bool" where
  "mints_ticket (Generate t n tk op hub) k = (k = dec_of_nat n \<or> k = tk)"
| "mints_ticket _ k = False"

text \<open>A verification redeems the string that was entered.\<close>

fun redeems_ticket :: "pairing_op \<Rightarrow> pairing_engine \<Rightarrow> str \<Rightarrow> bool" where
  "redeems_ticket (Verify t c ip) e k =
     ((\<exists>p. fst (verifyCode t c ip e) = Valid p) \<and> k = js_trim c)"
| "redeems_ticket _ e k = False"

section \<open>Tickets\<close>

lemma checkIpLockout_codes:
  "codes (snd (checkIpLockout t ip e)) = codes e \<and> tokens (snd (checkIpLockout t ip e)) = tokens e
   \<and> ttlMs (snd (checkIpLockout t ip e)) = ttlMs e"
  by (auto simp: checkIpLockout_def split: option.splits)

lemma recordFailure_codes:
  "codes (recordFailure t ip e) = codes e \<and> tokens (recordFailure t ip e) = tokens e
   \<and> ttlMs (recordFailure t ip e) = ttlMs e"
  by (simp add: recordFailure_def Let_def)

lemmas frame_codes [simp] =
  checkIpLockout_codes [THEN conjunct1] checkIpLockout_codes [THEN conjunct2, THEN conjunct1]
  checkIpLockout_codes [THEN conjunct2, THEN conjunct2]
  recordFailure_codes [THEN conjunct1] recordFailure_codes [THEN conjunct2, THEN conjunct1]
  recordFailure_codes [THEN conjunct2, THEN conjunct2]

lemma find_record_frame [simp]:
  "find_record k (snd (checkIpLockout t ip e)) = find_record k e"
  "find_record k (recordFailure t ip e) = find_record k e"
  "find_record k (e\<lparr>ipAttempts := m\<rparr>) = find_record k e"
  by (simp_all add: find_record_def cong: option.case_cong)

lemma checkIpLockout_wf [simp]:
  "omap_wf (ipAttempts e) \<Longrightarrow> omap_wf (ipAttempts (snd (checkIpLockout t ip e)))"
  by (auto simp: checkIpLockout_def split: option.splits)

lemma recordFailure_wf [simp]:
  "omap_wf (ipAttempts e) \<Longrightarrow> omap_wf (ipAttempts (recordFailure t ip e))"
  by (simp add: recordFailure_def Let_def prune_ips_def)

text \<open>What a verification does to the codes and tokens, on every branch.\<close>

lemma verifyCode_tickets:
  "(codes (snd (verifyCode t c ip e)) = codes e \<and> tokens (snd (verifyCode t c ip e)) = tokens e
      \<and> \<not> (\<exists>p. fst (verifyCode t c ip e) = Valid p))
   \<or> (\<exists>r. find_record (js_trim c) e = Some r
      \<and> codes (snd (verifyCode t c ip e)) = AList.delete (pr_code r) (codes e)
      \<and> tokens (snd (verifyCode t c ip e)) = AList.delete (pr_pairingToken r) (tokens e)
      \<and> (\<forall>p. fst (verifyCode t c ip e) = Valid p \<longrightarrow> t \<le> pr_expiresAt r \<and> p = pr_operatorPrincipal r))"
proof -
  obtain l e0 where l: "checkIpLockout t ip e = (l, e0)" by fastforce
  then have e0: "codes e0 = codes e" "tokens e0 = tokens e" "find_record (js_trim c) e0 = find_record (js_trim c) e"
    using checkIpLockout_codes [of t ip e] find_record_frame(1) [of "js_trim c" t ip e] by auto
  show ?thesis
    by (cases l; cases "js_trim c = []"; cases "find_record (js_trim c) e")
      (simp_all add: verifyCode_def l e0 redeem_record_def expire_timer_def Let_def)
qed

lemma verifyCode_ttl [simp]: "ttlMs (snd (verifyCode t c ip e)) = ttlMs e"
proof -
  obtain l e0 where l: "checkIpLockout t ip e = (l, e0)" by fastforce
  then have e0: "ttlMs e0 = ttlMs e"
    using checkIpLockout_codes [of t ip e] by auto
  show ?thesis
    by (cases l; cases "js_trim c = []"; cases "find_record (js_trim c) e0")
      (simp_all add: verifyCode_def l e0 redeem_record_def expire_timer_def Let_def)
qed

lemma verifyCode_wf: "omap_wf (ipAttempts e) \<Longrightarrow> omap_wf (ipAttempts (snd (verifyCode t c ip e)))"
proof -
  assume wf: "omap_wf (ipAttempts e)"
  obtain l e0 where l: "checkIpLockout t ip e = (l, e0)" by fastforce
  then have e0: "omap_wf (ipAttempts e0)"
    using checkIpLockout_wf [OF wf, of t ip] by simp
  show ?thesis
    by (cases l; cases "js_trim c = []"; cases "find_record (js_trim c) e0")
      (simp_all add: verifyCode_def l e0 redeem_record_def expire_timer_def Let_def)
qed

lemma generateCode_cases:
  obtains "snd (generateCode url t n tk op hub e) = e"
  | r where "snd (generateCode url t n tk op hub e)
      = e\<lparr>codes := AList.update (dec_of_nat n) r (codes e), tokens := AList.update tk r (tokens e)\<rparr>"
    "pr_code r = dec_of_nat n" "pr_pairingToken r = tk" "pr_createdAt r = t" "pr_expiresAt r = t + ttlMs e"
    "pr_operatorPrincipal r = (if op = [] then ''operator'' else op)"
    "\<exists>text. url hub (dec_of_nat n) = Some (''https:'', text)"
proof (cases "hub \<noteq> [] \<and> (\<exists>text. url hub (dec_of_nat n) = Some (''https:'', text))")
  case True
  then obtain href where "hub \<noteq> []" "url hub (dec_of_nat n) = Some (''https:'', href)" by blast
  then show thesis
    by (intro that(2) [of "\<lparr>pr_code = dec_of_nat n, pr_pairingToken = tk,
        pr_operatorPrincipal = (if op = [] then ''operator'' else op), pr_createdAt = t, pr_expiresAt = t + ttlMs e\<rparr>"])
      (simp_all add: generateCode_def Let_def)
next
  case False
  then show thesis
    by (intro that(1)) (auto simp: generateCode_def Let_def split: option.splits prod.splits)
qed

lemma dec_of_nat_six:
  assumes "100000 \<le> n" "n < 1000000"
  shows "length (dec_of_nat n) = 6"
proof -
  have s: "dec_of_nat m = (if m < 10 then [char_of (48 + m)] else dec_of_nat (m div 10) @ [char_of (48 + m mod 10)])" for m
    by (rule dec_of_nat.simps)
  have d: "length (dec_of_nat m) = (if m < 10 then 1 else Suc (length (dec_of_nat (m div 10))))" for m
    by (subst s) simp
  have "n div 10 div 10 div 10 div 10 div 10 < 10" "\<not> n div 10 div 10 div 10 div 10 < 10"
    "\<not> n div 10 div 10 div 10 < 10" "\<not> n div 10 div 10 < 10" "\<not> n div 10 < 10" "\<not> n < 10"
    using assms by linarith+
  then show ?thesis by (simp add: d [of n] d [of "n div 10"] d [of "n div 10 div 10"]
        d [of "n div 10 div 10 div 10"] d [of "n div 10 div 10 div 10 div 10"]
        d [of "n div 10 div 10 div 10 div 10 div 10"] del: div_mult2_eq)
qed

lemma pairing_inv_delete:
  assumes "pairing_inv e" "codes e' = AList.delete a (codes e)" "tokens e' = AList.delete b (tokens e)"
    "omap_wf (ipAttempts e')"
  shows "pairing_inv e'"
  using assms by (auto simp: pairing_inv_def orbit_simps)

lemma pairing_run_inv:
  assumes "pairing_inv e" and "pairing_op_ok x"
  shows "pairing_inv (pairing_run url x e)"
proof (cases x)
  case (Generate t n tk op hub)
  then have n: "100000 \<le> n" "n < 1000000" "length tk = 48"
    using assms(2) by (simp_all add: hex_pattern_def)
  show ?thesis
  proof (cases rule: generateCode_cases [of url t n tk op hub e])
    case 1
    then show ?thesis using assms(1) by (simp add: Generate)
  next
    case (2 r)
    then show ?thesis using assms(1) n dec_of_nat_six [of n]
      by (auto simp: Generate pairing_inv_def orbit_simps)
  qed
next
  case (Verify t c ip)
  have wf: "omap_wf (ipAttempts (snd (verifyCode t c ip e)))"
    using assms(1) by (intro verifyCode_wf) (simp add: pairing_inv_def)
  from verifyCode_tickets [of t c ip e] show ?thesis
  proof (elim disjE exE conjE)
    assume "codes (snd (verifyCode t c ip e)) = codes e" "tokens (snd (verifyCode t c ip e)) = tokens e"
    then show ?thesis using assms(1) wf by (simp add: Verify pairing_inv_def)
  next
    fix r
    assume "codes (snd (verifyCode t c ip e)) = AList.delete (pr_code r) (codes e)"
      "tokens (snd (verifyCode t c ip e)) = AList.delete (pr_pairingToken r) (tokens e)"
    from pairing_inv_delete [OF assms(1) this wf] show ?thesis by (simp add: Verify)
  qed
next
  case (Timer c tk)
  then show ?thesis
    using pairing_inv_delete [OF assms(1), of "expire_timer c tk e" c tk] assms(1)
    by (simp add: expire_timer_def pairing_inv_def)
qed

lemma pairing_inv_new: "pairing_inv (new_pairing_engine a b c)"
  by (simp add: pairing_inv_def new_pairing_engine_def)

lemma live_delete:
  assumes "codes e' = AList.delete a (codes e)" "tokens e' = AList.delete b (tokens e)" "ticket_live e' k"
  shows "ticket_live e k"
  using assms by (auto simp: ticket_live_def find_record_def orbit_simps split: option.splits if_splits)

lemma live_after_run:
  assumes "ticket_live (pairing_run url x e) k"
  shows "ticket_live e k \<or> mints_ticket x k"
proof (cases x)
  case (Generate t n tk op hub)
  show ?thesis
  proof (cases rule: generateCode_cases [of url t n tk op hub e])
    case 1
    then show ?thesis using assms by (simp add: Generate)
  next
    case (2 r)
    then show ?thesis using assms
      by (auto simp: Generate ticket_live_def find_record_def orbit_simps split: option.splits if_splits)
  qed
next
  case (Verify t c ip)
  from verifyCode_tickets [of t c ip e] show ?thesis
  proof (elim disjE exE conjE)
    assume "codes (snd (verifyCode t c ip e)) = codes e" "tokens (snd (verifyCode t c ip e)) = tokens e"
    then show ?thesis using assms
      by (simp add: Verify ticket_live_def find_record_def cong: option.case_cong)
  next
    fix r
    assume "codes (snd (verifyCode t c ip e)) = AList.delete (pr_code r) (codes e)"
      "tokens (snd (verifyCode t c ip e)) = AList.delete (pr_pairingToken r) (tokens e)"
    from live_delete [OF this] assms show ?thesis by (simp add: Verify)
  qed
next
  case (Timer c tk)
  then show ?thesis using assms live_delete [of "expire_timer c tk e" c e tk k]
    by (simp add: expire_timer_def)
qed

text \<open>After a valid verification no name of the record is live.\<close>

lemma verify_kills:
  assumes "pairing_inv e" "fst (verifyCode t c ip e) = Valid p" "find_record (js_trim c) e = Some r"
    "k = js_trim c \<or> k = pr_code r \<or> k = pr_pairingToken r"
  shows "\<not> ticket_live (snd (verifyCode t c ip e)) k"
proof -
  from verifyCode_tickets [of t c ip e] assms(2,3)
  have d: "codes (snd (verifyCode t c ip e)) = AList.delete (pr_code r) (codes e)"
    "tokens (snd (verifyCode t c ip e)) = AList.delete (pr_pairingToken r) (tokens e)" by auto
  have len: "length (pr_code r) = 6 \<and> length (pr_pairingToken r) = 48 \<and> (js_trim c = pr_code r \<or> js_trim c = pr_pairingToken r)"
    using assms(1,3) by (auto simp: pairing_inv_def find_record_def split: option.splits)
  have not_token: "map_of (tokens e) (pr_code r) = None"
  proof (rule ccontr)
    assume "map_of (tokens e) (pr_code r) \<noteq> None"
    then show False using assms(1) len by (auto simp: pairing_inv_def)
  qed
  have not_code: "map_of (codes e) (pr_pairingToken r) = None"
  proof (rule ccontr)
    assume "map_of (codes e) (pr_pairingToken r) \<noteq> None"
    then show False using assms(1) len by (auto simp: pairing_inv_def)
  qed
  show ?thesis
    using assms(4) len not_token not_code by (auto simp: ticket_live_def find_record_def d orbit_simps)
qed

interpretation pairing: single_use pairing_op_ok pairing_inv "pairing_run url" ticket_live mints_ticket redeems_ticket
proof unfold_locales
  fix e x k
  show "pairing_inv e \<Longrightarrow> pairing_op_ok x \<Longrightarrow> pairing_inv (pairing_run url x e)"
    by (rule pairing_run_inv)
  show "ticket_live (pairing_run url x e) k \<Longrightarrow> ticket_live e k \<or> mints_ticket x k"
    by (rule live_after_run)
  show "redeems_ticket x e k \<Longrightarrow> ticket_live e k"
  proof (cases x)
    case (Verify t c ip)
    then show "redeems_ticket x e k \<Longrightarrow> ticket_live e k"
      using verifyCode_tickets [of t c ip e] by (auto simp: ticket_live_def)
  qed simp_all
  show "pairing_inv e \<Longrightarrow> pairing_op_ok x \<Longrightarrow> redeems_ticket x e k \<Longrightarrow> \<not> ticket_live (pairing_run url x e) k"
  proof (cases x)
    case (Verify t c ip)
    assume "pairing_inv e" "redeems_ticket x e k"
    with Verify show "\<not> ticket_live (pairing_run url x e) k"
      using verifyCode_tickets [of t c ip e] verify_kills [of e t c ip _ _ k] by auto
  qed simp_all
qed

definition pairing_runs :: "(str \<Rightarrow> str \<Rightarrow> (str \<times> str) option) \<Rightarrow> pairing_op list \<Rightarrow> pairing_engine \<Rightarrow> pairing_engine" where
  "pairing_runs url ops e = foldl (\<lambda>e x. pairing_run url x e) e ops"

lemma pairing_runs_eq: "pairing.runs url ops e = pairing_runs url ops e"
  by (simp add: pairing.runs_def pairing_runs_def)

lemma pairing_runs_simps [simp]:
  "pairing_runs url [] e = e"
  "pairing_runs url (x # ops) e = pairing_runs url ops (pairing_run url x e)"
  "pairing_runs url (xs @ ys) e = pairing_runs url ys (pairing_runs url xs e)"
  by (simp_all add: pairing_runs_def)

lemma pairing_reachable_inv:
  "list_all pairing_op_ok ops \<Longrightarrow> pairing_inv (pairing_runs url ops (new_pairing_engine a b c))"
  using pairing.runs_inv [of _ ops url] by (simp add: pairing_runs_eq pairing_inv_new)

section \<open>Where records come from\<close>

text \<open>A record of the run was generated over TLS, at its creation time, with the engine's ttl.\<close>

definition generated :: "(str \<Rightarrow> str \<Rightarrow> (str \<times> str) option) \<Rightarrow> int \<Rightarrow> pairing_op list \<Rightarrow> pairing_record \<Rightarrow> bool" where
  "generated url ttl ops r \<longleftrightarrow> (\<exists>t n tk op hub text. Generate t n tk op hub \<in> set ops
     \<and> url hub (dec_of_nat n) = Some (''https:'', text)
     \<and> r = \<lparr>pr_code = dec_of_nat n, pr_pairingToken = tk,
            pr_operatorPrincipal = (if op = [] then ''operator'' else op),
            pr_createdAt = t, pr_expiresAt = t + ttl\<rparr>)"

lemma generated_mono: "generated url ttl ops r \<Longrightarrow> set ops \<subseteq> set ops' \<Longrightarrow> generated url ttl ops' r"
  unfolding generated_def by blast

definition all_generated :: "(str \<Rightarrow> str \<Rightarrow> (str \<times> str) option) \<Rightarrow> pairing_op list \<Rightarrow> pairing_engine \<Rightarrow> bool" where
  "all_generated url ops e \<longleftrightarrow> (\<forall>k r. map_of (codes e) k = Some r \<or> map_of (tokens e) k = Some r
      \<longrightarrow> generated url (ttlMs e) ops r)"

lemma all_generated_run:
  assumes g: "all_generated url ops e"
  shows "all_generated url (ops @ [x]) (pairing_run url x e) \<and> ttlMs (pairing_run url x e) = ttlMs e"
proof -
  have old: "generated url (ttlMs e) (ops @ [x]) r"
    if "map_of (codes e) k = Some r \<or> map_of (tokens e) k = Some r" for k r
    using g that generated_mono [of url "ttlMs e" ops r "ops @ [x]"] by (auto simp: all_generated_def)
  have del: "all_generated url (ops @ [x])
      (e\<lparr>codes := AList.delete a (codes e), tokens := AList.delete b (tokens e)\<rparr>)" for a b
    by (auto simp: all_generated_def orbit_simps split: if_splits
        intro: old [OF disjI1] old [OF disjI2])
  have upd: "all_generated url (ops @ [x])
      (e\<lparr>codes := AList.update a r' (codes e), tokens := AList.update b r' (tokens e)\<rparr>)"
    if "generated url (ttlMs e) (ops @ [x]) r'" for a b r'
    using that by (auto simp: all_generated_def orbit_simps split: if_splits
        intro: old [OF disjI1] old [OF disjI2])
  show ?thesis
  proof (cases x)
    case (Generate t n tk op hub)
    note old = old [unfolded Generate]
    show ?thesis
    proof (cases rule: generateCode_cases [of url t n tk op hub e])
      case 1
      then show ?thesis by (auto simp: Generate all_generated_def intro: old [OF disjI1] old [OF disjI2])
    next
      case (2 r')
      then have "r' = \<lparr>pr_code = dec_of_nat n, pr_pairingToken = tk,
          pr_operatorPrincipal = (if op = [] then ''operator'' else op), pr_createdAt = t, pr_expiresAt = t + ttlMs e\<rparr>"
        by simp
      with 2 have "generated url (ttlMs e) (ops @ [x]) r'"
        unfolding generated_def Generate by auto
      from upd [OF this, of tk "dec_of_nat n"] show ?thesis using 2(1) by (simp add: Generate)
    qed
  next
    case (Verify t c ip)
    note old = old [unfolded Verify]
    from verifyCode_tickets [of t c ip e] show ?thesis
    proof (elim disjE exE conjE)
      assume "codes (snd (verifyCode t c ip e)) = codes e" "tokens (snd (verifyCode t c ip e)) = tokens e"
      then show ?thesis by (auto simp: Verify all_generated_def intro: old [OF disjI1] old [OF disjI2])
    next
      fix r
      assume "codes (snd (verifyCode t c ip e)) = AList.delete (pr_code r) (codes e)"
        "tokens (snd (verifyCode t c ip e)) = AList.delete (pr_pairingToken r) (tokens e)"
      then show ?thesis by (auto simp: Verify all_generated_def orbit_simps split: if_splits
            intro: old [OF disjI1] old [OF disjI2])
    qed
  next
    case (Timer c tk)
    then show ?thesis using del [of tk c] by (simp add: expire_timer_def)
  qed
qed

lemma all_generated_runs:
  "all_generated url ops (pairing_runs url ops (new_pairing_engine a b c))
   \<and> ttlMs (pairing_runs url ops (new_pairing_engine a b c)) = max 10000 (min 600000 a)"
proof (induction ops rule: rev_induct)
  case Nil
  then show ?case by (simp add: all_generated_def new_pairing_engine_def)
next
  case (snoc x ops)
  then show ?case using all_generated_run [of url ops "pairing_runs url ops (new_pairing_engine a b c)" x]
    by simp
qed

section \<open>Guessing from one address\<close>

definition is_valid :: "verify_result \<Rightarrow> bool" where
  "is_valid v = (case v of Valid _ \<Rightarrow> True | _ \<Rightarrow> False)"

definition is_limited :: "verify_result \<Rightarrow> bool" where
  "is_limited v = (case v of RateLimited _ \<Rightarrow> True | _ \<Rightarrow> False)"

lemma is_valid_iff: "is_valid v \<longleftrightarrow> (\<exists>p. v = Valid p)"
  and is_limited_iff: "is_limited v \<longleftrightarrow> (\<exists>s. v = RateLimited s)"
  by (auto simp: is_valid_def is_limited_def split: verify_result.splits)

text \<open>An attempt is a guess when it gets past the lock, so that its input is looked at.\<close>

fun guess :: "str \<Rightarrow> pairing_op \<Rightarrow> pairing_engine \<Rightarrow> nat" where
  "guess ip (Verify t c ip') e =
     (if ip' = ip \<and> \<not> is_limited (fst (verifyCode t c ip' e)) then 1 else 0)"
| "guess ip _ e = 0"

fun guesses :: "(str \<Rightarrow> str \<Rightarrow> (str \<times> str) option) \<Rightarrow> str \<Rightarrow> pairing_op list \<Rightarrow> pairing_engine \<Rightarrow> nat" where
  "guesses url ip [] e = 0"
| "guesses url ip (x # ops) e = guess ip x e + guesses url ip ops (pairing_run url x e)"

fun op_time_in :: "int \<Rightarrow> int \<Rightarrow> pairing_op \<Rightarrow> bool" where
  "op_time_in a b (Verify t c ip) = (a \<le> t \<and> t < b)"
| "op_time_in a b _ = True"

fun wins :: "(str \<Rightarrow> str \<Rightarrow> (str \<times> str) option) \<Rightarrow> str \<Rightarrow> pairing_op list \<Rightarrow> pairing_engine \<Rightarrow> bool" where
  "wins url ip [] e = False"
| "wins url ip (x # ops) e =
     ((case x of Verify t c ip' \<Rightarrow> ip' = ip \<and> is_valid (fst (verifyCode t c ip' e)) | _ \<Rightarrow> False)
      \<or> wins url ip ops (pairing_run url x e))"

definition window :: "int \<Rightarrow> str \<Rightarrow> nat \<Rightarrow> pairing_engine \<Rightarrow> bool" where
  "window t0 ip c e \<longleftrightarrow> omap_wf (ipAttempts e) \<and> c \<le> maxFailedAttempts e \<and>
     (c = 0 \<or> (\<exists>st. map_of (ipAttempts e) ip = Some st \<and> c \<le> failedAttempts st
        \<and> t0 \<le> lastAttemptAt st
        \<and> (if lockedUntil st = 0 then failedAttempts st < maxFailedAttempts e
           else t0 + lockDurationMs e \<le> lockedUntil st)))"

lemma checkIpLockout_frame:
  "lockDurationMs (snd (checkIpLockout t ip e)) = lockDurationMs e"
  "maxFailedAttempts (snd (checkIpLockout t ip e)) = maxFailedAttempts e"
  "ip' \<noteq> ip \<Longrightarrow> map_of (ipAttempts (snd (checkIpLockout t ip' e))) ip = map_of (ipAttempts e) ip"
  by (auto simp: checkIpLockout_def orbit_simps split: option.splits)

lemma map_of_prune:
  assumes "omap_wf (ipAttempts e)"
  shows "map_of (prune_ips t e) ip = (case map_of (ipAttempts e) ip of None \<Rightarrow> None
     | Some st \<Rightarrow> if length (ipAttempts e) > 500 \<and> t - lastAttemptAt st > lockDurationMs e then None else Some st)"
  using assms by (auto simp: prune_ips_def map_of_filter_wf split: option.splits)

lemma recordFailure_other:
  assumes "omap_wf (ipAttempts e)" "ip' \<noteq> ip" "map_of (ipAttempts e) ip = Some st"
    "t - lastAttemptAt st \<le> lockDurationMs e"
  shows "map_of (ipAttempts (recordFailure t ip' e)) ip = Some st"
  using assms by (simp add: recordFailure_def Let_def orbit_simps map_of_prune)

lemma recordFailure_frame [simp]:
  "lockDurationMs (recordFailure t ip e) = lockDurationMs e"
  "maxFailedAttempts (recordFailure t ip e) = maxFailedAttempts e"
  by (simp_all add: recordFailure_def Let_def)

lemma verifyCode_attempts:
  obtains (limited) s where "fst (verifyCode t c ip e) = RateLimited s" "snd (verifyCode t c ip e) = e"
  | (failed) e1 where "\<not> (\<exists>s. fst (verifyCode t c ip e) = RateLimited s)" "fst (checkIpLockout t ip e) = None"
      "ipAttempts e1 = ipAttempts (snd (checkIpLockout t ip e))" "lockDurationMs e1 = lockDurationMs e"
      "maxFailedAttempts e1 = maxFailedAttempts e" "snd (verifyCode t c ip e) = recordFailure t ip e1"
  | (valid) p where "fst (verifyCode t c ip e) = Valid p"
      "ipAttempts (snd (verifyCode t c ip e)) = (if ip = [] then ipAttempts (snd (checkIpLockout t ip e))
         else AList.delete ip (ipAttempts (snd (checkIpLockout t ip e))))"
      "lockDurationMs (snd (verifyCode t c ip e)) = lockDurationMs e"
      "maxFailedAttempts (snd (verifyCode t c ip e)) = maxFailedAttempts e"
proof -
  obtain l e0 where l: "checkIpLockout t ip e = (l, e0)" by fastforce
  then have e0: "lockDurationMs e0 = lockDurationMs e" "maxFailedAttempts e0 = maxFailedAttempts e"
    using checkIpLockout_frame(1,2) [of t ip e] by auto
  have e: "l \<noteq> None \<Longrightarrow> e0 = e"
    using l by (auto simp: checkIpLockout_def split: option.splits if_splits)
  show thesis
  proof (cases l)
    case (Some s)
    then show thesis using e by (intro limited [of s]) (simp_all add: verifyCode_def l)
  next
    case None
    note l = l [unfolded None]
    show thesis
    proof (cases "js_trim c = [] \<or> find_record (js_trim c) e0 = None")
      case True
      then have "verifyCode t c ip e = ((if js_trim c = [] then CodeRequired else CodeNotFound), recordFailure t ip e0)"
        by (auto simp: verifyCode_def l Let_def)
      then show thesis using e0 by (intro failed [of e0]) (auto simp: l)
    next
      case False
      then obtain r where r: "find_record (js_trim c) e0 = Some r" "js_trim c \<noteq> []" by blast
      then have v: "verifyCode t c ip e = redeem_record t ip r e0"
        by (simp add: verifyCode_def l Let_def)
      show thesis
      proof (cases "t > pr_expiresAt r")
        case True
        then show thesis using e0
          by (intro failed [of "expire_timer (pr_code r) (pr_pairingToken r) e0"])
            (simp_all add: v redeem_record_def l expire_timer_def Let_def)
      next
        case False
        have sl: "snd (checkIpLockout t ip e) = e0" by (simp add: l)
        from False show thesis using e0
          by (intro valid [of "pr_operatorPrincipal r"], unfold sl)
            (simp_all add: v redeem_record_def expire_timer_def Let_def)
      qed
    qed
  qed
qed

text \<open>An unlocked address starts its next failure without a lock, and with its recent count.\<close>

lemma checkIpLockout_unlocked:
  assumes "fst (checkIpLockout t ip e) = None" "ip \<noteq> []"
    "map_of (ipAttempts (snd (checkIpLockout t ip e))) ip = Some st"
  shows "map_of (ipAttempts e) ip = Some st \<and> lockedUntil st = 0 \<and> t - lastAttemptAt st \<le> lockDurationMs e"
  using assms by (auto simp: checkIpLockout_def orbit_simps split: option.splits if_splits)

lemma checkIpLockout_kept:
  assumes "map_of (ipAttempts e) ip = Some st" "lockedUntil st = 0" "t - lastAttemptAt st \<le> lockDurationMs e"
  shows "snd (checkIpLockout t ip e) = e"
  using assms by (simp add: checkIpLockout_def)

lemma checkIpLockout_locked:
  assumes "map_of (ipAttempts e) ip = Some st" "lockedUntil st \<noteq> 0" "t < lockedUntil st" "ip \<noteq> []"
  shows "fst (checkIpLockout t ip e) \<noteq> None"
  using assms by (simp add: checkIpLockout_def)

lemma recordFailure_self:
  assumes wf: "omap_wf (ipAttempts e)" and ip: "ip \<noteq> []"
    and unlocked: "\<And>st. map_of (ipAttempts e) ip = Some st \<Longrightarrow> lockedUntil st = 0"
  shows "\<exists>st. map_of (ipAttempts (recordFailure t ip e)) ip = Some st \<and> 1 \<le> failedAttempts st
    \<and> lastAttemptAt st = t
    \<and> lockedUntil st = (if failedAttempts st \<ge> maxFailedAttempts e then t + lockDurationMs e else 0)
    \<and> (\<forall>old. map_of (ipAttempts e) ip = Some old \<longrightarrow> t - lastAttemptAt old \<le> lockDurationMs e
         \<longrightarrow> failedAttempts st = Suc (failedAttempts old))"
proof (cases "map_of (prune_ips t e) ip")
  case None
  have stale: "\<not> t - lastAttemptAt old \<le> lockDurationMs e" if "map_of (ipAttempts e) ip = Some old" for old
    using map_of_prune [OF wf, of t ip] that None by (simp split: if_splits)
  let ?new = "\<lparr>failedAttempts = 1, lockedUntil = (if maxFailedAttempts e \<le> 1 then t + lockDurationMs e else 0),
      lastAttemptAt = t\<rparr>"
  have "map_of (ipAttempts (recordFailure t ip e)) ip = Some ?new"
    using ip None by (simp add: recordFailure_def Let_def orbit_simps)
  then show ?thesis using stale by (intro exI [of _ ?new]) auto
next
  case (Some st)
  then have "map_of (ipAttempts e) ip = Some st"
    using map_of_prune [OF wf, of t ip] by (cases "map_of (ipAttempts e) ip") (simp_all split: if_splits)
  with Some unlocked show ?thesis using ip
    by (auto simp: recordFailure_def Let_def orbit_simps)
qed

lemma window_verify_self:
  assumes w: "window t0 ip c e" and t: "t0 \<le> t" "t < t0 + lockDurationMs e" and ip: "ip \<noteq> []" and "0 \<le> t0"
    and max: "1 \<le> maxFailedAttempts e" and lock: "0 < lockDurationMs e"
    and no: "\<not> (\<exists>p. fst (verifyCode t i ip e) = Valid p)"
  shows "window t0 ip (c + guess ip (Verify t i ip) e) (snd (verifyCode t i ip e))"
proof (cases rule: verifyCode_attempts [of t i ip e])
  case (limited s)
  then show ?thesis using w by (simp add: is_limited_iff)
next
  case (valid p)
  then show ?thesis using no by simp
next
  case (failed e1)
  have wf: "omap_wf (ipAttempts e1)"
    using w failed(3) by (simp add: window_def)
  have unl: "lockedUntil st = 0" "map_of (ipAttempts e) ip = Some st" "t - lastAttemptAt st \<le> lockDurationMs e"
    if "map_of (ipAttempts e1) ip = Some st" for st
    using checkIpLockout_unlocked [OF failed(2) ip, of st] that failed(3) by auto
  have "\<exists>st. map_of (ipAttempts (snd (verifyCode t i ip e))) ip = Some st \<and> 1 \<le> failedAttempts st
    \<and> lastAttemptAt st = t
    \<and> lockedUntil st = (if failedAttempts st \<ge> maxFailedAttempts e then t + lockDurationMs e else 0)
    \<and> (\<forall>old. map_of (ipAttempts e1) ip = Some old \<longrightarrow> t - lastAttemptAt old \<le> lockDurationMs e
         \<longrightarrow> failedAttempts st = Suc (failedAttempts old))"
    using recordFailure_self [OF wf ip unl(1), of t] unfolding failed(4,5,6) .
  then obtain st where
    st: "map_of (ipAttempts (snd (verifyCode t i ip e))) ip = Some st" "1 \<le> failedAttempts st" "lastAttemptAt st = t"
      "lockedUntil st = (if failedAttempts st \<ge> maxFailedAttempts e then t + lockDurationMs e else 0)"
      "\<And>old. map_of (ipAttempts e1) ip = Some old \<Longrightarrow> t - lastAttemptAt old \<le> lockDurationMs e
         \<Longrightarrow> failedAttempts st = Suc (failedAttempts old)" by blast
  have c: "c = 0 \<or> (\<exists>old. map_of (ipAttempts e1) ip = Some old \<and> c \<le> failedAttempts old
      \<and> failedAttempts old < maxFailedAttempts e \<and> t - lastAttemptAt old \<le> lockDurationMs e)"
  proof (cases "c = 0")
    case False
    with w obtain old where old: "map_of (ipAttempts e) ip = Some old" "c \<le> failedAttempts old"
      "t0 \<le> lastAttemptAt old" "if lockedUntil old = 0 then failedAttempts old < maxFailedAttempts e
         else t0 + lockDurationMs e \<le> lockedUntil old"
      by (auto simp: window_def)
    have z: "lockedUntil old = 0"
      using checkIpLockout_locked [OF old(1) _ _ ip, of t] old(4) t failed(2) by (cases "lockedUntil old = 0") auto
    with old have "snd (checkIpLockout t ip e) = e"
      using t by (intro checkIpLockout_kept [OF old(1)]) auto
    with old z t failed(3) show ?thesis by auto
  qed simp
  have "window t0 ip (Suc c) (snd (verifyCode t i ip e))"
  proof -
    have "Suc c \<le> failedAttempts st \<and> Suc c \<le> maxFailedAttempts e"
      using c st(2,5) max by auto
    moreover have "lockedUntil st = 0 \<Longrightarrow> failedAttempts st < maxFailedAttempts e"
      using st(4) assms(5) t lock by (auto split: if_splits)
    ultimately show ?thesis
      using st(1,3,4) t wf failed(4,5,6) by (auto simp: window_def split: if_splits)
  qed
  then show ?thesis using failed(1) by (simp add: is_limited_iff)
qed

lemma window_verify_other:
  assumes w: "window t0 ip c e" and t: "t0 \<le> t" "t < t0 + lockDurationMs e" and ip: "ip' \<noteq> ip"
  shows "window t0 ip c (snd (verifyCode t i ip' e))"
proof -
  have keep: "map_of (ipAttempts (snd (verifyCode t i ip' e))) ip = Some st"
    if st: "map_of (ipAttempts e) ip = Some st" and last: "t0 \<le> lastAttemptAt st" for st
  proof (cases rule: verifyCode_attempts [of t i ip' e])
    case (limited s)
    then show ?thesis using st by simp
  next
    case (failed e1)
    then show ?thesis using recordFailure_other [of e1 ip' ip st t] st last t w ip checkIpLockout_frame(3) [OF ip [symmetric], of t e]
      by (simp add: window_def checkIpLockout_frame ip)
  next
    case (valid p)
    then show ?thesis using st ip by (simp add: orbit_simps checkIpLockout_frame)
  qed
  have cfg: "lockDurationMs (snd (verifyCode t i ip' e)) = lockDurationMs e"
    "maxFailedAttempts (snd (verifyCode t i ip' e)) = maxFailedAttempts e"
    by (cases rule: verifyCode_attempts [of t i ip' e]; simp)+
  show ?thesis
    using w keep verifyCode_wf [of e t i ip'] unfolding window_def cfg by blast
qed

lemma window_cong:
  "ipAttempts e' = ipAttempts e \<Longrightarrow> lockDurationMs e' = lockDurationMs e \<Longrightarrow> maxFailedAttempts e' = maxFailedAttempts e
   \<Longrightarrow> window t0 ip c e' = window t0 ip c e"
  by (simp only: window_def)

lemma window_step:
  assumes w: "window t0 ip c e" and t: "op_time_in t0 (t0 + lockDurationMs e) x" and ip: "ip \<noteq> []" and "0 \<le> t0"
    and max: "1 \<le> maxFailedAttempts e" and lock: "0 < lockDurationMs e"
    and no: "\<not> wins url ip (x # ops) e"
  shows "window t0 ip (c + guess ip x e) (pairing_run url x e)
    \<and> lockDurationMs (pairing_run url x e) = lockDurationMs e
    \<and> maxFailedAttempts (pairing_run url x e) = maxFailedAttempts e"
proof (cases x)
  case (Generate t n tk op hub)
  then show ?thesis using w window_cong [of "pairing_run url x e" e t0 ip c]
    by (cases rule: generateCode_cases [of url t n tk op hub e]) simp_all
next
  case (Timer cd tk)
  then show ?thesis using w window_cong [of "pairing_run url x e" e t0 ip c] by (simp add: expire_timer_def)
next
  case (Verify t i ip')
  have cfg: "lockDurationMs (snd (verifyCode t i ip' e)) = lockDurationMs e"
    "maxFailedAttempts (snd (verifyCode t i ip' e)) = maxFailedAttempts e"
    by (cases rule: verifyCode_attempts [of t i ip' e]; simp)+
  show ?thesis
  proof (cases "ip' = ip")
    case True
    then show ?thesis using window_verify_self [OF w _ _ ip assms(4) max lock, of t i] t no cfg
      by (simp add: Verify is_valid_iff del: guess.simps)
  next
    case False
    then show ?thesis using window_verify_other [OF w _ _ False, of t i] t cfg by (simp add: Verify)
  qed
qed

lemma window_run:
  assumes "window t0 ip c e" and "list_all (op_time_in t0 (t0 + lockDurationMs e)) ops" and "ip \<noteq> []" and "0 \<le> t0"
    and "1 \<le> maxFailedAttempts e" and "0 < lockDurationMs e" and "\<not> wins url ip ops e"
  shows "c + guesses url ip ops e \<le> maxFailedAttempts e"
  using assms
proof (induction ops arbitrary: c e)
  case Nil
  then show ?case by (simp add: window_def)
next
  case (Cons x ops)
  have "op_time_in t0 (t0 + lockDurationMs e) x" using Cons.prems(2) by simp
  from window_step [OF Cons.prems(1) this Cons.prems(3-7)]
  have s: "window t0 ip (c + guess ip x e) (pairing_run url x e)"
    "lockDurationMs (pairing_run url x e) = lockDurationMs e"
    "maxFailedAttempts (pairing_run url x e) = maxFailedAttempts e" by auto
  have "\<not> wins url ip ops (pairing_run url x e)" using Cons.prems(7) by simp
  then have "c + guess ip x e + guesses url ip ops (pairing_run url x e) \<le> maxFailedAttempts e"
    using Cons.IH [OF s(1)] Cons.prems(2-6) by (simp add: s(2,3))
  then show ?case by simp
qed

lemma pairing_config:
  "lockDurationMs (pairing_runs url ops e) = lockDurationMs e
   \<and> maxFailedAttempts (pairing_runs url ops e) = maxFailedAttempts e"
proof (induction ops arbitrary: e)
  case (Cons x ops)
  have "lockDurationMs (pairing_run url x e) = lockDurationMs e
      \<and> maxFailedAttempts (pairing_run url x e) = maxFailedAttempts e"
  proof (cases x)
    case (Generate t n tk op hub)
    then show ?thesis by (cases rule: generateCode_cases [of url t n tk op hub e]) simp_all
  next
    case (Verify t i ip)
    then show ?thesis by (cases rule: verifyCode_attempts [of t i ip e]) simp_all
  next
    case (Timer c tk)
    then show ?thesis by (simp add: expire_timer_def)
  qed
  then show ?case using Cons.IH by simp
qed simp

text \<open>
  A six-digit code drawn while an older record still holds the same code overwrites it in the
  code table; redeeming the older record's pairing token then removes the newer code.
\<close>

lemma code_collision_destroys_newer:
  "let url = (\<lambda>_ _. Some (''https:'', ''u''));
       e = pairing_runs url [Generate 0 123456 ''t1'' ''op'' ''h'', Generate 5 123456 ''t2'' ''op'' ''h'']
             (new_pairing_engine 300000 5 900000);
       e1 = snd (verifyCode 10 ''t1'' ''ip'' e)
   in fst (verifyCode 9 ''123456'' ''ip'' e) = Valid ''op'' \<and> fst (verifyCode 11 ''123456'' ''ip'' e1) = CodeNotFound"
  by code_simp

section \<open>Properties\<close>

text \<open>
  C17. A pairing code is single-use: in any run of the engine, after a verification succeeded,
  neither what was entered nor the code or the pairing token of its record is ever accepted
  again, unless the random sources draw that very string anew.
\<close>

theorem pairing_code_single_use:
  assumes "list_all pairing_op_ok past" and "list_all pairing_op_ok later"
    and "e = pairing_runs url past (new_pairing_engine ttl maxFailed lock)"
    and "verifyCode t input ip e = (Valid p, e')"
    and "find_record (js_trim input) e = Some r"
    and "js_trim again \<in> {js_trim input, pr_code r, pr_pairingToken r}"
    and "list_all (\<lambda>x. \<not> mints_ticket x (js_trim again)) later"
  shows "fst (verifyCode t' again ip' (pairing_runs url later e')) \<noteq> Valid p'"
proof
  assume v: "fst (verifyCode t' again ip' (pairing_runs url later e')) = Valid p'"
  have inv: "pairing_inv e" using pairing_reachable_inv [OF assms(1)] assms(3) by simp
  have e': "e' = pairing_run url (Verify t input ip) e" by (simp add: assms(4))
  have inv': "pairing_inv e'" unfolding e' by (rule pairing_run_inv [OF inv]) simp
  have "\<not> ticket_live e' (js_trim again)"
    using verify_kills [OF inv, of t input ip p r] assms(4,5,6) by auto
  then have "\<not> ticket_live (pairing_runs url later e') (js_trim again)"
    using pairing.stays_dead [OF inv' assms(2) _ assms(7), of url] by (simp add: pairing_runs_eq)
  moreover have "ticket_live (pairing_runs url later e') (js_trim again)"
    using v pairing.redeem_live [of "pairing_runs url later e'" "Verify t' again ip'" "js_trim again"]
      pairing.runs_inv [OF inv' assms(2), of url] by (simp add: pairing_runs_eq)
  ultimately show False by blast
qed

theorem pairing_code_single_use_witness:
  "let url = (\<lambda>_ _. Some (''https:'', ''u''));
       e = pairing_runs url [Generate 0 123456 (replicate 48 (CHR ''a'')) ''op'' ''h''] (new_pairing_engine 300000 5 900000);
       e' = snd (verifyCode 10 ''123456'' ''ip'' e)
   in fst (verifyCode 20 (replicate 48 (CHR ''a'')) ''ip'' (pairing_runs url [Timer ''9'' ''9''] e')) \<noteq> Valid ''op''"
  unfolding Let_def
  by (rule pairing_code_single_use [where past = "[Generate 0 123456 (replicate 48 (CHR ''a'')) ''op'' ''h'']"
      and ttl = 300000 and maxFailed = 5 and lock = 900000 and t = 10 and input = "''123456''" and ip = "''ip''" and p = "''op''"
      and r = "\<lparr>pr_code = ''123456'', pr_pairingToken = replicate 48 (CHR ''a''), pr_operatorPrincipal = ''op'',
          pr_createdAt = 0, pr_expiresAt = 300000\<rparr>"]) code_simp+

text \<open>
  A code is accepted only while it is fresh and only for the operator it was made for: a
  successful verification enters the code or pairing token of a record that an earlier
  \<open>generateCode\<close> created for an https URL, for the returned principal, and at most the
  configured time to live (never more than ten minutes) before.
\<close>

theorem pairing_code_origin_and_expiry:
  assumes "list_all pairing_op_ok past"
    and "fst (verifyCode t input ip (pairing_runs url past (new_pairing_engine ttl maxFailed lock))) = Valid p"
  shows "\<exists>t0 n tk op hub text. Generate t0 n tk op hub \<in> set past
    \<and> js_trim input \<in> {dec_of_nat n, tk} \<and> url hub (dec_of_nat n) = Some (''https:'', text)
    \<and> p = (if op = [] then ''operator'' else op)
    \<and> t \<le> t0 + max 10000 (min 600000 ttl)"
proof -
  let ?e = "pairing_runs url past (new_pairing_engine ttl maxFailed lock)"
  have inv: "pairing_inv ?e" by (rule pairing_reachable_inv [OF assms(1)])
  from verifyCode_tickets [of t input ip ?e] assms(2) obtain r where
    r: "find_record (js_trim input) ?e = Some r" "t \<le> pr_expiresAt r" "p = pr_operatorPrincipal r" by auto
  have k: "js_trim input = pr_code r \<or> js_trim input = pr_pairingToken r"
    using inv r(1) by (auto simp: pairing_inv_def find_record_def split: option.splits)
  have "generated url (ttlMs ?e) past r"
    using all_generated_runs [of url past ttl maxFailed lock] r(1)
    unfolding all_generated_def find_record_def by (fastforce split: option.splits)
  then have "generated url (max 10000 (min 600000 ttl)) past r"
    using all_generated_runs [of url past ttl maxFailed lock] by simp
  then obtain t0 n tk op hub href where
    "Generate t0 n tk op hub \<in> set past" "url hub (dec_of_nat n) = Some (''https:'', href)"
    "r = \<lparr>pr_code = dec_of_nat n, pr_pairingToken = tk, pr_operatorPrincipal = (if op = [] then ''operator'' else op),
       pr_createdAt = t0, pr_expiresAt = t0 + max 10000 (min 600000 ttl)\<rparr>"
    unfolding generated_def by blast
  with r(2,3) k show ?thesis
    by (intro exI [of _ t0] exI [of _ n] exI [of _ tk] exI [of _ op] exI [of _ hub] exI [of _ href]) simp
qed

theorem pairing_code_origin_and_expiry_witness:
  "\<exists>t0 n tk op hub text. Generate t0 n tk op hub \<in> set [Generate 0 123456 (replicate 48 (CHR ''a'')) ''op'' ''h'']
    \<and> js_trim ''123456'' \<in> {dec_of_nat n, tk} \<and> (\<lambda>_ _. Some (''https:'', ''u'')) hub (dec_of_nat n) = Some (''https:'', text)
    \<and> ''op'' = (if op = [] then ''operator'' else op)
    \<and> 10 \<le> t0 + max 10000 (min 600000 (300000::int))"
  by (rule pairing_code_origin_and_expiry [where ip = "''ip''" and maxFailed = 5 and lock = 900000]) code_simp+

text \<open>
  C20. Guessing is bounded: within any window of the lock duration, and whatever other
  addresses do meanwhile, one address that has not entered a valid code gets at most
  \<open>maxFailedAttempts\<close> inputs looked at; every further one is answered as rate limited.
\<close>

theorem pairing_guessing_bounded:
  assumes "list_all pairing_op_ok past"
    and "e = pairing_runs url past (new_pairing_engine ttl maxFailed lock)"
    and "0 \<le> start" and "list_all (op_time_in start (start + max 10000 lock)) ops"
    and "ip \<noteq> []" and "\<not> wins url ip ops e"
  shows "guesses url ip ops e \<le> nat (max 1 maxFailed)"
proof -
  have cfg: "lockDurationMs e = max 10000 lock" "maxFailedAttempts e = nat (max 1 maxFailed)"
    using pairing_config [of url past "new_pairing_engine ttl maxFailed lock"]
    by (simp_all add: assms(2) new_pairing_engine_def)
  have "window start ip 0 e"
    using pairing_reachable_inv [OF assms(1)] by (simp add: window_def assms(2) pairing_inv_def)
  from window_run [OF this, of ops url] assms(3-6) show ?thesis
    by (simp add: cfg)
qed

theorem pairing_guessing_bounded_witness:
  "guesses (\<lambda>_ _. None) ''ip'' (replicate 7 (Verify 5 ''000000'' ''ip'')) (new_pairing_engine 300000 5 900000) \<le> nat (max 1 5)"
  by (rule pairing_guessing_bounded [where past = "[]" and ttl = 300000 and lock = 900000 and start = 0]) code_simp+

end
