(* ===== verification/ReverseWs.thy ===== *)
theory ReverseWs
  imports Prelude "HOL-Library.Word"
begin

text \<open>
  \<^verbatim>\<open>src/registry/reverse-ws.mjs\<close>: the RFC 6455 frame encoder and the streaming frame parser of
  the reverse transport. A buffer is a list of 8-bit words. \<open>encodeFrame\<close> gets the masking key
  it draws as an argument. The parser's closure variables are the record \<open>parser\<close>; a call of
  \<open>feed\<close> returns the callbacks it fires, in order, as a list of \<open>ws_event\<close>s. Text payloads
  stay bytes: decoding them as UTF-8 is the platform's.
\<close>

unbundle bit_operations_syntax

type_synonym byte = "8 word"

section \<open>Encoder\<close>

definition uint16_be :: "nat \<Rightarrow> byte list" where
  "uint16_be n = [word_of_nat (n div 256), word_of_nat n]"

definition uint64_be :: "nat \<Rightarrow> byte list" where
  "uint64_be n = map (\<lambda>i. word_of_nat (n div 256 ^ (7 - i))) [0..<8]"

definition read_be :: "byte list \<Rightarrow> nat" where
  "read_be bs = foldl (\<lambda>n b. 256 * n + unat b) 0 bs"

definition apply_mask :: "byte list \<Rightarrow> byte list \<Rightarrow> byte list" where
  "apply_mask key payload = map (\<lambda>i. payload ! i XOR key ! (i mod 4)) [0..<length payload]"

definition encodeFrame :: "byte \<Rightarrow> byte list \<Rightarrow> byte list option \<Rightarrow> byte list" where
  "encodeFrame opcode payload maskingKey =
     (let len = length payload;
          m = (if maskingKey = None then 0 else 0x80 :: byte);
          lenBytes = (if len < 126 then [m OR word_of_nat len]
                      else if len < 65536 then (m OR 126) # uint16_be len
                      else (m OR 127) # uint64_be len);
          header = (0x80 OR opcode) # lenBytes
      in case maskingKey of
           None \<Rightarrow> header @ payload
         | Some key \<Rightarrow> header @ key @ apply_mask key payload)"

section \<open>Parser\<close>

datatype ws_error =
    ServerFrameMasked | ClientFrameUnmasked | FrameTooBig | BadControlFrame
  | StrayContinuation | FragmentedTooBig | DataDuringFragmentation

datatype ws_event =
    TextMessage "byte list"
  | BinaryMessage "byte list"
  | CloseFrame nat
  | Ping "byte list"
  | Pong "byte list"
  | WsError ws_error

record parser_config =
  isClient :: bool
  maxMessageBytes :: nat

record parser =
  buffer :: "byte list"
  fragments :: "byte list list"
  fragmentOpcode :: "byte option"
  fragmentBytes :: nat
  failed :: bool

definition new_parser :: parser where
  "new_parser = \<lparr>buffer = [], fragments = [], fragmentOpcode = None, fragmentBytes = 0, failed = False\<rparr>"

text \<open>The outcome of looking at the head of the buffer.\<close>

datatype scan =
    NeedMore
  | Bad ws_error
  | Frame bool byte "byte list" "byte list"

definition scan_body :: "parser_config \<Rightarrow> byte list \<Rightarrow> bool \<Rightarrow> byte \<Rightarrow> bool \<Rightarrow> nat \<Rightarrow> nat \<Rightarrow> scan" where
  "scan_body cfg buf fin opcode masked len off0 =
     (let key = take 4 (drop off0 buf);
          offset = (if masked then off0 + 4 else off0) in
      if len > maxMessageBytes cfg then Bad FrameTooBig
      else if length buf < offset + len then NeedMore
      else let raw = take len (drop offset buf);
               payload = (if masked then apply_mask key raw else raw)
           in Frame fin opcode payload (drop (offset + len) buf))"

definition scan_frame :: "parser_config \<Rightarrow> byte list \<Rightarrow> scan" where
  "scan_frame cfg buf =
     (if length buf < 2 then NeedMore
      else let first = buf ! 0; second = buf ! 1;
               fin = (first AND 0x80 \<noteq> 0); opcode = first AND 0x0f; masked = (second AND 0x80 \<noteq> 0) in
      if isClient cfg \<and> masked then Bad ServerFrameMasked
      else if \<not> isClient cfg \<and> \<not> masked then Bad ClientFrameUnmasked
      else let len7 = unat (second AND 0x7f) in
        if len7 = 126 then
          if length buf < 4 then NeedMore
          else scan_body cfg buf fin opcode masked (read_be (take 2 (drop 2 buf))) 4
        else if len7 = 127 then
          if length buf < 10 then NeedMore
          else if read_be (take 8 (drop 2 buf)) > maxMessageBytes cfg then Bad FrameTooBig
          else scan_body cfg buf fin opcode masked (read_be (take 8 (drop 2 buf))) 10
        else scan_body cfg buf fin opcode masked len7 2)"

definition handleData :: "byte \<Rightarrow> byte list \<Rightarrow> ws_event list" where
  "handleData opcode payload =
     (if opcode = 1 then [TextMessage payload]
      else if opcode = 2 then [BinaryMessage payload]
      else if opcode = 8 then [CloseFrame (if length payload \<ge> 2 then read_be (take 2 payload) else 1005)]
      else if opcode = 9 then [Ping payload]
      else if opcode = 0xa then [Pong payload]
      else [])"

definition fail_with :: "ws_error \<Rightarrow> parser \<Rightarrow> parser \<times> ws_event list" where
  "fail_with e p = (if failed p then (p, []) else (p\<lparr>failed := True\<rparr>, [WsError e]))"

text \<open>One complete frame, after the buffer has moved past it.\<close>

definition handle_frame :: "parser_config \<Rightarrow> bool \<Rightarrow> byte \<Rightarrow> byte list \<Rightarrow> parser \<Rightarrow> parser \<times> ws_event list" where
  "handle_frame cfg fin opcode payload p =
     (if opcode \<ge> 8 then
        if \<not> fin \<or> length payload > 125 then fail_with BadControlFrame p
        else (p, handleData opcode payload)
      else if opcode = 0 then
        (case fragmentOpcode p of
           None \<Rightarrow> fail_with StrayContinuation p
         | Some base \<Rightarrow>
             let p1 = p\<lparr>fragments := fragments p @ [payload], fragmentBytes := fragmentBytes p + length payload\<rparr> in
             if fragmentBytes p1 > maxMessageBytes cfg then fail_with FragmentedTooBig p1
             else if fin then (p1\<lparr>fragments := [], fragmentOpcode := None, fragmentBytes := 0\<rparr>,
                               handleData base (concat (fragments p1)))
             else (p1, []))
      else if fragmentOpcode p \<noteq> None then fail_with DataDuringFragmentation p
      else if fin then (p, handleData opcode payload)
      else (p\<lparr>fragmentOpcode := Some opcode, fragments := [payload], fragmentBytes := length payload\<rparr>, []))"

lemma scan_frame_shrinks: "scan_frame cfg buf = Frame fin opcode payload rest \<Longrightarrow> length rest < length buf"
  by (auto simp: scan_frame_def scan_body_def Let_def split: if_splits)

lemma fail_with_buffer [simp]: "buffer (fst (fail_with e p)) = buffer p"
  by (simp add: fail_with_def)

lemma handle_frame_buffer [simp]: "buffer (fst (handle_frame cfg fin opcode payload p)) = buffer p"
  by (simp add: handle_frame_def Let_def split: option.split)

text \<open>The loop of \<open>feed\<close>: it returns when more bytes are needed and when the parser failed.\<close>

function parse_loop :: "parser_config \<Rightarrow> parser \<Rightarrow> parser \<times> ws_event list" where
  "parse_loop cfg p =
     (case scan_frame cfg (buffer p) of
        NeedMore \<Rightarrow> (p, [])
      | Bad e \<Rightarrow> fail_with e p
      | Frame fin opcode payload rest \<Rightarrow>
          let r = handle_frame cfg fin opcode payload (p\<lparr>buffer := rest\<rparr>) in
          if failed (fst r) then r
          else let r' = parse_loop cfg (fst r) in (fst r', snd r @ snd r'))"
  by pat_completeness auto

termination
proof (relation "measure (\<lambda>(cfg, p). length (buffer p))")
  fix cfg p fin opcode payload rest r
  assume "scan_frame cfg (buffer p) = Frame fin opcode payload rest"
    and "r = handle_frame cfg fin opcode payload (p\<lparr>buffer := rest\<rparr>)"
  then show "((cfg, fst r), (cfg, p)) \<in> measure (\<lambda>(cfg, p). length (buffer p))"
    using scan_frame_shrinks [of cfg "buffer p" fin opcode payload rest] by simp
qed simp

declare parse_loop.simps [simp del]

definition feed :: "parser_config \<Rightarrow> byte list \<Rightarrow> parser \<Rightarrow> parser \<times> ws_event list" where
  "feed cfg chunk p = (if failed p then (p, []) else parse_loop cfg (p\<lparr>buffer := buffer p @ chunk\<rparr>))"

fun feed_all :: "parser_config \<Rightarrow> byte list list \<Rightarrow> parser \<Rightarrow> parser \<times> ws_event list" where
  "feed_all cfg [] p = (p, [])"
| "feed_all cfg (c # cs) p =
     (let r = feed cfg c p; r' = feed_all cfg cs (fst r) in (fst r', snd r @ snd r'))"

section \<open>Chunking\<close>

fun scan_append :: "scan \<Rightarrow> byte list \<Rightarrow> scan" where
  "scan_append NeedMore c = NeedMore"
| "scan_append (Bad e) c = Bad e"
| "scan_append (Frame fin opcode payload rest) c = Frame fin opcode payload (rest @ c)"

lemma scan_body_append:
  "scan_body cfg b fin op masked len off \<noteq> NeedMore \<Longrightarrow>
   scan_body cfg (b @ c) fin op masked len off = scan_append (scan_body cfg b fin op masked len off) c"
  by (auto simp: scan_body_def Let_def split: if_splits)

lemma take_drop_append: "m + n \<le> length b \<Longrightarrow> take n (drop m (b @ c)) = take n (drop m b)"
  by simp

lemma scan_frame_append:
  assumes "scan_frame cfg b \<noteq> NeedMore"
  shows "scan_frame cfg (b @ c) = scan_append (scan_frame cfg b) c"
proof -
  have b: "2 \<le> length b" using assms by (rule_tac ccontr) (simp add: scan_frame_def)
  have nth: "(b @ c) ! 0 = b ! 0" "(b @ c) ! 1 = b ! 1"
    using b by (cases b; cases "tl b"; simp)+
  have t4: "4 \<le> length b \<Longrightarrow> take 2 (drop 2 (b @ c)) = take 2 (drop 2 b)"
    and t10: "10 \<le> length b \<Longrightarrow> take 8 (drop 2 (b @ c)) = take 8 (drop 2 b)"
    by (simp_all add: take_drop_append)
  show ?thesis
    using assms b unfolding scan_frame_def Let_def nth
    by (cases "b ! 1 AND 0x80 \<noteq> 0"; cases "isClient cfg")
      (simp_all add: t4 t10 scan_body_append del: take_append drop_append split: if_splits)
qed

definition settled :: "parser \<Rightarrow> parser option" where
  "settled p = (if failed p then None else Some p)"

definition same_run :: "parser \<times> ws_event list \<Rightarrow> parser \<times> ws_event list \<Rightarrow> bool" where
  "same_run r r' \<longleftrightarrow> settled (fst r) = settled (fst r') \<and> snd r = snd r'"

lemma fail_with_failed [simp]: "failed (fst (fail_with e p))"
  by (simp add: fail_with_def)

lemma fail_with_events [simp]: "\<not> failed p \<Longrightarrow> snd (fail_with e p) = [WsError e]"
  by (simp add: fail_with_def)

lemma handle_frame_ignores_buffer:
  "handle_frame cfg fin op pl (p\<lparr>buffer := b\<rparr>) =
     ((fst (handle_frame cfg fin op pl p))\<lparr>buffer := b\<rparr>, snd (handle_frame cfg fin op pl p))"
  by (simp add: handle_frame_def fail_with_def Let_def split: option.split)

lemma parse_loop_append:
  assumes "\<not> failed p"
  shows "if failed (fst (parse_loop cfg p))
    then failed (fst (parse_loop cfg (p\<lparr>buffer := buffer p @ c\<rparr>)))
      \<and> snd (parse_loop cfg (p\<lparr>buffer := buffer p @ c\<rparr>)) = snd (parse_loop cfg p)
    else parse_loop cfg (p\<lparr>buffer := buffer p @ c\<rparr>) =
      (fst (parse_loop cfg ((fst (parse_loop cfg p))\<lparr>buffer := buffer (fst (parse_loop cfg p)) @ c\<rparr>)),
       snd (parse_loop cfg p) @ snd (parse_loop cfg ((fst (parse_loop cfg p))\<lparr>buffer := buffer (fst (parse_loop cfg p)) @ c\<rparr>)))"
  using assms
proof (induction cfg p rule: parse_loop.induct)
  case (1 cfg p)
  show ?case
  proof (cases "scan_frame cfg (buffer p)")
    case NeedMore
    then have "parse_loop cfg p = (p, [])" by (simp add: parse_loop.simps [of cfg p])
    then show ?thesis using 1(2) by simp
  next
    case (Bad e)
    then have "scan_frame cfg (buffer p @ c) = Bad e"
      using scan_frame_append [of cfg "buffer p" c] by simp
    then show ?thesis using Bad 1(2)
      by (simp add: parse_loop.simps [of cfg p] parse_loop.simps [of cfg "p\<lparr>buffer := buffer p @ c\<rparr>"])
  next
    case (Frame fin op pl rest)
    then have s: "scan_frame cfg (buffer p @ c) = Frame fin op pl (rest @ c)"
      using scan_frame_append [of cfg "buffer p" c] by simp
    let ?r = "handle_frame cfg fin op pl (p\<lparr>buffer := rest\<rparr>)"
    have r: "handle_frame cfg fin op pl (p\<lparr>buffer := rest @ c\<rparr>) = ((fst ?r)\<lparr>buffer := rest @ c\<rparr>, snd ?r)"
      using handle_frame_ignores_buffer [where cfg = cfg and fin = fin and op = op and pl = pl and p = p and b = rest]
        handle_frame_ignores_buffer [where cfg = cfg and fin = fin and op = op and pl = pl and p = p and b = "rest @ c"] by simp
    have l: "parse_loop cfg p = (if failed (fst ?r) then ?r
        else (fst (parse_loop cfg (fst ?r)), snd ?r @ snd (parse_loop cfg (fst ?r))))"
      by (subst parse_loop.simps) (simp add: Frame Let_def)
    have lc: "parse_loop cfg (p\<lparr>buffer := buffer p @ c\<rparr>) =
        (if failed (fst ?r) then ((fst ?r)\<lparr>buffer := rest @ c\<rparr>, snd ?r)
         else (fst (parse_loop cfg ((fst ?r)\<lparr>buffer := rest @ c\<rparr>)), snd ?r @ snd (parse_loop cfg ((fst ?r)\<lparr>buffer := rest @ c\<rparr>))))"
      by (subst parse_loop.simps) (simp add: s Let_def r)
    show ?thesis
    proof (cases "failed (fst ?r)")
      case True
      then show ?thesis by (simp add: l lc)
    next
      case False
      have b: "buffer (fst ?r) = rest" by simp
      from 1(1) [OF Frame refl False False] have IH: "if failed (fst (parse_loop cfg (fst ?r)))
        then failed (fst (parse_loop cfg ((fst ?r)\<lparr>buffer := rest @ c\<rparr>)))
          \<and> snd (parse_loop cfg ((fst ?r)\<lparr>buffer := rest @ c\<rparr>)) = snd (parse_loop cfg (fst ?r))
        else parse_loop cfg ((fst ?r)\<lparr>buffer := rest @ c\<rparr>) =
          (fst (parse_loop cfg ((fst (parse_loop cfg (fst ?r)))\<lparr>buffer := buffer (fst (parse_loop cfg (fst ?r))) @ c\<rparr>)),
           snd (parse_loop cfg (fst ?r)) @ snd (parse_loop cfg ((fst (parse_loop cfg (fst ?r)))\<lparr>buffer := buffer (fst (parse_loop cfg (fst ?r))) @ c\<rparr>)))"
        unfolding b .
      show ?thesis
      proof (cases "failed (fst (parse_loop cfg (fst ?r)))")
        case True
        then show ?thesis using IH False by (simp add: l lc)
      next
        case no: False
        then show ?thesis using IH False by (simp add: l lc)
      qed
    qed
  qed
qed

lemma feed_append: "same_run (feed cfg (c1 @ c2) p)
   (fst (feed cfg c2 (fst (feed cfg c1 p))), snd (feed cfg c1 p) @ snd (feed cfg c2 (fst (feed cfg c1 p))))"
proof (cases "failed p")
  case True
  then show ?thesis by (simp add: feed_def same_run_def)
next
  case False
  let ?p = "p\<lparr>buffer := buffer p @ c1\<rparr>"
  have q: "p\<lparr>buffer := buffer p @ c1 @ c2\<rparr> = ?p\<lparr>buffer := buffer ?p @ c2\<rparr>" by simp
  show ?thesis
    using parse_loop_append [of ?p cfg c2] False
    by (cases "failed (fst (parse_loop cfg ?p))")
      (simp_all add: feed_def same_run_def settled_def)
qed

definition quiescent :: "parser_config \<Rightarrow> parser \<Rightarrow> bool" where
  "quiescent cfg p \<longleftrightarrow> failed p \<or> scan_frame cfg (buffer p) = NeedMore"

lemma parse_loop_quiescent: "quiescent cfg (fst (parse_loop cfg p))"
proof (induction cfg p rule: parse_loop.induct)
  case (1 cfg p)
  show ?case
  proof (cases "scan_frame cfg (buffer p)")
    case (Frame fin op pl rest)
    then show ?thesis using 1 [OF Frame refl]
      by (subst parse_loop.simps) (simp add: Let_def quiescent_def)
  qed (simp_all add: parse_loop.simps [of cfg p] quiescent_def)
qed

lemma feed_quiescent: "quiescent cfg (fst (feed cfg c p))"
  using parse_loop_quiescent [of cfg "p\<lparr>buffer := buffer p @ c\<rparr>"]
  by (auto simp: feed_def quiescent_def)

lemma feed_Nil: "quiescent cfg p \<Longrightarrow> feed cfg [] p = (p, [])"
  by (auto simp: feed_def quiescent_def parse_loop.simps [of cfg p])

lemma feed_all_concat:
  "quiescent cfg p \<Longrightarrow> same_run (feed_all cfg cs p) (feed cfg (concat cs) p)"
proof (induction cs arbitrary: p)
  case Nil
  then show ?case by (simp add: feed_Nil same_run_def)
next
  case (Cons c cs)
  have "same_run (feed_all cfg cs (fst (feed cfg c p))) (feed cfg (concat cs) (fst (feed cfg c p)))"
    by (rule Cons.IH [OF feed_quiescent])
  with feed_append [of cfg c "concat cs" p] show ?case
    by (simp add: same_run_def Let_def)
qed

lemma new_quiescent: "quiescent cfg new_parser"
  by (simp add: quiescent_def new_parser_def scan_frame_def)

section \<open>Encoding and decoding\<close>

lemma byte_cases_bits:
  "list_all (\<lambda>n. (0x80 OR (word_of_nat n :: byte)) AND 0x7f = word_of_nat n \<and> (0x80 OR (word_of_nat n :: byte)) AND 0x80 \<noteq> 0
     \<and> (word_of_nat n :: byte) AND 0x7f = word_of_nat n \<and> (word_of_nat n :: byte) AND 0x80 = 0
     \<and> unat (word_of_nat n :: byte) = n) [0..<128]"
  by code_simp

lemma seven_bits:
  assumes "n < 128"
  shows "(0x80 OR (word_of_nat n :: byte)) AND 0x7f = word_of_nat n" "(0x80 OR (word_of_nat n :: byte)) AND 0x80 \<noteq> 0"
    "(word_of_nat n :: byte) AND 0x7f = word_of_nat n" "(word_of_nat n :: byte) AND 0x80 = 0"
    "unat (word_of_nat n :: byte) = n"
  using byte_cases_bits assms by (simp_all add: list_all_iff)

lemma opcode_bits: "list_all (\<lambda>n. (0x80 OR (word_of_nat n :: byte)) AND 0x0f = word_of_nat n
     \<and> (0x80 OR (word_of_nat n :: byte)) AND 0x80 \<noteq> 0) [0..<16]"
  by code_simp

lemma opcode_bits':
  assumes "(op :: byte) < 16"
  shows "(0x80 OR op) AND 0x0f = op" "(0x80 OR op) AND 0x80 \<noteq> 0"
proof -
  have "unat op < 16" using assms by (simp add: word_less_nat_alt)
  then have "unat op \<in> set [0..<16]" by simp
  with opcode_bits have "(0x80 OR (word_of_nat (unat op) :: byte)) AND 0x0f = word_of_nat (unat op)
     \<and> (0x80 OR (word_of_nat (unat op) :: byte)) AND 0x80 \<noteq> 0"
    unfolding list_all_iff by blast
  then show "(0x80 OR op) AND 0x0f = op" "(0x80 OR op) AND 0x80 \<noteq> 0" by simp_all
qed

lemma read_be_snoc: "read_be (bs @ [b]) = 256 * read_be bs + unat b"
  by (simp add: read_be_def)

lemma unat_byte: "unat (word_of_nat n :: byte) = n mod 256"
  by (simp add: unat_of_nat)

lemma read_uint16: "n < 65536 \<Longrightarrow> read_be (uint16_be n) = n"
  by (simp add: read_be_def uint16_be_def unat_byte) 

lemma read_be_digits: "read_be (map (\<lambda>i. word_of_nat (n div 256 ^ (k - i))) [0..<Suc k]) = n mod 256 ^ Suc k"
proof (induction k arbitrary: n)
  case 0
  then show ?case by (simp add: read_be_def unat_byte)
next
  case (Suc k)
  have "word_of_nat (n div 256 ^ (Suc k - i)) = (word_of_nat (n div 256 div 256 ^ (k - i)) :: byte)" if "i < Suc k" for i
    using that by (simp add: Suc_diff_le div_mult2_eq)
  then have "map (\<lambda>i. word_of_nat (n div 256 ^ (Suc k - i)) :: byte) [0..<Suc k]
      = map (\<lambda>i. word_of_nat (n div 256 div 256 ^ (k - i))) [0..<Suc k]"
    by (intro map_cong refl) (simp del: upt_Suc)
  then have r: "read_be (map (\<lambda>i. word_of_nat (n div 256 ^ (Suc k - i)) :: byte) [0..<Suc k]) = n div 256 mod 256 ^ Suc k"
    using Suc.IH [of "n div 256"] by (simp only:)
  have "map (\<lambda>i. word_of_nat (n div 256 ^ (Suc k - i)) :: byte) [0..<Suc (Suc k)]
      = map (\<lambda>i. word_of_nat (n div 256 ^ (Suc k - i))) [0..<Suc k] @ [word_of_nat n]"
    by (subst upt_Suc) (simp del: upt_Suc)
  then show ?case
    using mod_mult2_eq [of n 256 "256 ^ Suc k"]
    by (simp only: read_be_snoc r unat_byte power_Suc)
qed

lemma read_uint64: "n < 2 ^ 64 \<Longrightarrow> read_be (uint64_be n) = n"
  using read_be_digits [of n 7] by (simp add: uint64_be_def del: upt_Suc)

lemma uint_lengths [simp]: "length (uint16_be n) = 2" "length (uint64_be n) = 8"
  by (simp_all add: uint16_be_def uint64_be_def)

lemma apply_mask_length [simp]: "length (apply_mask key pl) = length pl"
  by (simp add: apply_mask_def)

lemma apply_mask_twice: "apply_mask key (apply_mask key pl) = pl"
  by (rule nth_equalityI) (simp_all add: apply_mask_def xor.assoc)

definition mask_ok :: "parser_config \<Rightarrow> byte list option \<Rightarrow> bool" where
  "mask_ok cfg m \<longleftrightarrow> (case m of None \<Rightarrow> isClient cfg | Some key \<Rightarrow> \<not> isClient cfg \<and> length key = 4)"

lemma scan_body_exact:
  assumes "length head = off" "length pl \<le> maxMessageBytes cfg" "masked \<Longrightarrow> length key = 4"
  shows "scan_body cfg (head @ (if masked then key @ apply_mask key pl else pl) @ rest) fin op masked (length pl) off
    = Frame fin op pl rest"
  using assms by (cases masked) (simp_all add: scan_body_def Let_def apply_mask_twice)

lemma scan_head:
  assumes "f AND 0x80 \<noteq> 0" "f AND 0x0f = op" "(s AND 0x80 \<noteq> 0) = masked" "isClient cfg = (\<not> masked)"
  shows "s AND 0x7f = word_of_nat n \<Longrightarrow> n < 126 \<Longrightarrow>
      scan_frame cfg (f # s # xs) = scan_body cfg (f # s # xs) True op masked n 2"
    and "s AND 0x7f = 126 \<Longrightarrow> n < 65536 \<Longrightarrow>
      scan_frame cfg (f # s # uint16_be n @ xs) = scan_body cfg (f # s # uint16_be n @ xs) True op masked n 4"
    and "s AND 0x7f = 127 \<Longrightarrow> n < 2 ^ 64 \<Longrightarrow> n \<le> maxMessageBytes cfg \<Longrightarrow>
      scan_frame cfg (f # s # uint64_be n @ xs) = scan_body cfg (f # s # uint64_be n @ xs) True op masked n 10"
  using assms seven_bits(5) [of n]
  by (simp_all add: scan_frame_def Let_def read_uint16 read_uint64)

lemma scan_encode:
  assumes op: "op < 16" and pl: "length pl \<le> maxMessageBytes cfg" "length pl < 2 ^ 64" and m: "mask_ok cfg m"
  shows "scan_frame cfg (encodeFrame op pl m @ rest) = Frame True op pl rest"
proof -
  let ?n = "length pl" and ?masked = "m \<noteq> None"
  define key where "key = (case m of None \<Rightarrow> [] | Some k \<Rightarrow> k)"
  define sec where "sec n = (if ?masked then 0x80 OR (word_of_nat n :: byte) else word_of_nat n)" for n
  define body where "body = (if ?masked then key @ apply_mask key pl else pl)"
  have sec: "sec n AND 0x7f = word_of_nat n" "(sec n AND 0x80 \<noteq> 0) = ?masked" if "n < 128" for n
    using seven_bits [OF that] by (auto simp: sec_def)
  have key: "?masked \<Longrightarrow> length key = 4" and cl: "isClient cfg = (\<not> ?masked)"
    using m by (auto simp: mask_ok_def key_def split: option.splits)
  have body_scan: "scan_body cfg (head @ body @ rest) True op ?masked ?n off = Frame True op pl rest"
    if "length head = off" for head off
    unfolding body_def using scan_body_exact [OF that pl(1) key] by simp
  note head = scan_head [OF opcode_bits' (2,1) [OF op] sec(2) cl]
  have e: "encodeFrame op pl m = (0x80 OR op) # (if ?n < 126 then [sec ?n]
      else if ?n < 65536 then sec 126 # uint16_be ?n else sec 127 # uint64_be ?n) @ body"
    by (cases m) (simp_all add: encodeFrame_def Let_def sec_def body_def key_def)
  consider "?n < 126" | "126 \<le> ?n" "?n < 65536" | "65536 \<le> ?n" by linarith
  then show ?thesis
  proof cases
    case 1
    then show ?thesis
      using head(1) [of ?n ?n "body @ rest"] body_scan [of "[0x80 OR op, sec ?n]" 2] sec(1) [of ?n] by (simp add: e)
  next
    case 2
    then show ?thesis
      using head(2) [of 126 ?n "body @ rest"] body_scan [of "(0x80 OR op) # sec 126 # uint16_be ?n" 4] sec(1) [of 126]
      by (simp add: e)
  next
    case 3
    then show ?thesis
      using head(3) [of 127 ?n "body @ rest"] body_scan [of "(0x80 OR op) # sec 127 # uint64_be ?n" 10] sec(1) [of 127] pl
      by (simp add: e)
  qed
qed

text \<open>A frame the code sends: one data message, or a control frame of legal size.\<close>

type_synonym frame = "byte \<times> byte list \<times> byte list option"

definition frame_ok :: "parser_config \<Rightarrow> frame \<Rightarrow> bool" where
  "frame_ok cfg f \<longleftrightarrow> (case f of (op, pl, m) \<Rightarrow>
     op \<in> {1, 2, 8, 9, 0xa} \<and> (op \<ge> 8 \<longrightarrow> length pl \<le> 125) \<and> length pl \<le> maxMessageBytes cfg
     \<and> length pl < 2 ^ 64 \<and> mask_ok cfg m)"

definition wire :: "frame list \<Rightarrow> byte list" where
  "wire fs = concat (map (\<lambda>(op, pl, m). encodeFrame op pl m) fs)"

definition events_of :: "frame list \<Rightarrow> ws_event list" where
  "events_of fs = concat (map (\<lambda>(op, pl, m). handleData op pl) fs)"

lemma handle_sent_frame:
  assumes "frame_ok cfg (op, pl, m)"
  shows "handle_frame cfg True op pl (new_parser\<lparr>buffer := b\<rparr>) = (new_parser\<lparr>buffer := b\<rparr>, handleData op pl)"
  using assms by (auto simp: frame_ok_def handle_frame_def new_parser_def)

lemma parse_wire:
  "list_all (frame_ok cfg) fs \<Longrightarrow> parse_loop cfg (new_parser\<lparr>buffer := wire fs\<rparr>) = (new_parser, events_of fs)"
proof (induction fs)
  case Nil
  then show ?case by (simp add: wire_def events_of_def parse_loop.simps new_parser_def scan_frame_def)
next
  case (Cons f fs)
  obtain op pl m where f: "f = (op, pl, m)" by (cases f)
  with Cons.prems have ok: "frame_ok cfg (op, pl, m)" "list_all (frame_ok cfg) fs" by simp_all
  then have "op < 16" "length pl \<le> maxMessageBytes cfg" "length pl < 2 ^ 64" "mask_ok cfg m"
    by (auto simp: frame_ok_def)
  from scan_encode [OF this, of "wire fs"]
  have s: "scan_frame cfg (wire (f # fs)) = Frame True op pl (wire fs)"
    by (simp add: wire_def f)
  have e: "events_of (f # fs) = handleData op pl @ events_of fs" by (simp add: events_of_def f)
  show ?case
    using Cons.IH [OF ok(2)]
    by (subst parse_loop.simps) (simp add: s e handle_sent_frame [OF ok(1)] Let_def, simp add: new_parser_def)
qed

section \<open>Bounds\<close>

definition parser_inv :: "parser_config \<Rightarrow> parser \<Rightarrow> bool" where
  "parser_inv cfg p \<longleftrightarrow> \<not> failed p \<longrightarrow>
     fragmentBytes p = sum_list (map length (fragments p)) \<and> fragmentBytes p \<le> maxMessageBytes cfg
     \<and> (fragmentOpcode p = None \<longrightarrow> fragments p = []) \<and> (\<forall>base. fragmentOpcode p = Some base \<longrightarrow> base < 8)"

lemma parser_inv_buffer [simp]: "parser_inv cfg (p\<lparr>buffer := b\<rparr>) = parser_inv cfg p"
  by (simp add: parser_inv_def)

fun event_bounded :: "nat \<Rightarrow> ws_event \<Rightarrow> bool" where
  "event_bounded n (TextMessage pl) = (length pl \<le> n)"
| "event_bounded n (BinaryMessage pl) = (length pl \<le> n)"
| "event_bounded n (Ping pl) = (length pl \<le> min n 125)"
| "event_bounded n (Pong pl) = (length pl \<le> min n 125)"
| "event_bounded n _ = True"

fun is_error :: "ws_event \<Rightarrow> bool" where
  "is_error (WsError e) = True"
| "is_error _ = False"

text \<open>Callbacks so far: bounded messages, then exactly one error if the parser failed.\<close>

definition events_ok :: "parser_config \<Rightarrow> bool \<Rightarrow> ws_event list \<Rightarrow> bool" where
  "events_ok cfg dead evs \<longleftrightarrow> list_all (event_bounded (maxMessageBytes cfg)) evs
     \<and> (if dead then \<exists>xs e. evs = xs @ [WsError e] \<and> list_all (\<lambda>x. \<not> is_error x) xs
        else list_all (\<lambda>x. \<not> is_error x) evs)"

lemma events_ok_append:
  "events_ok cfg False xs \<Longrightarrow> events_ok cfg dead ys \<Longrightarrow> events_ok cfg dead (xs @ ys)"
  by (auto simp: events_ok_def split: if_splits)

lemma handleData_ok:
  "length pl \<le> maxMessageBytes cfg \<Longrightarrow> (op \<ge> 8 \<Longrightarrow> length pl \<le> 125) \<Longrightarrow> events_ok cfg False (handleData op pl)"
  by (auto simp: handleData_def events_ok_def)

lemma scan_frame_length: "scan_frame cfg b = Frame fin op pl rest \<Longrightarrow> length pl \<le> maxMessageBytes cfg"
  by (auto simp: scan_frame_def scan_body_def Let_def split: if_splits)

lemma scan_frame_more: "scan_frame cfg b = NeedMore \<Longrightarrow> length b < maxMessageBytes cfg + 14"
  by (auto simp: scan_frame_def scan_body_def Let_def split: if_splits)

lemma handle_frame_inv:
  assumes "parser_inv cfg p" "\<not> failed p" "length pl \<le> maxMessageBytes cfg"
  shows "parser_inv cfg (fst (handle_frame cfg fin op pl p))
    \<and> events_ok cfg (failed (fst (handle_frame cfg fin op pl p))) (snd (handle_frame cfg fin op pl p))"
proof -
  have err: "events_ok cfg True [WsError e]" for e by (simp add: events_ok_def)
  have none: "events_ok cfg False []" by (simp add: events_ok_def)
  show ?thesis
  proof (cases "op \<ge> 8")
    case True
    then show ?thesis using assms err handleData_ok [of pl cfg op]
      by (simp add: handle_frame_def fail_with_def parser_inv_def)
  next
    case low: False
    show ?thesis
    proof (cases "op = 0")
      case True
      show ?thesis
      proof (cases "fragmentOpcode p")
        case None
        then show ?thesis using assms err True by (simp add: handle_frame_def fail_with_def parser_inv_def)
      next
        case (Some base)
        have len: "length (concat (fragments p @ [pl])) = fragmentBytes p + length pl" and "base < 8"
          using assms Some by (simp_all add: parser_inv_def length_concat)
        then have "fragmentBytes p + length pl \<le> maxMessageBytes cfg \<Longrightarrow>
            events_ok cfg False (handleData base (concat (fragments p @ [pl])))"
          by (intro handleData_ok) (simp_all only: len not_le [symmetric] simp_thms)
        then show ?thesis
          using assms err none True Some
          by (simp add: handle_frame_def fail_with_def parser_inv_def Let_def not_less)
      qed
    next
      case False
      then show ?thesis using assms err none low low [unfolded not_le] handleData_ok [of pl cfg op]
        by (simp add: handle_frame_def fail_with_def parser_inv_def)
    qed
  qed
qed

lemma parse_loop_inv:
  "parser_inv cfg p \<Longrightarrow> \<not> failed p \<Longrightarrow> parser_inv cfg (fst (parse_loop cfg p))
    \<and> events_ok cfg (failed (fst (parse_loop cfg p))) (snd (parse_loop cfg p))"
proof (induction cfg p rule: parse_loop.induct)
  case (1 cfg p)
  show ?case
  proof (cases "scan_frame cfg (buffer p)")
    case NeedMore
    then show ?thesis using 1 by (simp add: parse_loop.simps [of cfg p] events_ok_def)
  next
    case (Bad e)
    then show ?thesis using 1
      by (simp add: parse_loop.simps [of cfg p] events_ok_def fail_with_def parser_inv_def)
  next
    case (Frame fin op pl rest)
    let ?r = "handle_frame cfg fin op pl (p\<lparr>buffer := rest\<rparr>)"
    have r: "parser_inv cfg (fst ?r)" "events_ok cfg (failed (fst ?r)) (snd ?r)"
      using handle_frame_inv [of cfg "p\<lparr>buffer := rest\<rparr>" pl fin op] 1(2,3) scan_frame_length [OF Frame]
      by simp_all
    show ?thesis
    proof (cases "failed (fst ?r)")
      case True
      then have l: "parse_loop cfg p = ?r"
        by (subst parse_loop.simps) (simp add: Frame Let_def)
      show ?thesis unfolding l using r by blast
    next
      case False
      note IH = 1(1) [OF Frame refl False r(1) False]
      have e: "events_ok cfg (failed (fst (parse_loop cfg (fst ?r)))) (snd ?r @ snd (parse_loop cfg (fst ?r)))"
        by (rule events_ok_append) (use r(2) False IH in simp_all)
      have l: "parse_loop cfg p = (fst (parse_loop cfg (fst ?r)), snd ?r @ snd (parse_loop cfg (fst ?r)))"
        by (subst parse_loop.simps) (simp add: Frame Let_def False)
      show ?thesis unfolding l fst_conv snd_conv using IH e by blast
    qed
  qed
qed

lemma feed_inv:
  assumes "parser_inv cfg p" "\<not> failed p"
  shows "parser_inv cfg (fst (feed cfg c p))
    \<and> events_ok cfg (failed (fst (feed cfg c p))) (snd (feed cfg c p))"
  using parse_loop_inv [of cfg "p\<lparr>buffer := buffer p @ c\<rparr>"] assms by (simp add: feed_def)

lemma feed_all_failed: "failed p \<Longrightarrow> feed_all cfg cs p = (p, [])"
  by (induction cs) (simp_all add: feed_def)

lemma feed_all_inv:
  "parser_inv cfg p \<Longrightarrow> \<not> failed p \<Longrightarrow> quiescent cfg p \<Longrightarrow> parser_inv cfg (fst (feed_all cfg cs p))
    \<and> events_ok cfg (failed (fst (feed_all cfg cs p))) (snd (feed_all cfg cs p))
    \<and> quiescent cfg (fst (feed_all cfg cs p))"
proof (induction cs arbitrary: p)
  case Nil
  then show ?case by (simp add: events_ok_def)
next
  case (Cons c cs)
  note f = feed_inv [OF Cons.prems(1,2), of c]
  show ?case
  proof (cases "failed (fst (feed cfg c p))")
    case True
    then have l: "feed_all cfg (c # cs) p = feed cfg c p"
      by (simp add: Let_def feed_all_failed [OF True])
    show ?thesis unfolding l using f feed_quiescent by blast
  next
    case False
    note IH = Cons.IH [OF f [THEN conjunct1] False feed_quiescent]
    have "events_ok cfg (failed (fst (feed_all cfg cs (fst (feed cfg c p)))))
        (snd (feed cfg c p) @ snd (feed_all cfg cs (fst (feed cfg c p))))"
      by (rule events_ok_append) (use f False IH in simp_all)
    moreover have "feed_all cfg (c # cs) p = (fst (feed_all cfg cs (fst (feed cfg c p))),
        snd (feed cfg c p) @ snd (feed_all cfg cs (fst (feed cfg c p))))"
      by (simp add: Let_def)
    ultimately show ?thesis using IH by (simp only: fst_conv snd_conv simp_thms)
  qed
qed

section \<open>Properties\<close>

text \<open>
  C28. Parsing does not depend on how the byte stream is cut into chunks: any two ways to cut
  the same stream fire the same callbacks in the same order, and leave the parser failed in
  both cases or in exactly the same state.
\<close>

theorem ws_parser_chunk_independent:
  assumes "concat cs = concat cs'"
  shows "snd (feed_all cfg cs new_parser) = snd (feed_all cfg cs' new_parser)
    \<and> settled (fst (feed_all cfg cs new_parser)) = settled (fst (feed_all cfg cs' new_parser))"
  using feed_all_concat [OF new_quiescent, of cfg cs] feed_all_concat [OF new_quiescent, of cfg cs'] assms
  by (simp add: same_run_def)

theorem ws_parser_chunk_independent_witness:
  "snd (feed_all \<lparr>isClient = True, maxMessageBytes = 10\<rparr> [[0x81], [2, 104], [105]] new_parser)
     = snd (feed_all \<lparr>isClient = True, maxMessageBytes = 10\<rparr> [[0x81, 2], [104, 105]] new_parser)
   \<and> settled (fst (feed_all \<lparr>isClient = True, maxMessageBytes = 10\<rparr> [[0x81], [2, 104], [105]] new_parser))
     = settled (fst (feed_all \<lparr>isClient = True, maxMessageBytes = 10\<rparr> [[0x81, 2], [104, 105]] new_parser))"
  by (rule ws_parser_chunk_independent) simp

text \<open>
  C8. Round trip over a socket: frames that one side encodes (messages within the size cap and
  legal control frames, masked by the client, unmasked by the server), however the stream is
  cut into chunks, fire exactly the callbacks of those frames in order on the other side,
  without an error, and leave its parser as new.
\<close>

theorem ws_roundtrip:
  assumes "list_all (frame_ok cfg) fs" and "concat chunks = wire fs"
  shows "snd (feed_all cfg chunks new_parser) = events_of fs
    \<and> settled (fst (feed_all cfg chunks new_parser)) = Some new_parser"
proof -
  have "feed cfg (wire fs) new_parser = (new_parser, events_of fs)"
    using parse_wire [OF assms(1)] by (simp add: feed_def new_parser_def)
  then show ?thesis
    using feed_all_concat [OF new_quiescent, of cfg chunks]
    by (simp add: same_run_def assms(2)) (simp add: settled_def new_parser_def)
qed

theorem ws_roundtrip_witness:
  "snd (feed_all \<lparr>isClient = False, maxMessageBytes = 10\<rparr>
       [[0x81], [0x83, 9, 8, 7, 6, 8, 10], [4, 0x89, 0x80, 1, 2, 3, 4]] new_parser)
     = events_of [(1, [1, 2, 3], Some [9, 8, 7, 6]), (9, [], Some [1, 2, 3, 4])]
   \<and> settled (fst (feed_all \<lparr>isClient = False, maxMessageBytes = 10\<rparr>
       [[0x81], [0x83, 9, 8, 7, 6, 8, 10], [4, 0x89, 0x80, 1, 2, 3, 4]] new_parser)) = Some new_parser"
  by (rule ws_roundtrip) code_simp+

text \<open>
  The parser is bounded and fails closed, whatever bytes arrive: a delivered message never
  exceeds the size cap and a ping or pong never exceeds 125 bytes; a violation is reported by
  exactly one error callback, which is the last callback ever; and a parser that has not failed
  holds fewer than \<open>maxMessageBytes + 14\<close> unparsed bytes and at most \<open>maxMessageBytes\<close> bytes of
  fragments.
\<close>

theorem ws_parser_bounded:
  "let r = feed_all cfg chunks new_parser in
     list_all (event_bounded (maxMessageBytes cfg)) (snd r)
     \<and> (if failed (fst r) then \<exists>xs e. snd r = xs @ [WsError e] \<and> list_all (\<lambda>x. \<not> is_error x) xs
        else list_all (\<lambda>x. \<not> is_error x) (snd r)
          \<and> length (buffer (fst r)) < maxMessageBytes cfg + 14
          \<and> sum_list (map length (fragments (fst r))) \<le> maxMessageBytes cfg)"
proof -
  have "parser_inv cfg new_parser" "\<not> failed new_parser" by (simp_all add: parser_inv_def new_parser_def)
  from feed_all_inv [OF this new_quiescent, of chunks] show ?thesis
    by (auto simp: events_ok_def parser_inv_def quiescent_def Let_def dest: scan_frame_more split: if_splits)
qed

end
