(* ===== verification/ReverseSession.thy ===== *)
theory ReverseSession
  imports ReverseWs
begin

text \<open>
  \<^verbatim>\<open>src/registry/reverse-session.mjs\<close>: the reverse control sessions of the Hub. Session objects
  live in a heap (the list \<open>sessions\<close>; an object is its index), because the manager's \<open>current\<close>
  map and \<open>pending\<close> sets share them. Each session owns a frame parser of \<^theory_text>\<open>ReverseWs\<close>; the
  callbacks one chunk fires run in order on the manager. Timers are fields that say which are
  armed, and their firing is an operation. The manager's hooks (\<open>recordTransition\<close>,
  \<open>onPromoted\<close>, \<open>onRouteReadyChange\<close>, \<open>onSessionClosed\<close>) append to \<open>hooks\<close>. A socket is its
  \<open>destroyed\<close> and \<open>writable\<close> flags and the bytes written; \<open>socket.write\<close> is taken never to
  throw. \<open>parseJson\<close>, UTF-8 decoding followed by \<open>JSON.parse\<close>, is an argument.
\<close>

datatype session_state = SPending | SReady | SClosed

datatype sent =
    SentHandshake
  | SentSession
  | SentPing
  | SentPong "byte list"
  | SentClose nat str

datatype hook =
    TransReady str bool
  | TransClosed str str
  | TransRoute str bool
  | HookPromoted str bool
  | HookRouteReady str bool
  | HookClosed nat str

record session =
  s_nodeId :: str
  s_keyId :: str
  reverseSessionId :: str
  s_state :: session_state
  routeReady :: bool
  superseded :: bool
  s_closed :: bool
  lastPongAt :: int
  awaitingPong :: bool
  readyTimer :: bool
  pingTimer :: bool
  pongTimer :: "nat option"
  armedPongs :: "nat list"
  nextPong :: nat
  ws :: parser
  outbox :: "sent list"
  sockDestroyed :: bool
  sockWritable :: bool

record manager =
  sessions :: "session list"
  current :: "(str, nat) omap"
  pending :: "(str, nat list) omap"
  hooks :: "hook list"

definition new_manager :: manager where
  "new_manager = \<lparr>sessions = [], current = [], pending = [], hooks = []\<rparr>"

abbreviation sess :: "manager \<Rightarrow> nat \<Rightarrow> session" where
  "sess m i \<equiv> sessions m ! i"

definition upd :: "nat \<Rightarrow> (session \<Rightarrow> session) \<Rightarrow> manager \<Rightarrow> manager" where
  "upd i f m = m\<lparr>sessions := (sessions m)[i := f (sess m i)]\<rparr>"

definition emit :: "hook \<Rightarrow> manager \<Rightarrow> manager" where
  "emit h m = m\<lparr>hooks := hooks m @ [h]\<rparr>"

section \<open>Session\<close>

definition sendFrame :: "sent \<Rightarrow> session \<Rightarrow> session" where
  "sendFrame x s =
     (if s_closed s \<or> sockDestroyed s \<or> \<not> sockWritable s then s
      else s\<lparr>outbox := outbox s @ [x]\<rparr>)"

definition CONTROL_CFG :: parser_config where
  "CONTROL_CFG = \<lparr>isClient = False, maxMessageBytes = 4096\<rparr>"

definition new_session :: "str \<Rightarrow> str \<Rightarrow> str \<Rightarrow> int \<Rightarrow> session" where
  "new_session nodeId keyId sid now =
     sendFrame SentSession
       \<lparr>s_nodeId = nodeId, s_keyId = keyId, reverseSessionId = sid, s_state = SPending,
        routeReady = False, superseded = False, s_closed = False, lastPongAt = now,
        awaitingPong = False, readyTimer = True, pingTimer = True, pongTimer = None,
        armedPongs = [], nextPong = 0, ws = new_parser, outbox = [SentHandshake],
        sockDestroyed = False, sockWritable = True\<rparr>"

definition clear_pong :: "session \<Rightarrow> session" where
  "clear_pong s = (case pongTimer s of None \<Rightarrow> s
     | Some h \<Rightarrow> s\<lparr>armedPongs := removeAll h (armedPongs s)\<rparr>)"

text \<open>\<open>close\<close>: the bookkeeping, then the attempt to send a close frame, then the socket.\<close>

definition drop_pending :: "str \<Rightarrow> nat \<Rightarrow> manager \<Rightarrow> manager" where
  "drop_pending n i m =
     (case map_of (pending m) n of
        None \<Rightarrow> m
      | Some ids \<Rightarrow>
          let ids' = removeAll i ids in
          m\<lparr>pending := (if ids' = [] then AList.delete n (pending m) else AList.update n ids' (pending m))\<rparr>)"

definition close_session :: "nat \<Rightarrow> nat \<Rightarrow> str \<Rightarrow> bool \<Rightarrow> manager \<Rightarrow> manager" where
  "close_session i code reason fromPeer m =
     (if s_closed (sess m i) then m
      else
        let n = s_nodeId (sess m i);
            m1 = upd i (\<lambda>s. clear_pong (s\<lparr>s_closed := True, s_state := SClosed, readyTimer := False, pingTimer := False\<rparr>)) m;
            wasCurrent = (map_of (current m1) n = Some i);
            m2 = (if wasCurrent then m1\<lparr>current := AList.delete n (current m1)\<rparr> else m1);
            m3 = drop_pending n i m2;
            m4 = (if wasCurrent then emit (TransClosed n reason) m3 else m3);
            m5 = emit (HookClosed i reason) m4;
            m6 = (if \<not> fromPeer \<and> \<not> sockDestroyed (sess m5 i) then upd i (sendFrame (SentClose code reason)) m5 else m5)
        in upd i (\<lambda>s. s\<lparr>sockDestroyed := True\<rparr>) m6)"

definition promote :: "nat \<Rightarrow> manager \<Rightarrow> manager" where
  "promote i m =
     (if s_closed (sess m i) \<or> superseded (sess m i) then m
      else
        let n = s_nodeId (sess m i);
            m1 = upd i (\<lambda>s. s\<lparr>readyTimer := False, s_state := SReady\<rparr>) m;
            previous = map_of (current m1) n;
            m2 = m1\<lparr>current := AList.update n i (current m1)\<rparr>;
            m3 = (case map_of (pending m2) n of None \<Rightarrow> m2
                  | Some ids \<Rightarrow> m2\<lparr>pending := AList.update n (removeAll i ids) (pending m2)\<rparr>);
            m4 = (case previous of
                    Some j \<Rightarrow> if j \<noteq> i then close_session j 1001 ''superseded'' False (upd j (\<lambda>s. s\<lparr>superseded := True\<rparr>) m3)
                              else m3
                  | None \<Rightarrow> m3)
        in emit (HookPromoted n (routeReady (sess m4 i)))
             (emit (TransReady n (routeReady (sess m4 i))) m4))"

definition onControlMessage :: "jsval option \<Rightarrow> nat \<Rightarrow> manager \<Rightarrow> manager" where
  "onControlMessage parsed i m =
     (if s_closed (sess m i) \<or> superseded (sess m i) then m
      else case parsed of
        None \<Rightarrow> close_session i 1002 ''bad-json'' False m
      | Some message \<Rightarrow>
      case (case message of JObj ps \<Rightarrow> (case js_get ''type'' ps of JStr t \<Rightarrow> Some (t, ps) | _ \<Rightarrow> None) | _ \<Rightarrow> None) of
        None \<Rightarrow> close_session i 1002 ''bad-control-message'' False m
      | Some (t, ps) \<Rightarrow>
          if t = ''ready'' then
            if s_state (sess m i) = SReady then close_session i 1002 ''duplicate-ready'' False m
            else if js_get ''protocol'' ps \<noteq> JStr ''orbit-reverse-v1''
            then close_session i 1008 ''protocol-mismatch'' False m
            else promote i (upd i (\<lambda>s. s\<lparr>routeReady := (js_get ''routeReady'' ps = JBool True)\<rparr>) m)
          else if t = ''status'' then
            if s_state (sess m i) \<noteq> SReady then close_session i 1002 ''status-before-ready'' False m
            else (case js_get ''routeReady'' ps of
                JBool b \<Rightarrow>
                  let m1 = upd i (\<lambda>s. s\<lparr>routeReady := b\<rparr>) m in
                  if routeReady (sess m i) \<noteq> b
                  then emit (HookRouteReady (s_nodeId (sess m i)) b) (emit (TransRoute (s_nodeId (sess m i)) b) m1)
                  else m1
              | _ \<Rightarrow> close_session i 1002 ''bad-status'' False m)
          else close_session i 1008 ''unknown-control-type'' False m)"

definition onPong :: "int \<Rightarrow> nat \<Rightarrow> manager \<Rightarrow> manager" where
  "onPong now i m = upd i (\<lambda>s. (clear_pong s)\<lparr>lastPongAt := now, awaitingPong := False, pongTimer := None\<rparr>) m"

fun on_ws_event :: "(byte list \<Rightarrow> jsval option) \<Rightarrow> int \<Rightarrow> nat \<Rightarrow> ws_event \<Rightarrow> manager \<Rightarrow> manager" where
  "on_ws_event parseJson now i (TextMessage b) m = onControlMessage (parseJson b) i m"
| "on_ws_event parseJson now i (BinaryMessage b) m = onControlMessage (parseJson b) i m"
| "on_ws_event parseJson now i (Ping b) m = upd i (sendFrame (SentPong b)) m"
| "on_ws_event parseJson now i (Pong b) m = onPong now i m"
| "on_ws_event parseJson now i (CloseFrame c) m = close_session i 1000 ''node-close'' True m"
| "on_ws_event parseJson now i (WsError e) m = close_session i 1002 ''protocol-error'' False m"

definition on_data :: "(byte list \<Rightarrow> jsval option) \<Rightarrow> int \<Rightarrow> nat \<Rightarrow> byte list \<Rightarrow> manager \<Rightarrow> manager" where
  "on_data parseJson now i chunk m =
     (let r = feed CONTROL_CFG chunk (ws (sess m i))
      in foldl (\<lambda>m ev. on_ws_event parseJson now i ev m) (upd i (\<lambda>s. s\<lparr>ws := fst r\<rparr>) m) (snd r))"

definition ready_timeout :: "nat \<Rightarrow> manager \<Rightarrow> manager" where
  "ready_timeout i m =
     (if readyTimer (sess m i)
      then close_session i 1008 ''ready-timeout'' False (upd i (\<lambda>s. s\<lparr>readyTimer := False\<rparr>) m) else m)"

definition ping_tick :: "nat \<Rightarrow> manager \<Rightarrow> manager" where
  "ping_tick i m =
     (if pingTimer (sess m i) \<and> \<not> s_closed (sess m i)
      then upd i (\<lambda>s. (sendFrame SentPing (s\<lparr>awaitingPong := True\<rparr>))
             \<lparr>pongTimer := Some (nextPong s), armedPongs := armedPongs s @ [nextPong s], nextPong := Suc (nextPong s)\<rparr>) m
      else m)"

definition pong_timeout :: "nat \<Rightarrow> nat \<Rightarrow> manager \<Rightarrow> manager" where
  "pong_timeout i h m =
     (if h \<in> set (armedPongs (sess m i)) then
        let m1 = upd i (\<lambda>s. s\<lparr>armedPongs := removeAll h (armedPongs s)\<rparr>) m in
        if awaitingPong (sess m1 i) \<and> \<not> s_closed (sess m1 i)
        then close_session i 1001 ''pong-timeout'' False m1 else m1
      else m)"

section \<open>Manager\<close>

definition close_many :: "nat list \<Rightarrow> nat \<Rightarrow> str \<Rightarrow> manager \<Rightarrow> manager" where
  "close_many ids code reason m = foldl (\<lambda>m i. close_session i code reason False m) m ids"

definition pending_of :: "manager \<Rightarrow> str \<Rightarrow> nat list" where
  "pending_of m n = (case map_of (pending m) n of None \<Rightarrow> [] | Some ids \<Rightarrow> ids)"

definition registerUpgrade ::
  "(byte list \<Rightarrow> jsval option) \<Rightarrow> int \<Rightarrow> str \<Rightarrow> str \<Rightarrow> str \<Rightarrow> byte list \<Rightarrow> manager \<Rightarrow> manager" where
  "registerUpgrade parseJson now nodeId keyId sid head m =
     (let m1 = close_many (pending_of m nodeId) 1001 ''superseded-pending'' m;
          i = length (sessions m1);
          m2 = m1\<lparr>sessions := sessions m1 @ [new_session nodeId keyId sid now]\<rparr>;
          m3 = (if head \<noteq> [] then on_data parseJson now i head m2 else m2) in
      if head \<noteq> [] \<and> s_closed (sess m3 i) then m3
      else m3\<lparr>pending := AList.update nodeId (set_add i (pending_of m3 nodeId)) (pending m3)\<rparr>)"

definition getSessionInfo :: "manager \<Rightarrow> str \<Rightarrow> (str \<times> str \<times> bool) option" where
  "getSessionInfo m n =
     (case map_of (current m) n of
        None \<Rightarrow> None
      | Some i \<Rightarrow> if s_state (sess m i) \<noteq> SReady then None
                  else Some (reverseSessionId (sess m i), s_keyId (sess m i), routeReady (sess m i)))"

definition getPresence :: "manager \<Rightarrow> str \<Rightarrow> str \<Rightarrow> str" where
  "getPresence m n routeMode =
     (if (case map_of (current m) n of None \<Rightarrow> False | Some i \<Rightarrow> s_state (sess m i) = SReady) then ''online''
      else if routeMode = ''reverse'' then ''offline'' else ''unknown'')"

definition isReverseReachable :: "manager \<Rightarrow> str \<Rightarrow> str \<Rightarrow> bool option" where
  "isReverseReachable m n routeMode =
     (if routeMode \<noteq> ''reverse'' then None
      else Some (case map_of (current m) n of None \<Rightarrow> False
                 | Some i \<Rightarrow> s_state (sess m i) = SReady \<and> routeReady (sess m i)))"

definition closeSessionsForNode :: "str \<Rightarrow> str \<Rightarrow> manager \<Rightarrow> manager" where
  "closeSessionsForNode n reason m =
     (let m1 = (case map_of (current m) n of None \<Rightarrow> m | Some i \<Rightarrow> close_session i 1001 reason False m)
      in close_many (pending_of m1 n) 1001 reason m1)"

definition closeSessionsForCredential :: "str \<Rightarrow> str \<Rightarrow> str \<Rightarrow> manager \<Rightarrow> str list \<times> manager" where
  "closeSessionsForCredential n keyId reason m =
     (let cur = (case map_of (current m) n of None \<Rightarrow> []
                 | Some i \<Rightarrow> if s_keyId (sess m i) = keyId then [i] else []);
          matching = foldl (\<lambda>xs i. if s_keyId (sess m i) = keyId \<and> i \<notin> set xs then xs @ [i] else xs) cur (pending_of m n)
      in (map (\<lambda>i. reverseSessionId (sess m i)) matching, close_many matching 1001 reason m))"

definition closeAll :: "str \<Rightarrow> manager \<Rightarrow> manager" where
  "closeAll reason m =
     (let m1 = foldl (\<lambda>m n. closeSessionsForNode n reason m) m (map fst (current m))
      in foldl (\<lambda>m ids. close_many ids 1001 reason m) m1 (map snd (pending m1)))"

section \<open>Events of the system\<close>

datatype event =
    Upgrade int str str str "byte list"
  | Data nat int "byte list"
  | SocketGone nat str
  | SocketUnwritable nat
  | ReadyTimeout nat
  | PingTick nat
  | PongTimeout nat nat
  | CloseNode str str
  | CloseCredential str str str
  | CloseAll str

fun handle :: "(byte list \<Rightarrow> jsval option) \<Rightarrow> event \<Rightarrow> manager \<Rightarrow> manager" where
  "handle pj (Upgrade now n k sid head) m = registerUpgrade pj now n k sid head m"
| "handle pj (Data i now chunk) m = (if i < length (sessions m) then on_data pj now i chunk m else m)"
| "handle pj (SocketGone i reason) m =
     (if i < length (sessions m) then close_session i 1001 reason True m else m)"
| "handle pj (SocketUnwritable i) m =
     (if i < length (sessions m) then upd i (\<lambda>s. s\<lparr>sockWritable := False\<rparr>) m else m)"
| "handle pj (ReadyTimeout i) m = (if i < length (sessions m) then ready_timeout i m else m)"
| "handle pj (PingTick i) m = (if i < length (sessions m) then ping_tick i m else m)"
| "handle pj (PongTimeout i h) m = (if i < length (sessions m) then pong_timeout i h m else m)"
| "handle pj (CloseNode n reason) m = closeSessionsForNode n reason m"
| "handle pj (CloseCredential n k reason) m = snd (closeSessionsForCredential n k reason m)"
| "handle pj (CloseAll reason) m = closeAll reason m"

inductive reachable :: "(byte list \<Rightarrow> jsval option) \<Rightarrow> manager \<Rightarrow> bool" for pj where
  start: "reachable pj new_manager"
| step: "reachable pj m \<Longrightarrow> reachable pj (handle pj ev m)"

section \<open>Effects on the maps and the heap\<close>

abbreviation cur :: "manager \<Rightarrow> str \<Rightarrow> nat option" where
  "cur m n \<equiv> map_of (current m) n"

definition shut :: "session \<Rightarrow> session" where
  "shut s = (clear_pong (s\<lparr>s_closed := True, s_state := SClosed, readyTimer := False, pingTimer := False\<rparr>))
     \<lparr>sockDestroyed := True\<rparr>"

lemma upd_simps [simp]:
  "current (upd i f m) = current m" "pending (upd i f m) = pending m" "hooks (upd i f m) = hooks m"
  "length (sessions (upd i f m)) = length (sessions m)"
  "i < length (sessions m) \<Longrightarrow> sess (upd i f m) i = f (sess m i)"
  "j \<noteq> i \<Longrightarrow> sess (upd i f m) j = sess m j"
  "pending_of (upd i f m) n = pending_of m n"
  by (simp_all add: upd_def pending_of_def)

lemma pending_of_frame [simp]:
  "pending_of (m\<lparr>current := c\<rparr>) n = pending_of m n" "pending_of (m\<lparr>sessions := ss\<rparr>) n = pending_of m n"
  by (simp_all add: pending_of_def)

lemma emit_simps [simp]:
  "current (emit h m) = current m" "pending (emit h m) = pending m" "sessions (emit h m) = sessions m"
  "pending_of (emit h m) n = pending_of m n"
  by (simp_all add: emit_def pending_of_def)

lemma clear_pong_simps [simp]:
  "s_nodeId (clear_pong s) = s_nodeId s" "s_keyId (clear_pong s) = s_keyId s" "s_state (clear_pong s) = s_state s"
  "superseded (clear_pong s) = superseded s" "s_closed (clear_pong s) = s_closed s" "outbox (clear_pong s) = outbox s"
  "readyTimer (clear_pong s) = readyTimer s" "pingTimer (clear_pong s) = pingTimer s" "routeReady (clear_pong s) = routeReady s"
  "reverseSessionId (clear_pong s) = reverseSessionId s" "sockDestroyed (clear_pong s) = sockDestroyed s"
  by (simp_all add: clear_pong_def split: option.splits)

lemma shut_simps [simp]:
  "s_nodeId (shut s) = s_nodeId s" "s_keyId (shut s) = s_keyId s" "s_state (shut s) = SClosed"
  "superseded (shut s) = superseded s" "s_closed (shut s)" "outbox (shut s) = outbox s" "\<not> readyTimer (shut s)"
  "\<not> pingTimer (shut s)" "sockDestroyed (shut s)" "reverseSessionId (shut s) = reverseSessionId s"
  by (simp_all add: shut_def)

lemma drop_pending_simps [simp]:
  "current (drop_pending n i m) = current m" "sessions (drop_pending n i m) = sessions m"
  "hooks (drop_pending n i m) = hooks m"
  "pending_of (drop_pending n i m) n' = (if n' = n then removeAll i (pending_of m n) else pending_of m n')"
  by (auto simp: drop_pending_def pending_of_def Let_def orbit_simps split: option.splits)

lemma drop_pending_wf [simp]: "omap_wf (pending m) \<Longrightarrow> omap_wf (pending (drop_pending n i m))"
  by (simp add: drop_pending_def Let_def split: option.split)

text \<open>Closing an open session; the close frame is never written, since the session is already closed.\<close>

lemma close_session_effect:
  assumes "i < length (sessions m)" "\<not> s_closed (sess m i)"
  and m'_def: "m' = close_session i code reason fromPeer m"
  shows "sessions m' = (sessions m)[i := shut (sess m i)]"
    and "cur m' = (if cur m (s_nodeId (sess m i)) = Some i then (cur m)(s_nodeId (sess m i) := None) else cur m)"
    and "pending_of m' = (pending_of m)(s_nodeId (sess m i) := removeAll i (pending_of m (s_nodeId (sess m i))))"
    and "omap_wf (current m) \<Longrightarrow> omap_wf (current m')" "omap_wf (pending m) \<Longrightarrow> omap_wf (pending m')"
proof -
  let ?f = "\<lambda>s. clear_pong (s\<lparr>s_closed := True, s_state := SClosed, readyTimer := False, pingTimer := False\<rparr>)"
  let ?n = "s_nodeId (sess m i)"
  let ?m1 = "upd i ?f m"
  let ?m2 = "if cur ?m1 ?n = Some i then ?m1\<lparr>current := AList.delete ?n (current ?m1)\<rparr> else ?m1"
  let ?m3 = "drop_pending ?n i ?m2"
  let ?m5 = "emit (HookClosed i reason) (if cur ?m1 ?n = Some i then emit (TransClosed ?n reason) ?m3 else ?m3)"
  have c: "s_closed (sess ?m5 i)" using assms(1) by simp
  have m5: "sessions ?m5 = (sessions m)[i := ?f (sess m i)]" by (simp add: upd_def)
  have send: "sessions (if b then upd i (sendFrame x) ?m5 else ?m5) = sessions ?m5" for b x
    using c by (simp add: upd_def sendFrame_def)
  have fields: "current (if b then upd i (sendFrame x) ?m5 else ?m5) = current ?m5"
    "pending (if b then upd i (sendFrame x) ?m5 else ?m5) = pending ?m5"
    "pending_of (if b then upd i (sendFrame x) ?m5 else ?m5) n = pending_of ?m5 n" for b x n by simp_all
  have m': "m' = upd i (\<lambda>s. s\<lparr>sockDestroyed := True\<rparr>)
      (if \<not> fromPeer \<and> \<not> sockDestroyed (sess ?m5 i) then upd i (sendFrame (SentClose code reason)) ?m5 else ?m5)"
    using assms(2) unfolding m'_def close_session_def Let_def by (simp only: if_False)
  show "sessions m' = (sessions m)[i := shut (sess m i)]"
    unfolding m' using assms(1) by (simp add: upd_def m5 shut_def sendFrame_def)
  show "cur m' = (if cur m (s_nodeId (sess m i)) = Some i then (cur m)(s_nodeId (sess m i) := None) else cur m)"
    unfolding m' upd_simps fields by (simp add: orbit_simps fun_upd_def)
  show "pending_of m' = (pending_of m)(s_nodeId (sess m i) := removeAll i (pending_of m (s_nodeId (sess m i))))"
    unfolding m' by (rule ext) (simp only: upd_simps fields, simp)
  show "omap_wf (current m) \<Longrightarrow> omap_wf (current m')" "omap_wf (pending m) \<Longrightarrow> omap_wf (pending m')"
    unfolding m' upd_simps fields by simp_all
qed

lemma close_session_closed: "s_closed (sess m i) \<Longrightarrow> close_session i code reason fp m = m"
  by (simp add: close_session_def)

lemma sendFrame_simps [simp]:
  "s_nodeId (sendFrame x s) = s_nodeId s" "s_keyId (sendFrame x s) = s_keyId s" "s_state (sendFrame x s) = s_state s"
  "superseded (sendFrame x s) = superseded s" "s_closed (sendFrame x s) = s_closed s"
  "readyTimer (sendFrame x s) = readyTimer s" "pingTimer (sendFrame x s) = pingTimer s"
  "sockDestroyed (sendFrame x s) = sockDestroyed s"
  by (simp_all add: sendFrame_def)

section \<open>Invariant\<close>

text \<open>
  What holds of one session. The argument \<open>x\<close> exempts a session that is being registered from
  being pending.
\<close>

definition session_ok :: "nat option \<Rightarrow> manager \<Rightarrow> nat \<Rightarrow> bool" where
  "session_ok x m i \<longleftrightarrow>
     (if s_closed (sess m i)
      then s_state (sess m i) = SClosed \<and> \<not> readyTimer (sess m i) \<and> \<not> pingTimer (sess m i)
      else \<not> superseded (sess m i) \<and> s_state (sess m i) \<noteq> SClosed
        \<and> (s_state (sess m i) = SReady \<longleftrightarrow> cur m (s_nodeId (sess m i)) = Some i)
        \<and> (s_state (sess m i) = SPending \<and> x \<noteq> Some i \<longrightarrow> i \<in> set (pending_of m (s_nodeId (sess m i)))))
     \<and> (\<forall>c r. SentClose c r \<notin> set (outbox (sess m i)))"

definition open_at :: "manager \<Rightarrow> str \<Rightarrow> nat \<Rightarrow> bool" where
  "open_at m n i \<longleftrightarrow> i < length (sessions m) \<and> s_nodeId (sess m i) = n \<and> \<not> s_closed (sess m i)"

definition manager_inv :: "nat option \<Rightarrow> manager \<Rightarrow> bool" where
  "manager_inv x m \<longleftrightarrow> omap_wf (current m) \<and> omap_wf (pending m)
     \<and> (\<forall>i < length (sessions m). session_ok x m i)
     \<and> (\<forall>n i. cur m n = Some i \<longrightarrow> open_at m n i)
     \<and> (\<forall>n i. i \<in> set (pending_of m n) \<longrightarrow> open_at m n i)
     \<and> (\<forall>n. length (pending_of m n) \<le> 1)"

lemma removeAll_length_le: "length xs \<le> k \<Longrightarrow> length (removeAll x xs) \<le> k"
  using length_removeAll_less_eq [of x xs] by linarith

lemma manager_inv_close:
  assumes inv: "manager_inv x m" and i: "i < length (sessions m)"
  shows "manager_inv x (close_session i code reason fp m)"
proof (cases "s_closed (sess m i)")
  case True
  then show ?thesis using inv by (simp add: close_session_closed)
next
  case False
  let ?m = "close_session i code reason fp m"
  note e = close_session_effect [OF i False refl, of code reason fp]
  have sj: "sess ?m j = (if j = i then shut (sess m i) else sess m j)" if "j < length (sessions m)" for j
    using that by (auto simp: e(1) nth_list_update)
  have len: "length (sessions ?m) = length (sessions m)" by (simp add: e(1))
  have ok: "session_ok x ?m j" if j: "j < length (sessions m)" for j
  proof -
    have "session_ok x m j" using inv j by (simp add: manager_inv_def)
    then show ?thesis
      unfolding session_ok_def e(2,3) using j
      by (auto simp: sj)
  qed
  have c: "open_at ?m n j" if "cur ?m n = Some j" for n j
  proof -
    from that have old: "cur m n = Some j" and ne: "\<not> (cur m (s_nodeId (sess m i)) = Some i \<and> n = s_nodeId (sess m i))"
      by (auto simp: e(2) split: if_splits)
    from old inv have o: "open_at m n j" by (simp add: manager_inv_def)
    with ne old have "j \<noteq> i" by (auto simp: open_at_def)
    with o show ?thesis by (auto simp: open_at_def len sj)
  qed
  have p: "open_at ?m n j" if "j \<in> set (pending_of ?m n)" for n j
  proof -
    from that have old: "j \<in> set (pending_of m n)" "n = s_nodeId (sess m i) \<longrightarrow> j \<noteq> i"
      by (auto simp: e(3) split: if_splits)
    from old inv have o: "open_at m n j" by (simp add: manager_inv_def)
    with old(2) have "j \<noteq> i" by (auto simp: open_at_def)
    with o show ?thesis by (auto simp: open_at_def len sj)
  qed
  show ?thesis
    using inv ok c p e(4,5) unfolding manager_inv_def len
    by (auto simp: e(3) removeAll_length_le)
qed

lemma manager_invD:
  assumes "manager_inv x m"
  shows "i < length (sessions m) \<Longrightarrow> session_ok x m i" "cur m n = Some i \<Longrightarrow> open_at m n i"
    "i \<in> set (pending_of m n) \<Longrightarrow> open_at m n i" "length (pending_of m n) \<le> 1"
  using assms unfolding manager_inv_def by blast+

text \<open>Updates that keep the fields the invariant speaks of.\<close>

definition same_core :: "session \<Rightarrow> session \<Rightarrow> bool" where
  "same_core s s' \<longleftrightarrow> s_nodeId s' = s_nodeId s \<and> s_keyId s' = s_keyId s \<and> s_state s' = s_state s
     \<and> superseded s' = superseded s \<and> s_closed s' = s_closed s
     \<and> (readyTimer s' \<longrightarrow> readyTimer s) \<and> (pingTimer s' \<longrightarrow> pingTimer s)
     \<and> (\<forall>c r. SentClose c r \<in> set (outbox s') \<longrightarrow> SentClose c r \<in> set (outbox s))
     \<and> reverseSessionId s' = reverseSessionId s"

lemma manager_inv_upd:
  assumes "manager_inv x m" "i < length (sessions m)" "same_core (sess m i) (f (sess m i))"
  shows "manager_inv x (upd i f m)"
proof -
  have s: "same_core (sess m j) (sess (upd i f m) j)" for j
    using assms(2,3) by (cases "j = i") (simp_all add: same_core_def)
  have "session_ok x (upd i f m) j" if "j < length (sessions m)" for j
  proof -
    have "session_ok x m j" using that assms(1) by (simp add: manager_inv_def)
    then show ?thesis using s [of j] by (auto simp: session_ok_def same_core_def)
  qed
  moreover have "open_at (upd i f m) n j = open_at m n j" for n j
    using s [of j] by (simp add: open_at_def same_core_def)
  ultimately show ?thesis using assms(1) by (simp add: manager_inv_def)
qed

lemma manager_inv_emit [simp]: "manager_inv x (emit h m) = manager_inv x m"
  by (simp add: manager_inv_def session_ok_def open_at_def)

text \<open>The state right before a previous generation is closed, and the promotion as a whole.\<close>

lemma promote_effect:
  assumes inv: "manager_inv x m" and i: "i < length (sessions m)" "\<not> s_closed (sess m i)" "s_state (sess m i) = SPending"
    and m': "m' = promote i m"
  defines "n \<equiv> s_nodeId (sess m i)"
  shows "sessions m' = (case cur m n of None \<Rightarrow> sessions m | Some j \<Rightarrow> (sessions m)[j := shut (sess m j\<lparr>superseded := True\<rparr>)])
            [i := sess m i\<lparr>readyTimer := False, s_state := SReady\<rparr>]"
    and "cur m' = (cur m)(n \<mapsto> i)"
    and "pending_of m' = (pending_of m)(n := (case cur m n of None \<Rightarrow> removeAll i (pending_of m n)
           | Some j \<Rightarrow> removeAll j (removeAll i (pending_of m n))))"
    and "omap_wf (current m')" "omap_wf (pending m')"
proof -
  have ns: "\<not> superseded (sess m i)" using inv i by (auto simp: manager_inv_def session_ok_def)
  have wf: "omap_wf (current m)" "omap_wf (pending m)" using inv by (simp_all add: manager_inv_def)
  let ?m1 = "upd i (\<lambda>s. s\<lparr>readyTimer := False, s_state := SReady\<rparr>) m"
  let ?m2 = "?m1\<lparr>current := AList.update n i (current ?m1)\<rparr>"
  let ?m3 = "case map_of (pending ?m2) n of None \<Rightarrow> ?m2
      | Some ids \<Rightarrow> ?m2\<lparr>pending := AList.update n (removeAll i ids) (pending ?m2)\<rparr>"
  have m3: "current ?m3 = current ?m2" "sessions ?m3 = sessions ?m1"
    "pending_of ?m3 = (pending_of m)(n := removeAll i (pending_of m n))" "omap_wf (pending ?m3)"
    using wf by (cases "map_of (pending m) n"; simp add: pending_of_def orbit_simps fun_eq_iff)+
  let ?m4 = "case map_of (current ?m1) n of
        Some j \<Rightarrow> if j \<noteq> i then close_session j 1001 ''superseded'' False (upd j (\<lambda>s. s\<lparr>superseded := True\<rparr>) ?m3) else ?m3
      | None \<Rightarrow> ?m3"
  have p: "m' = emit (HookPromoted n (routeReady (sess ?m4 i))) (emit (TransReady n (routeReady (sess ?m4 i))) ?m4)"
    using i ns by (simp only: m' promote_def Let_def n_def if_False simp_thms)
  have m': "current m' = current ?m4" "sessions m' = sessions ?m4" "pending m' = pending ?m4" "pending_of m' = pending_of ?m4"
    unfolding p by (simp_all only: emit_simps) (simp add: pending_of_def fun_eq_iff)
  have all: "sessions m' = (case cur m n of None \<Rightarrow> sessions m | Some j \<Rightarrow> (sessions m)[j := shut (sess m j\<lparr>superseded := True\<rparr>)])
            [i := sess m i\<lparr>readyTimer := False, s_state := SReady\<rparr>]
    \<and> cur m' = (cur m)(n \<mapsto> i)
    \<and> pending_of m' = (pending_of m)(n := (case cur m n of None \<Rightarrow> removeAll i (pending_of m n)
           | Some j \<Rightarrow> removeAll j (removeAll i (pending_of m n))))
    \<and> omap_wf (current m') \<and> omap_wf (pending m')"
  proof (cases "cur m n")
    case None
    then have "?m4 = ?m3" by simp
    then show ?thesis using None wf m3 unfolding m'
      by (simp add: orbit_simps fun_eq_iff) (simp add: upd_def)
  next
    case (Some j)
    then have o: "open_at m n j" "session_ok x m j" using inv by (auto simp: manager_inv_def open_at_def)
    then have j: "j < length (sessions m)" "s_nodeId (sess m j) = n" "\<not> s_closed (sess m j)" "j \<noteq> i"
      using Some i by (auto simp: open_at_def session_ok_def)
    let ?M = "upd j (\<lambda>s. s\<lparr>superseded := True\<rparr>) ?m3"
    have M: "sessions ?M = (sessions m)[i := sess m i\<lparr>readyTimer := False, s_state := SReady\<rparr>, j := sess m j\<lparr>superseded := True\<rparr>]"
      "current ?M = AList.update n i (current m)" "pending_of ?M = (pending_of m)(n := removeAll i (pending_of m n))"
      "omap_wf (pending ?M)"
      using j m3 by (simp_all add: upd_def fun_eq_iff)
    have sj: "sess ?M j = sess m j\<lparr>superseded := True\<rparr>" using j unfolding M(1) by simp
    have "?m4 = close_session j 1001 ''superseded'' False ?M" using Some j(4) by simp
    note e = close_session_effect [of j ?M, OF _ _ this]
    have lj: "j < length (sessions ?M)" "\<not> s_closed (sess ?M j)" using j unfolding sj unfolding M(1) by simp_all
    have nj: "s_nodeId (sess ?M j) = n" using j unfolding sj by simp
    have cM: "map_of (current ?M) n = Some i" unfolding M(2) by (simp add: orbit_simps)
    show ?thesis
      unfolding m' e(1) [OF lj] e(2) [OF lj] e(3) [OF lj] nj sj cM
      using e(4) [OF lj, unfolded M(2)] e(5) [OF lj M(4)] wf j unfolding M(1,2,3)
      by (simp add: Some orbit_simps list_update_swap fun_eq_iff)
  qed
  then show "sessions m' = (case cur m n of None \<Rightarrow> sessions m | Some j \<Rightarrow> (sessions m)[j := shut (sess m j\<lparr>superseded := True\<rparr>)])
            [i := sess m i\<lparr>readyTimer := False, s_state := SReady\<rparr>]"
    "cur m' = (cur m)(n \<mapsto> i)"
    "pending_of m' = (pending_of m)(n := (case cur m n of None \<Rightarrow> removeAll i (pending_of m n)
           | Some j \<Rightarrow> removeAll j (removeAll i (pending_of m n))))"
    "omap_wf (current m')" "omap_wf (pending m')" by blast+
qed

lemma manager_inv_promote:
  assumes inv: "manager_inv x m" and i: "i < length (sessions m)" and st: "s_state (sess m i) \<noteq> SReady"
  shows "manager_inv x (promote i m)"
proof (cases "s_closed (sess m i)")
  case True
  then show ?thesis using inv by (simp add: promote_def)
next
  case False
  let ?n = "s_nodeId (sess m i)" and ?m = "promote i m"
  have ok: "session_ok x m k" if "k < length (sessions m)" for k
    using inv that by (simp add: manager_inv_def)
  have pend: "s_state (sess m i) = SPending"
    using ok [OF i] False st by (cases "s_state (sess m i)") (auto simp: session_ok_def)
  note e = promote_effect [OF inv i False pend refl]
  have len: "length (sessions ?m) = length (sessions m)" by (simp add: e(1) split: option.split)
  have j: "j < length (sessions m) \<and> j \<noteq> i \<and> s_nodeId (sess m j) = ?n \<and> \<not> s_closed (sess m j) \<and> s_state (sess m j) = SReady"
    if "cur m ?n = Some j" for j
    using manager_invD(2) [OF inv that] manager_invD(1) [OF inv, of j] that pend
    by (auto simp: open_at_def session_ok_def)
  have sk: "sess ?m k = (if k = i then sess m i\<lparr>readyTimer := False, s_state := SReady\<rparr>
      else if cur m ?n = Some k then shut (sess m k\<lparr>superseded := True\<rparr>) else sess m k)" if "k < length (sessions m)" for k
  proof (cases "cur m ?n")
    case None
    then show ?thesis using that by (simp add: e(1) nth_list_update)
  next
    case (Some l)
    then show ?thesis using that j [OF Some] unfolding e(1) by (simp add: nth_list_update)
  qed
  have "session_ok x ?m k" if k: "k < length (sessions m)" for k
  proof -
    consider "k = i" | "k \<noteq> i" "cur m ?n = Some k" | "k \<noteq> i" "cur m ?n \<noteq> Some k" by blast
    then show ?thesis
    proof cases
      case 1
      then show ?thesis using ok [OF i] False unfolding session_ok_def sk [OF k] by (simp add: e(2))
    next
      case 2
      then show ?thesis using ok [OF k] unfolding session_ok_def sk [OF k] by simp
    next
      case 3
      then have same: "sess ?m k = sess m k" using sk [OF k] by simp
      have r: "\<not> s_closed (sess m k) \<Longrightarrow> s_nodeId (sess m k) = ?n \<Longrightarrow> s_state (sess m k) = SPending"
        using ok [OF k] 3 by (cases "s_state (sess m k)") (auto simp: session_ok_def)
      have p: "k \<in> set (pending_of ?m n') \<longleftrightarrow> k \<in> set (pending_of m n')" for n'
        using 3 by (auto simp: e(3) split: option.split)
      show ?thesis using ok [OF k] r 3 unfolding session_ok_def same p by (auto simp: e(2))
    qed
  qed
  moreover have "open_at ?m n' k" if "cur ?m n' = Some k" for n' k
  proof (cases "n' = ?n")
    case True
    then have "k = i" using that by (simp add: e(2))
    then show ?thesis using i False sk [OF i] True by (simp add: open_at_def len del: not_None_eq)
  next
    case no: False
    with that have "cur m n' = Some k" by (simp add: e(2))
    from manager_invD(2) [OF inv this] no j [of k] show ?thesis
      by (auto simp: open_at_def len sk)
  qed
  moreover have "open_at ?m n' k" if "k \<in> set (pending_of ?m n')" for n' k
  proof -
    from that have old: "k \<in> set (pending_of m n')" "n' = ?n \<longrightarrow> cur m ?n \<noteq> Some k \<and> k \<noteq> i"
      by (auto simp: e(3) split: if_splits option.splits)
    from manager_invD(3) [OF inv old(1)] have o: "open_at m n' k" .
    with old(2) j have "cur m ?n \<noteq> Some k" by (auto simp: open_at_def)
    with o show ?thesis by (auto simp: open_at_def len sk)
  qed
  moreover have "length (pending_of ?m n') \<le> 1" for n'
    using manager_invD(4) [OF inv, of n'] manager_invD(4) [OF inv, of ?n]
    by (simp add: e(3) removeAll_length_le split: option.split)
  ultimately show ?thesis using e(4,5) unfolding manager_inv_def len by blast
qed

lemma upd_core [simp]:
  "same_core s (s\<lparr>routeReady := b\<rparr>)" "same_core s (s\<lparr>ws := w\<rparr>)" "same_core s (s\<lparr>sockWritable := b\<rparr>)"
  "same_core s (s\<lparr>readyTimer := False\<rparr>)" "same_core s (s\<lparr>armedPongs := hs\<rparr>)"
  "same_core s (sendFrame (SentPong p) s)"
  "same_core s ((sendFrame SentPing (s\<lparr>awaitingPong := a\<rparr>))\<lparr>pongTimer := h, armedPongs := hs, nextPong := k\<rparr>)"
  "same_core s ((clear_pong s)\<lparr>lastPongAt := t, awaitingPong := b, pongTimer := h\<rparr>)"
  by (auto simp: same_core_def sendFrame_def)

lemma manager_inv_control:
  assumes "manager_inv x m" "i < length (sessions m)"
  shows "manager_inv x (onControlMessage v i m)"
proof -
  have c: "manager_inv x (close_session i code reason fp m)" for code reason fp
    by (rule manager_inv_close [OF assms])
  have r: "manager_inv x (upd i (\<lambda>s. s\<lparr>routeReady := b\<rparr>) m)" for b
    by (rule manager_inv_upd [OF assms]) simp
  have p: "manager_inv x (promote i (upd i (\<lambda>s. s\<lparr>routeReady := b\<rparr>) m))" if "s_state (sess m i) \<noteq> SReady" for b
    using that assms by (intro manager_inv_promote r) simp_all
  show ?thesis
    using assms(1) c r p
    by (simp add: onControlMessage_def Let_def split: option.split prod.split jsval.split)
qed

lemma nth_upd: "j < length xs \<Longrightarrow> xs[i := y] ! j = (if i = j then y else xs ! j)"
  by (cases "i = j") simp_all

text \<open>The heap only grows, and sessions keep their identity.\<close>

definition grows :: "manager \<Rightarrow> manager \<Rightarrow> bool" where
  "grows m m' \<longleftrightarrow> length (sessions m') = length (sessions m)
     \<and> (\<forall>i < length (sessions m). s_nodeId (sess m' i) = s_nodeId (sess m i) \<and> s_keyId (sess m' i) = s_keyId (sess m i)
        \<and> reverseSessionId (sess m' i) = reverseSessionId (sess m i) \<and> (s_closed (sess m i) \<longrightarrow> s_closed (sess m' i)))"

lemma grows_refl [simp]: "grows m m"
  by (simp add: grows_def)

lemma grows_trans: "grows a b \<Longrightarrow> grows b c \<Longrightarrow> grows a c"
  by (auto simp: grows_def)

lemma grows_emit [simp]: "grows m (emit h m') = grows m m'"
  by (simp add: grows_def)

lemma grows_close: "i < length (sessions m) \<Longrightarrow> grows m (close_session i code reason fp m)"
proof (cases "s_closed (sess m i)")
  case False
  assume i: "i < length (sessions m)"
  show ?thesis
    unfolding grows_def close_session_effect(1) [OF i False refl] by (auto simp: nth_upd)
qed (simp add: close_session_closed)

lemma grows_upd: "i < length (sessions m) \<Longrightarrow> same_core (sess m i) (f (sess m i)) \<Longrightarrow> grows m (upd i f m)"
  by (auto simp: grows_def upd_def nth_upd same_core_def)

lemma grows_promote:
  assumes "manager_inv x m" "i < length (sessions m)" "s_state (sess m i) \<noteq> SReady"
  shows "grows m (promote i m)"
proof (cases "s_closed (sess m i)")
  case True
  then show ?thesis by (simp add: promote_def)
next
  case False
  then have "s_state (sess m i) = SPending"
    using manager_invD(1) [OF assms(1,2)] assms(3) by (cases "s_state (sess m i)") (auto simp: session_ok_def)
  note e = promote_effect [OF assms(1,2) False this refl]
  show ?thesis
    unfolding grows_def e(1) using False by (auto simp: nth_upd split: option.splits)
qed

text \<open>One step on one session: the invariant and the heap order together.\<close>

definition good :: "nat option \<Rightarrow> manager \<Rightarrow> manager \<Rightarrow> bool" where
  "good x m m' \<longleftrightarrow> manager_inv x m' \<and> grows m m'"

lemma good_close: "manager_inv x m \<Longrightarrow> i < length (sessions m) \<Longrightarrow> good x m (close_session i code reason fp m)"
  by (simp add: good_def manager_inv_close grows_close)

lemma good_upd: "manager_inv x m \<Longrightarrow> i < length (sessions m) \<Longrightarrow> same_core (sess m i) (f (sess m i)) \<Longrightarrow> good x m (upd i f m)"
  by (simp add: good_def manager_inv_upd grows_upd)

lemma good_trans: "good x a b \<Longrightarrow> good x b c \<Longrightarrow> good x a c"
  by (auto simp: good_def intro: grows_trans)

lemma good_length: "good x m m' \<Longrightarrow> length (sessions m') = length (sessions m)"
  by (simp add: good_def grows_def)

lemma good_inv: "good x m m' \<Longrightarrow> manager_inv x m'"
  by (simp add: good_def)

lemma good_refl: "manager_inv x m \<Longrightarrow> good x m m"
  by (simp add: good_def)

lemma good_then_close:
  assumes "good x m m'" "i < length (sessions m)"
  shows "good x m (close_session i code reason fp m')"
  by (rule good_trans [OF assms(1) good_close [OF good_inv [OF assms(1)]]])
    (simp add: good_length [OF assms(1)] assms(2))

lemma good_control:
  assumes "manager_inv x m" "i < length (sessions m)"
  shows "good x m (onControlMessage v i m)"
proof -
  have c: "grows m (close_session i code reason fp m)" for code reason fp
    by (rule grows_close [OF assms(2)])
  have r: "good x m (upd i (\<lambda>s. s\<lparr>routeReady := b\<rparr>) m)" for b
    by (rule good_upd [OF assms]) simp
  have p: "grows m (promote i (upd i (\<lambda>s. s\<lparr>routeReady := b\<rparr>) m))" if "s_state (sess m i) \<noteq> SReady" for b
    using that assms r [of b] by (intro grows_trans [OF _ grows_promote [of x]]) (simp_all add: good_def)
  have "grows m (onControlMessage v i m)"
    using c r p by (simp add: onControlMessage_def Let_def good_def split: option.split prod.split jsval.split)
  with manager_inv_control [OF assms] show ?thesis by (simp add: good_def)
qed

lemma good_ws_event:
  assumes "manager_inv x m" "i < length (sessions m)"
  shows "good x m (on_ws_event pj now i ev m)"
  by (cases ev) (simp_all add: good_control good_close good_upd onPong_def assms)

lemma good_ws_events:
  "manager_inv x m \<Longrightarrow> i < length (sessions m) \<Longrightarrow> good x m (foldl (\<lambda>m ev. on_ws_event pj now i ev m) m evs)"
proof (induction evs arbitrary: m)
  case Nil
  then show ?case by (simp add: good_def)
next
  case (Cons ev evs)
  note g = good_ws_event [OF Cons.prems, of pj now ev]
  then have "good x (on_ws_event pj now i ev m) (foldl (\<lambda>m ev. on_ws_event pj now i ev m) (on_ws_event pj now i ev m) evs)"
    using Cons.prems(2) by (intro Cons.IH) (simp_all add: good_length, simp add: good_def)
  with g show ?case by (simp add: good_trans)
qed

lemma good_data:
  assumes "manager_inv x m" "i < length (sessions m)"
  shows "good x m (on_data pj now i chunk m)"
proof -
  have u: "good x m (upd i (\<lambda>s. s\<lparr>ws := w\<rparr>) m)" for w by (rule good_upd [OF assms]) simp
  show ?thesis unfolding on_data_def Let_def
    by (rule good_trans [OF u good_ws_events [OF good_inv [OF u]]]) (simp add: assms)
qed

lemma good_timers:
  assumes "manager_inv x m" "i < length (sessions m)"
  shows "good x m (ready_timeout i m)" "good x m (ping_tick i m)" "good x m (pong_timeout i h m)"
proof -
  have r: "good x m (upd i (\<lambda>s. s\<lparr>readyTimer := False\<rparr>) m)" for b by (rule good_upd [OF assms]) simp
  have a: "good x m (upd i (\<lambda>s. s\<lparr>armedPongs := hs s\<rparr>) m)" for hs by (rule good_upd [OF assms]) simp
  show "good x m (ready_timeout i m)"
    using assms r by (simp add: ready_timeout_def good_then_close good_refl)
  show "good x m (ping_tick i m)"
    using assms by (simp add: ping_tick_def good_upd good_refl)
  show "good x m (pong_timeout i h m)"
    using assms a [of "\<lambda>s. removeAll h (armedPongs s)"]
    by (simp add: pong_timeout_def Let_def good_then_close good_refl)
qed

lemma good_many:
  "manager_inv x m \<Longrightarrow> list_all (\<lambda>i. i < length (sessions m)) ids \<Longrightarrow> good x m (close_many ids code reason m)"
proof (induction ids arbitrary: m)
  case Nil
  then show ?case by (simp add: close_many_def good_def)
next
  case (Cons i ids)
  note g = good_close [OF Cons.prems(1), of i code reason False]
  then have "good x (close_session i code reason False m) (close_many ids code reason (close_session i code reason False m))"
    using Cons.prems by (intro Cons.IH) (simp_all add: good_length, simp add: good_def)
  with g Cons.prems(2) show ?case by (simp add: close_many_def good_trans)
qed

text \<open>Which sessions a bulk close shuts, and that it leaves the others alone.\<close>

lemma close_many_closed:
  "manager_inv x m \<Longrightarrow> list_all (\<lambda>i. i < length (sessions m)) ids \<Longrightarrow> i \<in> set ids
   \<Longrightarrow> s_closed (sess (close_many ids code reason m) i)"
proof (induction ids arbitrary: m)
  case (Cons j ids)
  let ?m = "close_session j code reason False m"
  have j: "j < length (sessions m)" using Cons.prems(2) by simp
  have g: "good x m ?m" using Cons.prems(1) j by (rule good_close)
  have l: "list_all (\<lambda>i. i < length (sessions ?m)) ids" using Cons.prems(2) g by (simp add: good_length)
  have inv: "manager_inv x ?m" using g by (simp add: good_def)
  have cj: "s_closed (sess ?m j)"
    using j close_session_effect(1) [OF j _ refl, of code reason False] by (cases "s_closed (sess m j)") (simp_all add: close_session_closed)
  show ?case
  proof (cases "i = j")
    case True
    have "grows ?m (close_many ids code reason ?m)" using good_many [OF inv l, of code reason] by (simp add: good_def)
    then show ?thesis using cj j True g by (auto simp: close_many_def grows_def good_length)
  next
    case False
    then show ?thesis using Cons.IH [OF inv l] Cons.prems(3) by (simp add: close_many_def)
  qed
qed simp

lemma close_many_other:
  "list_all (\<lambda>i. i < length (sessions m)) ids \<Longrightarrow> i \<notin> set ids \<Longrightarrow> sess (close_many ids code reason m) i = sess m i"
proof (induction ids arbitrary: m)
  case (Cons j ids)
  let ?m = "close_session j code reason False m"
  have j: "j < length (sessions m)" using Cons.prems(1) by simp
  have "sess ?m i = sess m i" "length (sessions ?m) = length (sessions m)"
    using j Cons.prems(2) close_session_effect(1) [OF j _ refl, of code reason False]
    by (cases "s_closed (sess m j)"; simp add: close_session_closed)+
  then show ?case using Cons by (simp add: close_many_def)
qed (simp add: close_many_def)

section \<open>Operations of the manager\<close>

lemma pending_bounded: "manager_inv x m \<Longrightarrow> list_all (\<lambda>i. i < length (sessions m)) (pending_of m n)"
  using manager_invD(3) by (fastforce simp: list_all_iff open_at_def)

lemma pending_after_close_pending:
  assumes "manager_inv x m"
  shows "pending_of (close_many (pending_of m n) code reason m) n = []"
proof -
  let ?m = "close_many (pending_of m n) code reason m"
  have g: "good x m ?m" by (rule good_many [OF assms pending_bounded [OF assms]])
  show ?thesis
  proof (cases "pending_of m n")
    case Nil
    then show ?thesis by (simp add: close_many_def)
  next
    case (Cons i ids)
    have "length (pending_of m n) \<le> 1" by (rule manager_invD(4) [OF assms])
    with Cons have p: "pending_of m n = [i]" by simp
    have o: "open_at m n i" by (rule manager_invD(3) [OF assms]) (simp add: p)
    then have i: "i < length (sessions m)" "\<not> s_closed (sess m i)" "s_nodeId (sess m i) = n"
      by (simp_all add: open_at_def)
    show ?thesis unfolding p
      using close_session_effect(3) [OF i(1,2) refl, of code reason False] i p by (simp add: close_many_def)
  qed
qed

lemma manager_inv_weaken: "manager_inv None m \<Longrightarrow> manager_inv x m"
  by (auto simp: manager_inv_def session_ok_def split: if_splits)

lemma manager_inv_append:
  assumes inv: "manager_inv None m"
  shows "manager_inv (Some (length (sessions m))) (m\<lparr>sessions := sessions m @ [new_session n k sid now]\<rparr>)"
proof -
  let ?i = "length (sessions m)" and ?m = "m\<lparr>sessions := sessions m @ [new_session n k sid now]\<rparr>"
  have old: "sess ?m j = sess m j" if "j < ?i" for j using that by (simp add: nth_append)
  have new: "sess ?m ?i = new_session n k sid now" by simp
  have o: "open_at m n' j \<Longrightarrow> open_at ?m n' j" for n' j by (simp add: open_at_def nth_append)
  have "session_ok (Some ?i) ?m j" if "j < Suc ?i" for j
  proof (cases "j = ?i")
    case True
    have "cur m n \<noteq> Some ?i" using manager_invD(2) [OF inv, of n ?i] by (auto simp: open_at_def)
    then show ?thesis unfolding session_ok_def True new by (simp add: new_session_def sendFrame_def)
  next
    case False
    then have j: "j < ?i" using that by simp
    show ?thesis using manager_invD(1) [OF inv j] unfolding session_ok_def old [OF j] by (simp split: if_splits)
  qed
  then show ?thesis
    using inv o unfolding manager_inv_def by (simp add: manager_invD)
qed

lemma manager_inv_join:
  assumes inv: "manager_inv (Some i) m" and i: "i < length (sessions m)" "\<not> s_closed (sess m i)"
    and n: "s_nodeId (sess m i) = n" and p: "pending_of m n = []"
  shows "manager_inv None (m\<lparr>pending := AList.update n (set_add i (pending_of m n)) (pending m)\<rparr>)"
proof -
  let ?m = "m\<lparr>pending := AList.update n (set_add i (pending_of m n)) (pending m)\<rparr>"
  have pe: "pending_of ?m n' = (if n' = n then [i] else pending_of m n')" for n'
    using p by (simp add: pending_of_def orbit_simps set_add_def)
  have o: "open_at ?m n' j = open_at m n' j" for n' j by (simp add: open_at_def)
  have "session_ok None ?m j" if "j < length (sessions m)" for j
    using manager_invD(1) [OF inv that] n p unfolding session_ok_def pe by (cases "j = i") (auto split: if_splits)
  moreover have "open_at m n i" using i n by (simp add: open_at_def)
  ultimately show ?thesis
    using manager_invD [OF inv] inv unfolding manager_inv_def o pe by (simp split: if_splits)
qed

lemma new_session_simps [simp]:
  "s_nodeId (new_session n k sid now) = n" "s_keyId (new_session n k sid now) = k"
  "s_closed (new_session n k sid now) = False" "s_state (new_session n k sid now) = SPending"
  "reverseSessionId (new_session n k sid now) = sid"
  by (simp_all add: new_session_def sendFrame_def)

lemma pending_of_control:
  "pending_of m n = [] \<Longrightarrow> manager_inv x m \<Longrightarrow> i < length (sessions m) \<Longrightarrow> pending_of (onControlMessage v i m) n = []"
proof -
  assume p: "pending_of m n = []" and inv: "manager_inv x m" and i: "i < length (sessions m)"
  have c: "pending_of (close_session i code reason fp m) n = []" for code reason fp
    using p close_session_effect(3) [OF i _ refl, of code reason fp]
    by (cases "s_closed (sess m i)"; cases "n = s_nodeId (sess m i)") (simp_all add: close_session_closed)
  have r: "pending_of (promote i (upd i (\<lambda>s. s\<lparr>routeReady := b\<rparr>) m)) n = []"
    if "s_state (sess m i) \<noteq> SReady" "\<not> s_closed (sess m i)" for b
  proof -
    let ?m = "upd i (\<lambda>s. s\<lparr>routeReady := b\<rparr>) m"
    have inv': "manager_inv x ?m" by (rule manager_inv_upd [OF inv i]) simp
    have "s_state (sess m i) = SPending"
      using manager_invD(1) [OF inv i] that by (cases "s_state (sess m i)") (auto simp: session_ok_def)
    then have "i < length (sessions ?m)" "\<not> s_closed (sess ?m i)" "s_state (sess ?m i) = SPending"
      using i that by simp_all
    from promote_effect(3) [OF inv' this refl] show ?thesis using p
      by (cases "n = s_nodeId (sess ?m i)") (simp_all split: option.split)
  qed
  show ?thesis
    using p c r by (simp add: onControlMessage_def Let_def split: option.split prod.split jsval.split)
qed

lemma pending_of_data:
  assumes "pending_of m n = []" "manager_inv x m" "i < length (sessions m)"
  shows "pending_of (on_data pj now i chunk m) n = []"
proof -
  have ev: "pending_of (on_ws_event pj now i ev m) n = []"
    if "pending_of m n = []" "manager_inv x m" "i < length (sessions m)" for ev m
    using that close_session_effect(3) [OF that(3) _ refl]
    by (cases ev; cases "s_closed (sess m i)"; cases "n = s_nodeId (sess m i)")
      (simp_all add: pending_of_control onPong_def close_session_closed)
  have "pending_of (foldl (\<lambda>m ev. on_ws_event pj now i ev m) m evs) n = []"
    if "pending_of m n = []" "manager_inv x m" "i < length (sessions m)" for evs m
    using that
  proof (induction evs arbitrary: m)
    case (Cons e evs)
    have "good x m (on_ws_event pj now i e m)" using Cons.prems by (intro good_ws_event)
    then show ?case using Cons.IH [of "on_ws_event pj now i e m"] ev [OF Cons.prems] Cons.prems
      by (simp add: good_length good_inv)
  qed simp
  moreover have "manager_inv x (upd i (\<lambda>s. s\<lparr>ws := w\<rparr>) m)" for w
    by (rule manager_inv_upd [OF assms(2,3)]) simp
  ultimately show ?thesis using assms unfolding on_data_def Let_def by simp
qed

lemma manager_inv_upgrade:
  assumes "manager_inv None m"
  shows "manager_inv None (registerUpgrade pj now n k sid head m)"
proof -
  let ?m1 = "close_many (pending_of m n) 1001 ''superseded-pending'' m"
  let ?i = "length (sessions ?m1)"
  let ?m2 = "?m1\<lparr>sessions := sessions ?m1 @ [new_session n k sid now]\<rparr>"
  let ?m3 = "if head \<noteq> [] then on_data pj now ?i head ?m2 else ?m2"
  have i1: "manager_inv None ?m1"
    using good_many [OF assms pending_bounded [OF assms]] by (rule good_inv)
  have i2: "manager_inv (Some ?i) ?m2" by (rule manager_inv_append [OF i1])
  have l2: "?i < length (sessions ?m2)" by simp
  have p2: "pending_of ?m2 n = []" using pending_after_close_pending [OF assms] by simp
  have g3: "good (Some ?i) ?m2 ?m3"
    using good_data [OF i2 l2] good_refl [OF i2] by simp
  have p3: "pending_of ?m3 n = []" using pending_of_data [OF p2 i2 l2] p2 by simp
  have n3: "s_nodeId (sess ?m3 ?i) = n" "?i < length (sessions ?m3)"
    using g3 l2 by (simp_all add: good_def grows_def)
  show ?thesis
  proof (cases "s_closed (sess ?m3 ?i)")
    case True
    then have ne: "head \<noteq> []" by (cases "head = []") simp_all
    have "manager_inv None ?m3"
      using good_inv [OF g3] True n3(2)
      by (auto simp: manager_inv_def session_ok_def split: if_splits)
    then show ?thesis using True ne by (simp add: registerUpgrade_def Let_def)
  next
    case False
    from manager_inv_join [OF good_inv [OF g3] n3(2) False n3(1) p3] False show ?thesis
      by (simp add: registerUpgrade_def Let_def)
  qed
qed

lemma good_close_node:
  assumes "manager_inv None m"
  shows "good None m (closeSessionsForNode n reason m)"
proof -
  let ?m1 = "case cur m n of None \<Rightarrow> m | Some i \<Rightarrow> close_session i 1001 reason False m"
  have g1: "good None m ?m1"
    using manager_invD(2) [OF assms] by (auto simp: open_at_def good_refl assms intro: good_close split: option.split)
  have "good None ?m1 (close_many (pending_of ?m1 n) 1001 reason ?m1)"
    by (rule good_many [OF good_inv [OF g1] pending_bounded [OF good_inv [OF g1]]])
  with g1 show ?thesis unfolding closeSessionsForNode_def Let_def by (rule good_trans)
qed

definition credential_matches :: "manager \<Rightarrow> str \<Rightarrow> str \<Rightarrow> nat list" where
  "credential_matches m n k =
     foldl (\<lambda>xs i. if s_keyId (sess m i) = k \<and> i \<notin> set xs then xs @ [i] else xs)
       (case cur m n of None \<Rightarrow> [] | Some i \<Rightarrow> if s_keyId (sess m i) = k then [i] else []) (pending_of m n)"

lemma closeSessionsForCredential_eq:
  "closeSessionsForCredential n k reason m =
     (map (\<lambda>i. reverseSessionId (sess m i)) (credential_matches m n k), close_many (credential_matches m n k) 1001 reason m)"
  by (simp add: closeSessionsForCredential_def credential_matches_def Let_def)

lemma set_foldl_matching:
  "set (foldl (\<lambda>xs i. if P i \<and> i \<notin> set xs then xs @ [i] else xs) acc ids) = set acc \<union> {i \<in> set ids. P i}"
  by (induction ids arbitrary: acc) auto

lemma set_credential_matches:
  "set (credential_matches m n k) = {i. (cur m n = Some i \<or> i \<in> set (pending_of m n)) \<and> s_keyId (sess m i) = k}"
  by (auto simp: credential_matches_def set_foldl_matching split: option.split if_splits)

lemma credential_bounded:
  "manager_inv None m \<Longrightarrow> list_all (\<lambda>i. i < length (sessions m)) (credential_matches m n k)"
  using manager_invD(2,3) by (fastforce simp: list_all_iff set_credential_matches open_at_def)

lemma good_credential:
  assumes "manager_inv None m"
  shows "good None m (snd (closeSessionsForCredential n k reason m))"
  unfolding closeSessionsForCredential_eq snd_conv
  by (rule good_many [OF assms credential_bounded [OF assms]])

lemma good_foldl:
  "(\<And>m y. manager_inv x m \<Longrightarrow> y \<in> set ys \<Longrightarrow> length (sessions m) = N \<Longrightarrow> good x m (f m y))
   \<Longrightarrow> manager_inv x m \<Longrightarrow> length (sessions m) = N \<Longrightarrow> good x m (foldl f m ys)"
proof (induction ys arbitrary: m)
  case Nil
  then show ?case by (simp add: good_refl)
next
  case (Cons y ys)
  have g: "good x m (f m y)" using Cons.prems by simp
  have "good x (f m y) (foldl f (f m y) ys)"
    using Cons.prems(1,3) by (intro Cons.IH) (simp_all add: good_inv [OF g] good_length [OF g])
  with g show ?case by (simp add: good_trans)
qed

lemma good_close_all:
  assumes "manager_inv None m"
  shows "good None m (closeAll reason m)"
proof -
  let ?m1 = "foldl (\<lambda>m n. closeSessionsForNode n reason m) m (map fst (current m))"
  have g1: "good None m ?m1"
    using assms by (intro good_foldl) (simp_all add: good_close_node)
  have b: "list_all (\<lambda>i. i < length (sessions ?m1)) ids" if ids: "ids \<in> set (map snd (pending ?m1))" for ids
  proof -
    from ids obtain n where "(n, ids) \<in> set (pending ?m1)" by auto
    moreover have "omap_wf (pending ?m1)" using good_inv [OF g1] by (simp add: manager_inv_def)
    ultimately have "pending_of ?m1 n = ids" by (simp add: pending_of_def)
    then show ?thesis using pending_bounded [OF good_inv [OF g1], of n] by simp
  qed
  have "good None ?m1 (foldl (\<lambda>m ids. close_many ids 1001 reason m) ?m1 (map snd (pending ?m1)))"
  proof (rule good_foldl [OF _ good_inv [OF g1] refl])
    fix m2 ids
    assume m2: "manager_inv None m2" and ids: "ids \<in> set (map snd (pending ?m1))" and "length (sessions m2) = length (sessions ?m1)"
    then show "good None m2 (close_many ids 1001 reason m2)"
      using b [OF ids] by (intro good_many) simp_all
  qed
  with g1 show ?thesis unfolding closeAll_def Let_def by (rule good_trans)
qed

lemma manager_inv_handle:
  assumes "manager_inv None m"
  shows "manager_inv None (handle pj ev m)"
  using assms
  by (cases ev) (auto intro: manager_inv_upgrade good_inv [OF good_data] manager_inv_close manager_inv_upd
      good_inv [OF good_timers(1)] good_inv [OF good_timers(2)] good_inv [OF good_timers(3)]
      good_inv [OF good_close_node] good_inv [OF good_credential] good_inv [OF good_close_all])

lemma reachable_inv: "reachable pj m \<Longrightarrow> manager_inv None m"
proof (induction rule: reachable.induct)
  case start
  show ?case by (simp add: manager_inv_def new_manager_def pending_of_def)
next
  case (step m ev)
  then show ?case by (intro manager_inv_handle)
qed

text \<open>Events addressed to one session, as opposed to operations of the Hub.\<close>

fun session_event :: "nat \<Rightarrow> event \<Rightarrow> bool" where
  "session_event i (Data j now chunk) = (i = j)"
| "session_event i (SocketGone j reason) = (i = j)"
| "session_event i (SocketUnwritable j) = (i = j)"
| "session_event i (ReadyTimeout j) = (i = j)"
| "session_event i (PingTick j) = (i = j)"
| "session_event i (PongTimeout j h) = (i = j)"
| "session_event i _ = False"

text \<open>What a closed session can still change: its own bookkeeping fields.\<close>

definition inert :: "nat \<Rightarrow> manager \<Rightarrow> manager \<Rightarrow> bool" where
  "inert i m m' \<longleftrightarrow> current m' = current m \<and> pending m' = pending m \<and> hooks m' = hooks m
     \<and> length (sessions m') = length (sessions m)
     \<and> (\<forall>j. j \<noteq> i \<longrightarrow> sess m' j = sess m j)
     \<and> s_closed (sess m' i) \<and> outbox (sess m' i) = outbox (sess m i)"

lemma inert_refl: "s_closed (sess m i) \<Longrightarrow> inert i m m"
  by (simp add: inert_def)

lemma inert_trans: "inert i a b \<Longrightarrow> inert i b c \<Longrightarrow> inert i a c"
  by (simp add: inert_def)

lemma inert_upd:
  "s_closed (sess m i) \<Longrightarrow> i < length (sessions m) \<Longrightarrow> s_closed (f (sess m i)) \<Longrightarrow> outbox (f (sess m i)) = outbox (sess m i)
   \<Longrightarrow> inert i m (upd i f m)"
  by (simp add: inert_def)

lemma sendFrame_closed [simp]: "s_closed s \<Longrightarrow> sendFrame x s = s"
  by (simp add: sendFrame_def)

lemma inert_ws_event:
  assumes "s_closed (sess m i)" "i < length (sessions m)"
  shows "inert i m (on_ws_event pj now i ev m)"
  using assms
  by (cases ev) (simp_all add: onControlMessage_def close_session_closed inert_refl inert_upd onPong_def)

lemma inert_ws_events:
  "s_closed (sess m i) \<Longrightarrow> i < length (sessions m) \<Longrightarrow> inert i m (foldl (\<lambda>m ev. on_ws_event pj now i ev m) m evs)"
proof (induction evs arbitrary: m)
  case (Cons ev evs)
  note e = inert_ws_event [OF Cons.prems, of pj now ev]
  then have "inert i (on_ws_event pj now i ev m) (foldl (\<lambda>m ev. on_ws_event pj now i ev m) (on_ws_event pj now i ev m) evs)"
    using Cons.prems by (intro Cons.IH) (simp_all add: inert_def)
  with e show ?case by (simp add: inert_trans)
qed (simp add: inert_refl)

lemma inert_handle:
  assumes "manager_inv None m" "s_closed (sess m i)" "i < length (sessions m)" "session_event i ev"
  shows "inert i m (handle pj ev m)"
proof -
  have t: "\<not> readyTimer (sess m i)" "\<not> pingTimer (sess m i)"
    using manager_invD(1) [OF assms(1,3)] assms(2) by (auto simp: session_ok_def)
  have d: "inert i m (on_data pj now i chunk m)" for now chunk
  proof -
    have "inert i m (upd i (\<lambda>s. s\<lparr>ws := w\<rparr>) m)" for w using assms by (intro inert_upd) simp_all
    then show ?thesis unfolding on_data_def Let_def using assms
      by (intro inert_trans [OF _ inert_ws_events]) (simp_all add: inert_def)
  qed
  show ?thesis
    using assms t d
    by (cases ev) (auto simp: close_session_closed inert_refl inert_upd ready_timeout_def ping_tick_def
        pong_timeout_def Let_def)
qed

lemma close_pending_keeps_current:
  assumes inv: "manager_inv None m" and p: "\<forall>i \<in> set (pending_of m n). s_state (sess m i) = SPending"
    and c: "cur m n' = Some j"
  shows "cur (close_many (pending_of m n) code reason m) n' = Some j
    \<and> sess (close_many (pending_of m n) code reason m) j = sess m j"
proof -
  have j: "session_ok None m j" "open_at m n' j"
    using manager_invD [OF inv] c by (auto simp: open_at_def)
  then have "s_state (sess m j) = SReady" using c by (auto simp: session_ok_def open_at_def)
  then have nj: "j \<notin> set (pending_of m n)" using p by auto
  show ?thesis
  proof (cases "pending_of m n")
    case Nil
    then show ?thesis using c by (simp add: close_many_def)
  next
    case (Cons i ids)
    have "length (pending_of m n) \<le> 1" by (rule manager_invD(4) [OF inv])
    with Cons have e: "pending_of m n = [i]" by simp
    have o: "open_at m n i" by (rule manager_invD(3) [OF inv]) (simp add: e)
    then have i: "i < length (sessions m)" "\<not> s_closed (sess m i)" by (simp_all add: open_at_def)
    have "cur (close_session i code reason False m) n' = Some j"
      using c nj e close_session_effect(2) [OF i refl, of code reason False] by (auto simp: fun_eq_iff)
    moreover have "sess (close_session i code reason False m) j = sess m j"
      using nj e close_session_effect(1) [OF i refl, of code reason False] by (simp add: nth_list_update)
    ultimately show ?thesis by (simp add: e close_many_def)
  qed
qed

text \<open>A frame as a node sends it, and an example decoder for the text of two control messages.\<close>

definition example_json :: "byte list \<Rightarrow> jsval option" where
  "example_json bs = (if bs = [1] then Some (JObj [(''type'', JStr ''ready''), (''protocol'', JStr ''orbit-reverse-v1''),
     (''routeReady'', JBool True)]) else None)"

definition ready_frame :: "byte list" where
  "ready_frame = encodeFrame 1 [1] (Some [0, 0, 0, 0])"

text \<open>
  A connection whose upgrade head already carries the \<open>ready\<close> message is promoted while the head
  is parsed and then still added to the pending set; the node's next upgrade, which has sent
  nothing yet, closes the current ready session as a superseded pending one.
\<close>

lemma ready_in_head_is_evicted_by_next_upgrade:
  "let m = handle example_json (Upgrade 0 ''n'' ''k'' ''s1'' ready_frame) new_manager;
       m' = handle example_json (Upgrade 1 ''n'' ''k'' ''s2'' []) m
   in map_of (current m) ''n'' = Some 0 \<and> s_state (sess m 0) = SReady \<and> pending_of m ''n'' = [0]
      \<and> map_of (current m') ''n'' = None \<and> s_closed (sess m' 0)"
  by code_simp

text \<open>
  No close frame is ever written: \<open>close\<close> marks the session closed before it calls
  \<open>sendFrame\<close>, which writes nothing on a closed session.
\<close>

lemma close_frame_never_sent:
  assumes "reachable pj m" "i < length (sessions m)"
  shows "SentClose c r \<notin> set (outbox (sess m i))"
  using manager_invD(1) [OF reachable_inv [OF assms(1)] assms(2)] by (simp add: session_ok_def)

section \<open>Properties\<close>

text \<open>
  C4. Generations stay consistent in every reachable state of the session manager: a node's
  current session is exactly its one session that is ready (so there is never more than one),
  a session still pending is exactly the node's pending one (so there is at most one), a closed
  session is in neither, and presence and reachability report precisely these facts.
\<close>

theorem session_generations_consistent:
  assumes "reachable pj m"
  shows "(map_of (current m) n = Some i \<longleftrightarrow>
            i < length (sessions m) \<and> s_nodeId (sess m i) = n \<and> s_state (sess m i) = SReady)
    \<and> (i < length (sessions m) \<longrightarrow> s_state (sess m i) = SPending \<longrightarrow> pending_of m (s_nodeId (sess m i)) = [i])
    \<and> (i < length (sessions m) \<longrightarrow> (s_state (sess m i) = SClosed \<longleftrightarrow> s_closed (sess m i)))
    \<and> (\<forall>j \<in> set (pending_of m n). s_nodeId (sess m j) = n \<and> \<not> s_closed (sess m j))
    \<and> (getPresence m n mode = ''online'' \<longleftrightarrow>
         (\<exists>j < length (sessions m). s_nodeId (sess m j) = n \<and> s_state (sess m j) = SReady))
    \<and> (isReverseReachable m n ''reverse'' = Some True \<longleftrightarrow>
         (\<exists>j < length (sessions m). s_nodeId (sess m j) = n \<and> s_state (sess m j) = SReady \<and> routeReady (sess m j)))"
proof -
  note inv = reachable_inv [OF assms]
  have st: "s_state (sess m j) = SClosed \<longleftrightarrow> s_closed (sess m j)" if "j < length (sessions m)" for j
    using manager_invD(1) [OF inv that] by (auto simp: session_ok_def split: if_splits)
  have cur: "cur m n' = Some j \<longleftrightarrow> j < length (sessions m) \<and> s_nodeId (sess m j) = n' \<and> s_state (sess m j) = SReady" for n' j
  proof
    assume c: "cur m n' = Some j"
    with manager_invD(2) [OF inv c] manager_invD(1) [OF inv, of j]
    show "j < length (sessions m) \<and> s_nodeId (sess m j) = n' \<and> s_state (sess m j) = SReady"
      by (auto simp: open_at_def session_ok_def)
  next
    assume j: "j < length (sessions m) \<and> s_nodeId (sess m j) = n' \<and> s_state (sess m j) = SReady"
    with manager_invD(1) [OF inv, of j] st [of j] show "cur m n' = Some j" by (auto simp: session_ok_def)
  qed
  have pend: "pending_of m (s_nodeId (sess m i)) = [i]" if "i < length (sessions m)" "s_state (sess m i) = SPending"
  proof -
    have "i \<in> set (pending_of m (s_nodeId (sess m i)))"
      using manager_invD(1) [OF inv that(1)] st [OF that(1)] that(2) by (auto simp: session_ok_def)
    with manager_invD(4) [OF inv, of "s_nodeId (sess m i)"] show ?thesis
      by (cases "pending_of m (s_nodeId (sess m i))") auto
  qed
  have pres: "getPresence m n mode = ''online'' \<longleftrightarrow> (\<exists>j. cur m n = Some j)"
  proof (cases "cur m n")
    case None
    then show ?thesis by (simp add: getPresence_def)
  next
    case (Some j)
    then show ?thesis using cur [of n j] by (simp add: getPresence_def)
  qed
  have reach: "isReverseReachable m n ''reverse'' = Some True \<longleftrightarrow> (\<exists>j. cur m n = Some j \<and> routeReady (sess m j))"
  proof (cases "cur m n")
    case None
    then show ?thesis by (simp add: isReverseReachable_def)
  next
    case (Some j)
    then show ?thesis using cur [of n j] by (simp add: isReverseReachable_def)
  qed
  show ?thesis
    using cur [of n i] st [of i] pend manager_invD(3) [OF inv, of _ n] pres reach cur [of n]
    by (auto simp: open_at_def)
qed

theorem session_generations_consistent_witness:
  "pending_of (handle (\<lambda>_. None) (Upgrade 0 ''n'' ''k'' ''s'' []) new_manager) ''n'' = [0]"
proof -
  let ?m = "handle (\<lambda>_. None) (Upgrade 0 ''n'' ''k'' ''s'' []) new_manager"
  have "length (sessions ?m) = 1" "s_state (sess ?m 0) = SPending" "s_nodeId (sess ?m 0) = ''n''"
    by code_simp+
  with session_generations_consistent [OF reachable.step [OF reachable.start],
      of "\<lambda>_. None" "Upgrade 0 ''n'' ''k'' ''s'' []" "''n''" 0]
  show ?thesis by (metis zero_less_one)
qed

text \<open>
  Late events of an old generation are ignored: once a session is closed, whatever its
  socket, its parser or its timers still deliver changes no map of the manager, no other
  session, and fires no hook; the session stays closed and writes nothing.
\<close>

theorem late_session_events_ignored:
  assumes "reachable pj m" and "i < length (sessions m)" and "s_closed (sess m i)" and "session_event i ev"
  shows "current (handle pj ev m) = current m \<and> pending (handle pj ev m) = pending m
    \<and> hooks (handle pj ev m) = hooks m \<and> (\<forall>j. j \<noteq> i \<longrightarrow> sess (handle pj ev m) j = sess m j)
    \<and> s_closed (sess (handle pj ev m) i) \<and> outbox (sess (handle pj ev m) i) = outbox (sess m i)"
  using inert_handle [OF reachable_inv [OF assms(1)] assms(3,2,4), of pj] by (simp add: inert_def)

theorem late_session_events_ignored_witness:
  "let m = handle example_json (CloseNode ''n'' ''bye'') (handle example_json (Upgrade 0 ''n'' ''k'' ''s1'' ready_frame) new_manager)
   in current (handle example_json (Data 0 5 ready_frame) m) = current m"
  unfolding Let_def
  by (rule late_session_events_ignored [where i = 0, THEN conjunct1],
      rule reachable.step, rule reachable.step, rule reachable.start) code_simp+

text \<open>
  C36. Revoking a credential ends exactly the sessions it authenticated: afterwards every session
  of that node and key is closed, the session ids returned are those of the sessions that were
  still open, and every other session is untouched.
\<close>

theorem credential_revocation_exact:
  assumes "reachable pj m" and "closeSessionsForCredential n k reason m = (ids, m')"
  shows "(\<forall>i < length (sessions m). s_nodeId (sess m i) = n \<longrightarrow> s_keyId (sess m i) = k \<longrightarrow> s_closed (sess m' i))
    \<and> (\<forall>i < length (sessions m). \<not> (s_nodeId (sess m i) = n \<and> s_keyId (sess m i) = k) \<longrightarrow> sess m' i = sess m i)
    \<and> set ids = {reverseSessionId (sess m i) | i. i < length (sessions m) \<and> s_nodeId (sess m i) = n
        \<and> s_keyId (sess m i) = k \<and> \<not> s_closed (sess m i)}"
proof -
  note inv = reachable_inv [OF assms(1)]
  let ?ms = "credential_matches m n k"
  have ids: "ids = map (\<lambda>i. reverseSessionId (sess m i)) ?ms" and m': "m' = close_many ?ms 1001 reason m"
    using assms(2) by (simp_all add: closeSessionsForCredential_eq)
  note b = credential_bounded [OF inv, of n k]
  have mem: "i \<in> set ?ms \<longleftrightarrow> i < length (sessions m) \<and> s_nodeId (sess m i) = n \<and> s_keyId (sess m i) = k \<and> \<not> s_closed (sess m i)" for i
  proof
    assume "i \<in> set ?ms"
    then show "i < length (sessions m) \<and> s_nodeId (sess m i) = n \<and> s_keyId (sess m i) = k \<and> \<not> s_closed (sess m i)"
      using manager_invD(2,3) [OF inv, where n = n and i = i] by (auto simp: set_credential_matches open_at_def)
  next
    assume i: "i < length (sessions m) \<and> s_nodeId (sess m i) = n \<and> s_keyId (sess m i) = k \<and> \<not> s_closed (sess m i)"
    then have "s_state (sess m i) = SReady \<or> s_state (sess m i) = SPending"
      using manager_invD(1) [OF inv, of i] by (cases "s_state (sess m i)") (auto simp: session_ok_def)
    then show "i \<in> set ?ms"
      using i manager_invD(1) [OF inv, of i] by (auto simp: set_credential_matches session_ok_def)
  qed
  have cl: "s_closed (sess m' i)" if "i < length (sessions m)" "s_nodeId (sess m i) = n" "s_keyId (sess m i) = k" for i
  proof (cases "s_closed (sess m i)")
    case True
    then show ?thesis using good_many [OF inv b, of 1001 reason] that(1) by (simp add: m' good_def grows_def)
  next
    case False
    then show ?thesis unfolding m' using that by (intro close_many_closed [OF inv b]) (simp add: mem)
  qed
  have ot: "sess m' i = sess m i" if "\<not> (s_nodeId (sess m i) = n \<and> s_keyId (sess m i) = k)" for i
    unfolding m' using that by (intro close_many_other [OF b]) (auto simp: mem)
  have "set ids = {reverseSessionId (sess m i) | i. i < length (sessions m) \<and> s_nodeId (sess m i) = n
        \<and> s_keyId (sess m i) = k \<and> \<not> s_closed (sess m i)}"
    unfolding ids set_map using mem by blast
  with cl ot show ?thesis by blast
qed

theorem credential_revocation_exact_witness:
  "s_closed (sess (snd (closeSessionsForCredential ''n'' ''k'' ''revoked''
     (handle (\<lambda>_. None) (Upgrade 0 ''n'' ''k'' ''s1'' []) new_manager))) 0)"
proof -
  let ?m = "handle (\<lambda>_. None) (Upgrade 0 ''n'' ''k'' ''s1'' []) new_manager"
  have "0 < length (sessions ?m)" "s_nodeId (sess ?m 0) = ''n''" "s_keyId (sess ?m 0) = ''k''" by code_simp+
  with credential_revocation_exact [OF reachable.step [OF reachable.start] surjective_pairing,
      of "\<lambda>_. None" "Upgrade 0 ''n'' ''k'' ''s1'' []" "''n''" "''k''" "''revoked''"]
  show ?thesis by blast
qed

text \<open>
  A new authenticated connection that has not spoken yet cannot evict the current ready
  session: as long as the node's pending connections really are pending, registering an upgrade
  (with no bytes after the request) leaves every node's current session in place and unchanged.
\<close>

theorem upgrade_cannot_evict_ready:
  assumes "reachable pj m" and "\<forall>i \<in> set (pending_of m n). s_state (sess m i) = SPending"
    and "map_of (current m) n' = Some j"
  shows "map_of (current (registerUpgrade pj now n k sid [] m)) n' = Some j
    \<and> sess (registerUpgrade pj now n k sid [] m) j = sess m j"
proof -
  note inv = reachable_inv [OF assms(1)]
  let ?m1 = "close_many (pending_of m n) 1001 ''superseded-pending'' m"
  have "j < length (sessions m)" using manager_invD(2) [OF inv assms(3)] by (simp add: open_at_def)
  moreover have "length (sessions ?m1) = length (sessions m)"
    by (rule good_length [OF good_many [OF inv pending_bounded [OF inv]]])
  ultimately show ?thesis
    using close_pending_keeps_current [OF inv assms(2,3)] by (simp add: registerUpgrade_def Let_def nth_append)
qed

theorem upgrade_cannot_evict_ready_witness:
  "let m = handle example_json (Data 0 1 ready_frame) (handle example_json (Upgrade 0 ''n'' ''k'' ''s1'' []) new_manager)
   in map_of (current (registerUpgrade example_json 2 ''n'' ''k'' ''s2'' [] m)) ''n'' = Some 0"
  unfolding Let_def
  by (rule upgrade_cannot_evict_ready [THEN conjunct1],
      rule reachable.step, rule reachable.step, rule reachable.start) code_simp+

end
