(* ===== verification/Redaction.thy ===== *)
theory Redaction
  imports Prelude
begin

text \<open>
  The redaction of \<^verbatim>\<open>src/registry/fleet-scheduler.mjs\<close>: which property names are sensitive, and
  the recursive scrubbing of a value. The text-level rules of \<open>scrubString\<close>, a chain of regular
  expression replacements, are the argument \<open>scrubString\<close>.
\<close>

definition isSensitiveKey :: "str \<Rightarrow> bool" where
  "isSensitiveKey k =
     (let lower = js_lower k in
      if js_ends_with ''id'' lower \<and>
         lower \<in> set [''keyid'', ''tokenid'', ''nodeid'', ''requestid'', ''currentkeyid'', ''newkeyid''] then False
      else if lower \<in> set [''monkey'', ''hockey'', ''author'', ''authority'', ''routeauthority'', ''route_authority'',
          ''sessioncount'', ''session_count'', ''sessionstate'', ''session_state''] then False
      else js_includes ''secret'' lower \<or> js_includes ''password'' lower \<or> js_includes ''passwd'' lower
        \<or> js_includes ''token'' lower \<or> js_includes ''apikey'' lower \<or> js_includes ''api_key'' lower
        \<or> js_includes ''api-key'' lower \<or> js_includes ''credential'' lower \<or> js_includes ''privatekey'' lower
        \<or> js_includes ''private_key'' lower \<or> js_includes ''private-key'' lower \<or> js_includes ''session'' lower
        \<or> js_includes ''cookie'' lower \<or> js_includes ''csrf'' lower \<or> lower = ''key''
        \<or> js_ends_with ''_key'' lower \<or> js_ends_with ''-key'' lower \<or> lower = ''auth''
        \<or> lower = ''authorization'' \<or> js_starts_with ''auth'' lower \<or> js_ends_with ''auth'' lower)"

fun scrubSensitiveCredentials :: "(str \<Rightarrow> str) \<Rightarrow> jsval \<Rightarrow> jsval"
  and scrub_items :: "(str \<Rightarrow> str) \<Rightarrow> jsval list \<Rightarrow> jsval list"
  and scrub_entries :: "(str \<Rightarrow> str) \<Rightarrow> (str \<times> jsval) list \<Rightarrow> (str \<times> jsval) list" where
  "scrubSensitiveCredentials scrubString (JStr s) = JStr (scrubString s)"
| "scrubSensitiveCredentials scrubString (JArr xs) = JArr (scrub_items scrubString xs)"
| "scrubSensitiveCredentials scrubString (JObj ps) = JObj (scrub_entries scrubString ps)"
| "scrubSensitiveCredentials scrubString v = v"
| "scrub_items scrubString [] = []"
| "scrub_items scrubString (x # xs) = scrubSensitiveCredentials scrubString x # scrub_items scrubString xs"
| "scrub_entries scrubString [] = []"
| "scrub_entries scrubString ((k, v) # ps) =
     (k, if isSensitiveKey k then JStr ''[REDACTED]'' else scrubSensitiveCredentials scrubString v)
     # scrub_entries scrubString ps"

section \<open>What scrubbing guarantees\<close>

text \<open>\<open>at_path v path w\<close>: following property names (and array positions) in \<open>v\<close> leads to \<open>w\<close>.\<close>

datatype hop = Prop str | Item nat

fun at_path :: "jsval \<Rightarrow> hop list \<Rightarrow> jsval \<Rightarrow> bool" where
  "at_path v [] w = (v = w)"
| "at_path (JObj ps) (Prop k # path) w = (\<exists>x. (k, x) \<in> set ps \<and> at_path x path w)"
| "at_path (JArr xs) (Item i # path) w = (i < length xs \<and> at_path (xs ! i) path w)"
| "at_path _ _ _ = False"

lemma scrub_items_map: "scrub_items f xs = map (scrubSensitiveCredentials f) xs"
  by (induction xs) simp_all

lemma scrub_entries_map:
  "scrub_entries f ps = map (\<lambda>(k, v). (k, if isSensitiveKey k then JStr ''[REDACTED]'' else scrubSensitiveCredentials f v)) ps"
  by (induction ps) auto

lemma scrub_path:
  assumes "at_path (scrubSensitiveCredentials f v) path w"
  shows "(\<exists>x. at_path v path x \<and> w = scrubSensitiveCredentials f x) \<or> w = JStr ''[REDACTED]''"
  using assms
proof (induction path arbitrary: v)
  case (Cons h path)
  show ?case
  proof (cases v)
    case (JArr xs)
    with Cons.prems obtain i where i: "h = Item i" "i < length xs" "at_path (scrubSensitiveCredentials f (xs ! i)) path w"
      by (cases h) (auto simp: scrub_items_map)
    from Cons.IH [OF i(3)] show ?thesis using i JArr by auto
  next
    case (JObj ps)
    with Cons.prems obtain k x where k: "h = Prop k" "(k, x) \<in> set ps"
      "at_path (if isSensitiveKey k then JStr ''[REDACTED]'' else scrubSensitiveCredentials f x) path w"
      by (cases h) (auto simp: scrub_entries_map)
    show ?thesis
    proof (cases "isSensitiveKey k")
      case True
      with k(3) show ?thesis by (cases path) simp_all
    next
      case False
      with k(3) Cons.IH [of x] k JObj show ?thesis by auto
    qed
  qed (use Cons.prems in \<open>simp_all\<close>)
qed auto

lemma scrub_sensitive:
  assumes "at_path (scrubSensitiveCredentials f v) (path @ [Prop k]) w" and "isSensitiveKey k"
  shows "w = JStr ''[REDACTED]''"
  using assms(1)
proof (induction path arbitrary: v)
  case Nil
  then show ?case using assms(2) by (cases v) (auto simp: scrub_entries_map)
next
  case (Cons h path)
  show ?case
  proof (cases v)
    case (JArr xs)
    with Cons show ?thesis by (cases h) (auto simp: scrub_items_map)
  next
    case (JObj ps)
    with Cons.prems obtain k' x where k: "h = Prop k'"
      "at_path (if isSensitiveKey k' then JStr ''[REDACTED]'' else scrubSensitiveCredentials f x) (path @ [Prop k]) w"
      by (cases h) (auto simp: scrub_entries_map)
    then show ?thesis using Cons.IH [of x] by (cases "isSensitiveKey k'") (cases path, simp_all)
  qed (use Cons.prems in \<open>simp_all\<close>)
qed

section \<open>Properties\<close>

text \<open>
  C39. No value under a sensitive property name survives redaction: wherever in the scrubbed
  value, however deeply nested in objects and arrays, a property with a sensitive name holds
  exactly the redaction marker, and everything else is the scrubbed original at the same place.
\<close>

theorem redaction_complete:
  "(isSensitiveKey k \<longrightarrow> at_path (scrubSensitiveCredentials f v) (path @ [Prop k]) w \<longrightarrow> w = JStr ''[REDACTED]'')
   \<and> (at_path (scrubSensitiveCredentials f v) path' w' \<longrightarrow>
        w' = JStr ''[REDACTED]'' \<or> (\<exists>x. at_path v path' x \<and> w' = scrubSensitiveCredentials f x))"
  using scrub_sensitive [of f v path k w] scrub_path [of f v path' w'] by blast

theorem redaction_complete_witness:
  "{w. at_path (scrubSensitiveCredentials id (JObj [(''env'', JArr [JObj [(''DB_Password'', JStr ''x'')]])]))
     ([Prop ''env'', Item 0] @ [Prop ''DB_Password'']) w} = {JStr ''[REDACTED]''}"
proof -
  have "isSensitiveKey ''DB_Password''" by code_simp
  moreover have "at_path (scrubSensitiveCredentials id (JObj [(''env'', JArr [JObj [(''DB_Password'', JStr ''x'')]])]))
     ([Prop ''env'', Item 0] @ [Prop ''DB_Password'']) (JStr ''[REDACTED]'')"
    by (simp add: \<open>isSensitiveKey ''DB_Password''\<close>) (code_simp)
  ultimately show ?thesis using redaction_complete [of "''DB_Password''" id _ "[Prop ''env'', Item 0]"] by blast
qed

end
