(* ===== verification/FleetScheduler.thy ===== *)
theory FleetScheduler
  imports Redaction FlowTracker "HOL-Library.Multiset"
begin

text \<open>
  \<^verbatim>\<open>src/registry/fleet-scheduler.mjs\<close>: validation of a fleet job's targets, submission, and the
  execution of a job. \<open>executeJob\<close> is asynchronous: its capability filter runs in one step
  (\<open>start_job\<close>), its workers then run as a pool of coroutines whose steps interleave with each
  other and with \<open>cancelJob\<close>, and the code after \<open>Promise.all\<close> is \<open>finish_job\<close>. What the
  registry answers is the argument \<open>registry_view\<close>; what a dispatch resolves to, and whether it
  throws, is an event. Times and texts of results are left out; statuses, error codes and the
  summary are kept.
\<close>

definition ALLOWED_TASK_TYPES :: "str list" where
  "ALLOWED_TASK_TYPES = [''command'', ''diagnostic'', ''health-check'', ''package-audit'']"

definition job_id_pattern :: "str \<Rightarrow> bool" where
  "job_id_pattern s \<longleftrightarrow> prefix ''job_'' s \<and> hex_pattern 32 (drop 4 s)"

text \<open>A node as the registry reports it: the row and the entry of \<open>listNodes\<close>.\<close>

record node_row =
  nr_state :: str
  nr_routeMode :: str
  nr_capabilitiesStale :: bool
  nr_capabilities :: "jsval option"

record node_view =
  nv_nodeId :: str
  nv_state :: str
  nv_capabilities :: "jsval list"
  nv_stale :: bool

record registry_view =
  getNodeRow :: "str \<Rightarrow> node_row option"
  listNodes :: "node_view list"

section \<open>Target specifications\<close>

datatype target_error =
    WildcardProhibited | InvalidTargetSpec | EmptyTargetSet | InvalidTargetNode | TargetNotFound
  | InvalidCapabilitySpec | UnknownTargetMode | TypeErrorThrown

text \<open>\<open>typeof c === "string" ? c === name : c.name === name\<close>; it throws on null.\<close>

fun cap_is :: "str \<Rightarrow> jsval \<Rightarrow> bool option" where
  "cap_is name (JStr s) = Some (s = name)"
| "cap_is name (JObj ps) = Some (js_get ''name'' ps = JStr name)"
| "cap_is name JNull = None"
| "cap_is name JUndefined = None"
| "cap_is name _ = Some False"

fun some_cap :: "str \<Rightarrow> jsval list \<Rightarrow> bool option" where
  "some_cap name [] = Some False"
| "some_cap name (c # cs) = (case cap_is name c of None \<Rightarrow> None | Some True \<Rightarrow> Some True | Some False \<Rightarrow> some_cap name cs)"

fun resolve_explicit :: "registry_view option \<Rightarrow> jsval list \<Rightarrow> str list \<Rightarrow> target_error + str list" where
  "resolve_explicit reg [] clean = Inr clean"
| "resolve_explicit reg (raw # raws) clean =
     (case validateTargetScope raw of
        Inl e \<Rightarrow> Inl InvalidTargetNode
      | Inr nodeId \<Rightarrow>
          if (case reg of None \<Rightarrow> False
              | Some r \<Rightarrow> (case getNodeRow r nodeId of None \<Rightarrow> True | Some row \<Rightarrow> nr_state row = ''tombstoned''))
          then Inl TargetNotFound
          else resolve_explicit reg raws (set_add nodeId clean))"

fun match_nodes :: "str \<Rightarrow> node_view list \<Rightarrow> str list option" where
  "match_nodes capName [] = Some []"
| "match_nodes capName (n # ns) =
     (if nv_state n \<noteq> ''active'' then match_nodes capName ns
      else case some_cap capName (nv_capabilities n) of
        None \<Rightarrow> None
      | Some hasCap \<Rightarrow>
          (case match_nodes capName ns of
             None \<Rightarrow> None
           | Some matched \<Rightarrow> Some (if hasCap \<and> \<not> nv_stale n then nv_nodeId n # matched else matched)))"

definition validateFleetTargetSpec :: "jsval \<Rightarrow> registry_view option \<Rightarrow> target_error + str list" where
  "validateFleetTargetSpec targetSpec reg =
     (case targetSpec of
        JStr s \<Rightarrow> if s = ''*'' then Inl WildcardProhibited else Inl InvalidTargetSpec
      | JObj ps \<Rightarrow>
          let mode = js_get ''mode'' ps; nodeIds = js_get ''nodeIds'' ps in
          if mode = JStr ''all'' \<or> mode = JStr ''broadcast'' \<or> nodeIds = JStr ''*'' then Inl WildcardProhibited
          else if mode = JStr ''explicit'' then
            (case nodeIds of
               JArr xs \<Rightarrow> if xs = [] then Inl EmptyTargetSet else resolve_explicit reg xs []
             | _ \<Rightarrow> Inl EmptyTargetSet)
          else if mode = JStr ''capability'' then
            (case js_get ''capability'' ps of
               JStr c \<Rightarrow>
                 if js_trim c = [] then Inl InvalidCapabilitySpec
                 else (case match_nodes (js_trim c) (case reg of None \<Rightarrow> [] | Some r \<Rightarrow> listNodes r) of
                     None \<Rightarrow> Inl TypeErrorThrown
                   | Some matched \<Rightarrow> if matched = [] then Inl EmptyTargetSet else Inr matched)
             | _ \<Rightarrow> Inl InvalidCapabilitySpec)
          else Inl UnknownTargetMode
      | _ \<Rightarrow> Inl InvalidTargetSpec)"

section \<open>Payloads\<close>

fun assertValidJsonPayload :: "nat \<Rightarrow> jsval \<Rightarrow> bool"
  and valid_items :: "nat \<Rightarrow> jsval list \<Rightarrow> bool"
  and valid_entries :: "nat \<Rightarrow> (str \<times> jsval) list \<Rightarrow> bool" where
  "assertValidJsonPayload depth (JArr xs) = (depth \<le> 64 \<and> valid_items depth xs)"
| "assertValidJsonPayload depth (JObj ps) = (depth \<le> 64 \<and> valid_entries depth ps)"
| "assertValidJsonPayload depth JFun = False"
| "assertValidJsonPayload depth v = (depth \<le> 64)"
| "valid_items depth [] = True"
| "valid_items depth (x # xs) = (assertValidJsonPayload (Suc depth) x \<and> valid_items depth xs)"
| "valid_entries depth [] = True"
| "valid_entries depth ((k, x) # ps) = (assertValidJsonPayload (Suc depth) x \<and> valid_entries depth ps)"

text \<open>\<open>JSON.parse(JSON.stringify(v))\<close>; \<^const>\<open>None\<close> where there is no JSON text for the value.\<close>

fun json_clone :: "jsval \<Rightarrow> jsval option"
  and clone_items :: "jsval list \<Rightarrow> jsval list"
  and clone_entries :: "(str \<times> jsval) list \<Rightarrow> (str \<times> jsval) list" where
  "json_clone JUndefined = None"
| "json_clone JFun = None"
| "json_clone JNonFinite = Some JNull"
| "json_clone (JArr xs) = Some (JArr (clone_items xs))"
| "json_clone (JObj ps) = Some (JObj (clone_entries ps))"
| "json_clone v = Some v"
| "clone_items [] = []"
| "clone_items (x # xs) = (case json_clone x of None \<Rightarrow> JNull | Some y \<Rightarrow> y) # clone_items xs"
| "clone_entries [] = []"
| "clone_entries ((k, x) # ps) = (case json_clone x of None \<Rightarrow> clone_entries ps | Some y \<Rightarrow> (k, y) # clone_entries ps)"

section \<open>Jobs\<close>

datatype task_status = TPending | TRunning | TCompleted | TFailed | TTimeout | TUnreachable | TSkipped | TOther str

record task =
  t_status :: task_status
  t_code :: str

datatype job_status = JPending | JRunning | JCompleted | JFailed | JPartial

record summary =
  totalTargets :: nat
  completed :: nat
  failedCount :: nat
  skipped :: nat
  timeoutCount :: nat
  unreachable :: nat

text \<open>A worker of the pool waits to take the next node, awaits a dispatch, or has returned.\<close>

datatype worker = Waiting | Dispatching str | Returned

record job =
  jobId :: str
  taskType :: str
  payload :: jsval
  requiredCapabilities :: "str list"
  j_timeoutMs :: "int option"
  operatorPrincipal :: str
  j_status :: job_status
  summ :: summary
  results :: "(str, task) omap"
  aborted :: bool
  queue :: "str list"
  workers :: "worker list"
  j_done :: bool

record fleet =
  f_registry :: "registry_view option"
  maxConcurrentDispatches :: nat
  defaultTimeoutMs :: rat
  jobs :: "(str, job) omap"

definition new_fleet :: "registry_view option \<Rightarrow> int \<Rightarrow> rat \<Rightarrow> fleet" where
  "new_fleet reg maxConc defTimeout =
     \<lparr>f_registry = reg, maxConcurrentDispatches = nat (max 1 (min 128 maxConc)),
      defaultTimeoutMs = max 100 defTimeout, jobs = []\<rparr>"

definition set_task :: "str \<Rightarrow> task_status \<Rightarrow> str \<Rightarrow> job \<Rightarrow> job" where
  "set_task n st code j = j\<lparr>results := AList.update n \<lparr>t_status = st, t_code = code\<rparr> (results j)\<rparr>"

definition count_status :: "task_status \<Rightarrow> job \<Rightarrow> job" where
  "count_status st j = (let s = summ j in
     j\<lparr>summ := (case st of
        TCompleted \<Rightarrow> s\<lparr>completed := Suc (completed s)\<rparr>
      | TTimeout \<Rightarrow> s\<lparr>timeoutCount := Suc (timeoutCount s)\<rparr>
      | TUnreachable \<Rightarrow> s\<lparr>unreachable := Suc (unreachable s)\<rparr>
      | TSkipped \<Rightarrow> s\<lparr>skipped := Suc (skipped s)\<rparr>
      | _ \<Rightarrow> s\<lparr>failedCount := Suc (failedCount s)\<rparr>)\<rparr>)"

subsection \<open>Execution\<close>

fun every_cap :: "str list \<Rightarrow> jsval list \<Rightarrow> bool option" where
  "every_cap [] stored = Some True"
| "every_cap (req # reqs) stored =
     (case some_cap req stored of None \<Rightarrow> None | Some False \<Rightarrow> Some False | Some True \<Rightarrow> every_cap reqs stored)"

text \<open>The capability filter: \<^const>\<open>None\<close> when the node is eligible, else the reason to skip it.\<close>

definition skip_reason :: "registry_view option \<Rightarrow> str list \<Rightarrow> str \<Rightarrow> str option" where
  "skip_reason reg required nodeId =
     (if required = [] then None
      else case reg of
        None \<Rightarrow> Some ''capability-evidence-stale''
      | Some r \<Rightarrow>
        (case getNodeRow r nodeId of
           None \<Rightarrow> Some ''target-not-found''
         | Some row \<Rightarrow>
             if nr_capabilitiesStale row then Some ''capability-evidence-stale''
             else (case nr_capabilities row of
                 Some (JArr stored) \<Rightarrow> if every_cap required stored = Some True then None else Some ''lacks-capability''
               | _ \<Rightarrow> Some ''lacks-capability'')))"

fun filter_nodes :: "registry_view option \<Rightarrow> str list \<Rightarrow> job \<Rightarrow> job \<times> str list" where
  "filter_nodes reg [] j = (j, [])"
| "filter_nodes reg (n # ns) j =
     (if aborted j then filter_nodes reg ns (count_status TFailed (set_task n TFailed ''job-cancelled'' j))
      else case skip_reason reg (requiredCapabilities j) n of
        Some reason \<Rightarrow> filter_nodes reg ns (count_status TSkipped (set_task n TSkipped reason j))
      | None \<Rightarrow> (let r = filter_nodes reg ns j in (fst r, n # snd r)))"

definition start_job :: "registry_view option \<Rightarrow> nat \<Rightarrow> job \<Rightarrow> job" where
  "start_job reg maxConc j =
     (if j_status j \<noteq> JPending then j
      else let r = filter_nodes reg (map fst (results j)) (j\<lparr>j_status := JRunning\<rparr>) in
        (fst r)\<lparr>queue := snd r, workers := replicate (min maxConc (length (snd r))) Waiting\<rparr>)"

text \<open>The loop of a worker up to its next \<open>await\<close> of a dispatch, or its end.\<close>

definition worker_next :: "nat \<Rightarrow> job \<Rightarrow> job" where
  "worker_next w j =
     (if w \<ge> length (workers j) \<or> workers j ! w \<noteq> Waiting then j
      else if queue j = [] \<or> aborted j then j\<lparr>workers := (workers j)[w := Returned]\<rparr>
      else let n = hd (queue j); j1 = j\<lparr>queue := tl (queue j)\<rparr> in
        if (case map_of (results j1) n of Some t \<Rightarrow> t_status t = TFailed | None \<Rightarrow> False) then j1
        else (set_task n TRunning [] j1)\<lparr>workers := (workers j1)[w := Dispatching n]\<rparr>)"

text \<open>A dispatch settles with a status and an error code, or throws.\<close>

datatype outcome = Result task_status str | Threw str

definition settle :: "nat \<Rightarrow> outcome \<Rightarrow> job \<Rightarrow> job" where
  "settle w out j =
     (if w \<ge> length (workers j) then j
      else case workers j ! w of
        Dispatching n \<Rightarrow>
          let j1 = j\<lparr>workers := (workers j)[w := Waiting]\<rparr> in
          if aborted j1 \<or> (case map_of (results j1) n of Some t \<Rightarrow> t_status t = TFailed | None \<Rightarrow> False) then j1
          else (case out of
              Result st code \<Rightarrow>
                count_status (if st \<in> {TCompleted, TTimeout, TUnreachable} then st else TFailed) (set_task n st code j1)
            | Threw code \<Rightarrow> count_status TFailed (set_task n TFailed code j1))
      | _ \<Rightarrow> j)"

definition open_task :: "task \<Rightarrow> bool" where
  "open_task t \<longleftrightarrow> t_status t = TPending \<or> t_status t = TRunning"

definition cancel_job :: "job \<Rightarrow> job" where
  "cancel_job j =
     (if j_status j \<in> {JCompleted, JFailed, JPartial} then j
      else j\<lparr>aborted := True, j_status := JFailed,
             summ := (summ j)\<lparr>failedCount := failedCount (summ j) + length (filter (\<lambda>(n, t). open_task t) (results j))\<rparr>,
             results := map (\<lambda>(n, t). (n, if open_task t then t\<lparr>t_status := TFailed, t_code := ''job-cancelled''\<rparr> else t)) (results j)\<rparr>)"

definition summary_total :: "summary \<Rightarrow> nat" where
  "summary_total s = completed s + failedCount s + skipped s + timeoutCount s + unreachable s"

text \<open>The code after all workers returned; the flag says whether an accounting check threw.\<close>

definition finish_job :: "job \<Rightarrow> job \<times> bool" where
  "finish_job j =
     (if j_done j \<or> j_status j = JPending \<or> \<not> list_all (\<lambda>w. w = Returned) (workers j) then (j, False)
      else let s = summ j;
               st = (if aborted j \<or> j_status j = JFailed then JFailed
                     else if completed s = totalTargets s then JCompleted
                     else if completed s = 0 then JFailed else JPartial);
               j1 = j\<lparr>j_status := st, j_done := True\<rparr> in
        if summary_total s \<noteq> totalTargets s then (j1\<lparr>j_status := JFailed\<rparr>, True)
        else if length (results j) \<noteq> totalTargets s then (j1\<lparr>j_status := JFailed\<rparr>, True)
        else (j1, False))"

subsection \<open>Submission\<close>

datatype submit_error = InvalidJobId | InvalidTaskType | BadTarget target_error | InvalidPayload

definition positive_floor :: "jsval \<Rightarrow> int option" where
  "positive_floor v = (case v of JNum r \<Rightarrow> if r > 0 then Some \<lfloor>r\<rfloor> else None | _ \<Rightarrow> None)"

definition make_job :: "str \<Rightarrow> str \<Rightarrow> jsval \<Rightarrow> str list \<Rightarrow> int option \<Rightarrow> str \<Rightarrow> str list \<Rightarrow> job" where
  "make_job jid tt pl caps tmo oper targets =
     \<lparr>jobId = jid, taskType = tt, payload = pl, requiredCapabilities = caps, j_timeoutMs = tmo,
      operatorPrincipal = (if oper = [] then ''operator'' else oper), j_status = JPending,
      summ = \<lparr>totalTargets = length targets, completed = 0, failedCount = 0, skipped = 0, timeoutCount = 0, unreachable = 0\<rparr>,
      results = fold (\<lambda>n m. AList.update n \<lparr>t_status = TPending, t_code = []\<rparr> m) targets [],
      aborted = False, queue = [], workers = [], j_done = False\<rparr>"

text \<open>The given job id: absent, a well-formed id, or refused.\<close>

definition given_job_id :: "jsval \<Rightarrow> submit_error + str option" where
  "given_job_id v = (case v of
     JNull \<Rightarrow> Inr None
   | JUndefined \<Rightarrow> Inr None
   | JStr s \<Rightarrow> if job_id_pattern s then Inr (Some s) else Inl InvalidJobId
   | _ \<Rightarrow> Inl InvalidJobId)"

definition submitJob ::
  "str \<Rightarrow> jsval \<Rightarrow> jsval \<Rightarrow> jsval \<Rightarrow> jsval \<Rightarrow> str list \<Rightarrow> jsval \<Rightarrow> str \<Rightarrow> fleet \<Rightarrow> (submit_error + str) \<times> fleet" where
  "submitJob freshId jobIdArg tt pl targetSpec caps timeoutMs oper f =
     (case given_job_id jobIdArg of
        Inl e \<Rightarrow> (Inl e, f)
      | Inr jid \<Rightarrow>
      if (case jid of Some i \<Rightarrow> map_of (jobs f) i \<noteq> None | None \<Rightarrow> False) then (Inr (the jid), f)
      else case (case tt of JStr t \<Rightarrow> if t \<in> set ALLOWED_TASK_TYPES then Some t else None | _ \<Rightarrow> None) of
        None \<Rightarrow> (Inl InvalidTaskType, f)
      | Some t \<Rightarrow>
      case validateFleetTargetSpec targetSpec (f_registry f) of
        Inl e \<Rightarrow> (Inl (BadTarget e), f)
      | Inr targets \<Rightarrow>
      case pl of
        JObj ps \<Rightarrow>
          if \<not> assertValidJsonPayload 0 pl then (Inl InvalidPayload, f)
          else let cloned = JObj (clone_entries ps);
                   tmo = (case positive_floor timeoutMs of Some x \<Rightarrow> Some x
                          | None \<Rightarrow> positive_floor (js_get ''timeoutMs'' (clone_entries ps)));
                   i = (case jid of Some i \<Rightarrow> i | None \<Rightarrow> freshId);
                   j = make_job i t cloned caps tmo oper targets in
               (Inr i, f\<lparr>jobs := AList.update i (start_job (f_registry f) (maxConcurrentDispatches f) j) (jobs f)\<rparr>)
      | _ \<Rightarrow> (Inl InvalidPayload, f))"

definition getJob :: "(str \<Rightarrow> str) \<Rightarrow> bool \<Rightarrow> str \<Rightarrow> fleet \<Rightarrow> job option" where
  "getJob scrubString scrub jid f =
     (case map_of (jobs f) jid of
        None \<Rightarrow> None
      | Some j \<Rightarrow> Some (if scrub then j\<lparr>payload := scrubSensitiveCredentials scrubString (payload j)\<rparr> else j))"

definition payload_field :: "str \<Rightarrow> job \<Rightarrow> jsval" where
  "payload_field k j = (case payload j of JObj ps \<Rightarrow> js_get k ps | _ \<Rightarrow> JUndefined)"

definition hasActiveJobForSchedule :: "str \<Rightarrow> fleet \<Rightarrow> bool" where
  "hasActiveJobForSchedule sid f \<longleftrightarrow>
     list_ex (\<lambda>(i, j). payload_field ''_fleetScheduleId'' j = JStr sid \<and> (j_status j = JPending \<or> j_status j = JRunning)) (jobs f)"

definition with_job :: "str \<Rightarrow> (job \<Rightarrow> job) \<Rightarrow> fleet \<Rightarrow> fleet" where
  "with_job jid g f = (case map_of (jobs f) jid of None \<Rightarrow> f | Some j \<Rightarrow> f\<lparr>jobs := AList.update jid (g j) (jobs f)\<rparr>)"

definition cancelJob :: "str \<Rightarrow> fleet \<Rightarrow> bool \<times> fleet" where
  "cancelJob jid f =
     (case map_of (jobs f) jid of
        None \<Rightarrow> (False, f)
      | Some j \<Rightarrow> if j_status j \<in> {JCompleted, JFailed, JPartial} then (False, f)
                  else (True, with_job jid cancel_job f))"

subsection \<open>Default transport\<close>

text \<open>
  What the reverse side reports: the ready session of a node and its route readiness, whether
  channels can be asked about at all, and whether the session has a channel.
\<close>

record reverse_view =
  rv_sessions :: "(str \<Rightarrow> (str \<times> bool) option) option"
  rv_channels :: "(str \<Rightarrow> str \<Rightarrow> bool) option"

definition defaultDispatch :: "registry_view option \<Rightarrow> reverse_view \<Rightarrow> (jsval \<Rightarrow> nat) \<Rightarrow> str \<Rightarrow> job \<Rightarrow> outcome" where
  "defaultDispatch reg rv byteLength nodeId j =
     (case reg of
        None \<Rightarrow> Result TFailed ''no-registry''
      | Some r \<Rightarrow>
      case getNodeRow r nodeId of
        None \<Rightarrow> Result TUnreachable ''node-not-found''
      | Some row \<Rightarrow>
      if nr_routeMode row = ''reverse'' then
        if byteLength (payload j) > 32 * 1024 then Result TFailed ''payload-too-large''
        else (case rv_sessions rv of
            Some info \<Rightarrow>
              (case info nodeId of
                 None \<Rightarrow> Result TUnreachable ''reverse-session-offline''
               | Some (sid, ready) \<Rightarrow>
                   if \<not> ready then Result TUnreachable ''reverse-route-unreachable''
                   else if (case rv_channels rv of Some has \<Rightarrow> \<not> has nodeId sid | None \<Rightarrow> False)
                   then Result TUnreachable ''reverse-capacity''
                   else Result TCompleted [])
          | None \<Rightarrow> if rv_channels rv = None then Result TUnreachable ''reverse-capacity'' else Result TCompleted [])
      else Result TCompleted [])"

section \<open>Runs of a job\<close>

datatype job_event =
    WorkerNext nat
  | Settle nat outcome
  | Cancel
  | Finish

fun job_step :: "job_event \<Rightarrow> job \<Rightarrow> job" where
  "job_step (WorkerNext w) j = worker_next w j"
| "job_step (Settle w out) j = settle w out j"
| "job_step Cancel j = cancel_job j"
| "job_step Finish j = fst (finish_job j)"

text \<open>What a transport promises: it never reports a task as still pending or running.\<close>

fun event_ok :: "job_event \<Rightarrow> bool" where
  "event_ok (Settle w (Result st code)) = (st \<noteq> TPending \<and> st \<noteq> TRunning)"
| "event_ok _ = True"

definition run_job :: "job_event list \<Rightarrow> job \<Rightarrow> job" where
  "run_job evs j = foldl (\<lambda>j ev. job_step ev j) j evs"

section \<open>The invariant of a job\<close>

definition task_count :: "(task \<Rightarrow> bool) \<Rightarrow> (str, task) omap \<Rightarrow> nat" where
  "task_count P m = length (filter (\<lambda>(n, t). P t) m)"

lemma task_count_update:
  assumes "omap_wf m" "map_of m n = Some t"
  shows "task_count P (AList.update n t' m) + (if P t then 1 else 0) = task_count P m + (if P t' then 1 else 0)"
  using assms unfolding task_count_def by (rule omap_count_update)

text \<open>The books: one entry per target, every target counted once or still open.\<close>

definition accounts :: "job \<Rightarrow> bool" where
  "accounts j \<longleftrightarrow> omap_wf (results j) \<and> length (results j) = totalTargets (summ j) \<and>
     summary_total (summ j) + task_count open_task (results j) = totalTargets (summ j) \<and>
     completed (summ j) = task_count (\<lambda>t. t_status t = TCompleted) (results j)"

text \<open>Who may touch which entry: a queued node is pending, a dispatched one running, all others are settled.\<close>

fun dispatching :: "worker list \<Rightarrow> str list" where
  "dispatching [] = []"
| "dispatching (Dispatching n # ws) = n # dispatching ws"
| "dispatching (w # ws) = dispatching ws"

definition status_of :: "job \<Rightarrow> str \<Rightarrow> task_status option" where
  "status_of j n = map_option t_status (map_of (results j) n)"

definition owned :: "job \<Rightarrow> bool" where
  "owned j \<longleftrightarrow> distinct (queue j @ dispatching (workers j)) \<and>
     (\<forall>n. status_of j n = Some TPending \<longleftrightarrow> n \<in> set (queue j)) \<and>
     (\<forall>n. status_of j n = Some TRunning \<longleftrightarrow> n \<in> set (dispatching (workers j)))"

definition phase :: "job \<Rightarrow> bool" where
  "phase j \<longleftrightarrow>
     (if aborted j then j_status j = JFailed \<and> (\<forall>n t. map_of (results j) n = Some t \<longrightarrow> \<not> open_task t)
      else owned j \<and> (\<not> j_done j \<longrightarrow> j_status j = JRunning)
        \<and> ((Returned \<in> set (workers j) \<or> workers j = []) \<longrightarrow> queue j = []))
     \<and> (j_done j \<longrightarrow> list_all (\<lambda>w. w = Returned) (workers j))"

definition job_inv :: "job \<Rightarrow> bool" where
  "job_inv j \<longleftrightarrow> accounts j \<and> phase j"

lemma count_status_simps [simp]:
  "results (count_status st j) = results j" "queue (count_status st j) = queue j"
  "workers (count_status st j) = workers j" "aborted (count_status st j) = aborted j"
  "j_status (count_status st j) = j_status j" "j_done (count_status st j) = j_done j"
  "totalTargets (summ (count_status st j)) = totalTargets (summ j)"
  "summary_total (summ (count_status st j)) = Suc (summary_total (summ j))"
  "completed (summ (count_status st j)) = completed (summ j) + (if st = TCompleted then 1 else 0)"
  "requiredCapabilities (count_status st j) = requiredCapabilities j"
  by (simp_all add: count_status_def Let_def summary_total_def split: task_status.split)

lemma set_task_simps [simp]:
  "results (set_task n st c j) = AList.update n \<lparr>t_status = st, t_code = c\<rparr> (results j)"
  "queue (set_task n st c j) = queue j" "workers (set_task n st c j) = workers j"
  "aborted (set_task n st c j) = aborted j" "j_status (set_task n st c j) = j_status j"
  "j_done (set_task n st c j) = j_done j" "summ (set_task n st c j) = summ j"
  "requiredCapabilities (set_task n st c j) = requiredCapabilities j"
  by (simp_all add: set_task_def)

lemma accounts_move:
  assumes acc: "accounts j" and t: "map_of (results j) n = Some t" "open_task t" and st: "st = TRunning"
  shows "accounts (set_task n st c j)"
proof -
  have wf: "omap_wf (results j)" using acc by (simp add: accounts_def)
  have "t_status t \<noteq> TCompleted" using t by (auto simp: open_task_def)
  with acc t st task_count_update [OF wf t(1), of open_task "\<lparr>t_status = st, t_code = c\<rparr>"]
    task_count_update [OF wf t(1), of "\<lambda>t. t_status t = TCompleted" "\<lparr>t_status = st, t_code = c\<rparr>"]
  show ?thesis
    by (auto simp: accounts_def omap_length_update dom_def open_task_def)
qed

lemma accounts_count:
  assumes acc: "accounts j" and t: "map_of (results j) n = Some t" "open_task t"
    and st: "st \<noteq> TPending" "st \<noteq> TRunning" and cat: "cat = TCompleted \<longleftrightarrow> st = TCompleted"
  shows "accounts (count_status cat (set_task n st c j))"
proof -
  have wf: "omap_wf (results j)" using acc by (simp add: accounts_def)
  have "t_status t \<noteq> TCompleted" using t by (auto simp: open_task_def)
  with acc t st cat task_count_update [OF wf t(1), of open_task "\<lparr>t_status = st, t_code = c\<rparr>"]
    task_count_update [OF wf t(1), of "\<lambda>t. t_status t = TCompleted" "\<lparr>t_status = st, t_code = c\<rparr>"]
  show ?thesis
    by (auto simp: accounts_def omap_length_update dom_def open_task_def)
qed

lemma accounts_cong:
  assumes "accounts j" "results j' = results j" "summ j' = summ j"
  shows "accounts j'"
  using assms by (simp add: accounts_def)

lemma phase_running:
  assumes "phase j" "\<not> aborted j"
  shows "owned j" "\<not> j_done j \<Longrightarrow> j_status j = JRunning"
    "Returned \<in> set (workers j) \<Longrightarrow> queue j = []" "workers j = [] \<Longrightarrow> queue j = []"
    "j_done j \<Longrightarrow> list_all (\<lambda>w. w = Returned) (workers j)"
  using assms by (simp_all add: phase_def)

lemma mset_dispatching_update:
  fixes ws :: "worker list"
  assumes "w < length ws"
  shows "mset (dispatching ([ws ! w])) + mset (dispatching (ws[w := x])) = mset (dispatching ws) + mset (dispatching [x])"
  using assms
proof (induction ws arbitrary: w)
  case (Cons y ws)
  then show ?case by (cases w; cases y; cases x) force+
qed simp

lemma status_of_some: "status_of j n = Some st \<Longrightarrow> \<exists>t. map_of (results j) n = Some t \<and> t_status t = st"
  by (auto simp: status_of_def)

lemma status_of_open: "open_task t \<Longrightarrow> map_of (results j) n = Some t \<Longrightarrow> status_of j n \<in> {Some TPending, Some TRunning}"
  by (auto simp: status_of_def open_task_def)

lemma owned_cong:
  assumes ow: "owned j" and ms: "mset (queue j') + mset (dispatching (workers j')) = mset (queue j) + mset (dispatching (workers j))"
    and st: "\<And>n. status_of j' n = Some TPending \<longleftrightarrow> n \<in> set (queue j')"
      "\<And>n. status_of j' n = Some TRunning \<longleftrightarrow> n \<in> set (dispatching (workers j'))"
  shows "owned j'"
  using ow st mset_eq_imp_distinct_iff [of "queue j' @ dispatching (workers j')" "queue j @ dispatching (workers j)"] ms
  by (simp add: owned_def)

lemma owned_take:
  assumes ow: "owned j" and w: "w < length (workers j)" "workers j ! w = Waiting" and q: "queue j = n # ns"
  shows "owned ((set_task n TRunning [] (j\<lparr>queue := ns\<rparr>))\<lparr>workers := (workers j)[w := Dispatching n]\<rparr>)" (is "owned ?j")
proof (rule owned_cong [OF ow])
  have ms: "mset (dispatching ((workers j)[w := Dispatching n])) = add_mset n (mset (dispatching (workers j)))"
    using mset_dispatching_update [OF w(1), of "Dispatching n"] w by simp
  then show "mset (queue ?j) + mset (dispatching (workers ?j)) = mset (queue j) + mset (dispatching (workers j))"
    using q by simp
  have ds: "set (dispatching ((workers j)[w := Dispatching n])) = insert n (set (dispatching (workers j)))"
    using ms by (metis set_mset_mset set_mset_add_mset_insert)
  have st: "status_of ?j m = (if m = n then Some TRunning else status_of j m)" for m
    by (simp add: status_of_def map_of_update)
  show "status_of ?j m = Some TPending \<longleftrightarrow> m \<in> set (queue ?j)" for m
    using ow q by (auto simp: st owned_def)
  show "status_of ?j m = Some TRunning \<longleftrightarrow> m \<in> set (dispatching (workers ?j))" for m
    using ow q ds by (auto simp: st owned_def)
qed

lemma owned_settle:
  assumes ow: "owned j" and w: "w < length (workers j)" "workers j ! w = Dispatching n"
    and st: "st \<noteq> TPending" "st \<noteq> TRunning"
    and j': "queue j' = queue j" "workers j' = (workers j)[w := Waiting]"
      "\<And>m. status_of j' m = (if m = n then Some st else status_of j m)"
  shows "owned j'"
proof -
  have ms: "mset (dispatching (workers j)) = add_mset n (mset (dispatching (workers j')))"
    using mset_dispatching_update [OF w(1), of Waiting] w j' by simp
  have "distinct (queue j @ n # dispatching (workers j'))"
    using ow ms mset_eq_imp_distinct_iff [of "queue j @ n # dispatching (workers j')" "queue j @ dispatching (workers j)"]
    by (simp add: owned_def)
  moreover have "set (dispatching (workers j)) = insert n (set (dispatching (workers j')))"
    using ms by (metis set_mset_mset set_mset_add_mset_insert)
  ultimately show ?thesis
    using ow st j' by (auto simp: owned_def)
qed

lemma dispatching_nth:
  assumes "w < length ws" "ws ! w = Dispatching n"
  shows "n \<in> set (dispatching ws)"
  using assms
proof (induction ws arbitrary: w)
  case (Cons y ws)
  then show ?case by (cases w; cases y) auto
qed simp

lemma dispatching_none: "list_all (\<lambda>w. w = Returned) ws \<Longrightarrow> dispatching ws = []"
  by (induction ws) auto

subsection \<open>Every step keeps it\<close>

lemma job_inv_worker_next:
  assumes inv: "job_inv j"
  shows "job_inv (worker_next w j)"
proof (cases "w \<ge> length (workers j) \<or> workers j ! w \<noteq> Waiting")
  case True
  with inv show ?thesis by (simp add: worker_next_def)
next
  case False
  then have w: "w < length (workers j)" "workers j ! w = Waiting" by auto
  then have win: "Waiting \<in> set (workers j)" by (metis nth_mem)
  then have nd: "\<not> j_done j" using inv by (auto simp: job_inv_def phase_def list_all_iff)
  show ?thesis
  proof (cases "queue j = [] \<or> aborted j")
    case True
    have "mset (dispatching ((workers j)[w := Returned])) = mset (dispatching (workers j))"
      using mset_dispatching_update [OF w(1), of Returned] w by simp
    then have "owned j \<Longrightarrow> owned (j\<lparr>workers := (workers j)[w := Returned]\<rparr>)"
      using owned_cong [of j "j\<lparr>workers := (workers j)[w := Returned]\<rparr>"]
      by (simp add: owned_def status_of_def) (metis set_mset_mset)
    with True inv w nd show ?thesis
      by (auto simp: worker_next_def job_inv_def phase_def accounts_def)
  next
    case False
    then obtain n ns where q: "queue j = n # ns" by (cases "queue j") auto
    have ow: "owned j" and run: "j_status j = JRunning"
      using inv False nd by (auto simp: job_inv_def phase_def)
    then have "status_of j n = Some TPending" using q by (simp add: owned_def)
    then obtain t where t: "map_of (results j) n = Some t" "t_status t = TPending"
      using status_of_some by blast
    have step: "worker_next w j = (set_task n TRunning [] (j\<lparr>queue := ns\<rparr>))\<lparr>workers := (workers j)[w := Dispatching n]\<rparr>"
      using False w q t by (simp add: worker_next_def Let_def)
    have "accounts (set_task n TRunning [] (j\<lparr>queue := ns\<rparr>))"
      using inv t by (intro accounts_move [where t = t]) (auto simp: job_inv_def open_task_def accounts_def)
    then have "accounts (worker_next w j)"
      unfolding step by (rule accounts_cong) simp_all
    moreover have "owned (worker_next w j)"
      unfolding step by (rule owned_take [OF ow w q])
    moreover have "Returned \<notin> set ((workers j)[w := Dispatching n])"
    proof
      assume "Returned \<in> set ((workers j)[w := Dispatching n])"
      then have "Returned \<in> set (workers j)" using set_update_subset_insert by fastforce
      with inv False q show False by (simp add: job_inv_def phase_def)
    qed
    moreover have "workers j \<noteq> []" using w by auto
    ultimately show ?thesis
      using False nd run by (simp add: job_inv_def phase_def step)
  qed
qed

lemma accounts_abandon:
  assumes "job_inv j" "aborted j" "w < length (workers j)" "\<not> j_done j"
  shows "job_inv (j\<lparr>workers := (workers j)[w := Waiting]\<rparr>)"
  using assms by (simp add: job_inv_def phase_def accounts_def)

lemma job_inv_settle:
  assumes inv: "job_inv j" and ok: "event_ok (Settle w out)"
  shows "job_inv (settle w out j)"
proof (cases "w < length (workers j) \<and> (\<exists>n. workers j ! w = Dispatching n)")
  case False
  then show ?thesis using inv by (cases "workers j ! w") (auto simp: settle_def)
next
  case True
  then obtain n where w: "w < length (workers j)" "workers j ! w = Dispatching n" by auto
  then have "Dispatching n \<in> set (workers j)" by (metis nth_mem)
  then have nd: "\<not> j_done j" using inv by (auto simp: job_inv_def phase_def list_all_iff)
  show ?thesis
  proof (cases "aborted j")
    case True
    then show ?thesis
      using accounts_abandon [OF inv True w(1) nd] w by (simp add: settle_def Let_def)
  next
    case False
    have ow: "owned j" and run: "j_status j = JRunning"
      using inv False nd by (auto simp: job_inv_def phase_def)
    have "status_of j n = Some TRunning" using ow dispatching_nth [OF w] by (simp add: owned_def)
    then obtain t where t: "map_of (results j) n = Some t" "t_status t = TRunning"
      using status_of_some by blast
    obtain st c cat where st: "st \<noteq> TPending" "st \<noteq> TRunning" "cat = TCompleted \<longleftrightarrow> st = TCompleted"
      and step: "settle w out j = count_status cat (set_task n st c (j\<lparr>workers := (workers j)[w := Waiting]\<rparr>))"
    proof (cases out)
      case (Result st c)
      with ok False w t show ?thesis
        by (intro that [of st "if st \<in> {TCompleted, TTimeout, TUnreachable} then st else TFailed" c])
          (auto simp: settle_def Let_def)
    next
      case (Threw c)
      with False w t show ?thesis
        by (intro that [of TFailed TFailed c]) (auto simp: settle_def Let_def)
    qed
    have "accounts (settle w out j)"
      unfolding step using inv t st
      by (intro accounts_count [where t = t]) (auto simp: job_inv_def open_task_def accounts_def)
    moreover have "owned (settle w out j)"
      by (rule owned_settle [OF ow w st(1,2)]) (simp_all add: step status_of_def map_of_update)
    moreover have "Returned \<in> set (workers j) \<or> workers j = []"
      if "Returned \<in> set (workers (settle w out j)) \<or> workers (settle w out j) = []"
      using that set_update_subset_insert [of "workers j" w Waiting] w by (auto simp: step)
    ultimately show ?thesis
      using inv False nd run by (auto simp: job_inv_def phase_def step)
  qed
qed

lemma cancel_results:
  "map_of (map (\<lambda>(n, t). (n, if open_task t then t\<lparr>t_status := TFailed, t_code := c\<rparr> else t)) m) n =
     map_option (\<lambda>t. if open_task t then t\<lparr>t_status := TFailed, t_code := c\<rparr> else t) (map_of m n)"
  by (induction m) auto

lemma job_inv_cancel:
  assumes inv: "job_inv j"
  shows "job_inv (cancel_job j)"
proof (cases "j_status j \<in> {JCompleted, JFailed, JPartial}")
  case True
  with inv show ?thesis by (simp add: cancel_job_def)
next
  case False
  define m where "m = map (\<lambda>(n, t). (n, if open_task t then t\<lparr>t_status := TFailed, t_code := ''job-cancelled''\<rparr> else t)) (results j)"
  have "map fst m = map fst (results j)" by (auto simp: m_def)
  moreover have "task_count open_task m = 0"
    by (auto simp: m_def task_count_def open_task_def filter_empty_conv split: if_splits)
  moreover have "task_count (\<lambda>t. t_status t = TCompleted) m = task_count (\<lambda>t. t_status t = TCompleted) (results j)"
    unfolding m_def task_count_def filter_map
    by (auto simp: open_task_def split: if_splits intro!: arg_cong [where f = length] filter_cong)
  moreover have "\<not> open_task t" if m: "map_of m n = Some t" for n t
  proof -
    have "map_option (\<lambda>t. if open_task t then t\<lparr>t_status := TFailed, t_code := ''job-cancelled''\<rparr> else t) (map_of (results j) n) = Some t"
      using m unfolding m_def cancel_results .
    then obtain t0 where "t = (if open_task t0 then t0\<lparr>t_status := TFailed, t_code := ''job-cancelled''\<rparr> else t0)"
      by auto
    then show ?thesis by (simp add: open_task_def split: if_splits)
  qed
  moreover have "cancel_job j = j\<lparr>aborted := True, j_status := JFailed,
      summ := (summ j)\<lparr>failedCount := failedCount (summ j) + task_count open_task (results j)\<rparr>, results := m\<rparr>"
    using False by (simp add: cancel_job_def m_def task_count_def)
  moreover have "length m = length (results j)" by (simp add: m_def)
  ultimately show ?thesis
    using inv by (auto simp: job_inv_def phase_def accounts_def summary_total_def)
qed

lemma no_open_when_returned:
  assumes inv: "job_inv j" and ret: "list_all (\<lambda>w. w = Returned) (workers j)"
  shows "task_count open_task (results j) = 0"
proof -
  have "\<not> open_task t" if t: "map_of (results j) n = Some t" for n t
  proof (cases "aborted j")
    case True
    with inv t show ?thesis by (auto simp: job_inv_def phase_def)
  next
    case False
    have "Returned \<in> set (workers j) \<or> workers j = []" using ret by (cases "workers j") auto
    with inv False have "queue j = []" "owned j" by (auto simp: job_inv_def phase_def)
    then have "status_of j n \<noteq> Some TPending" "status_of j n \<noteq> Some TRunning"
      using dispatching_none [OF ret] by (auto simp: owned_def)
    then show ?thesis using t by (auto simp: status_of_def open_task_def)
  qed
  moreover have "omap_wf (results j)" using inv by (simp add: job_inv_def accounts_def)
  ultimately show ?thesis
    by (auto simp: task_count_def filter_empty_conv)
qed

lemma finish_never_throws:
  assumes inv: "job_inv j"
  shows "\<not> snd (finish_job j)"
  using inv no_open_when_returned [OF inv]
  by (auto simp: finish_job_def Let_def job_inv_def accounts_def)

lemma job_inv_finish:
  assumes inv: "job_inv j"
  shows "job_inv (fst (finish_job j))"
proof (cases "j_done j \<or> j_status j = JPending \<or> \<not> list_all (\<lambda>w. w = Returned) (workers j)")
  case True
  with inv show ?thesis by (simp add: finish_job_def)
next
  case False
  then have ret: "list_all (\<lambda>w. w = Returned) (workers j)" by simp
  have tot: "summary_total (summ j) = totalTargets (summ j)" "length (results j) = totalTargets (summ j)"
    using inv no_open_when_returned [OF inv ret] by (simp_all add: job_inv_def accounts_def)
  have ow: "owned (j\<lparr>j_status := st, j_done := d\<rparr>) = owned j" for st d
    by (simp add: owned_def status_of_def)
  show ?thesis
    using inv False ret tot
    by (simp add: finish_job_def Let_def job_inv_def phase_def accounts_def ow)
qed

lemma job_inv_step:
  "job_inv j \<Longrightarrow> event_ok ev \<Longrightarrow> job_inv (job_step ev j)"
  by (cases ev) (simp_all add: job_inv_worker_next job_inv_settle job_inv_cancel job_inv_finish)

lemma job_inv_run:
  "job_inv j \<Longrightarrow> list_all event_ok evs \<Longrightarrow> job_inv (run_job evs j)"
  by (induction evs arbitrary: j) (simp_all add: run_job_def job_inv_step)

subsection \<open>Submission establishes it\<close>

definition fresh_accounts :: "str list \<Rightarrow> job \<Rightarrow> bool" where
  "fresh_accounts ns j \<longleftrightarrow> accounts j \<and> \<not> aborted j \<and> distinct ns \<and> (\<forall>n \<in> set ns. status_of j n = Some TPending)"

lemma subseq_set_distinct:
  assumes "subseq xs ys"
  shows "set xs \<subseteq> set ys" "distinct ys \<Longrightarrow> distinct xs"
proof -
  show "set xs \<subseteq> set ys" using assms by (induction rule: list_emb.induct) auto
  show "distinct ys \<Longrightarrow> distinct xs"
    using assms by (induction rule: list_emb.induct) (auto dest: list_emb_set)
qed

lemma filter_nodes_spec:
  fixes reg :: "registry_view option"
  assumes "fresh_accounts ns j"
  defines "r \<equiv> filter_nodes reg ns j"
  shows "accounts (fst r) \<and> aborted (fst r) = aborted j \<and> j_done (fst r) = j_done j \<and> j_status (fst r) = j_status j
    \<and> subseq (snd r) ns
    \<and> (\<forall>n. n \<notin> set ns \<longrightarrow> status_of (fst r) n = status_of j n)
    \<and> (\<forall>n \<in> set ns. status_of (fst r) n = (if n \<in> set (snd r) then Some TPending else Some TSkipped))"
  using assms(1) unfolding r_def
proof (induction ns arbitrary: j)
  case Nil
  then show ?case by (simp add: fresh_accounts_def)
next
  case (Cons n ns)
  have na: "\<not> aborted j" and nin: "n \<notin> set ns" using Cons.prems by (auto simp: fresh_accounts_def)
  have "status_of j n = Some TPending" using Cons.prems by (simp add: fresh_accounts_def)
  then obtain t where t: "map_of (results j) n = Some t" "t_status t = TPending" using status_of_some by blast
  show ?case
  proof (cases "skip_reason reg (requiredCapabilities j) n")
    case None
    have "fresh_accounts ns j" using Cons.prems by (simp add: fresh_accounts_def)
    from Cons.IH [OF this] have ih: "subseq (snd (filter_nodes reg ns j)) ns" by blast
    have "n \<notin> set (snd (filter_nodes reg ns j))" using nin subseq_set_distinct(1) [OF ih] by auto
    with Cons.IH [OF \<open>fresh_accounts ns j\<close>] None na nin \<open>status_of j n = Some TPending\<close>
    show ?thesis by (simp add: Let_def) metis
  next
    case (Some reason)
    define j1 where "j1 = count_status TSkipped (set_task n TSkipped reason j)"
    have st: "status_of j1 m = (if m = n then Some TSkipped else status_of j m)" for m
      by (simp add: j1_def status_of_def map_of_update)
    have acc: "accounts j1"
      unfolding j1_def using Cons.prems t
      by (intro accounts_count [where t = t]) (auto simp: fresh_accounts_def open_task_def)
    have "fresh_accounts ns j1"
      using Cons.prems acc nin by (auto simp: fresh_accounts_def st) (simp add: j1_def)
    from Cons.IH [OF this] have ih: "subseq (snd (filter_nodes reg ns j1)) ns" by blast
    have nn: "n \<notin> set (snd (filter_nodes reg ns j1))" using nin subseq_set_distinct(1) [OF ih] by auto
    have fields: "aborted j1 = aborted j" "j_done j1 = j_done j" "j_status j1 = j_status j" by (simp_all add: j1_def)
    have step: "filter_nodes reg (n # ns) j = filter_nodes reg ns j1"
      using Some na by (simp add: j1_def)
    show ?thesis
      using Cons.IH [OF \<open>fresh_accounts ns j1\<close>] nin nn ih
      unfolding step fields by (auto simp: st)
  qed
qed

lemma fold_update_results:
  assumes "distinct ns" "omap_wf m" "set ns \<inter> fst ` set m = {}"
  shows "fold (\<lambda>n m. AList.update n t m) ns m = m @ map (\<lambda>n. (n, t)) ns"
  using assms
proof (induction ns arbitrary: m)
  case (Cons n ns)
  have "AList.update n t m = m @ [(n, t)]"
    using Cons.prems by (intro update_absent) auto
  with Cons show ?case by (simp del: fold.simps(2) add: fold_simps)
qed simp

lemma make_job_inv:
  assumes "distinct ns"
  shows "fresh_accounts ns (make_job jid tt pl caps tmo oper ns)" "map fst (results (make_job jid tt pl caps tmo oper ns)) = ns"
    "status_of (make_job jid tt pl caps tmo oper ns) n = (if n \<in> set ns then Some TPending else None)"
proof -
  have r: "results (make_job jid tt pl caps tmo oper ns) = map (\<lambda>n. (n, \<lparr>t_status = TPending, t_code = []\<rparr>)) ns"
    using fold_update_results [OF assms, of "[]"] by (simp add: make_job_def)
  then show keys: "map fst (results (make_job jid tt pl caps tmo oper ns)) = ns" by (simp add: comp_def)
  have m: "map_of (results (make_job jid tt pl caps tmo oper ns)) n
      = (if n \<in> set ns then Some \<lparr>t_status = TPending, t_code = []\<rparr> else None)" for n
    unfolding r by (induction ns) auto
  then show "status_of (make_job jid tt pl caps tmo oper ns) n = (if n \<in> set ns then Some TPending else None)"
    by (simp add: status_of_def)
  have "task_count open_task (map (\<lambda>n. (n, \<lparr>t_status = TPending, t_code = []\<rparr>)) ns) = length ns"
    by (simp add: task_count_def filter_map comp_def open_task_def)
  moreover have "task_count (\<lambda>t. t_status t = TCompleted) (map (\<lambda>n. (n, \<lparr>t_status = TPending, t_code = []\<rparr>)) ns) = 0"
    by (simp add: task_count_def filter_map comp_def)
  ultimately show "fresh_accounts ns (make_job jid tt pl caps tmo oper ns)"
    using assms keys r m
    by (simp add: fresh_accounts_def accounts_def status_of_def make_job_def summary_total_def)
qed

lemma start_job_inv:
  assumes d: "distinct ns" and mc: "mc \<ge> 1"
  shows "job_inv (start_job reg mc (make_job jid tt pl caps tmo oper ns))"
    "subseq (queue (start_job reg mc (make_job jid tt pl caps tmo oper ns))) ns"
    "length (workers (start_job reg mc (make_job jid tt pl caps tmo oper ns))) \<le> mc"
    "\<forall>x \<in> set (workers (start_job reg mc (make_job jid tt pl caps tmo oper ns))). x = Waiting"
proof -
  define j where "j = make_job jid tt pl caps tmo oper ns"
  define j1 where "j1 = j\<lparr>j_status := JRunning\<rparr>"
  define r where "r = filter_nodes reg ns j1"
  have jm: "fresh_accounts ns j" "map fst (results j) = ns" "status_of j n = (if n \<in> set ns then Some TPending else None)" for n
    unfolding j_def by (rule make_job_inv [OF d])+
  have "status_of j1 n = status_of j n" for n by (simp add: j1_def status_of_def)
  then have "fresh_accounts ns j1" using jm(1) by (simp add: j1_def fresh_accounts_def accounts_def)
  note spec = filter_nodes_spec [OF this, of reg, folded r_def]
  have j0: "j_status j = JPending" "j_done j = False" "aborted j = False" by (simp_all add: j_def make_job_def)
  have st: "start_job reg mc j = (fst r)\<lparr>queue := snd r, workers := replicate (min mc (length (snd r))) Waiting\<rparr>"
    using jm(2) j0 by (simp add: start_job_def Let_def r_def j1_def)
  have none: "dispatching (replicate k Waiting) = []" for k by (induction k) auto
  have sub: "set (snd r) \<subseteq> set ns" using spec subseq_set_distinct(1) by blast
  have dis: "distinct (snd r)" using spec d subseq_set_distinct(2) by blast
  have out: "status_of (fst r) n = None" if "n \<notin> set ns" for n
    using spec that jm(3) by (simp add: j1_def status_of_def)
  have stat: "status_of (fst r) n = (if n \<in> set (snd r) then Some TPending else if n \<in> set ns then Some TSkipped else None)" for n
    using spec sub out by (cases "n \<in> set ns") auto
  have "status_of (start_job reg mc j) n = status_of (fst r) n" for n
    by (simp add: st status_of_def)
  then have "owned (start_job reg mc j)"
    unfolding owned_def by (auto simp: stat st none dis)
  moreover have "accounts (start_job reg mc j)" using spec by (simp add: st accounts_def)
  ultimately have "job_inv (start_job reg mc j)"
    using spec j0 mc by (cases "snd r") (auto simp: job_inv_def phase_def st j1_def)
  then show "job_inv (start_job reg mc (make_job jid tt pl caps tmo oper ns))" by (simp add: j_def)
  show "subseq (queue (start_job reg mc (make_job jid tt pl caps tmo oper ns))) ns"
    using spec st by (simp add: j_def)
  show "length (workers (start_job reg mc (make_job jid tt pl caps tmo oper ns))) \<le> mc"
    using st by (simp add: j_def)
  show "\<forall>x \<in> set (workers (start_job reg mc (make_job jid tt pl caps tmo oper ns))). x = Waiting"
    using st by (simp add: j_def)
qed

subsection \<open>Targets\<close>

definition node_ids_unique :: "registry_view option \<Rightarrow> bool" where
  "node_ids_unique reg \<longleftrightarrow> (case reg of None \<Rightarrow> True | Some r \<Rightarrow> distinct (map nv_nodeId (listNodes r)))"

lemma resolve_explicit_sound:
  assumes "resolve_explicit reg raws clean = Inr ns" "distinct clean"
  shows "distinct ns \<and> (\<forall>n \<in> set ns. n \<in> set clean \<or>
    (node_id_pattern n \<and> (\<exists>raw \<in> set raws. validateTargetScope raw = Inr n) \<and>
      (\<forall>r. reg = Some r \<longrightarrow> (\<exists>row. getNodeRow r n = Some row \<and> nr_state row \<noteq> ''tombstoned''))))"
  using assms
proof (induction raws arbitrary: clean)
  case (Cons raw raws)
  obtain n where n: "validateTargetScope raw = Inr n"
    using Cons.prems(1) by (cases "validateTargetScope raw") auto
  have live: "\<exists>row. getNodeRow r n = Some row \<and> nr_state row \<noteq> ''tombstoned''" if "reg = Some r" for r
    using Cons.prems(1) n that by (auto split: if_splits option.splits)
  have rest: "resolve_explicit reg raws (set_add n clean) = Inr ns"
    using Cons.prems(1) n by (auto split: if_splits)
  from Cons.IH [OF rest] Cons.prems(2) validateTargetScope_Inr [OF n] live n
  show ?case by (auto 4 3)
qed simp

lemma match_nodes_sound:
  assumes "match_nodes c views = Some ns"
  shows "subseq ns (map nv_nodeId views) \<and> (\<forall>n \<in> set ns. \<exists>v \<in> set views. nv_nodeId v = n \<and>
    nv_state v = ''active'' \<and> \<not> nv_stale v \<and> some_cap c (nv_capabilities v) = Some True)"
  using assms
proof (induction views arbitrary: ns)
  case (Cons v views)
  show ?case
  proof (cases "nv_state v = ''active''")
    case False
    with Cons show ?thesis by auto
  next
    case True
    then obtain b ms where b: "some_cap c (nv_capabilities v) = Some b" and ms: "match_nodes c views = Some ms"
      and ns: "ns = (if b \<and> \<not> nv_stale v then nv_nodeId v # ms else ms)"
      using Cons.prems by (auto split: option.splits)
    from Cons.IH [OF ms] b ns True show ?thesis by (auto split: if_splits)
  qed
qed simp

lemma targets_sound:
  assumes "validateFleetTargetSpec spec reg = Inr ns"
  obtains (explicit) xs where "resolve_explicit reg xs [] = Inr ns" "xs \<noteq> []"
    "\<exists>ps. spec = JObj ps \<and> js_get ''nodeIds'' ps = JArr xs"
  | (capability) c where "match_nodes c (case reg of None \<Rightarrow> [] | Some r \<Rightarrow> listNodes r) = Some ns" "ns \<noteq> []"
    "\<exists>ps. spec = JObj ps \<and> js_get ''mode'' ps = JStr ''capability''"
proof (cases spec)
  case (JObj ps)
  show thesis
  proof (cases "js_get ''mode'' ps = JStr ''explicit''")
    case True
    then obtain xs where "js_get ''nodeIds'' ps = JArr xs" "xs \<noteq> []" "resolve_explicit reg xs [] = Inr ns"
      using assms JObj by (auto simp: validateFleetTargetSpec_def Let_def split: if_splits jsval.splits)
    then show thesis using explicit JObj by blast
  next
    case False
    then obtain c where "match_nodes c (case reg of None \<Rightarrow> [] | Some r \<Rightarrow> listNodes r) = Some ns" "ns \<noteq> []"
      "js_get ''mode'' ps = JStr ''capability''"
      using assms JObj by (auto simp: validateFleetTargetSpec_def Let_def split: if_splits jsval.splits option.splits)
    then show thesis using capability JObj by blast
  qed
qed (use assms in \<open>auto simp: validateFleetTargetSpec_def split: if_splits\<close>)

lemma resolve_nonempty:
  "resolve_explicit reg raws clean = Inr ns \<Longrightarrow> raws \<noteq> [] \<or> clean \<noteq> [] \<Longrightarrow> ns \<noteq> []"
proof (induction raws arbitrary: clean)
  case (Cons raw raws)
  then show ?case by (fastforce simp: set_add_def split: sum.splits if_splits)
qed simp

lemma targets_distinct:
  assumes "validateFleetTargetSpec spec reg = Inr ns" "node_ids_unique reg"
  shows "distinct ns \<and> ns \<noteq> []"
  using assms(1)
proof (cases rule: targets_sound)
  case (explicit xs)
  then show ?thesis using resolve_explicit_sound [OF explicit(1)] resolve_nonempty by fastforce
next
  case (capability c)
  then have "subseq ns (map nv_nodeId (case reg of None \<Rightarrow> [] | Some r \<Rightarrow> listNodes r))"
    using match_nodes_sound by blast
  with assms(2) capability(2) show ?thesis
    by (auto simp: node_ids_unique_def split: option.splits dest: subseq_set_distinct(2))
qed

subsection \<open>A submitted job\<close>

text \<open>The job a call of \<open>submitJob\<close> created, as opposed to one it found under the given id.\<close>

definition creates_job :: "(submit_error + str) \<times> fleet \<Rightarrow> fleet \<Rightarrow> job \<Rightarrow> bool" where
  "creates_job r f j0 \<longleftrightarrow> (case r of (Inr i, f') \<Rightarrow> map_of (jobs f) i = None \<and> map_of (jobs f') i = Some j0 | _ \<Rightarrow> False)"

lemma created_job:
  assumes "creates_job (submitJob freshId jid tt pl spec caps tmo oper f) f j0"
  obtains ns i t cloned tm where "validateFleetTargetSpec spec (f_registry f) = Inr ns"
    "j0 = start_job (f_registry f) (maxConcurrentDispatches f) (make_job i t cloned caps tm oper ns)"
  using assms
  by (auto simp: creates_job_def submitJob_def Let_def map_of_update split: sum.splits option.splits if_splits jsval.splits)

lemma created_inv:
  assumes "creates_job (submitJob freshId jid tt pl spec caps tmo oper f) f j0"
    and "node_ids_unique (f_registry f)" "1 \<le> maxConcurrentDispatches f"
  shows "job_inv j0" "distinct (queue j0)" "length (workers j0) \<le> maxConcurrentDispatches f"
    "\<forall>x \<in> set (workers j0). x = Waiting"
    "\<exists>ns. validateFleetTargetSpec spec (f_registry f) = Inr ns \<and> set (queue j0) \<subseteq> set ns"
proof -
  obtain ns i t cloned tm where ns: "validateFleetTargetSpec spec (f_registry f) = Inr ns"
    and j0: "j0 = start_job (f_registry f) (maxConcurrentDispatches f) (make_job i t cloned caps tm oper ns)"
    using created_job [OF assms(1)] by metis
  have d: "distinct ns" using targets_distinct [OF ns assms(2)] by simp
  note s = start_job_inv [OF d assms(3), of "f_registry f" i t cloned caps tm oper, folded j0]
  show "job_inv j0" "length (workers j0) \<le> maxConcurrentDispatches f" "\<forall>x \<in> set (workers j0). x = Waiting"
    by (rule s)+
  show "distinct (queue j0)" "\<exists>ns. validateFleetTargetSpec spec (f_registry f) = Inr ns \<and> set (queue j0) \<subseteq> set ns"
    using subseq_set_distinct [OF s(2)] d ns by auto
qed

subsection \<open>Dispatches\<close>

text \<open>The nodes a run sends the task to, in order.\<close>

definition taken :: "job_event \<Rightarrow> job \<Rightarrow> str list" where
  "taken ev j = (case ev of
     WorkerNext w \<Rightarrow> (case drop w (workers (worker_next w j)) of Dispatching n # _ \<Rightarrow>
        if workers j ! w = Waiting then [n] else [] | _ \<Rightarrow> [])
   | _ \<Rightarrow> [])"

fun dispatched :: "job_event list \<Rightarrow> job \<Rightarrow> str list" where
  "dispatched [] j = []"
| "dispatched (ev # evs) j = taken ev j @ dispatched evs (job_step ev j)"

lemma step_queue: "prefix (taken ev j) (queue j) \<and> suffix (queue (job_step ev j)) (drop (length (taken ev j)) (queue j))"
proof (cases ev)
  case (WorkerNext w)
  show ?thesis
  proof (cases "w < length (workers j) \<and> workers j ! w = Waiting \<and> queue j \<noteq> [] \<and> \<not> aborted j")
    case True
    then obtain n ns where "queue j = n # ns" by (cases "queue j") auto
    moreover have "drop w ((workers j)[w := x]) = x # drop (Suc w) (workers j)" for x
      using True by (simp add: Cons_nth_drop_Suc [symmetric])
    moreover have "drop w (workers j) = Waiting # drop (Suc w) (workers j)"
      using True by (metis Cons_nth_drop_Suc)
    ultimately show ?thesis
      using WorkerNext True by (auto simp: taken_def worker_next_def Let_def suffix_def split: option.splits)
  next
    case False
    then have same: "queue (worker_next w j) = queue j"
      by (auto simp: worker_next_def)
    have "taken ev j = []"
    proof (cases "w < length (workers j) \<and> workers j ! w = Waiting")
      case True
      then have "drop w ((workers j)[w := Returned]) = Returned # drop (Suc w) (workers j)"
        by (simp add: Cons_nth_drop_Suc [symmetric])
      with True False show ?thesis by (simp add: WorkerNext taken_def worker_next_def)
    next
      case False
      then show ?thesis by (auto simp: WorkerNext taken_def worker_next_def split: list.splits worker.splits)
    qed
    with same show ?thesis by (simp add: WorkerNext)
  qed
next
  case (Settle w out)
  then show ?thesis
    by (auto simp: taken_def settle_def Let_def split: worker.splits outcome.splits)
next
  case Cancel
  then show ?thesis by (auto simp: taken_def cancel_job_def)
next
  case Finish
  then show ?thesis by (auto simp: taken_def finish_job_def Let_def)
qed

lemma dispatched_subseq: "subseq (dispatched evs j) (queue j)"
proof (induction evs arbitrary: j)
  case (Cons ev evs)
  obtain q where q: "queue j = taken ev j @ q" using step_queue [of ev j] by (auto simp: prefix_def)
  then obtain p where "q = p @ queue (job_step ev j)" using step_queue [of ev j] by (auto simp: suffix_def)
  with q Cons.IH [of "job_step ev j"] show ?case
    by (auto intro!: list_emb_append_mono intro: list_emb_append2)
qed simp

lemma step_pool: "length (workers (job_step ev j)) = length (workers j)"
  by (cases ev) (auto simp: worker_next_def settle_def cancel_job_def finish_job_def Let_def split: worker.splits outcome.splits)

lemma run_pool: "length (workers (run_job evs j)) = length (workers j)"
  by (induction evs arbitrary: j) (simp_all add: run_job_def step_pool)

lemma dispatching_length: "length (dispatching ws) \<le> length ws"
  by (induction ws rule: dispatching.induct) auto

subsection \<open>Work left\<close>

definition weight :: "worker \<Rightarrow> nat" where
  "weight w = (case w of Waiting \<Rightarrow> 1 | Dispatching n \<Rightarrow> 2 | Returned \<Rightarrow> 0)"

definition job_work :: "job \<Rightarrow> nat" where
  "job_work j = 2 * length (queue j) + sum_list (map weight (workers j))"

text \<open>An event of a worker that can happen now.\<close>

definition enabled :: "job_event \<Rightarrow> job \<Rightarrow> bool" where
  "enabled ev j \<longleftrightarrow> (case ev of
     WorkerNext w \<Rightarrow> w < length (workers j) \<and> workers j ! w = Waiting
   | Settle w out \<Rightarrow> w < length (workers j) \<and> (\<exists>n. workers j ! w = Dispatching n)
   | _ \<Rightarrow> False)"

fun moves :: "job_event list \<Rightarrow> job \<Rightarrow> nat" where
  "moves [] j = 0"
| "moves (ev # evs) j = (if enabled ev j then 1 else 0) + moves evs (job_step ev j)"

lemma weight_update:
  "w < length ws \<Longrightarrow> sum_list (map weight (ws[w := x])) + weight (ws ! w) = sum_list (map weight ws) + weight x"
proof (induction ws arbitrary: w)
  case (Cons y ws)
  then show ?case by (cases w) (auto simp: nth_Cons')
qed simp

lemma work_step: "job_work (job_step ev j) + (if enabled ev j then 1 else 0) \<le> job_work j"
proof (cases ev)
  case (WorkerNext w)
  show ?thesis
  proof (cases "enabled ev j")
    case False
    then show ?thesis by (auto simp: WorkerNext enabled_def worker_next_def)
  next
    case True
    then have w: "w < length (workers j)" "workers j ! w = Waiting" by (auto simp: WorkerNext enabled_def)
    note wu = weight_update [OF w(1), unfolded w(2)]
    show ?thesis
    proof (cases "queue j = [] \<or> aborted j")
      case True
      with w wu [of Returned] show ?thesis
        by (auto simp: WorkerNext worker_next_def job_work_def weight_def)
    next
      case False
      then obtain n ns where "queue j = n # ns" by (cases "queue j") auto
      with False w wu [of "Dispatching n"] show ?thesis
        by (auto simp: WorkerNext worker_next_def job_work_def weight_def Let_def)
    qed
  qed
next
  case (Settle w out)
  show ?thesis
  proof (cases "enabled ev j")
    case False
    then show ?thesis by (auto simp: Settle enabled_def settle_def split: worker.splits)
  next
    case True
    then obtain n where w: "w < length (workers j)" "workers j ! w = Dispatching n" by (auto simp: Settle enabled_def)
    with weight_update [OF w(1), of Waiting] show ?thesis
      by (auto simp: Settle settle_def job_work_def weight_def Let_def split: outcome.splits)
  qed
next
  case Cancel
  then show ?thesis by (auto simp: cancel_job_def job_work_def enabled_def)
next
  case Finish
  then show ?thesis by (auto simp: finish_job_def job_work_def enabled_def Let_def)
qed

lemma moves_bounded: "moves evs j + job_work (run_job evs j) \<le> job_work j"
proof (induction evs arbitrary: j)
  case (Cons ev evs)
  have "run_job (ev # evs) j = run_job evs (job_step ev j)" by (simp add: run_job_def)
  with Cons.IH [of "job_step ev j"] work_step [of ev j] show ?case by simp
qed (simp add: run_job_def)

lemma stuck_returned:
  assumes "\<forall>ev. \<not> enabled ev j"
  shows "list_all (\<lambda>w. w = Returned) (workers j)"
proof -
  have "workers j ! w = Returned" if "w < length (workers j)" for w
    using that assms [THEN spec, of "WorkerNext w"] assms [THEN spec, of "Settle w (Threw [])"]
    by (cases "workers j ! w") (auto simp: enabled_def)
  then show ?thesis by (simp add: list_all_length)
qed

lemma all_waiting_work:
  "\<forall>x \<in> set ws. x = Waiting \<Longrightarrow> sum_list (map weight ws) = length ws"
  by (induction ws) (auto simp: weight_def)

lemma start_pool:
  "length (workers (start_job reg mc (make_job i t pl caps tm oper ns)))
     \<le> length (queue (start_job reg mc (make_job i t pl caps tm oper ns)))"
  by (simp add: start_job_def Let_def make_job_def)

lemma created_work:
  assumes "creates_job (submitJob freshId jid tt pl spec caps tmo oper f) f j0"
    and "node_ids_unique (f_registry f)" "1 \<le> maxConcurrentDispatches f"
  shows "job_work j0 \<le> 3 * totalTargets (summ j0)"
proof -
  obtain ns i t cloned tm where ns: "validateFleetTargetSpec spec (f_registry f) = Inr ns"
    and j0: "j0 = start_job (f_registry f) (maxConcurrentDispatches f) (make_job i t cloned caps tm oper ns)"
    using created_job [OF assms(1)] by metis
  note inv = created_inv [OF assms]
  have "n \<in> fst ` set (results j0)" if "n \<in> set (queue j0)" for n
  proof (cases "aborted j0")
    case True
    have na: "aborted (fst (filter_nodes reg ms j)) = aborted j" for reg ms j
      by (induction ms arbitrary: j) (auto simp: Let_def split: option.splits)
    with True show ?thesis by (simp add: j0 start_job_def Let_def make_job_def)
  next
    case False
    then have "status_of j0 n = Some TPending" using inv(1) that by (simp add: job_inv_def phase_def owned_def)
    then obtain t where "map_of (results j0) n = Some t" using status_of_some by blast
    then show ?thesis using map_of_SomeD by force
  qed
  then have "card (set (queue j0)) \<le> card (fst ` set (results j0))" by (intro card_mono) auto
  also have "\<dots> \<le> length (results j0)" by (metis card_length length_map set_map)
  finally have "length (queue j0) \<le> totalTargets (summ j0)"
    using inv(1,2) by (simp add: distinct_card job_inv_def accounts_def)
  then show ?thesis
    using start_pool [of "f_registry f" "maxConcurrentDispatches f" i t cloned caps tm oper ns, folded j0]
      all_waiting_work [OF inv(4)]
    by (simp add: job_work_def)
qed

definition final_status :: "job \<Rightarrow> job_status" where
  "final_status j =
     (if list_all (\<lambda>(n, t). t_status t = TCompleted) (results j) then JCompleted
      else if list_all (\<lambda>(n, t). t_status t \<noteq> TCompleted) (results j) then JFailed
      else JPartial)"

lemma finish_status:
  assumes inv: "job_inv j" and run: "\<not> aborted j" "\<not> j_done j" "results j \<noteq> []"
    and ret: "list_all (\<lambda>w. w = Returned) (workers j)"
  shows "j_status (fst (finish_job j)) = final_status j"
proof -
  have st: "j_status j = JRunning" using inv run by (simp add: job_inv_def phase_def)
  have acc: "length (results j) = totalTargets (summ j)" "summary_total (summ j) = totalTargets (summ j)"
    "completed (summ j) = task_count (\<lambda>t. t_status t = TCompleted) (results j)"
    using inv no_open_when_returned [OF inv ret] by (simp_all add: job_inv_def accounts_def)
  have "completed (summ j) = totalTargets (summ j) \<longleftrightarrow> list_all (\<lambda>(n, t). t_status t = TCompleted) (results j)"
    using acc length_filter_less [of _ "results j" "\<lambda>(n, t). t_status t = TCompleted"]
    by (auto simp: task_count_def list_all_iff) (metis case_prod_conv filter_True less_irrefl)+
  moreover have "completed (summ j) = 0 \<longleftrightarrow> list_all (\<lambda>(n, t). t_status t \<noteq> TCompleted) (results j)"
    using acc by (auto simp: task_count_def list_all_iff filter_empty_conv)
  ultimately show ?thesis
    using run st ret acc by (simp add: finish_job_def Let_def final_status_def)
qed

lemma cancel_outcome:
  assumes "aborted j" "j_status j = JFailed" "\<forall>n t. map_of (results j) n = Some t \<longrightarrow> \<not> open_task t"
    and "omap_wf (results j)"
  shows "results (job_step ev j) = results j \<and> summ (job_step ev j) = summ j \<and> j_status (job_step ev j) = JFailed
    \<and> aborted (job_step ev j)"
  using assms
  by (cases ev) (auto simp: worker_next_def settle_def cancel_job_def finish_job_def Let_def split: worker.splits)

lemma cancelled_stays:
  assumes "aborted j" "j_status j = JFailed" "\<forall>n t. map_of (results j) n = Some t \<longrightarrow> \<not> open_task t" "omap_wf (results j)"
  shows "results (run_job evs j) = results j \<and> summ (run_job evs j) = summ j \<and> j_status (run_job evs j) = JFailed
    \<and> dispatched evs j = []"
  using assms
proof (induction evs arbitrary: j)
  case (Cons ev evs)
  have "run_job (ev # evs) j = run_job evs (job_step ev j)" by (simp add: run_job_def)
  moreover have "taken ev j = []"
  proof (cases "\<exists>w. ev = WorkerNext w \<and> w < length (workers j) \<and> workers j ! w = Waiting")
    case True
    then obtain w where w: "ev = WorkerNext w" "w < length (workers j)" "workers j ! w = Waiting" by blast
    then have "drop w ((workers j)[w := Returned]) = Returned # drop (Suc w) (workers j)"
      by (simp add: Cons_nth_drop_Suc [symmetric])
    with w Cons.prems show ?thesis by (simp add: taken_def worker_next_def)
  next
    case False
    then show ?thesis
      by (cases ev) (auto simp: taken_def worker_next_def split: list.splits worker.splits)
  qed
  ultimately show ?case
    using Cons.IH [of "job_step ev j"] cancel_outcome [OF Cons.prems, of ev] Cons.prems by simp
qed (simp add: run_job_def)

text \<open>A small fleet for the examples: two direct nodes with one capability each.\<close>

definition ex_node :: "char \<Rightarrow> str" where
  "ex_node c = ''node_'' @ replicate 32 c"

definition ex_registry :: registry_view where
  "ex_registry =
     \<lparr>getNodeRow = (\<lambda>n. if n \<in> {ex_node (CHR ''a''), ex_node (CHR ''b'')}
        then Some \<lparr>nr_state = ''active'', nr_routeMode = ''direct'', nr_capabilitiesStale = False, nr_capabilities = Some (JArr [JStr ''ws''])\<rparr>
        else None),
      listNodes = [\<lparr>nv_nodeId = ex_node (CHR ''a''), nv_state = ''active'', nv_capabilities = [JStr ''ws''], nv_stale = False\<rparr>,
                   \<lparr>nv_nodeId = ex_node (CHR ''b''), nv_state = ''active'', nv_capabilities = [JStr ''ws''], nv_stale = False\<rparr>]\<rparr>"

definition ex_fleet :: fleet where
  "ex_fleet = new_fleet (Some ex_registry) 8 30000"

definition ex_spec :: jsval where
  "ex_spec = JObj [(''mode'', JStr ''explicit''), (''nodeIds'', JArr [JStr (ex_node (CHR ''a'')), JStr (ex_node (CHR ''b''))])]"

definition ex_submit :: "(submit_error + str) \<times> fleet" where
  "ex_submit = submitJob ''job_1'' JNull (JStr ''command'') (JObj []) ex_spec [''ws''] JNull [] ex_fleet"

definition ex_job :: job where
  "ex_job = the (map_of (jobs (snd ex_submit)) ''job_1'')"

lemma ex_created: "creates_job ex_submit ex_fleet ex_job"
  by code_simp

lemma ex_unique: "node_ids_unique (f_registry ex_fleet)" "1 \<le> maxConcurrentDispatches ex_fleet"
  by code_simp+

text \<open>
  The assumption on transports is needed: one that reports a task as still pending has it counted as
  failed when it settles and again when the job is cancelled, and the accounting check throws.
\<close>

lemma pending_report_breaks_books:
  "snd (finish_job (run_job [WorkerNext 0, WorkerNext 1, Settle 0 (Result TPending []), Cancel,
     Settle 1 (Result TCompleted []), WorkerNext 0, WorkerNext 1] ex_job))"
  by code_simp

section \<open>Properties\<close>

text \<open>C18. The books of a job balance as long as the transport reports only final statuses: in every run of a submitted
  job in which no dispatch result says pending or running (\<open>event_ok\<close>; the code stores a reported status unchecked, and
  \<open>pending_report_breaks_books\<close> shows a run that such a report breaks), whatever the order of its workers' steps, of
  dispatch results and of cancellation, the outcomes counted in the summary plus the tasks still open are the
  number of targets, there is one result per target, and the two accounting checks at the end of \<open>executeJob\<close> never
  throw. Node ids in the registry are unique and at least one worker runs.\<close>

theorem fleet_job_accounting:
  assumes "creates_job (submitJob freshId jid tt pl spec caps tmo oper f) f j0"
    and "node_ids_unique (f_registry f)" "1 \<le> maxConcurrentDispatches f" "list_all event_ok evs"
  shows "let j = run_job evs j0 in
    summary_total (summ j) + length (filter (\<lambda>(n, t). open_task t) (results j)) = totalTargets (summ j)
    \<and> length (results j) = totalTargets (summ j) \<and> \<not> snd (finish_job j)"
proof -
  have "job_inv (run_job evs j0)"
    using job_inv_run created_inv(1) [OF assms(1-3)] assms(4) by blast
  then show ?thesis
    using finish_never_throws by (simp add: Let_def job_inv_def accounts_def task_count_def)
qed

theorem fleet_job_accounting_witness:
  "let j = run_job [WorkerNext 0, WorkerNext 1, Settle 1 (Result TCompleted []), Cancel, Settle 0 (Result TCompleted [])] ex_job in
    summary_total (summ j) + length (filter (\<lambda>(n, t). open_task t) (results j)) = totalTargets (summ j)
    \<and> length (results j) = totalTargets (summ j) \<and> \<not> snd (finish_job j)"
  by (rule fleet_job_accounting [OF ex_created [unfolded ex_submit_def] ex_unique]) simp

text \<open>Every node is dispatched at most once in a run of a job, only nodes of the validated target
  set are, and the tasks in flight never exceed the configured number of concurrent dispatches.\<close>

theorem fleet_dispatch_bounded:
  assumes "creates_job (submitJob freshId jid tt pl spec caps tmo oper f) f j0"
    and "node_ids_unique (f_registry f)" "1 \<le> maxConcurrentDispatches f"
    and "validateFleetTargetSpec spec (f_registry f) = Inr targets"
  shows "distinct (dispatched evs j0) \<and> set (dispatched evs j0) \<subseteq> set targets
    \<and> length (dispatching (workers (run_job evs j0))) \<le> maxConcurrentDispatches f"
proof -
  note inv = created_inv [OF assms(1-3)]
  have "length (dispatching (workers (run_job evs j0))) \<le> maxConcurrentDispatches f"
    using dispatching_length [of "workers (run_job evs j0)"] run_pool [of evs j0] inv(3) by linarith
  then show ?thesis
    using subseq_set_distinct [OF dispatched_subseq [of evs j0]] inv(2,5) assms(4) by auto
qed

theorem fleet_dispatch_bounded_witness:
  "distinct (dispatched [WorkerNext 0, WorkerNext 1] ex_job)
    \<and> set (dispatched [WorkerNext 0, WorkerNext 1] ex_job) \<subseteq> set [ex_node (CHR ''a''), ex_node (CHR ''b'')]
    \<and> length (dispatching (workers (run_job [WorkerNext 0, WorkerNext 1] ex_job))) \<le> maxConcurrentDispatches ex_fleet"
  by (rule fleet_dispatch_bounded [OF ex_created [unfolded ex_submit_def] ex_unique]) code_simp

text \<open>C31. Cancelling is final: once \<open>cancelJob\<close> has accepted, no later step of a worker, no late
  dispatch result and no further cancellation changes a result or the summary, no further node is
  dispatched, and the job is failed with no task left open.\<close>

theorem fleet_cancel_final:
  assumes "creates_job (submitJob freshId jid tt pl spec caps tmo oper f) f j0"
    and "node_ids_unique (f_registry f)" "1 \<le> maxConcurrentDispatches f" "list_all event_ok evs"
    and "j_status (run_job evs j0) = JRunning"
  shows "let j = cancel_job (run_job evs j0) in
    results (run_job later j) = results j \<and> summ (run_job later j) = summ j
    \<and> j_status (run_job later j) = JFailed \<and> dispatched later j = []
    \<and> (\<forall>n t. map_of (results j) n = Some t \<longrightarrow> \<not> open_task t)"
proof -
  define j where "j = cancel_job (run_job evs j0)"
  have "job_inv j"
    unfolding j_def using job_inv_cancel job_inv_run created_inv(1) [OF assms(1-3)] assms(4) by blast
  moreover have "aborted j" using assms(5) by (simp add: j_def cancel_job_def)
  ultimately have "j_status j = JFailed" "\<forall>n t. map_of (results j) n = Some t \<longrightarrow> \<not> open_task t" "omap_wf (results j)"
    by (simp_all add: job_inv_def phase_def accounts_def)
  with cancelled_stays [OF \<open>aborted j\<close> this] show ?thesis
    unfolding Let_def j_def by blast
qed

theorem fleet_cancel_final_witness:
  "let j = cancel_job (run_job [WorkerNext 0] ex_job) in
    results (run_job [Settle 0 (Result TCompleted [])] j) = results j
    \<and> summ (run_job [Settle 0 (Result TCompleted [])] j) = summ j
    \<and> j_status (run_job [Settle 0 (Result TCompleted [])] j) = JFailed
    \<and> dispatched [Settle 0 (Result TCompleted [])] j = []
    \<and> (\<forall>n t. map_of (results j) n = Some t \<longrightarrow> \<not> open_task t)"
  by (rule fleet_cancel_final [OF ex_created [unfolded ex_submit_def] ex_unique]) code_simp+

definition ex_stuck_run :: "job_event list" where
  "ex_stuck_run = [WorkerNext 0, WorkerNext 1, Settle 0 (Threw []), Settle 1 (Result TCompleted []), WorkerNext 0, WorkerNext 1]"

lemma returned_stuck: "list_all (\<lambda>w. w = Returned) (workers j) \<Longrightarrow> \<forall>ev. \<not> enabled ev j"
  by (auto simp: enabled_def list_all_length split: job_event.splits)

text \<open>C33. A job ends: a run takes at most three worker steps per target, and when no worker can take
  another step the job finishes, with the status its results show: completed when every task completed,
  failed when none did, partial otherwise, and failed after a cancellation.\<close>

theorem fleet_job_terminates:
  assumes "creates_job (submitJob freshId jid tt pl spec caps tmo oper f) f j0"
    and "node_ids_unique (f_registry f)" "1 \<le> maxConcurrentDispatches f" "list_all event_ok evs"
    and "results (run_job evs j0) \<noteq> []"
  shows "moves evs j0 \<le> 3 * totalTargets (summ j0)
    \<and> ((\<forall>ev. \<not> enabled ev (run_job evs j0)) \<longrightarrow> \<not> j_done (run_job evs j0) \<longrightarrow>
        j_done (fst (finish_job (run_job evs j0)))
        \<and> j_status (fst (finish_job (run_job evs j0)))
          = (if aborted (run_job evs j0) then JFailed else final_status (run_job evs j0)))"
proof -
  let ?j = "run_job evs j0"
  have inv: "job_inv ?j" using job_inv_run created_inv(1) [OF assms(1-3)] assms(4) by blast
  have "moves evs j0 \<le> 3 * totalTargets (summ j0)"
    using moves_bounded [of evs j0] created_work [OF assms(1-3)] by linarith
  moreover have "j_done (fst (finish_job ?j)) \<and> j_status (fst (finish_job ?j)) = (if aborted ?j then JFailed else final_status ?j)"
    if "\<forall>ev. \<not> enabled ev ?j" "\<not> j_done ?j"
  proof -
    note ret = stuck_returned [OF that(1)]
    have "j_status ?j \<noteq> JPending" using inv that(2) by (auto simp: job_inv_def phase_def split: if_splits)
    then have "j_done (fst (finish_job ?j))" using ret that(2) by (simp add: finish_job_def Let_def)
    moreover have "aborted ?j \<Longrightarrow> j_status (fst (finish_job ?j)) = JFailed"
      using inv by (simp add: finish_job_def Let_def job_inv_def phase_def)
    ultimately show ?thesis using finish_status [OF inv _ that(2) assms(5) ret] by simp
  qed
  ultimately show ?thesis by blast
qed

theorem fleet_job_terminates_witness:
  "moves ex_stuck_run ex_job \<le> 3 * totalTargets (summ ex_job)
    \<and> j_done (fst (finish_job (run_job ex_stuck_run ex_job)))
    \<and> j_status (fst (finish_job (run_job ex_stuck_run ex_job))) = JPartial"
proof -
  have "\<forall>ev. \<not> enabled ev (run_job ex_stuck_run ex_job)" by (rule returned_stuck) code_simp
  moreover have "\<not> j_done (run_job ex_stuck_run ex_job)" by code_simp
  moreover have "(if aborted (run_job ex_stuck_run ex_job) then JFailed else final_status (run_job ex_stuck_run ex_job)) = JPartial"
    by code_simp
  moreover have "list_all event_ok ex_stuck_run" "results (run_job ex_stuck_run ex_job) \<noteq> []" by code_simp+
  ultimately show ?thesis
    using fleet_job_terminates [OF ex_created [unfolded ex_submit_def] ex_unique] by metis
qed

text \<open>What passes target validation is safe to dispatch to: the targets are non-empty and distinct,
  an explicit one is a well-formed id of a node the registry knows and has not tombstoned, a capability
  match is an active node whose fresh evidence names the capability, and no wildcard passes.\<close>

theorem fleet_targets_sound:
  assumes "validateFleetTargetSpec spec (Some r) = Inr targets" "node_ids_unique (Some r)"
  shows "targets \<noteq> [] \<and> distinct targets \<and> spec \<noteq> JStr ''*'' \<and>
    (\<forall>n \<in> set targets.
       (node_id_pattern n \<and> (\<exists>row. getNodeRow r n = Some row \<and> nr_state row \<noteq> ''tombstoned''))
     \<or> (\<exists>v \<in> set (listNodes r). \<exists>c. nv_nodeId v = n \<and> nv_state v = ''active'' \<and> \<not> nv_stale v
          \<and> some_cap c (nv_capabilities v) = Some True))"
  using assms(1)
proof (cases rule: targets_sound)
  case (explicit xs)
  then have "spec \<noteq> JStr ''*''" by auto
  with resolve_explicit_sound [OF explicit(1)] targets_distinct [OF assms] show ?thesis by auto
next
  case (capability c)
  then have "spec \<noteq> JStr ''*''" by auto
  with match_nodes_sound [OF capability(1)] targets_distinct [OF assms] show ?thesis by fastforce
qed

theorem fleet_targets_sound_witness:
  "[ex_node (CHR ''a''), ex_node (CHR ''b'')] \<noteq> [] \<and> distinct [ex_node (CHR ''a''), ex_node (CHR ''b'')] \<and> ex_spec \<noteq> JStr ''*'' \<and>
    (\<forall>n \<in> set [ex_node (CHR ''a''), ex_node (CHR ''b'')].
       (node_id_pattern n \<and> (\<exists>row. getNodeRow ex_registry n = Some row \<and> nr_state row \<noteq> ''tombstoned''))
     \<or> (\<exists>v \<in> set (listNodes ex_registry). \<exists>c. nv_nodeId v = n \<and> nv_state v = ''active'' \<and> \<not> nv_stale v
          \<and> some_cap c (nv_capabilities v) = Some True))"
  by (rule fleet_targets_sound) code_simp+

end
