(* ===== verification/JsDate.thy ===== *)
theory JsDate
  imports Prelude
begin

text \<open>
  The UTC part of the language's \<open>Date\<close>: a time is an integer number of milliseconds since the
  epoch, and the accessors and setters follow the ECMAScript day arithmetic on the proleptic
  Gregorian calendar. Times beyond the representable range of \<open>Date\<close> are outside the model.
\<close>

definition msPerDay :: int where "msPerDay = 86400000"

definition day_from_year :: "int \<Rightarrow> int" where
  "day_from_year y = 365 * (y - 1970) + (y - 1969) div 4 - (y - 1901) div 100 + (y - 1601) div 400"

definition leap :: "int \<Rightarrow> bool" where
  "leap y \<longleftrightarrow> (y mod 4 = 0 \<and> y mod 100 \<noteq> 0) \<or> y mod 400 = 0"

text \<open>The year of a day: an estimate from the mean length of a year, corrected by at most one.\<close>

definition year_of_day :: "int \<Rightarrow> int" where
  "year_of_day d =
     (let y = (400 * (d + 719528)) div 146097 in
      if day_from_year (y + 1) \<le> d then y + 1 else if d < day_from_year y then y - 1 else y)"

definition month_start :: "int \<Rightarrow> int \<Rightarrow> int" where
  "month_start y m =
     (let k = (if leap y then 1 else 0) in
      if m \<le> 0 then 0 else if m = 1 then 31 else if m = 2 then 59 + k else if m = 3 then 90 + k
      else if m = 4 then 120 + k else if m = 5 then 151 + k else if m = 6 then 181 + k
      else if m = 7 then 212 + k else if m = 8 then 243 + k else if m = 9 then 273 + k
      else if m = 10 then 304 + k else if m = 11 then 334 + k else 365 + k)"

definition month_of_day :: "int \<Rightarrow> int" where
  "month_of_day d =
     (let y = year_of_day d; n = d - day_from_year y in
      if n < month_start y 1 then 0 else if n < month_start y 2 then 1 else if n < month_start y 3 then 2
      else if n < month_start y 4 then 3 else if n < month_start y 5 then 4 else if n < month_start y 6 then 5
      else if n < month_start y 7 then 6 else if n < month_start y 8 then 7 else if n < month_start y 9 then 8
      else if n < month_start y 10 then 9 else if n < month_start y 11 then 10 else 11)"

definition date_of_day :: "int \<Rightarrow> int" where
  "date_of_day d = d - day_from_year (year_of_day d) - month_start (year_of_day d) (month_of_day d) + 1"

definition make_day :: "int \<Rightarrow> int \<Rightarrow> int \<Rightarrow> int" where
  "make_day y m dt =
     (let ym = y + m div 12; mn = m mod 12 in day_from_year ym + month_start ym mn + dt - 1)"

section \<open>Accessors and setters\<close>

definition day_of :: "int \<Rightarrow> int" where "day_of t = t div msPerDay"
definition time_in_day :: "int \<Rightarrow> int" where "time_in_day t = t mod msPerDay"
definition utcFullYear :: "int \<Rightarrow> int" where "utcFullYear t = year_of_day (day_of t)"
definition utcMonth :: "int \<Rightarrow> int" where "utcMonth t = month_of_day (day_of t)"
definition utcDate :: "int \<Rightarrow> int" where "utcDate t = date_of_day (day_of t)"
definition utcDay :: "int \<Rightarrow> int" where "utcDay t = (day_of t + 4) mod 7"
definition utcHours :: "int \<Rightarrow> int" where "utcHours t = time_in_day t div 3600000"
definition utcMinutes :: "int \<Rightarrow> int" where "utcMinutes t = time_in_day t div 60000 mod 60"
definition utcSeconds :: "int \<Rightarrow> int" where "utcSeconds t = time_in_day t div 1000 mod 60"
definition utcMs :: "int \<Rightarrow> int" where "utcMs t = time_in_day t mod 1000"

definition make_time :: "int \<Rightarrow> int \<Rightarrow> int \<Rightarrow> int \<Rightarrow> int" where
  "make_time h m s ms = 3600000 * h + 60000 * m + 1000 * s + ms"

definition make_date :: "int \<Rightarrow> int \<Rightarrow> int" where "make_date d time = d * msPerDay + time"

definition setUTCMonth :: "int \<Rightarrow> int \<Rightarrow> int \<Rightarrow> int" where
  "setUTCMonth m dt t = make_date (make_day (utcFullYear t) m dt) (time_in_day t)"

definition setUTCDate :: "int \<Rightarrow> int \<Rightarrow> int" where
  "setUTCDate dt t = make_date (make_day (utcFullYear t) (utcMonth t) dt) (time_in_day t)"

definition setUTCHours :: "int \<Rightarrow> int \<Rightarrow> int \<Rightarrow> int \<Rightarrow> int \<Rightarrow> int" where
  "setUTCHours h m s ms t = make_date (day_of t) (make_time h m s ms)"

definition setUTCMinutes :: "int \<Rightarrow> int \<Rightarrow> int \<Rightarrow> int \<Rightarrow> int" where
  "setUTCMinutes m s ms t = make_date (day_of t) (make_time (utcHours t) m s ms)"

definition setUTCSeconds :: "int \<Rightarrow> int \<Rightarrow> int \<Rightarrow> int" where
  "setUTCSeconds s ms t = make_date (day_of t) (make_time (utcHours t) (utcMinutes t) s ms)"

section \<open>The calendar\<close>

lemma div_step: "0 < n \<Longrightarrow> (a + 1) div n = a div n + (if (a + 1) mod n = 0 then 1 else 0)" for a n :: int
proof -
  assume n: "0 < n"
  have e: "a + 1 = n * ((a + 1) div n) + (a + 1) mod n" "a = n * (a div n) + a mod n" by simp_all
  have b: "0 \<le> (a + 1) mod n" "(a + 1) mod n < n" "0 \<le> a mod n" "a mod n < n" using n by simp_all
  show ?thesis
  proof (cases "(a + 1) mod n = 0")
    case True
    then have "n * ((a + 1) div n) = a + 1" using e(1) by simp
    then have "a = n * ((a + 1) div n - 1) + (n - 1)" by (simp add: algebra_simps)
    moreover have "(n * ((a + 1) div n - 1) + (n - 1)) div n = (a + 1) div n - 1"
      using n by (subst div_mult_self4) simp_all
    ultimately show ?thesis using True by simp
  next
    case False
    have "a = n * ((a + 1) div n) + ((a + 1) mod n - 1)" using e(1) by linarith
    moreover have "(n * ((a + 1) div n) + ((a + 1) mod n - 1)) div n = (a + 1) div n"
    proof -
      have "((a + 1) mod n - 1) div n = 0" using b False by (intro div_pos_pos_trivial) linarith+
      then show ?thesis using n by (subst div_mult_self4) simp_all
    qed
    ultimately show ?thesis using False by simp
  qed
qed

lemma mod_shift: "(y - k * n) mod n = y mod n" for y k n :: int
  using mod_mult_self1 [of y "- k" n] by simp

lemma day_from_year_step: "day_from_year (y + 1) = day_from_year y + (if leap y then 366 else 365)"
proof -
  have a: "(y - 1968) div 4 = (y - 1969) div 4 + (if y mod 4 = 0 then 1 else 0)"
    using div_step [of 4 "y - 1969"] mod_shift [of y 492 4] by simp
  have b: "(y - 1900) div 100 = (y - 1901) div 100 + (if y mod 100 = 0 then 1 else 0)"
    using div_step [of 100 "y - 1901"] mod_shift [of y 19 100] by simp
  have c: "(y - 1600) div 400 = (y - 1601) div 400 + (if y mod 400 = 0 then 1 else 0)"
    using div_step [of 400 "y - 1601"] mod_shift [of y 4 400] by simp
  have d: "y mod 100 = 0 \<Longrightarrow> y mod 4 = 0" "y mod 400 = 0 \<Longrightarrow> y mod 100 = 0"
    using dvd_trans [of 4 100 y] dvd_trans [of 100 400 y] by (auto simp: dvd_eq_mod_eq_0 [symmetric])
  have e: "day_from_year (y + 1) = 365 * (y - 1970) + 365 + (y - 1968) div 4 - (y - 1900) div 100 + (y - 1600) div 400"
    by (simp add: day_from_year_def algebra_simps)
  have k: "(if y mod 4 = 0 then 1 else 0) - (if y mod 100 = 0 then 1 else 0) + (if y mod 400 = 0 then 1 else 0)
      = (if leap y then 1 else (0::int))"
    unfolding leap_def using d by auto
  have l: "(if leap y then 366 else 365) = 365 + (if leap y then 1 else (0::int))" by simp
  show ?thesis
    unfolding e l unfolding a b c day_from_year_def using k by linarith
qed

text \<open>A year starts within two days of its mean position.\<close>

lemma div_bounds: "0 < n \<Longrightarrow> n * (a div n) \<le> a \<and> a < n * (a div n) + n" for a n :: int
proof -
  assume n: "0 < n"
  have "a = n * (a div n) + a mod n" by simp
  moreover have "0 \<le> a mod n" "a mod n < n" using n by simp_all
  ultimately show ?thesis by linarith
qed

lemma day_from_year_mean:
  "146097 * y - 400 * (day_from_year y + 719528) \<le> 591" "400 * (day_from_year y + 719528) - 146097 * y \<le> 900"
  using div_bounds [of 4 "y - 1969"] div_bounds [of 100 "y - 1901"] div_bounds [of 400 "y - 1601"]
  unfolding day_from_year_def by (simp_all add: algebra_simps)

lemma year_of_day_bounds: "day_from_year (year_of_day d) \<le> d \<and> d < day_from_year (year_of_day d + 1)"
proof -
  define y where "y = (400 * (d + 719528)) div 146097"
  have e: "146097 * y \<le> 400 * (d + 719528) \<and> 400 * (d + 719528) < 146097 * y + 146097"
    unfolding y_def by (rule div_bounds) simp
  have m: "146097 * x - 400 * (day_from_year x + 719528) \<le> 591" "400 * (day_from_year x + 719528) - 146097 * x \<le> 900" for x
    by (rule day_from_year_mean)+
  have "day_from_year (y - 1) \<le> d" using e m(2) [of "y - 1"] by (simp add: algebra_simps)
  moreover have "d < day_from_year (y + 2)" using e m(1) [of "y + 2"] by (simp add: algebra_simps)
  moreover have "year_of_day d = (if day_from_year (y + 1) \<le> d then y + 1 else if d < day_from_year y then y - 1 else y)"
    by (simp add: year_of_day_def y_def)
  ultimately show ?thesis by (auto simp: not_le algebra_simps)
qed

lemma day_from_year_mono: "x \<le> y \<Longrightarrow> day_from_year x \<le> day_from_year y"
proof (induction "nat (y - x)" arbitrary: y)
  case (Suc k)
  then have "day_from_year x \<le> day_from_year (y - 1)" by simp
  also have "\<dots> \<le> day_from_year y" using day_from_year_step [of "y - 1"] by simp
  finally show ?case .
qed simp

lemma year_of_day_unique:
  assumes "day_from_year y \<le> d" "d < day_from_year (y + 1)"
  shows "year_of_day d = y"
proof (rule ccontr)
  assume "year_of_day d \<noteq> y"
  then consider "year_of_day d + 1 \<le> y" | "y + 1 \<le> year_of_day d" by linarith
  then show False
    using year_of_day_bounds [of d] assms
      day_from_year_mono [of "year_of_day d + 1" y] day_from_year_mono [of "y + 1" "year_of_day d"]
    by cases simp_all
qed

lemma month_start_step:
  assumes "0 \<le> m" "m \<le> 11"
  shows "month_start y m + 28 \<le> month_start y (m + 1)"
proof -
  from assms have "m \<in> {0, 1, 2, 3, 4, 5, 6, 7, 8, 9, 10, 11}" by (simp, arith)
  then show ?thesis by (elim insertE emptyE) (simp_all add: month_start_def)
qed

lemma month_start_mono: "0 \<le> a \<Longrightarrow> a < b \<Longrightarrow> b \<le> 12 \<Longrightarrow> month_start y a < month_start y b"
proof (induction "nat (b - a)" arbitrary: b)
  case (Suc k)
  have "month_start y (b - 1) + 28 \<le> month_start y b"
    using month_start_step [of "b - 1" y] Suc.prems by simp
  moreover have "month_start y a \<le> month_start y (b - 1)"
    using Suc.hyps(1) [of "b - 1"] Suc.hyps(2) Suc.prems by (cases "a = b - 1") force+
  ultimately show ?case by linarith
qed simp

lemma month_start_ends: "month_start y 0 = 0" "day_from_year y + month_start y 12 = day_from_year (y + 1)"
  by (simp_all add: month_start_def day_from_year_step)

lemma month_of_day_bounds:
  "0 \<le> month_of_day d \<and> month_of_day d \<le> 11
   \<and> day_from_year (year_of_day d) + month_start (year_of_day d) (month_of_day d) \<le> d
   \<and> d < day_from_year (year_of_day d) + month_start (year_of_day d) (month_of_day d + 1)"
proof -
  let ?y = "year_of_day d"
  have y: "0 \<le> d - day_from_year ?y" "d - day_from_year ?y < month_start ?y 12"
    using year_of_day_bounds [of d] month_start_ends [of ?y] by simp_all
  then show ?thesis
    unfolding month_of_day_def Let_def using month_start_ends(1) [of ?y] by simp
qed

lemma month_of_day_unique:
  assumes "0 \<le> m" "m \<le> 11" "day_from_year y + month_start y m \<le> d" "d < day_from_year y + month_start y (m + 1)"
  shows "year_of_day d = y \<and> month_of_day d = m"
proof -
  have "month_start y (m + 1) \<le> month_start y 12"
    using assms month_start_mono [of "m + 1" 12 y] by (cases "m = 11") auto
  moreover have "0 \<le> month_start y m"
    using assms month_start_mono [of 0 m y] month_start_ends(1) [of y] by (cases "m = 0") auto
  ultimately have y: "year_of_day d = y"
    using assms month_start_ends(2) [of y] by (intro year_of_day_unique) auto
  note b = month_of_day_bounds [of d, unfolded y]
  have "\<not> month_of_day d < m"
  proof
    assume l: "month_of_day d < m"
    then have "month_start y (month_of_day d + 1) \<le> month_start y m"
      using assms b month_start_mono [of "month_of_day d + 1" m y] by (cases "month_of_day d + 1 = m") auto
    with b assms show False by linarith
  qed
  moreover have "\<not> m < month_of_day d"
  proof
    assume l: "m < month_of_day d"
    then have "month_start y (m + 1) \<le> month_start y (month_of_day d)"
      using assms b month_start_mono [of "m + 1" "month_of_day d" y] by (cases "m + 1 = month_of_day d") auto
    with b assms show False by linarith
  qed
  ultimately show ?thesis using y by simp
qed

text \<open>The day number of year, month and date determines them, and conversely.\<close>

lemma make_day_of_day: "make_day (year_of_day d) (month_of_day d) (date_of_day d + k) = d + k"
  using month_of_day_bounds [of d] by (simp add: make_day_def date_of_day_def Let_def)

lemma make_day_next_month:
  assumes "0 \<le> m" "m \<le> 11"
  shows "make_day y (m + 1) 1 = day_from_year y + month_start y (m + 1)"
proof (cases "m = 11")
  case True
  then show ?thesis using month_start_ends [of "y + 1"] month_start_ends(2) [of y] by (simp add: make_day_def)
next
  case False
  then have "(m + 1) div 12 = 0" "(m + 1) mod 12 = m + 1" using assms by simp_all
  then show ?thesis by (simp add: make_day_def)
qed

lemma day_in_month:
  assumes "0 \<le> m" "m \<le> 11" "1 \<le> dt" "dt \<le> 28"
  shows "year_of_day (make_day y m dt) = y \<and> month_of_day (make_day y m dt) = m \<and> date_of_day (make_day y m dt) = dt"
proof -
  have d: "make_day y m dt = day_from_year y + month_start y m + dt - 1"
    using assms by (simp add: make_day_def)
  have "month_start y m + 28 \<le> month_start y (m + 1)"
    using assms by (intro month_start_step)
  then have "year_of_day (make_day y m dt) = y \<and> month_of_day (make_day y m dt) = m"
    using assms by (intro month_of_day_unique) (simp_all add: d)
  then show ?thesis by (simp add: date_of_day_def d)
qed

section \<open>Times of the day\<close>

lemma make_date_parts:
  assumes "0 \<le> x" "x < msPerDay"
  shows "day_of (make_date d x) = d" "time_in_day (make_date d x) = x"
  using assms by (simp_all add: day_of_def time_in_day_def make_date_def msPerDay_def)

lemma make_time_parts:
  assumes "0 \<le> h" "h < 24" "0 \<le> mi" "mi < 60"
  shows "0 \<le> make_time h mi 0 0" "make_time h mi 0 0 < msPerDay"
    "make_time h mi 0 0 div 3600000 = h" "make_time h mi 0 0 div 60000 mod 60 = mi" "make_time h mi 0 0 mod 60000 = 0"
proof -
  have e: "make_time h mi 0 0 = 60000 * (60 * h + mi)" by (simp add: make_time_def)
  show "0 \<le> make_time h mi 0 0" "make_time h mi 0 0 < msPerDay"
    using assms by (simp_all add: make_time_def msPerDay_def)
  show "make_time h mi 0 0 mod 60000 = 0" unfolding e by simp
  have "make_time h mi 0 0 div 60000 = 60 * h + mi" unfolding e by simp
  then show "make_time h mi 0 0 div 60000 mod 60 = mi" using assms by simp
  have "make_time h mi 0 0 = h * 3600000 + 60000 * mi" by (simp add: make_time_def)
  then show "make_time h mi 0 0 div 3600000 = h" using assms by (simp del: mult.commute)
qed

end
