(* ===== verification/ScheduleParser.thy ===== *)
theory ScheduleParser
  imports JsDate
begin

text \<open>
  \<^verbatim>\<open>src/registry/schedule-parser.mjs\<close>: five-field cron expressions, intervals and the next run
  of a schedule. A time is the number of milliseconds since the epoch; where the code returns
  an ISO-8601 string the model returns the time it denotes. \<open>Number\<close> on a string follows the
  grammar of numeric strings with exact values: rounding of literals beyond the precision of a
  double is not modelled.
\<close>

datatype cron_error =
    EmptyField | BadStep | BadRange | NotInteger | OutOfBounds | NoValues
  | NotString | FieldCount | InvalidDate | Unreachable | InvalidInterval | InvalidScheduleType

section \<open>Number on strings\<close>

definition digit_val :: "char \<Rightarrow> nat" where
  "digit_val c = (let n = (of_char c :: nat) in
     if 48 \<le> n \<and> n \<le> 57 then n - 48 else if 97 \<le> n \<and> n \<le> 102 then n - 87
     else if 65 \<le> n \<and> n \<le> 70 then n - 55 else 99)"

definition radix_number :: "nat \<Rightarrow> str \<Rightarrow> rat option" where
  "radix_number base s =
     (if s \<noteq> [] \<and> list_all (\<lambda>c. digit_val c < base) s
      then Some (of_nat (foldl (\<lambda>n c. base * n + digit_val c) 0 s)) else None)"

definition exponent_part :: "str \<Rightarrow> int option" where
  "exponent_part s =
     (case s of
        [] \<Rightarrow> Some 0
      | c # rest \<Rightarrow>
          if c \<noteq> CHR ''e'' \<and> c \<noteq> CHR ''E'' then None
          else (let neg = (rest \<noteq> [] \<and> hd rest = CHR ''-'');
                    ds = (if rest \<noteq> [] \<and> (hd rest = CHR ''-'' \<or> hd rest = CHR ''+'') then tl rest else rest) in
                if digits_pattern ds then Some (if neg then - int (nat_of_dec ds) else int (nat_of_dec ds)) else None))"

definition unsigned_decimal :: "str \<Rightarrow> rat option" where
  "unsigned_decimal s =
     (let whole = takeWhile is_digit s; rest = dropWhile is_digit s;
          dot = (rest \<noteq> [] \<and> hd rest = CHR ''.'');
          frac = (if dot then takeWhile is_digit (tl rest) else []);
          tail = (if dot then dropWhile is_digit (tl rest) else rest) in
      if whole = [] \<and> frac = [] then None
      else case exponent_part tail of
        None \<Rightarrow> None
      | Some e \<Rightarrow>
          let mantissa = of_nat (nat_of_dec (whole @ frac)) / 10 ^ length frac in
          Some (if 0 \<le> e then mantissa * 10 ^ nat e else mantissa / 10 ^ nat (- e)))"

text \<open>\<open>Number(s)\<close> for finite values; \<^const>\<open>None\<close> stands for NaN and the infinities.\<close>

definition js_number :: "str \<Rightarrow> rat option" where
  "js_number s =
     (let s = js_trim s in
      if s = [] then Some 0
      else if prefix ''0x'' s \<or> prefix ''0X'' s then radix_number 16 (drop 2 s)
      else if prefix ''0o'' s \<or> prefix ''0O'' s then radix_number 8 (drop 2 s)
      else if prefix ''0b'' s \<or> prefix ''0B'' s then radix_number 2 (drop 2 s)
      else if hd s = CHR ''-'' then map_option uminus (unsigned_decimal (tl s))
      else if hd s = CHR ''+'' then unsigned_decimal (tl s)
      else unsigned_decimal s)"

text \<open>\<open>Number(s)\<close> when \<open>Number.isInteger\<close> holds of it.\<close>

definition js_integer :: "str \<Rightarrow> int option" where
  "js_integer s = (case js_number s of None \<Rightarrow> None
     | Some r \<Rightarrow> if snd (quotient_of r) = 1 then Some (fst (quotient_of r)) else None)"

section \<open>Fields\<close>

text \<open>The loop \<open>for (val = start; val <= end; val += step)\<close>.\<close>

definition steps_from :: "int \<Rightarrow> int \<Rightarrow> int \<Rightarrow> int list" where
  "steps_from a b s = (if a > b then [] else map (\<lambda>k. a + int k * s) [0..<nat ((b - a) div s) + 1])"

definition add_values :: "int \<Rightarrow> int \<Rightarrow> bool \<Rightarrow> int list \<Rightarrow> int list \<Rightarrow> int list" where
  "add_values mn mx allowSunday7 vals acc =
     fold (\<lambda>val acc. let v = (if allowSunday7 \<and> val = 7 then 0 else val) in
       if mn \<le> v \<and> v \<le> mx then set_add v acc else acc) vals acc"

definition parse_part :: "int \<Rightarrow> int \<Rightarrow> bool \<Rightarrow> str \<Rightarrow> int list \<Rightarrow> cron_error + int list" where
  "parse_part mn mx allowSunday7 part acc =
     (if part = ''*'' then Inr (fold set_add [mn..mx] acc)
      else let stepParts = js_split (CHR ''/'') part; rangePart = hd stepParts in
      if length stepParts > 2 then Inl BadStep
      else case (if length stepParts = 2 then js_integer (stepParts ! 1) else Some 1) of
        None \<Rightarrow> Inl BadStep
      | Some step \<Rightarrow>
      if step \<le> 0 then Inl BadStep
      else case
        (if rangePart = ''*'' then Inr (mn, mx)
         else let bounds = js_split (CHR ''-'') rangePart in
           if length bounds > 2 \<or> list_ex (\<lambda>b. js_trim b = []) bounds then Inl BadRange
           else case (js_integer (bounds ! 0),
                      if length bounds = 2 then js_integer (bounds ! 1)
                      else if length stepParts = 2 then Some mx else js_integer (bounds ! 0)) of
             (Some a, Some b) \<Rightarrow> Inr (a, b)
           | _ \<Rightarrow> Inl NotInteger) of
        Inl e \<Rightarrow> Inl e
      | Inr (rangeStart, rangeEnd) \<Rightarrow>
          if rangeStart < mn \<or> rangeEnd > (if allowSunday7 then mx + 1 else mx) \<or> rangeStart > rangeEnd
          then Inl OutOfBounds
          else Inr (add_values mn mx allowSunday7 (steps_from rangeStart rangeEnd step) acc))"

fun parse_parts :: "int \<Rightarrow> int \<Rightarrow> bool \<Rightarrow> str list \<Rightarrow> int list \<Rightarrow> cron_error + int list" where
  "parse_parts mn mx sun [] acc = Inr acc"
| "parse_parts mn mx sun (p # ps) acc =
     (case parse_part mn mx sun p acc of Inl e \<Rightarrow> Inl e | Inr acc' \<Rightarrow> parse_parts mn mx sun ps acc')"

definition parseCronField :: "str \<Rightarrow> int \<Rightarrow> int \<Rightarrow> bool \<Rightarrow> cron_error + int list" where
  "parseCronField fieldStr mn mx allowSunday7 =
     (if js_trim fieldStr = [] then Inl EmptyField
      else case parse_parts mn mx allowSunday7 (js_split (CHR '','') (js_trim fieldStr)) [] of
        Inl e \<Rightarrow> Inl e
      | Inr values \<Rightarrow> if values = [] then Inl NoValues else Inr values)"

record cron =
  cron_raw :: str
  minutes :: "int list"
  hours :: "int list"
  doms :: "int list"
  months :: "int list"
  dows :: "int list"

text \<open>\<open>split(/\s+/)\<close>.\<close>

function split_ws :: "str \<Rightarrow> str list" where
  "split_ws s =
     (let w = takeWhile (\<lambda>c. \<not> js_ws c) s; rest = dropWhile (\<lambda>c. \<not> js_ws c) s in
      if rest = [] then [w] else w # split_ws (dropWhile js_ws rest))"
  by pat_completeness auto

termination
proof (relation "measure length")
  fix s w rest :: str
  assume "w = takeWhile (\<lambda>c. \<not> js_ws c) s" "rest = dropWhile (\<lambda>c. \<not> js_ws c) s" "rest \<noteq> []"
  then have ws: "rest \<noteq> []" "js_ws (hd rest)" and rest: "rest = dropWhile (\<lambda>c. \<not> js_ws c) s"
    using hd_dropWhile [of "\<lambda>c. \<not> js_ws c" s] by simp_all
  from ws obtain c cs where "rest = c # cs" "js_ws c" by (cases rest) simp_all
  then have "length (dropWhile js_ws rest) < length rest"
    using length_dropWhile_le [of js_ws cs] by simp
  also have "\<dots> \<le> length s" unfolding rest by (rule length_dropWhile_le)
  finally show "(dropWhile js_ws rest, s) \<in> measure length" by simp
qed simp

declare split_ws.simps [simp del]

text \<open>The argument is \<^const>\<open>None\<close> when it is not a string.\<close>

definition parseCronExpression :: "str option \<Rightarrow> cron_error + cron" where
  "parseCronExpression cronStr =
     (case cronStr of
        None \<Rightarrow> Inl NotString
      | Some s \<Rightarrow>
          let trimmed = js_trim s; fields = split_ws trimmed in
          if length fields \<noteq> 5 then Inl FieldCount
          else case parseCronField (fields ! 0) 0 59 False of Inl e \<Rightarrow> Inl e | Inr mi \<Rightarrow>
          case parseCronField (fields ! 1) 0 23 False of Inl e \<Rightarrow> Inl e | Inr ho \<Rightarrow>
          case parseCronField (fields ! 2) 1 31 False of Inl e \<Rightarrow> Inl e | Inr dm \<Rightarrow>
          case parseCronField (fields ! 3) 1 12 False of Inl e \<Rightarrow> Inl e | Inr mo \<Rightarrow>
          case parseCronField (fields ! 4) 0 6 True of Inl e \<Rightarrow> Inl e | Inr dw \<Rightarrow>
            Inr \<lparr>cron_raw = trimmed, minutes = mi, hours = ho, doms = dm, months = mo, dows = dw\<rparr>)"

section \<open>Next occurrence\<close>

text \<open>One round of the search: the next candidate, or \<^const>\<open>None\<close> when the current one matches.\<close>

definition cron_step :: "cron \<Rightarrow> int \<Rightarrow> int option" where
  "cron_step p t =
     (if utcMonth t + 1 \<notin> set (months p) then Some (setUTCHours 0 0 0 0 (setUTCMonth (utcMonth t + 1) 1 t))
      else if utcDate t \<notin> set (doms p) \<or> utcDay t \<notin> set (dows p)
      then Some (setUTCHours 0 0 0 0 (setUTCDate (utcDate t + 1) t))
      else if utcHours t \<notin> set (hours p) then Some (setUTCHours (utcHours t + 1) 0 0 0 t)
      else if utcMinutes t \<notin> set (minutes p) then Some (setUTCMinutes (utcMinutes t + 1) 0 0 t)
      else None)"

lemma make_date_hours: "setUTCHours 0 0 0 0 (make_date d (time_in_day t)) = d * msPerDay"
proof -
  have "day_of (make_date d (time_in_day t)) = d"
    by (rule make_date_parts) (simp_all add: time_in_day_def msPerDay_def)
  then show ?thesis by (simp add: setUTCHours_def make_date_def make_time_def)
qed

lemma next_month: "setUTCHours 0 0 0 0 (setUTCMonth (utcMonth t + 1) 1 t)
   = make_day (utcFullYear t) (utcMonth t + 1) 1 * msPerDay"
  by (simp add: setUTCMonth_def make_date_hours)

lemma next_day: "setUTCHours 0 0 0 0 (setUTCDate (utcDate t + 1) t) = (day_of t + 1) * msPerDay"
  by (simp add: setUTCDate_def make_date_hours utcFullYear_def utcMonth_def utcDate_def make_day_of_day)

lemma time_split: "t = day_of t * msPerDay + time_in_day t" "0 \<le> time_in_day t" "time_in_day t < msPerDay"
  by (simp_all add: day_of_def time_in_day_def msPerDay_def)

lemma day_of_between: "a * msPerDay \<le> u \<Longrightarrow> u < b * msPerDay \<Longrightarrow> a \<le> day_of u \<and> day_of u < b"
  using time_split [of u] by (auto simp: msPerDay_def)

lemma next_hour: "setUTCHours (utcHours t + 1) 0 0 0 t = (24 * day_of t + utcHours t + 1) * 3600000"
  by (simp add: setUTCHours_def make_date_def make_time_def msPerDay_def algebra_simps)

lemma next_minute: "setUTCMinutes (utcMinutes t + 1) 0 0 t
   = (1440 * day_of t + 60 * utcHours t + utcMinutes t + 1) * 60000"
  by (simp add: setUTCMinutes_def make_date_def make_time_def msPerDay_def algebra_simps)

definition cron_matches :: "cron \<Rightarrow> int \<Rightarrow> bool" where
  "cron_matches p u \<longleftrightarrow> utcMonth u + 1 \<in> set (months p) \<and> utcDate u \<in> set (doms p) \<and> utcDay u \<in> set (dows p)
     \<and> utcHours u \<in> set (hours p) \<and> utcMinutes u \<in> set (minutes p)"

lemma cron_step_None: "cron_step p t = None \<longleftrightarrow> cron_matches p t"
  by (auto simp: cron_step_def cron_matches_def split: if_splits)

lemma hour_of: "utcHours t = t div 3600000 - 24 * day_of t"
proof -
  have "t = 24 * day_of t * 3600000 + time_in_day t" using time_split(1) [of t] by (simp add: msPerDay_def)
  then have "t div 3600000 = 24 * day_of t + time_in_day t div 3600000"
    by (metis add.commute div_mult_self1 mult.commute zero_neq_numeral)
  then show ?thesis by (simp add: utcHours_def)
qed

lemma minute_of: "60 * utcHours t + utcMinutes t = t div 60000 - 1440 * day_of t"
proof -
  have "t = 1440 * day_of t * 60000 + time_in_day t" using time_split(1) [of t] by (simp add: msPerDay_def)
  then have "t div 60000 = 1440 * day_of t + time_in_day t div 60000"
    by (metis add.commute div_mult_self1 mult.commute zero_neq_numeral)
  moreover have "time_in_day t div 3600000 = time_in_day t div 60000 div 60"
    using zdiv_zmult2_eq [of 60 "time_in_day t" 60000] by simp
  ultimately show ?thesis by (simp add: utcHours_def utcMinutes_def)
qed

lemma next_hour': "setUTCHours (utcHours t + 1) 0 0 0 t = (t div 3600000 + 1) * 3600000"
  by (subst next_hour) (simp add: hour_of)

lemma next_minute': "setUTCMinutes (utcMinutes t + 1) 0 0 t = (t div 60000 + 1) * 60000"
  using minute_of [of t] by (subst next_minute) (simp add: algebra_simps)

lemma day_of_hour: "day_of t = t div 3600000 div 24" and day_of_minute: "day_of t = t div 60000 div 1440"
  using zdiv_zmult2_eq [of 24 t 3600000] zdiv_zmult2_eq [of 1440 t 60000] by (simp_all add: day_of_def msPerDay_def)

lemma int_div_less: "0 < n \<Longrightarrow> a div n < b \<longleftrightarrow> a < b * n" for a b n :: int
proof -
  assume n: "0 < n"
  note d = div_bounds [OF n, of a]
  show ?thesis
  proof
    assume "a div n < b"
    then have "n * (a div n + 1) \<le> n * b" using n by (intro mult_left_mono) simp_all
    with d show "a < b * n" by (simp add: algebra_simps)
  next
    assume a: "a < b * n"
    show "a div n < b"
    proof (rule ccontr)
      assume "\<not> a div n < b"
      then have "b * n \<le> (a div n) * n" using n by (intro mult_right_mono) simp_all
      also have "\<dots> \<le> a" using d by (simp add: mult.commute)
      finally show False using a by simp
    qed
  qed
qed

lemma day_minutes: "(a * msPerDay) mod 60000 = 0"
proof -
  have "a * msPerDay = (a * 1440) * 60000" by (simp add: msPerDay_def)
  then show ?thesis by (simp only: mod_mult_self2_is_0)
qed

lemma hour_minutes: "(a * 3600000) mod 60000 = (0::int)"
proof -
  have "a * 3600000 = (a * 60) * (60000::int)" by simp
  then show ?thesis by (simp only: mod_mult_self2_is_0)
qed

lemma div_between: "0 < n \<Longrightarrow> t \<le> u \<Longrightarrow> u < (t div n + 1) * n \<Longrightarrow> u div n = t div n" for n t u :: int
proof -
  assume n: "0 < n" and u: "t \<le> u" "u < (t div n + 1) * n"
  have "t div n \<le> u div n" using n u(1) by (intro zdiv_mono1)
  moreover have "u div n < t div n + 1" using int_div_less [OF n, of u "t div n + 1"] u(2) by blast
  ultimately show ?thesis by simp
qed

text \<open>Every candidate the search skips fails to match, and the search moves forward by whole minutes.\<close>

lemma cron_step_Some:
  assumes "cron_step p t = Some t'"
  shows "t < t' \<and> t' mod 60000 = 0 \<and> (\<forall>u. t \<le> u \<longrightarrow> u < t' \<longrightarrow> \<not> cron_matches p u)"
proof -
  consider
    (month) "utcMonth t + 1 \<notin> set (months p)" "t' = make_day (utcFullYear t) (utcMonth t + 1) 1 * msPerDay"
  | (day) "utcDate t \<notin> set (doms p) \<or> utcDay t \<notin> set (dows p)" "t' = (day_of t + 1) * msPerDay"
  | (hour) "utcHours t \<notin> set (hours p)" "t' = (t div 3600000 + 1) * 3600000"
  | (minute) "utcMinutes t \<notin> set (minutes p)" "t' = (t div 60000 + 1) * 60000"
    using assms by (auto simp: cron_step_def next_month next_day next_hour' next_minute' split: if_splits)
  then show ?thesis
  proof cases
    case month
    let ?y = "utcFullYear t" and ?m = "utcMonth t"
    have m: "0 \<le> ?m" "?m \<le> 11" and d: "day_from_year ?y + month_start ?y ?m \<le> day_of t"
      "day_of t < day_from_year ?y + month_start ?y (?m + 1)"
      using month_of_day_bounds [of "day_of t"] by (simp_all add: utcMonth_def utcFullYear_def)
    have t': "t' = (day_from_year ?y + month_start ?y (?m + 1)) * msPerDay"
      using month(2) make_day_next_month [OF m, of ?y] by simp
    have "day_of t * msPerDay + msPerDay \<le> t'"
      using mult_right_mono [of "day_of t + 1" "day_from_year ?y + month_start ?y (?m + 1)" msPerDay] d(2)
      by (simp add: t' msPerDay_def algebra_simps)
    then have lt: "t < t'" using time_split [of t] by linarith
    have same: "utcMonth u = ?m" if "t \<le> u" "u < t'" for u
    proof -
      have "day_of t \<le> day_of u" using that(1) unfolding day_of_def msPerDay_def by (intro zdiv_mono1) simp_all
      moreover have "day_of u < day_from_year ?y + month_start ?y (?m + 1)"
        using that(2) unfolding t' day_of_def msPerDay_def by (simp add: int_div_less)
      ultimately have "month_of_day (day_of u) = ?m"
        using d(1) by (intro month_of_day_unique [OF m, of ?y "day_of u", THEN conjunct2]) linarith+
      then show ?thesis by (simp only: utcMonth_def [of u])
    qed
    have "\<not> cron_matches p u" if "t \<le> u" "u < t'" for u
      using month(1) unfolding cron_matches_def same [OF that] by blast
    moreover have "t' mod 60000 = 0" unfolding t' by (rule day_minutes)
    ultimately show ?thesis using lt by blast
  next
    case day
    have "t < t'" using time_split [of t] by (simp add: day(2) algebra_simps)
    moreover have same: "day_of u = day_of t" if "t \<le> u" "u < t'" for u
      using div_between [of msPerDay t u] that by (simp add: day(2) day_of_def msPerDay_def)
    moreover have "\<not> cron_matches p u" if "t \<le> u" "u < t'" for u
      using day(1) unfolding cron_matches_def utcDate_def utcDay_def same [OF that] by blast
    ultimately show ?thesis using day(2) day_minutes [of "day_of t + 1"] by blast
  next
    case hour
    have "t < t'" using div_bounds [of 3600000 t] by (simp add: hour(2) algebra_simps)
    moreover have same: "utcHours u = utcHours t" if "t \<le> u" "u < t'" for u
      using div_between [of 3600000 t u] that by (simp add: hour(2) hour_of day_of_hour)
    moreover have "\<not> cron_matches p u" if "t \<le> u" "u < t'" for u
      using hour(1) unfolding cron_matches_def same [OF that] by blast
    ultimately show ?thesis using hour(2) hour_minutes [of "t div 3600000 + 1"] by blast
  next
    case minute
    have "t < t'" using div_bounds [of 60000 t] by (simp add: minute(2) algebra_simps)
    moreover have same: "utcMinutes u = utcMinutes t" if "t \<le> u" "u < t'" for u
    proof -
      have e: "u div 60000 = t div 60000" using div_between [of 60000 t u] that by (simp add: minute(2))
      have "60 * utcHours u + utcMinutes u = 60 * utcHours t + utcMinutes t"
        unfolding minute_of day_of_minute e ..
      then have "(60 * utcHours u + utcMinutes u) mod 60 = (60 * utcHours t + utcMinutes t) mod 60" by simp
      moreover have "(60 * h + utcMinutes x) mod 60 = utcMinutes x" for h x by (simp add: utcMinutes_def)
      ultimately show ?thesis by simp
    qed
    moreover have "\<not> cron_matches p u" if "t \<le> u" "u < t'" for u
      using minute(1) unfolding cron_matches_def same [OF that] by blast
    ultimately show ?thesis using minute(2) mod_mult_self2_is_0 [of "t div 60000 + 1" 60000] by blast
  qed
qed

lemma year_before: "utcFullYear t \<le> y \<longleftrightarrow> t < day_from_year (y + 1) * msPerDay"
proof -
  have "utcFullYear t \<le> y \<longleftrightarrow> day_of t < day_from_year (y + 1)"
  proof
    assume "utcFullYear t \<le> y"
    then show "day_of t < day_from_year (y + 1)"
      using year_of_day_bounds [of "day_of t"] day_from_year_mono [of "utcFullYear t + 1" "y + 1"]
      by (simp add: utcFullYear_def)
  next
    assume d: "day_of t < day_from_year (y + 1)"
    show "utcFullYear t \<le> y"
    proof (rule ccontr)
      assume "\<not> utcFullYear t \<le> y"
      then show False using d year_of_day_bounds [of "day_of t"] day_from_year_mono [of "y + 1" "utcFullYear t"]
        by (simp add: utcFullYear_def)
    qed
  qed
  also have "\<dots> \<longleftrightarrow> t < day_from_year (y + 1) * msPerDay"
    by (simp add: day_of_def msPerDay_def int_div_less)
  finally show ?thesis .
qed

function cron_search :: "cron \<Rightarrow> int \<Rightarrow> int \<Rightarrow> cron_error + int" where
  "cron_search p maxSearchYear t =
     (if utcFullYear t \<le> maxSearchYear
      then (case cron_step p t of None \<Rightarrow> Inr t | Some t' \<Rightarrow> cron_search p maxSearchYear t')
      else Inl Unreachable)"
  by pat_completeness auto

termination
proof (relation "measure (\<lambda>(p, y, t). nat (day_from_year (y + 1) * msPerDay - t))")
  fix p y t t'
  assume "utcFullYear t \<le> y" "cron_step p t = Some t'"
  then show "((p, y, t'), (p, y, t)) \<in> measure (\<lambda>(p, y, t). nat (day_from_year (y + 1) * msPerDay - t))"
    using cron_step_Some [of p t t'] by (simp add: year_before)
qed simp

declare cron_search.simps [simp del]

definition getNextCronOccurrence :: "cron \<Rightarrow> int option \<Rightarrow> cron_error + int" where
  "getNextCronOccurrence parsedCron fromDate =
     (case fromDate of
        None \<Rightarrow> Inl InvalidDate
      | Some startMs \<Rightarrow>
          let c0 = setUTCSeconds 0 0 startMs;
              c1 = setUTCMinutes (utcMinutes c0 + 1) (utcSeconds c0) (utcMs c0) c0
          in cron_search parsedCron (utcFullYear c1 + 5) c1)"

definition getNextIntervalOccurrence :: "rat option \<Rightarrow> int option \<Rightarrow> cron_error + int" where
  "getNextIntervalOccurrence intervalMs fromDate =
     (case fromDate of
        None \<Rightarrow> Inl InvalidDate
      | Some startMs \<Rightarrow>
          (case intervalMs of
             None \<Rightarrow> Inl InvalidInterval
           | Some r \<Rightarrow> if snd (quotient_of r) \<noteq> 1 \<or> r < 1000 then Inl InvalidInterval
                       else Inr (startMs + fst (quotient_of r))))"

text \<open>The three fields of a schedule that the next run depends on.\<close>

record timing =
  scheduleType :: str
  cronExpression :: "str option"
  intervalMs :: "rat option"

definition calculateNextRunAt :: "timing \<Rightarrow> int option \<Rightarrow> cron_error + int option" where
  "calculateNextRunAt schedule fromDate =
     (if scheduleType schedule = ''cron'' then
        (case parseCronExpression (cronExpression schedule) of
           Inl e \<Rightarrow> Inl e
         | Inr parsed \<Rightarrow> (case getNextCronOccurrence parsed fromDate of Inl e \<Rightarrow> Inl e | Inr t \<Rightarrow> Inr (Some t)))
      else if scheduleType schedule = ''interval'' then
        (case getNextIntervalOccurrence (intervalMs schedule) fromDate of Inl e \<Rightarrow> Inl e | Inr t \<Rightarrow> Inr (Some t))
      else if scheduleType schedule = ''once'' then Inr None
      else Inl InvalidScheduleType)"

section \<open>The search is exact\<close>

lemma cron_search_spec:
  "t mod 60000 = 0 \<Longrightarrow>
   (case cron_search p y t of
      Inr r \<Rightarrow> t \<le> r \<and> utcFullYear r \<le> y \<and> r mod 60000 = 0 \<and> cron_matches p r \<and> (\<forall>u. t \<le> u \<longrightarrow> u < r \<longrightarrow> \<not> cron_matches p u)
    | Inl e \<Rightarrow> e = Unreachable \<and> (\<forall>u. t \<le> u \<longrightarrow> utcFullYear u \<le> y \<longrightarrow> \<not> cron_matches p u))"
proof (induction p y t rule: cron_search.induct)
  case (1 p y t)
  show ?case
  proof (cases "utcFullYear t \<le> y")
    case False
    then have "\<not> utcFullYear u \<le> y" if "t \<le> u" for u using that by (simp add: year_before)
    then show ?thesis using False by (simp add: cron_search.simps [of p y t])
  next
    case True
    show ?thesis
    proof (cases "cron_step p t")
      case None
      then show ?thesis using True 1 cron_step_None [of p t] by (simp add: cron_search.simps [of p y t])
    next
      case (Some t')
      note s = cron_step_Some [OF Some]
      have e: "cron_search p y t = cron_search p y t'" using True Some by (simp add: cron_search.simps [of p y t])
      have IH: "case cron_search p y t' of
          Inr r \<Rightarrow> t' \<le> r \<and> utcFullYear r \<le> y \<and> r mod 60000 = 0 \<and> cron_matches p r \<and> (\<forall>u. t' \<le> u \<longrightarrow> u < r \<longrightarrow> \<not> cron_matches p u)
        | Inl e \<Rightarrow> e = Unreachable \<and> (\<forall>u. t' \<le> u \<longrightarrow> utcFullYear u \<le> y \<longrightarrow> \<not> cron_matches p u)"
        using 1(1) [OF True Some] s by blast
      have skip: "\<not> cron_matches p u" if "t \<le> u" "u < t'" for u using s that by blast
      show ?thesis
      proof (cases "cron_search p y t'")
        case (Inl err)
        with IH have "err = Unreachable" "\<And>u. t' \<le> u \<Longrightarrow> utcFullYear u \<le> y \<Longrightarrow> \<not> cron_matches p u" by auto
        then show ?thesis unfolding e Inl using skip by (auto simp: not_less [symmetric])
      next
        case (Inr r)
        with IH have "t' \<le> r" "utcFullYear r \<le> y" "r mod 60000 = 0" "cron_matches p r" "\<And>u. t' \<le> u \<Longrightarrow> u < r \<Longrightarrow> \<not> cron_matches p u" by auto
        then show ?thesis unfolding e Inr using skip s by (auto simp: not_less [symmetric])
      qed
    qed
  qed
qed

lemma seconds_zero:
  assumes "t mod 60000 = 0"
  shows "utcSeconds t = 0" "utcMs t = 0"
proof -
  have "t = (t div 60000) * 60000" using div_mult_mod_eq [of t 60000] assms by simp
  moreover have "time_in_day t = (t - day_of t * msPerDay)" using time_split(1) [of t] by simp
  ultimately have e: "time_in_day t = (t div 60000 - 1440 * day_of t) * 60000" by (simp add: msPerDay_def algebra_simps)
  have "time_in_day t div 1000 = (t div 60000 - 1440 * day_of t) * 60"
  proof -
    have "time_in_day t = ((t div 60000 - 1440 * day_of t) * 60) * 1000" unfolding e by simp
    then show ?thesis by (simp only: nonzero_mult_div_cancel_right [of 1000, simplified])
  qed
  then show "utcSeconds t = 0" by (simp add: utcSeconds_def)
  have "time_in_day t = ((t div 60000 - 1440 * day_of t) * 60) * 1000" unfolding e by simp
  then show "utcMs t = 0" unfolding utcMs_def by (simp only: mod_mult_self2_is_0)
qed

lemma floor_minute: "setUTCSeconds 0 0 t = (t div 60000) * 60000"
proof -
  have "setUTCSeconds 0 0 t = (1440 * day_of t + (60 * utcHours t + utcMinutes t)) * 60000"
    by (simp add: setUTCSeconds_def make_date_def make_time_def msPerDay_def algebra_simps)
  then show ?thesis unfolding minute_of by simp
qed

lemma search_start:
  "(let c0 = setUTCSeconds 0 0 t in setUTCMinutes (utcMinutes c0 + 1) (utcSeconds c0) (utcMs c0) c0)
   = (t div 60000 + 1) * 60000"
proof -
  let ?c = "(t div 60000) * 60000"
  have m: "?c mod 60000 = 0" by simp
  have d: "?c div 60000 = t div 60000" by simp
  show ?thesis
    unfolding floor_minute Let_def seconds_zero [OF m] next_minute' d ..
qed

lemma getNextCronOccurrence_eq:
  "getNextCronOccurrence p (Some t) = cron_search p (utcFullYear ((t div 60000 + 1) * 60000) + 5) ((t div 60000 + 1) * 60000)"
  using search_start [of t] by (simp add: getNextCronOccurrence_def Let_def)

lemma aligned_after: "t < u \<Longrightarrow> u mod 60000 = 0 \<Longrightarrow> (t div 60000 + 1) * 60000 \<le> u" for t u :: int
proof -
  assume a: "t < u" "u mod 60000 = 0"
  have u: "u = (u div 60000) * 60000" using div_mult_mod_eq [of u 60000] a(2) by simp
  then have "t div 60000 < u div 60000" using int_div_less [of 60000 t "u div 60000"] a(1) by simp
  then have "(t div 60000 + 1) * 60000 \<le> (u div 60000) * 60000" by simp
  with u show ?thesis by linarith
qed

lemma start_after: "t < (t div 60000 + 1) * 60000" for t :: int
  using div_bounds [of 60000 t] by (simp add: algebra_simps)

section \<open>What a parsed field contains\<close>

lemma set_fold_set_add: "set (fold set_add vs acc) = set vs \<union> set acc"
  by (induction vs arbitrary: acc) auto

lemma add_values_range:
  "set (add_values mn mx s vals acc) \<subseteq> {mn..mx} \<union> set acc"
proof (induction vals arbitrary: acc)
  case Nil
  then show ?case by (simp add: add_values_def)
next
  case (Cons a vals)
  let ?acc = "let v = (if s \<and> a = 7 then 0 else a) in if mn \<le> v \<and> v \<le> mx then set_add v acc else acc"
  have "add_values mn mx s (a # vals) acc = add_values mn mx s vals ?acc" by (simp add: add_values_def)
  moreover have "set ?acc \<subseteq> {mn..mx} \<union> set acc" by (auto simp: Let_def)
  ultimately show ?case using Cons.IH [of ?acc] by auto
qed

lemma parse_part_range:
  assumes "parse_part mn mx s part acc = Inr acc'" "set acc \<subseteq> {mn..mx}"
  shows "set acc' \<subseteq> {mn..mx}"
proof (cases "part = ''*''")
  case True
  then show ?thesis using assms by (auto simp: parse_part_def set_fold_set_add)
next
  case False
  with assms(1) obtain a b st where "acc' = add_values mn mx s (steps_from a b st) acc"
    unfolding parse_part_def Let_def by (auto split: if_splits option.splits sum.splits)
  then show ?thesis using add_values_range [of mn mx s "steps_from a b st" acc] assms(2) by blast
qed

lemma parse_parts_range:
  "parse_parts mn mx s parts acc = Inr acc' \<Longrightarrow> set acc \<subseteq> {mn..mx} \<Longrightarrow> set acc' \<subseteq> {mn..mx}"
proof (induction parts arbitrary: acc)
  case (Cons p ps)
  from Cons.prems(1) obtain acc1 where a: "parse_part mn mx s p acc = Inr acc1" "parse_parts mn mx s ps acc1 = Inr acc'"
    by (auto split: sum.splits)
  from Cons.IH [OF a(2) parse_part_range [OF a(1) Cons.prems(2)]] show ?case .
qed simp

lemma parseCronField_range:
  "parseCronField f mn mx s = Inr vs \<Longrightarrow> vs \<noteq> [] \<and> set vs \<subseteq> {mn..mx}"
  using parse_parts_range [of mn mx s "js_split (CHR '','') (js_trim f)" "[]" vs]
  by (auto simp: parseCronField_def split: if_splits sum.splits)

lemma parseCronExpression_Inr:
  assumes "parseCronExpression s = Inr p"
  shows "minutes p \<noteq> [] \<and> set (minutes p) \<subseteq> {0..59} \<and> hours p \<noteq> [] \<and> set (hours p) \<subseteq> {0..23}
    \<and> doms p \<noteq> [] \<and> set (doms p) \<subseteq> {1..31} \<and> months p \<noteq> [] \<and> set (months p) \<subseteq> {1..12}
    \<and> dows p \<noteq> [] \<and> set (dows p) \<subseteq> {0..6}"
proof -
  from assms obtain str mi ho dm mo dw where
    f: "parseCronField (split_ws (js_trim str) ! 0) 0 59 False = Inr mi"
      "parseCronField (split_ws (js_trim str) ! 1) 0 23 False = Inr ho"
      "parseCronField (split_ws (js_trim str) ! 2) 1 31 False = Inr dm"
      "parseCronField (split_ws (js_trim str) ! 3) 1 12 False = Inr mo"
      "parseCronField (split_ws (js_trim str) ! 4) 0 6 True = Inr dw"
    and p: "p = \<lparr>cron_raw = js_trim str, minutes = mi, hours = ho, doms = dm, months = mo, dows = dw\<rparr>"
    unfolding parseCronExpression_def Let_def
    by (auto split: option.splits if_splits sum.splits)
  show ?thesis
    using parseCronField_range [OF f(1)] parseCronField_range [OF f(2)] parseCronField_range [OF f(3)]
      parseCronField_range [OF f(4)] parseCronField_range [OF f(5)]
    by (simp add: p)
qed

text \<open>The minute of a date in the calendar, and its fields.\<close>

lemma built_time:
  assumes m: "0 \<le> m" "m \<le> 11" and dt: "1 \<le> dt" "dt \<le> 28" and h: "0 \<le> h" "h < 24" and mi: "0 \<le> mi" "mi < 60"
  and u_def: "u = make_date (make_day y m dt) (make_time h mi 0 0)"
  shows "utcFullYear u = y" "utcMonth u = m" "utcDate u = dt" "utcHours u = h" "utcMinutes u = mi" "u mod 60000 = 0"
proof -
  note t = make_time_parts [OF h mi]
  note p = make_date_parts [OF t(1,2), of "make_day y m dt"]
  have d: "day_of u = make_day y m dt" "time_in_day u = make_time h mi 0 0" using p by (simp_all add: u_def)
  show "utcFullYear u = y" "utcMonth u = m" "utcDate u = dt"
    using day_in_month [OF m dt, of y] by (simp_all add: utcFullYear_def utcMonth_def utcDate_def d)
  show "utcHours u = h" "utcMinutes u = mi" using t by (simp_all add: utcHours_def utcMinutes_def d)
  have "u = (make_day y m dt * 1440 + 60 * h + mi) * 60000"
    by (simp add: u_def make_date_def make_time_def msPerDay_def algebra_simps)
  then show "u mod 60000 = 0" by (simp only: mod_mult_self2_is_0)
qed

lemma cron_next_exact:
  "case getNextCronOccurrence p (Some t) of
     Inr r \<Rightarrow> t < r \<and> r mod 60000 = 0 \<and> cron_matches p r
       \<and> utcFullYear r \<le> utcFullYear ((t div 60000 + 1) * 60000) + 5
       \<and> (\<forall>u. t < u \<longrightarrow> u < r \<longrightarrow> u mod 60000 = 0 \<longrightarrow> \<not> cron_matches p u)
   | Inl e \<Rightarrow> e = Unreachable
       \<and> (\<forall>u. t < u \<longrightarrow> u mod 60000 = 0 \<longrightarrow> utcFullYear u \<le> utcFullYear ((t div 60000 + 1) * 60000) + 5
           \<longrightarrow> \<not> cron_matches p u)"
proof -
  let ?s = "(t div 60000 + 1) * 60000"
  have "?s mod 60000 = 0" by simp
  note spec = cron_search_spec [OF this, where p = p and y = "utcFullYear ?s + 5", folded getNextCronOccurrence_eq]
  show ?thesis
  proof (cases "getNextCronOccurrence p (Some t)")
    case (Inl e)
    then show ?thesis using spec aligned_after [of t] by auto
  next
    case (Inr r)
    then show ?thesis using spec aligned_after [of t] start_after [of t] by auto
  qed
qed

text \<open>
  A day of the month that exists only in leap years can be farther away than the search window:
  from 1 March 2096 the next 29 February is in 2104.
\<close>

definition leap_day_cron :: cron where
  "leap_day_cron = \<lparr>cron_raw = ''0 0 29 2 *'', minutes = [0], hours = [0], doms = [29], months = [2], dows = [0, 1, 2, 3, 4, 5, 6]\<rparr>"

lemma leap_day_parsed:
  "parseCronExpression (Some ''0 0 29 2 *'') = Inr leap_day_cron"
  by code_simp

lemma feb_29_leap:
  assumes "utcMonth u = 1" "utcDate u = 29"
  shows "leap (utcFullYear u)"
  using assms month_of_day_bounds [of "day_of u"]
  by (simp add: utcMonth_def utcDate_def utcFullYear_def date_of_day_def month_start_def split: if_splits)

lemma leap_day_outside_window:
  "getNextCronOccurrence leap_day_cron (Some (make_date (make_day 2096 2 1) 0)) = Inl Unreachable"
proof (cases "getNextCronOccurrence leap_day_cron (Some (make_date (make_day 2096 2 1) 0))")
  case (Inl e)
  then show ?thesis using cron_next_exact [where p = leap_day_cron and t = "make_date (make_day 2096 2 1) 0"] by simp
next
  case (Inr r)
  let ?t = "make_date (make_day 2096 2 1) 0"
  have s: "(?t div 60000 + 1) * 60000 = make_date (make_day 2096 2 1) 60000" by code_simp
  have "utcFullYear (make_date (make_day 2096 2 1) 60000) = 2096" by code_simp
  then have r: "?t < r" "cron_matches leap_day_cron r" "utcFullYear r \<le> 2101"
    using cron_next_exact [where p = leap_day_cron and t = ?t] unfolding Inr s by simp_all
  from r(2) have m: "utcMonth r = 1" "utcDate r = 29" by (simp_all add: cron_matches_def leap_day_cron_def)
  have "day_from_year 2096 * msPerDay \<le> ?t" by code_simp
  then have "\<not> utcFullYear r \<le> 2095" using r(1) year_before [of r 2095] by simp
  with r(3) have "utcFullYear r \<in> {2096, 2097, 2098, 2099, 2100, 2101}" by (simp, arith)
  with feb_29_leap [OF m] have y: "utcFullYear r = 2096" by (auto simp: leap_def)
  have "day_of r = make_day 2096 1 29"
    using make_day_of_day [of "day_of r" 0] m y by (simp add: utcMonth_def utcDate_def utcFullYear_def)
  then have "r < make_date (make_day 2096 1 29 + 1) 0"
    using time_split [of r] by (simp add: make_date_def algebra_simps)
  also have "make_date (make_day 2096 1 29 + 1) 0 \<le> ?t" by code_simp
  finally show ?thesis using r(1) by simp
qed

section \<open>Properties\<close>

text \<open>
  C14. The next cron run is exactly the next matching minute: the search returns a whole minute
  strictly after the given time that matches all five fields, and no whole minute in between
  matches; and it gives up exactly when no matching minute exists up to the end of the fifth
  calendar year after the one it starts in.
\<close>

theorem cron_next_is_least:
  "case getNextCronOccurrence p (Some t) of
     Inr r \<Rightarrow> t < r \<and> r mod 60000 = 0 \<and> cron_matches p r
       \<and> utcFullYear r \<le> utcFullYear ((t div 60000 + 1) * 60000) + 5
       \<and> (\<forall>u. t < u \<longrightarrow> u < r \<longrightarrow> u mod 60000 = 0 \<longrightarrow> \<not> cron_matches p u)
   | Inl e \<Rightarrow> e = Unreachable
       \<and> (\<forall>u. t < u \<longrightarrow> u mod 60000 = 0 \<longrightarrow> utcFullYear u \<le> utcFullYear ((t div 60000 + 1) * 60000) + 5
           \<longrightarrow> \<not> cron_matches p u)"
  by (rule cron_next_exact)

theorem cron_next_is_least_witness:
  "\<not> cron_matches \<lparr>cron_raw = [], minutes = [30], hours = [12], doms = [1..31], months = [1..12], dows = [0..6]\<rparr> 120000"
proof -
  let ?p = "\<lparr>cron_raw = [], minutes = [30], hours = [12], doms = [1..31], months = [1..12], dows = [0..6]\<rparr>"
  have "getNextCronOccurrence ?p (Some 60000) = Inr 45000000" by code_simp
  with cron_next_is_least [where p = ?p and t = 60000] show ?thesis by simp
qed

text \<open>
  C40. An accepted cron expression always has its five value sets within the ranges of the
  fields, and none of them is empty.
\<close>

theorem cron_fields_in_range:
  assumes "parseCronExpression s = Inr p"
  shows "minutes p \<noteq> [] \<and> set (minutes p) \<subseteq> {0..59} \<and> hours p \<noteq> [] \<and> set (hours p) \<subseteq> {0..23}
    \<and> doms p \<noteq> [] \<and> set (doms p) \<subseteq> {1..31} \<and> months p \<noteq> [] \<and> set (months p) \<subseteq> {1..12}
    \<and> dows p \<noteq> [] \<and> set (dows p) \<subseteq> {0..6}"
  by (rule parseCronExpression_Inr [OF assms])

theorem cron_fields_in_range_witness:
  "minutes \<lparr>cron_raw = ''*/20 1-3 * 2,4 7'', minutes = [0, 20, 40], hours = [1, 2, 3], doms = [1..31], months = [2, 4], dows = [0]\<rparr> \<noteq> []"
  by (rule cron_fields_in_range [where s = "Some '' */20 1-3 * 2,4 7 ''", THEN conjunct1]) code_simp

text \<open>
  A cron schedule that does not restrict the weekday and names some day of the month up to
  the 28th always has a next run, whatever the time is.
\<close>

theorem cron_always_reachable:
  assumes "parseCronExpression s = Inr p" and "{0..6} \<subseteq> set (dows p)" and "d \<in> set (doms p)" and "d \<le> 28"
  shows "\<exists>r. getNextCronOccurrence p (Some t) = Inr r"
proof (cases "getNextCronOccurrence p (Some t)")
  case (Inl e)
  note range = parseCronExpression_Inr [OF assms(1)]
  obtain mi ho mo where v: "mi \<in> set (minutes p)" "ho \<in> set (hours p)" "mo \<in> set (months p)"
    using range by (cases "minutes p"; cases "hours p"; cases "months p") auto
  then have b: "0 \<le> mi" "mi < 60" "0 \<le> ho" "ho < 24" "0 \<le> mo - 1" "mo - 1 \<le> 11" "1 \<le> d"
    using range assms(3) by (auto simp: subset_iff)
  let ?y = "utcFullYear ((t div 60000 + 1) * 60000)"
  let ?u = "make_date (make_day (?y + 1) (mo - 1) d) (make_time ho mi 0 0)"
  note u = built_time [OF b(5,6,7) assms(4) b(3,4,1,2) refl, of "?y + 1"]
  have "utcDay ?u \<in> {0..6}" using pos_mod_bound [of 7 "day_of ?u + 4"] by (simp add: utcDay_def)
  then have "cron_matches p ?u" using v assms(2,3) u by (auto simp: cron_matches_def)
  moreover have "t < ?u"
  proof -
    have "\<not> ?u < (t div 60000 + 1) * 60000"
      using year_before [of ?u ?y] year_before [of "(t div 60000 + 1) * 60000" ?y] u(1) by linarith
    then show ?thesis using start_after [of t] by linarith
  qed
  ultimately show ?thesis using cron_next_exact [where p = p and t = t] Inl u by auto
qed simp

theorem cron_always_reachable_witness:
  "\<exists>r. getNextCronOccurrence
    \<lparr>cron_raw = ''0 4 1 * *'', minutes = [0], hours = [4], doms = [1], months = [1..12], dows = [0..6]\<rparr> (Some 7) = Inr r"
  by (rule cron_always_reachable [where s = "Some ''0 4 1 * *''" and d = 1]) code_simp+

end
