(* ===== verification/ScheduleEngine.thy ===== *)
theory ScheduleEngine
  imports FleetScheduler ScheduleParser
begin

text \<open>
  \<^verbatim>\<open>src/registry/schedule-engine.mjs\<close>: the persistent schedules, the runs they record, and their
  evaluation into fleet jobs. The two tables are maps from their primary keys to rows. Fresh run and job ids
  are arguments (\<open>fresh\<close>, one pair per schedule dispatched), the clock is an argument in milliseconds,
  and the two text-level rules of redaction are the argument of \<^theory_text>\<open>Redaction\<close>. Dispatching has
  no \<open>await\<close> of its own and an evaluation waits for nothing but its own dispatches, so each operation is
  one step; fleet jobs progress between them by the steps of \<^theory_text>\<open>FleetScheduler\<close>. Columns holding
  free text for display (description, error message, job durations) are left out.
\<close>

section \<open>Rows\<close>

text \<open>
  Timestamps are stored as ISO strings and compared as strings. The year of four digits sorts by
  time; from the year 10000 on the text begins with a plus sign and sorts before all of them.
\<close>

definition iso_key :: "int \<Rightarrow> int" where
  "iso_key t = (if t \<ge> 253402300800000 then t - 1000000000000000000 else t)"

definition schedule_id_pattern :: "str \<Rightarrow> bool" where
  "schedule_id_pattern s \<longleftrightarrow> prefix ''sched_'' s \<and>
     16 \<le> length (drop 6 s) \<and> length (drop 6 s) \<le> 64 \<and> hex_pattern (length (drop 6 s)) (drop 6 s)"

record schedule =
  s_id :: str
  s_name :: str
  s_timing :: timing
  s_taskType :: str
  s_payload :: jsval
  s_targetSpec :: jsval
  s_caps :: "str list"
  s_timeoutMs :: jsval
  s_status :: str
  s_concurrency :: str
  s_missed :: str
  s_createdAt :: int
  s_updatedAt :: int
  s_createdBy :: str
  s_nextRunAt :: "int option"
  s_lastRunAt :: "int option"
  s_totalRuns :: nat
  s_maxRuns :: "rat option"

record run =
  run_schedule :: str
  run_jobId :: "str option"
  run_triggeredAt :: int
  run_trigger :: str
  run_status :: str
  run_summary :: "summary option"
  run_errorCode :: str

record engine =
  e_schedules :: "(str, schedule) omap"
  e_runs :: "(str, run) omap"
  e_fleet :: fleet
  e_running :: bool

definition new_engine :: "fleet \<Rightarrow> engine" where
  "new_engine f = \<lparr>e_schedules = [], e_runs = [], e_fleet = f, e_running = False\<rparr>"

text \<open>\<open>UPDATE fleet_schedules ... WHERE schedule_id = ?\<close>, and the same on runs.\<close>

definition update_schedule :: "str \<Rightarrow> (schedule \<Rightarrow> schedule) \<Rightarrow> engine \<Rightarrow> engine" where
  "update_schedule i g e = (case map_of (e_schedules e) i of
     None \<Rightarrow> e | Some r \<Rightarrow> e\<lparr>e_schedules := AList.update i (g r) (e_schedules e)\<rparr>)"

definition update_run :: "str \<Rightarrow> (run \<Rightarrow> run) \<Rightarrow> engine \<Rightarrow> engine" where
  "update_run i g e = (case map_of (e_runs e) i of
     None \<Rightarrow> e | Some r \<Rightarrow> e\<lparr>e_runs := AList.update i (g r) (e_runs e)\<rparr>)"

text \<open>An insert of a run fails on a duplicate id and, by its foreign key, without its schedule.\<close>

definition insert_run :: "str \<Rightarrow> run \<Rightarrow> engine \<Rightarrow> engine option" where
  "insert_run i r e =
     (if map_of (e_runs e) i \<noteq> None \<or> map_of (e_schedules e) (run_schedule r) = None then None
      else Some (e\<lparr>e_runs := AList.update i r (e_runs e)\<rparr>))"

definition hydrateScheduleRow :: "(str \<Rightarrow> str) \<Rightarrow> schedule \<Rightarrow> schedule" where
  "hydrateScheduleRow scrubString row = row\<lparr>s_payload := scrubSensitiveCredentials scrubString (s_payload row)\<rparr>"

section \<open>Dispatch\<close>

text \<open>The own properties of a value, as an object spread copies them.\<close>

definition indexed :: "jsval list \<Rightarrow> (str \<times> jsval) list" where
  "indexed xs = zip (map dec_of_nat [0..<length xs]) xs"

definition spread_entries :: "jsval \<Rightarrow> (str \<times> jsval) list" where
  "spread_entries v = (case v of
     JObj ps \<Rightarrow> ps
   | JArr xs \<Rightarrow> indexed xs
   | JStr s \<Rightarrow> indexed (map (\<lambda>c. JStr [c]) s)
   | _ \<Rightarrow> [])"

definition run_payload :: "schedule \<Rightarrow> str \<Rightarrow> jsval" where
  "run_payload sched runId =
     JObj (AList.update ''_fleetScheduleRunId'' (JStr runId)
       (AList.update ''_fleetScheduleId'' (JStr (s_id sched)) (spread_entries (s_payload sched))))"

definition submit_error_code :: "submit_error \<Rightarrow> str" where
  "submit_error_code e = (case e of
     InvalidJobId \<Rightarrow> ''invalid-job-id''
   | InvalidTaskType \<Rightarrow> ''invalid-task-type''
   | InvalidPayload \<Rightarrow> ''invalid-payload''
   | BadTarget t \<Rightarrow> (case t of
       WildcardProhibited \<Rightarrow> ''wildcard-prohibited''
     | InvalidTargetSpec \<Rightarrow> ''invalid-target-spec''
     | EmptyTargetSet \<Rightarrow> ''empty-target-set''
     | InvalidTargetNode \<Rightarrow> ''invalid-target-node''
     | TargetNotFound \<Rightarrow> ''target-not-found''
     | InvalidCapabilitySpec \<Rightarrow> ''invalid-capability-spec''
     | UnknownTargetMode \<Rightarrow> ''unknown-target-mode''
     | TypeErrorThrown \<Rightarrow> ''dispatch-error''))"

definition reaches_max :: "schedule \<Rightarrow> nat \<Rightarrow> bool" where
  "reaches_max sched total_runs = (case s_maxRuns sched of None \<Rightarrow> False | Some m \<Rightarrow> m \<noteq> 0 \<and> of_nat total_runs \<ge> m)"

text \<open>The status and next run of a schedule after a dispatch; \<open>counted\<close> is the new total, if it changes.\<close>

definition next_state :: "int \<Rightarrow> schedule \<Rightarrow> nat option \<Rightarrow> str \<times> int option" where
  "next_state now sched counted =
     (if (case counted of None \<Rightarrow> False | Some n \<Rightarrow> reaches_max sched n) then (''completed'', None)
      else case calculateNextRunAt (s_timing sched) (Some now) of
          Inl err \<Rightarrow> (''error'', None)
        | Inr next_run \<Rightarrow> (s_status sched, next_run))"

definition skipped_run :: "int \<Rightarrow> schedule \<Rightarrow> str \<Rightarrow> run" where
  "skipped_run now sched trigger =
     \<lparr>run_schedule = s_id sched, run_jobId = None, run_triggeredAt = now, run_trigger = trigger,
      run_status = ''skipped'', run_summary = None, run_errorCode = ''concurrency-forbid''\<rparr>"

definition sent_run :: "int \<Rightarrow> schedule \<Rightarrow> str \<Rightarrow> submit_error + str \<Rightarrow> run" where
  "sent_run now sched trigger sub =
     \<lparr>run_schedule = s_id sched, run_jobId = (case sub of Inr jid \<Rightarrow> Some jid | Inl err \<Rightarrow> None),
      run_triggeredAt = now, run_trigger = trigger,
      run_status = (case sub of Inr jid \<Rightarrow> ''dispatched'' | Inl err \<Rightarrow> ''failed''), run_summary = None,
      run_errorCode = (case sub of Inr jid \<Rightarrow> [] | Inl err \<Rightarrow> submit_error_code err)\<rparr>"

definition submit_run :: "str \<times> str \<Rightarrow> schedule \<Rightarrow> fleet \<Rightarrow> (submit_error + str) \<times> fleet" where
  "submit_run fresh sched f =
     submitJob (snd fresh) JNull (JStr (s_taskType sched)) (run_payload sched (fst fresh)) (s_targetSpec sched)
       (s_caps sched) (s_timeoutMs sched) (''schedule:'' @ s_createdBy sched) f"

text \<open>
  The result is the run id and its status, or \<^const>\<open>None\<close> when an insert throws; a job submitted
  before the throw stays submitted.
\<close>

definition dispatchScheduleRun ::
  "int \<Rightarrow> str \<times> str \<Rightarrow> schedule \<Rightarrow> str \<Rightarrow> engine \<Rightarrow> (str \<times> str) option \<times> engine" where
  "dispatchScheduleRun now fresh sched trigger e =
     (if s_concurrency sched = ''forbid'' \<and> hasActiveJobForSchedule (s_id sched) (e_fleet e) then
        (case insert_run (fst fresh) (skipped_run now sched trigger) e of
           None \<Rightarrow> (None, e)
         | Some e1 \<Rightarrow>
             let st = next_state now sched None in
             (Some (fst fresh, ''skipped''),
              update_schedule (s_id sched) (\<lambda>r. r\<lparr>s_status := fst st, s_nextRunAt := snd st, s_updatedAt := now\<rparr>) e1))
      else
        let sub = submit_run fresh sched (e_fleet e);
            e0 = e\<lparr>e_fleet := snd sub\<rparr>;
            r = sent_run now sched trigger (fst sub) in
        case insert_run (fst fresh) r e0 of
          None \<Rightarrow> (None, e0)
        | Some e1 \<Rightarrow>
            let n = Suc (s_totalRuns sched);
                st = next_state now sched (Some n) in
            (Some (fst fresh, run_status r),
             update_schedule (s_id sched) (\<lambda>r. r\<lparr>s_totalRuns := n, s_lastRunAt := Some now,
               s_nextRunAt := snd st, s_status := fst st, s_updatedAt := now\<rparr>) e1))"

text \<open>The continuation of a submitted job: its outcome is written to the run.\<close>

definition job_status_text :: "job_status \<Rightarrow> str" where
  "job_status_text s = (case s of JPending \<Rightarrow> ''pending'' | JRunning \<Rightarrow> ''running'' | JCompleted \<Rightarrow> ''completed''
     | JFailed \<Rightarrow> ''failed'' | JPartial \<Rightarrow> ''partial'')"

definition record_outcome :: "str \<Rightarrow> engine \<Rightarrow> engine" where
  "record_outcome runId e =
     (case map_of (e_runs e) runId of
        None \<Rightarrow> e
      | Some r \<Rightarrow>
        (case run_jobId r of
           None \<Rightarrow> e
         | Some jid \<Rightarrow>
           (case map_of (jobs (e_fleet e)) jid of
              None \<Rightarrow> e
            | Some j \<Rightarrow> if \<not> j_done j then e
                else update_run runId (\<lambda>r. r\<lparr>run_status := job_status_text (j_status j), run_summary := Some (summ j)\<rparr>) e)))"

section \<open>Evaluation\<close>

definition is_due :: "int \<Rightarrow> schedule \<Rightarrow> bool" where
  "is_due now r \<longleftrightarrow> s_status r = ''active'' \<and>
     (case s_nextRunAt r of None \<Rightarrow> False | Some t \<Rightarrow> iso_key t \<le> iso_key now)"

definition due_key :: "schedule \<Rightarrow> int" where
  "due_key r = (case s_nextRunAt r of None \<Rightarrow> 0 | Some t \<Rightarrow> iso_key t)"

definition due_rows :: "int \<Rightarrow> engine \<Rightarrow> schedule list" where
  "due_rows now e = take 50 (sort_key due_key (filter (is_due now) (map snd (e_schedules e))))"

text \<open>The loop stops at the first dispatch that throws.\<close>

fun dispatch_all :: "(str \<Rightarrow> str) \<Rightarrow> int \<Rightarrow> (str \<Rightarrow> str \<times> str) \<Rightarrow> schedule list \<Rightarrow> engine \<Rightarrow> engine" where
  "dispatch_all scrubString now fresh [] e = e"
| "dispatch_all scrubString now fresh (row # rows) e =
     (let r = dispatchScheduleRun now (fresh (s_id row)) (hydrateScheduleRow scrubString row) ''scheduled'' e in
      case fst r of None \<Rightarrow> snd r | Some _ \<Rightarrow> dispatch_all scrubString now fresh rows (snd r))"

definition evaluateDueSchedules :: "(str \<Rightarrow> str) \<Rightarrow> int \<Rightarrow> (str \<Rightarrow> str \<times> str) \<Rightarrow> engine \<Rightarrow> engine" where
  "evaluateDueSchedules scrubString now fresh e =
     (if \<not> e_running e then e else dispatch_all scrubString now fresh (due_rows now e) e)"

fun reconcile_rows :: "(str \<Rightarrow> str) \<Rightarrow> int \<Rightarrow> (str \<Rightarrow> str \<times> str) \<Rightarrow> schedule list \<Rightarrow> engine \<Rightarrow> engine" where
  "reconcile_rows scrubString now fresh [] e = e"
| "reconcile_rows scrubString now fresh (row # rows) e =
     reconcile_rows scrubString now fresh rows
       (if s_missed row = ''run-once'' then
          snd (dispatchScheduleRun now (fresh (s_id row)) (hydrateScheduleRow scrubString row) ''catch-up'' e)
        else case calculateNextRunAt (s_timing row) (Some now) of
            Inr next_run \<Rightarrow> update_schedule (s_id row) (\<lambda>r. r\<lparr>s_nextRunAt := next_run, s_updatedAt := now\<rparr>) e
          | Inl err \<Rightarrow> update_schedule (s_id row) (\<lambda>r. r\<lparr>s_status := ''error'', s_nextRunAt := None, s_updatedAt := now\<rparr>) e)"

definition reconcileOnStartup :: "(str \<Rightarrow> str) \<Rightarrow> int \<Rightarrow> (str \<Rightarrow> str \<times> str) \<Rightarrow> engine \<Rightarrow> engine" where
  "reconcileOnStartup scrubString now fresh e =
     reconcile_rows scrubString now fresh (filter (is_due now) (map snd (e_schedules e))) e"

definition start_engine :: "(str \<Rightarrow> str) \<Rightarrow> int \<Rightarrow> (str \<Rightarrow> str \<times> str) \<Rightarrow> engine \<Rightarrow> engine" where
  "start_engine scrubString now fresh e =
     (if e_running e then e else reconcileOnStartup scrubString now fresh (e\<lparr>e_running := True\<rparr>))"

definition stop_engine :: "engine \<Rightarrow> engine" where
  "stop_engine e = e\<lparr>e_running := False\<rparr>"

section \<open>Management\<close>

datatype create_error =
    InvalidScheduleId | InvalidScheduleName | InvalidType | InvalidConcurrencyPolicy | InvalidMissedRunPolicy
  | CronError cron_error | InvalidIntervalMs | BadScheduleTarget target_error | InsertFailed

text \<open>The shape of a target specification; nodes and capabilities are checked when a job is submitted.\<close>

definition validateTarget :: "jsval \<Rightarrow> target_error option" where
  "validateTarget targetSpec =
     (case targetSpec of
        JStr s \<Rightarrow> if s = ''*'' then Some WildcardProhibited else Some InvalidTargetSpec
      | JObj ps \<Rightarrow>
          let mode = js_get ''mode'' ps; nodeIds = js_get ''nodeIds'' ps in
          if mode = JStr ''all'' \<or> mode = JStr ''broadcast'' \<or> nodeIds = JStr ''*'' then Some WildcardProhibited
          else if mode = JStr ''explicit'' then
            (case nodeIds of JArr xs \<Rightarrow> if xs = [] then Some EmptyTargetSet else None | _ \<Rightarrow> Some EmptyTargetSet)
          else if mode = JStr ''capability'' then
            (case js_get ''capability'' ps of
               JStr c \<Rightarrow> if js_trim c = [] then Some InvalidCapabilitySpec else None
             | _ \<Rightarrow> Some InvalidCapabilitySpec)
          else Some UnknownTargetMode
      | _ \<Rightarrow> Some InvalidTargetSpec)"

definition check_timing :: "timing \<Rightarrow> create_error option" where
  "check_timing tm =
     (if scheduleType tm = ''cron'' then
        (case parseCronExpression (cronExpression tm) of Inl e \<Rightarrow> Some (CronError e) | Inr _ \<Rightarrow> None)
      else if scheduleType tm = ''interval'' then
        (case intervalMs tm of
           None \<Rightarrow> Some InvalidIntervalMs
         | Some r \<Rightarrow> if snd (quotient_of r) \<noteq> 1 \<or> r < 1000 then Some InvalidIntervalMs else None)
      else None)"

definition falsy :: "jsval \<Rightarrow> bool" where
  "falsy v = (v \<in> {JUndefined, JNull, JBool False, JNum 0, JStr []})"

record create_request =
  c_id :: jsval
  c_name :: jsval
  c_timing :: timing
  c_taskType :: "str option"
  c_payload :: jsval
  c_targetSpec :: jsval
  c_caps :: "str list"
  c_timeoutMs :: jsval
  c_concurrency :: str
  c_missed :: str
  c_maxRuns :: "rat option"
  c_createdBy :: str

definition stored_timing :: "timing \<Rightarrow> timing" where
  "stored_timing tm = tm\<lparr>cronExpression :=
     (case cronExpression tm of None \<Rightarrow> None | Some s \<Rightarrow> if s = [] then None else Some (js_trim s))\<rparr>"

text \<open>The checks of \<open>createSchedule\<close>, and the row they lead to.\<close>

definition check_create :: "int \<Rightarrow> str \<Rightarrow> create_request \<Rightarrow> create_error + schedule" where
  "check_create now freshId q =
     (case (case c_id q of JNull \<Rightarrow> Some freshId | JUndefined \<Rightarrow> Some freshId
            | JStr s \<Rightarrow> if schedule_id_pattern s then Some s else None
            | _ \<Rightarrow> None) of
        None \<Rightarrow> Inl InvalidScheduleId
      | Some i \<Rightarrow>
      case (case c_name q of JStr s \<Rightarrow> if js_trim s = [] then None else Some (js_trim s) | _ \<Rightarrow> None) of
        None \<Rightarrow> Inl InvalidScheduleName
      | Some nm \<Rightarrow>
      if scheduleType (c_timing q) \<notin> {''cron'', ''interval'', ''once''} then Inl InvalidType
      else if c_concurrency q \<notin> {''forbid'', ''allow''} then Inl InvalidConcurrencyPolicy
      else if c_missed q \<notin> {''skip'', ''run-once''} then Inl InvalidMissedRunPolicy
      else case check_timing (c_timing q) of Some err \<Rightarrow> Inl err | None \<Rightarrow>
      case validateTarget (c_targetSpec q) of Some err \<Rightarrow> Inl (BadScheduleTarget err) | None \<Rightarrow>
      case calculateNextRunAt (c_timing q) (Some now) of
        Inl err \<Rightarrow> Inl (CronError err)
      | Inr next_run \<Rightarrow>
      case c_taskType q of None \<Rightarrow> Inl InsertFailed | Some tt \<Rightarrow>
      case json_clone (if falsy (c_payload q) then JObj [] else c_payload q) of None \<Rightarrow> Inl InsertFailed | Some pl \<Rightarrow>
      case json_clone (c_targetSpec q) of None \<Rightarrow> Inl InsertFailed | Some spec \<Rightarrow>
        Inr \<lparr>s_id = i, s_name = nm, s_timing = stored_timing (c_timing q), s_taskType = tt, s_payload = pl, s_targetSpec = spec,
             s_caps = c_caps q, s_timeoutMs = c_timeoutMs q, s_status = ''active'', s_concurrency = c_concurrency q,
             s_missed = c_missed q, s_createdAt = now, s_updatedAt = now, s_createdBy = c_createdBy q,
             s_nextRunAt = next_run, s_lastRunAt = None, s_totalRuns = 0, s_maxRuns = c_maxRuns q\<rparr>)"

definition createSchedule :: "int \<Rightarrow> str \<Rightarrow> create_request \<Rightarrow> engine \<Rightarrow> (create_error + str) \<times> engine" where
  "createSchedule now freshId q e =
     (case check_create now freshId q of
        Inl err \<Rightarrow> (Inl err, e)
      | Inr row \<Rightarrow>
          if map_of (e_schedules e) (s_id row) \<noteq> None then (Inl InsertFailed, e)
          else (Inr (s_id row), e\<lparr>e_schedules := AList.update (s_id row) row (e_schedules e)\<rparr>))"

definition getSchedule :: "(str \<Rightarrow> str) \<Rightarrow> str \<Rightarrow> engine \<Rightarrow> schedule option" where
  "getSchedule scrubString i e = map_option (hydrateScheduleRow scrubString) (map_of (e_schedules e) i)"

definition listSchedules :: "(str \<Rightarrow> str) \<Rightarrow> engine \<Rightarrow> schedule list" where
  "listSchedules scrubString e =
     map (hydrateScheduleRow scrubString) (sort_key (\<lambda>r. - iso_key (s_createdAt r)) (map snd (e_schedules e)))"

definition pauseSchedule :: "int \<Rightarrow> str \<Rightarrow> engine \<Rightarrow> bool \<times> engine" where
  "pauseSchedule now i e =
     (case map_of (e_schedules e) i of
        None \<Rightarrow> (False, e)
      | Some r \<Rightarrow> if s_status r \<noteq> ''active'' then (False, e)
          else (True, update_schedule i (\<lambda>r. r\<lparr>s_status := ''paused'', s_updatedAt := now\<rparr>) e))"

definition resumeSchedule :: "int \<Rightarrow> str \<Rightarrow> engine \<Rightarrow> (cron_error + bool) \<times> engine" where
  "resumeSchedule now i e =
     (case map_of (e_schedules e) i of
        None \<Rightarrow> (Inr False, e)
      | Some r \<Rightarrow> if s_status r \<noteq> ''paused'' then (Inr False, e)
          else (case calculateNextRunAt (s_timing r) (Some now) of
              Inl err \<Rightarrow> (Inl err, e)
            | Inr next_run \<Rightarrow> (Inr True,
                update_schedule i (\<lambda>r. r\<lparr>s_status := ''active'', s_nextRunAt := next_run, s_updatedAt := now\<rparr>) e)))"

text \<open>Deleting a schedule deletes its runs with it (\<open>ON DELETE CASCADE\<close>, foreign keys on).\<close>

definition deleteSchedule :: "str \<Rightarrow> engine \<Rightarrow> bool \<times> engine" where
  "deleteSchedule i e =
     (case map_of (e_schedules e) i of
        None \<Rightarrow> (False, e)
      | Some r \<Rightarrow> (True, e\<lparr>e_schedules := AList.delete i (e_schedules e),
                          e_runs := filter (\<lambda>(k, r). run_schedule r \<noteq> i) (e_runs e)\<rparr>))"

definition listScheduleRuns :: "str \<Rightarrow> int \<Rightarrow> engine \<Rightarrow> (str \<times> run) list" where
  "listScheduleRuns i limit e =
     take (nat (min 200 (max 1 limit)))
       (sort_key (\<lambda>(k, r). - iso_key (run_triggeredAt r)) (filter (\<lambda>(k, r). run_schedule r = i) (e_runs e)))"

text \<open>The trigger route of \<^verbatim>\<open>server.mjs\<close>: one manual dispatch, whatever the status of the schedule.\<close>

definition trigger_schedule :: "(str \<Rightarrow> str) \<Rightarrow> int \<Rightarrow> str \<times> str \<Rightarrow> str \<Rightarrow> engine \<Rightarrow> (str \<times> str) option \<times> engine" where
  "trigger_schedule scrubString now fresh i e =
     (case getSchedule scrubString i e of
        None \<Rightarrow> (None, e)
      | Some sched \<Rightarrow> dispatchScheduleRun now fresh sched ''manual'' e)"

section \<open>Steps\<close>

datatype engine_op =
    Create int str create_request
  | Pause int str
  | Resume int str
  | Remove str
  | Start int "str \<Rightarrow> str \<times> str"
  | Stop
  | Evaluate int "str \<Rightarrow> str \<times> str"
  | Trigger int "str \<times> str" str
  | Submit str jsval jsval jsval jsval "str list" jsval str
  | JobStep str job_event
  | CancelJob str
  | RecordOutcome str

fun engine_step :: "(str \<Rightarrow> str) \<Rightarrow> engine_op \<Rightarrow> engine \<Rightarrow> engine" where
  "engine_step scr (Create now freshId q) e = snd (createSchedule now freshId q e)"
| "engine_step scr (Pause now i) e = snd (pauseSchedule now i e)"
| "engine_step scr (Resume now i) e = snd (resumeSchedule now i e)"
| "engine_step scr (Remove i) e = snd (deleteSchedule i e)"
| "engine_step scr (Start now fresh) e = start_engine scr now fresh e"
| "engine_step scr Stop e = stop_engine e"
| "engine_step scr (Evaluate now fresh) e = evaluateDueSchedules scr now fresh e"
| "engine_step scr (Trigger now fresh i) e = snd (trigger_schedule scr now fresh i e)"
| "engine_step scr (Submit freshId jid tt pl spec caps tmo oper) e =
     e\<lparr>e_fleet := snd (submitJob freshId jid tt pl spec caps tmo oper (e_fleet e))\<rparr>"
| "engine_step scr (JobStep jid ev) e = e\<lparr>e_fleet := with_job jid (job_step ev) (e_fleet e)\<rparr>"
| "engine_step scr (CancelJob jid) e = e\<lparr>e_fleet := snd (cancelJob jid (e_fleet e))\<rparr>"
| "engine_step scr (RecordOutcome runId) e = record_outcome runId e"

definition engine_run :: "(str \<Rightarrow> str) \<Rightarrow> engine_op list \<Rightarrow> engine \<Rightarrow> engine" where
  "engine_run scr ops e = foldl (\<lambda>e op. engine_step scr op e) e ops"

section \<open>The invariant of the engine\<close>

definition auto_run :: "str \<Rightarrow> run \<Rightarrow> bool" where
  "auto_run i r \<longleftrightarrow> run_schedule r = i \<and> run_trigger r \<noteq> ''manual'' \<and> run_status r \<noteq> ''skipped''"

definition auto_runs :: "str \<Rightarrow> engine \<Rightarrow> nat" where
  "auto_runs i e = length (filter (\<lambda>(k, r). auto_run i r) (e_runs e))"

definition row_ok :: "str \<Rightarrow> nat \<Rightarrow> schedule \<Rightarrow> bool" where
  "row_ok i n row \<longleftrightarrow> s_id row = i \<and> n \<le> s_totalRuns row \<and>
     (\<forall>m. s_maxRuns row = Some m \<longrightarrow> m > 0 \<longrightarrow> of_nat n < m + 1 \<and>
        (s_status row \<in> {''active'', ''paused''} \<longrightarrow> of_nat (s_totalRuns row) < m))"

definition run_ok :: "engine \<Rightarrow> run \<Rightarrow> bool" where
  "run_ok e r \<longleftrightarrow> map_of (e_schedules e) (run_schedule r) \<noteq> None \<and> (run_jobId r \<noteq> None \<longrightarrow> run_status r \<noteq> ''skipped'')"

definition engine_inv :: "engine \<Rightarrow> bool" where
  "engine_inv e \<longleftrightarrow> omap_wf (e_schedules e) \<and> omap_wf (e_runs e) \<and>
     (\<forall>i row. map_of (e_schedules e) i = Some row \<longrightarrow> row_ok i (auto_runs i e) row) \<and>
     (\<forall>k r. map_of (e_runs e) k = Some r \<longrightarrow> run_ok e r)"

lemma engine_inv_cong:
  "e_schedules e' = e_schedules e \<Longrightarrow> e_runs e' = e_runs e \<Longrightarrow> engine_inv e' = engine_inv e"
  by (simp add: engine_inv_def auto_runs_def run_ok_def)

lemma engine_inv_row:
  "engine_inv e \<Longrightarrow> map_of (e_schedules e) i = Some row \<Longrightarrow> row_ok i (auto_runs i e) row"
  by (simp add: engine_inv_def)

lemma update_schedule_simps [simp]:
  "e_runs (update_schedule i g e) = e_runs e" "e_fleet (update_schedule i g e) = e_fleet e"
  "e_running (update_schedule i g e) = e_running e" "auto_runs j (update_schedule i g e) = auto_runs j e"
  by (simp_all add: update_schedule_def auto_runs_def split: option.split)

lemma update_schedule_row:
  "map_of (e_schedules (update_schedule i g e)) j =
     (if j = i then map_option g (map_of (e_schedules e) j) else map_of (e_schedules e) j)"
  by (auto simp: update_schedule_def map_of_update split: option.splits)

lemma update_schedule_wf: "omap_wf (e_schedules e) \<Longrightarrow> omap_wf (e_schedules (update_schedule i g e))"
  by (simp add: update_schedule_def split: option.split)

lemma engine_inv_update:
  assumes "engine_inv e" "\<And>row. map_of (e_schedules e) i = Some row \<Longrightarrow> row_ok i (auto_runs i e) (g row)"
  shows "engine_inv (update_schedule i g e)"
proof -
  have "run_ok (update_schedule i g e) r \<longleftrightarrow> run_ok e r" for r
    by (auto simp: run_ok_def update_schedule_row)
  then show ?thesis
    using assms by (auto simp: engine_inv_def update_schedule_row update_schedule_wf simp del: not_None_eq)
qed

lemma engine_inv_update1:
  assumes "engine_inv e" "map_of (e_schedules e) i = Some row" "row_ok i (auto_runs i e) (g row)"
  shows "engine_inv (update_schedule i g e)"
  using assms by (intro engine_inv_update) simp_all

lemma insert_runD:
  assumes "insert_run k r e = Some e1"
  shows "map_of (e_runs e) k = None" "map_of (e_schedules e) (run_schedule r) \<noteq> None"
    "e1 = e\<lparr>e_runs := e_runs e @ [(k, r)]\<rparr>"
proof -
  show n: "map_of (e_runs e) k = None" and "map_of (e_schedules e) (run_schedule r) \<noteq> None"
    using assms by (auto simp: insert_run_def split: if_splits)
  show "e1 = e\<lparr>e_runs := e_runs e @ [(k, r)]\<rparr>"
    using assms update_absent [of k "e_runs e" r] n by (auto simp: insert_run_def map_of_eq_None_iff split: if_splits)
qed

lemma auto_runs_insert:
  "insert_run k r e = Some e1 \<Longrightarrow> auto_runs i e1 = auto_runs i e + (if auto_run i r then 1 else 0)"
  using insert_runD(3) [of k r e e1] by (simp add: auto_runs_def)

lemma engine_inv_insert_update:
  assumes inv: "engine_inv e" and ins: "insert_run k r e = Some e1" and i: "run_schedule r = i"
    and row: "map_of (e_schedules e) i = Some row" and job: "run_jobId r \<noteq> None \<longrightarrow> run_status r \<noteq> ''skipped''"
    and ok: "row_ok i (auto_runs i e + (if auto_run i r then 1 else 0)) (g row)"
  shows "engine_inv (update_schedule i g e1)"
proof -
  let ?e = "update_schedule i g e1"
  have e1: "e1 = e\<lparr>e_runs := e_runs e @ [(k, r)]\<rparr>" and nk: "map_of (e_runs e) k = None"
    by (rule insert_runD [OF ins])+
  have other: "auto_runs j e1 = auto_runs j e" if "j \<noteq> i" for j
    using auto_runs_insert [OF ins, of j] that i by (simp add: auto_run_def)
  have "omap_wf (e_schedules ?e)" using inv by (simp add: engine_inv_def e1 update_schedule_wf)
  moreover have "omap_wf (e_runs ?e)"
    using inv nk by (simp add: engine_inv_def e1 map_of_eq_None_iff)
  moreover have "row_ok j (auto_runs j ?e) row'" if "map_of (e_schedules ?e) j = Some row'" for j row'
  proof (cases "j = i")
    case True
    with that row have "row' = g row" by (simp add: update_schedule_row e1)
    with ok True auto_runs_insert [OF ins, of i] show ?thesis by simp
  next
    case False
    with that have "map_of (e_schedules e) j = Some row'" by (simp add: update_schedule_row e1)
    with engine_inv_row [OF inv this] other [OF False] show ?thesis by simp
  qed
  moreover have "run_ok ?e r'" if "map_of (e_runs ?e) k' = Some r'" for k' r'
  proof -
    have "(k', r') \<in> set (e_runs e) \<or> r' = r" using map_of_SomeD [OF that] by (auto simp: e1)
    then have "run_ok e r'"
    proof
      assume "(k', r') \<in> set (e_runs e)"
      then have "map_of (e_runs e) k' = Some r'" using inv by (simp add: engine_inv_def)
      then show ?thesis using inv by (simp add: engine_inv_def)
    next
      assume "r' = r"
      then show ?thesis using insert_runD(2) [OF ins] job by (simp add: run_ok_def)
    qed
    then show ?thesis by (auto simp: run_ok_def update_schedule_row e1)
  qed
  ultimately show ?thesis by (simp add: engine_inv_def)
qed

subsection \<open>Dispatch\<close>

text \<open>A schedule as a caller read it: the stored row, its payload redacted.\<close>

definition snapshot_of :: "schedule \<Rightarrow> schedule \<Rightarrow> bool" where
  "snapshot_of sched row \<longleftrightarrow> (\<exists>p. sched = row\<lparr>s_payload := p\<rparr>)"

lemma snapshot_fields:
  "snapshot_of sched row \<Longrightarrow> s_id sched = s_id row \<and> s_status sched = s_status row \<and> s_totalRuns sched = s_totalRuns row
    \<and> s_maxRuns sched = s_maxRuns row \<and> s_concurrency sched = s_concurrency row \<and> s_timing sched = s_timing row"
  by (auto simp: snapshot_of_def)

lemma snapshot_hydrate: "snapshot_of (hydrateScheduleRow scr row) row"
  by (auto simp: snapshot_of_def hydrateScheduleRow_def)

text \<open>The three ways a dispatch ends: an insert threw, skipped by the concurrency policy, or submitted and counted.\<close>

lemma dispatch_cases:
  obtains (threw) e' where "dispatchScheduleRun now fresh sched trigger e = (None, e')"
      "e_schedules e' = e_schedules e" "e_runs e' = e_runs e"
      "e_fleet e' = e_fleet e \<or> e_fleet e' = snd (submit_run fresh sched (e_fleet e))"
  | (skipped) e1 st where "s_concurrency sched = ''forbid''" "hasActiveJobForSchedule (s_id sched) (e_fleet e)"
      "insert_run (fst fresh) (skipped_run now sched trigger) e = Some e1"
      "st = next_state now sched None"
      "dispatchScheduleRun now fresh sched trigger e = (Some (fst fresh, ''skipped''),
         update_schedule (s_id sched) (\<lambda>r. r\<lparr>s_status := fst st, s_nextRunAt := snd st, s_updatedAt := now\<rparr>) e1)"
  | (sent) sub e1 st where
      "\<not> (s_concurrency sched = ''forbid'' \<and> hasActiveJobForSchedule (s_id sched) (e_fleet e))"
      "sub = submit_run fresh sched (e_fleet e)"
      "insert_run (fst fresh) (sent_run now sched trigger (fst sub)) (e\<lparr>e_fleet := snd sub\<rparr>) = Some e1"
      "st = next_state now sched (Some (Suc (s_totalRuns sched)))"
      "dispatchScheduleRun now fresh sched trigger e = (Some (fst fresh, run_status (sent_run now sched trigger (fst sub))),
         update_schedule (s_id sched) (\<lambda>r. r\<lparr>s_totalRuns := Suc (s_totalRuns sched), s_lastRunAt := Some now,
           s_nextRunAt := snd st, s_status := fst st, s_updatedAt := now\<rparr>) e1)"
proof (cases "s_concurrency sched = ''forbid'' \<and> hasActiveJobForSchedule (s_id sched) (e_fleet e)")
  case True
  show thesis
  proof (cases "insert_run (fst fresh) (skipped_run now sched trigger) e")
    case None
    with True show thesis by (intro threw [of e]) (simp_all add: dispatchScheduleRun_def)
  next
    case (Some e1)
    with True show thesis
      by (intro skipped [OF _ _ Some refl]) (simp_all add: dispatchScheduleRun_def Let_def)
  qed
next
  case False
  let ?sub = "submit_run fresh sched (e_fleet e)"
  show thesis
  proof (cases "insert_run (fst fresh) (sent_run now sched trigger (fst ?sub)) (e\<lparr>e_fleet := snd ?sub\<rparr>)")
    case None
    then show thesis
      by (intro threw [of "e\<lparr>e_fleet := snd ?sub\<rparr>"]) (simp_all add: dispatchScheduleRun_def Let_def False)
  next
    case (Some e1)
    then show thesis
      by (intro sent [OF False refl Some refl]) (simp add: dispatchScheduleRun_def Let_def False)
  qed
qed

lemma next_state_not_max: "fst (next_state now sched None) = ''error'' \<or> fst (next_state now sched None) = s_status sched"
  by (simp add: next_state_def split: sum.split)

lemma row_ok_skipped:
  assumes ok: "row_ok i n row" and snap: "snapshot_of sched row" and st: "st = next_state now sched None"
  shows "row_ok i n (row\<lparr>s_status := fst st, s_nextRunAt := snd st, s_updatedAt := now\<rparr>)"
proof -
  have "s_status sched = s_status row" using snapshot_fields [OF snap] by simp
  then have "fst st = ''error'' \<or> fst st = s_status row" using next_state_not_max [of now sched] st by simp
  then show ?thesis using ok by (elim disjE) (simp_all add: row_ok_def)
qed

lemma row_okI:
  assumes "s_id row = i" "n \<le> s_totalRuns row"
    and "\<And>m. s_maxRuns row = Some m \<Longrightarrow> m > 0 \<Longrightarrow> of_nat n < m + 1"
    and "\<And>m. s_maxRuns row = Some m \<Longrightarrow> m > 0 \<Longrightarrow> s_status row \<in> {''active'', ''paused''}
      \<Longrightarrow> of_nat (s_totalRuns row) < m"
  shows "row_ok i n row"
  using assms unfolding row_ok_def by blast

lemma row_ok_sent:
  assumes "row_ok i n row" "snapshot_of sched row" "st = next_state now sched (Some (Suc (s_totalRuns sched)))"
    and "k = 0 \<or> (k = 1 \<and> s_status row = ''active'')"
  shows "row_ok i (n + k) (row\<lparr>s_totalRuns := Suc (s_totalRuns sched), s_lastRunAt := Some now,
           s_nextRunAt := snd st, s_status := fst st, s_updatedAt := now\<rparr>)"
proof -
  have f: "s_totalRuns sched = s_totalRuns row" "s_maxRuns sched = s_maxRuns row" "s_status sched = s_status row"
    using snapshot_fields [OF assms(2)] by simp_all
  have n: "n + k \<le> Suc (s_totalRuns row)" using assms(1,4) by (auto simp: row_ok_def)
  have bound: "of_nat (n + k) < m + 1" if m: "s_maxRuns row = Some m" "m > 0" for m
  proof (cases "k = 0")
    case True
    with assms(1) m show ?thesis by (simp add: row_ok_def)
  next
    case False
    with assms m have "of_nat n \<le> (of_nat (s_totalRuns row) :: rat)" "of_nat (s_totalRuns row) < m" "k = 1"
      by (auto simp: row_ok_def)
    then show ?thesis by simp
  qed
  have left: "of_nat (Suc (s_totalRuns row)) < m"
    if "s_maxRuns row = Some m" "m > 0" "fst st \<in> {''active'', ''paused''}" for m
    using that assms(3) f by (auto simp: next_state_def reaches_max_def not_le split: if_splits sum.splits)
  have id: "s_id row = i" using assms(1) by (simp add: row_ok_def)
  show ?thesis (is "row_ok _ _ ?row")
  proof (rule row_okI)
    show "s_id ?row = i" using id by simp
    show "n + k \<le> s_totalRuns ?row" using n f by simp
    show "of_nat (n + k) < m + 1" if "s_maxRuns ?row = Some m" "m > 0" for m
      using bound [of m] that by simp
    show "of_nat (s_totalRuns ?row) < m"
      if "s_maxRuns ?row = Some m" "m > 0" "s_status ?row \<in> {''active'', ''paused''}" for m
    proof -
      have "s_maxRuns row = Some m" "fst st \<in> {''active'', ''paused''}" using that(1,3) by simp_all
      from left [OF this(1) that(2) this(2)] show ?thesis by (simp add: f del: of_nat_Suc)
    qed
  qed
qed

lemma dispatch_inv:
  assumes inv: "engine_inv e" and row: "map_of (e_schedules e) i = Some row" and snap: "snapshot_of sched row"
    and trig: "trigger = ''manual'' \<or> s_status row = ''active''"
  shows "engine_inv (snd (dispatchScheduleRun now fresh sched trigger e))"
proof (cases rule: dispatch_cases [of now fresh sched trigger e])
  case (threw e')
  with inv engine_inv_cong [of e' e] show ?thesis by simp
next
  case (skipped e1 st)
  have ok: "row_ok i (auto_runs i e) row" by (rule engine_inv_row [OF inv row])
  then have i: "s_id sched = i" using snapshot_fields [OF snap] by (simp add: row_ok_def)
  have "row_ok i (auto_runs i e) (row\<lparr>s_status := fst st, s_nextRunAt := snd st, s_updatedAt := now\<rparr>)"
    by (rule row_ok_skipped [OF ok snap skipped(4)])
  then have "engine_inv (update_schedule i (\<lambda>r. r\<lparr>s_status := fst st, s_nextRunAt := snd st, s_updatedAt := now\<rparr>) e1)"
    by (intro engine_inv_insert_update [OF inv skipped(3) _ row]) (simp_all add: skipped_run_def i auto_run_def)
  then show ?thesis using skipped(5) i by simp
next
  case (sent sub e1 st)
  have ok: "row_ok i (auto_runs i e) row" by (rule engine_inv_row [OF inv row])
  then have i: "s_id sched = i" using snapshot_fields [OF snap] by (simp add: row_ok_def)
  let ?e0 = "e\<lparr>e_fleet := snd sub\<rparr>"
  let ?k = "if auto_run i (sent_run now sched trigger (fst sub)) then 1 else 0 :: nat"
  let ?g = "\<lambda>r. r\<lparr>s_totalRuns := Suc (s_totalRuns sched), s_lastRunAt := Some now,
           s_nextRunAt := snd st, s_status := fst st, s_updatedAt := now\<rparr>"
  have k: "?k = 0 \<or> (?k = 1 \<and> s_status row = ''active'')"
    using trig by (auto simp: auto_run_def sent_run_def)
  have "row_ok i (auto_runs i e + ?k) (?g row)" by (rule row_ok_sent [OF ok snap sent(4) k])
  then have "row_ok i (auto_runs i ?e0 + ?k) (?g row)" by (simp add: auto_runs_def)
  then have "engine_inv (update_schedule i ?g e1)"
    using engine_inv_cong [of ?e0 e] inv row by (intro engine_inv_insert_update [OF _ sent(3)])
      (simp_all add: i sent_run_def split: sum.splits)
  then show ?thesis using sent(5) i by simp
qed

lemma dispatch_frame:
  assumes "j \<noteq> s_id sched"
  shows "map_of (e_schedules (snd (dispatchScheduleRun now fresh sched trigger e))) j = map_of (e_schedules e) j"
  by (cases rule: dispatch_cases [of now fresh sched trigger e])
    (use assms in \<open>auto simp: update_schedule_row dest: insert_runD(3)\<close>)

subsection \<open>Evaluation\<close>

text \<open>Rows a caller holds that are still the stored ones, each schedule at most once.\<close>

definition current_rows :: "schedule list \<Rightarrow> engine \<Rightarrow> bool" where
  "current_rows rows e \<longleftrightarrow> distinct (map s_id rows) \<and>
     (\<forall>row \<in> set rows. map_of (e_schedules e) (s_id row) = Some row \<and> s_status row = ''active'')"

lemma current_rowsD:
  assumes "current_rows (row # rows) e"
  shows "map_of (e_schedules e) (s_id row) = Some row" "s_status row = ''active''" "current_rows rows e"
    "\<And>r. r \<in> set rows \<Longrightarrow> s_id r \<noteq> s_id row"
proof -
  have d: "s_id row \<notin> s_id ` set rows" "distinct (map s_id rows)"
    and r: "\<forall>r \<in> set (row # rows). map_of (e_schedules e) (s_id r) = Some r \<and> s_status r = ''active''"
    using assms unfolding current_rows_def by simp_all
  show "map_of (e_schedules e) (s_id row) = Some row" "s_status row = ''active''" using r by simp_all
  show "current_rows rows e" using d(2) r unfolding current_rows_def by simp
  show "\<And>r. r \<in> set rows \<Longrightarrow> s_id r \<noteq> s_id row" using d(1) by (metis image_eqI)
qed

lemma current_rows_frame:
  assumes "current_rows rows e" "\<And>r. r \<in> set rows \<Longrightarrow> s_id r \<noteq> i"
    and "\<And>j. j \<noteq> i \<Longrightarrow> map_of (e_schedules e') j = map_of (e_schedules e) j"
  shows "current_rows rows e'"
  using assms by (simp add: current_rows_def)

lemma current_rows_dispatch:
  assumes "current_rows (row # rows) e"
  shows "current_rows rows (snd (dispatchScheduleRun now fresh (hydrateScheduleRow scr row) trigger e))"
proof (rule current_rows_frame [where i = "s_id row" and e = e])
  show "current_rows rows e" "\<And>r. r \<in> set rows \<Longrightarrow> s_id r \<noteq> s_id row"
    using current_rowsD [OF assms] by auto
  show "map_of (e_schedules (snd (dispatchScheduleRun now fresh (hydrateScheduleRow scr row) trigger e))) j = map_of (e_schedules e) j"
    if "j \<noteq> s_id row" for j
    using that dispatch_frame [of j "hydrateScheduleRow scr row"] by (simp add: hydrateScheduleRow_def)
qed

lemma dispatch_all_inv:
  "engine_inv e \<Longrightarrow> current_rows rows e \<Longrightarrow> engine_inv (dispatch_all scr now fresh rows e)"
proof (induction rows arbitrary: e)
  case (Cons row rows)
  note cur = current_rowsD [OF Cons.prems(2)]
  have "engine_inv (snd (dispatchScheduleRun now (fresh (s_id row)) (hydrateScheduleRow scr row) ''scheduled'' e))"
    by (rule dispatch_inv [OF Cons.prems(1) cur(1) snapshot_hydrate disjI2 [OF cur(2)]])
  with Cons.IH current_rows_dispatch [OF Cons.prems(2)] show ?case
    by (simp add: Let_def split: option.split)
qed simp

lemma reconcile_rows_inv:
  "engine_inv e \<Longrightarrow> current_rows rows e \<Longrightarrow> engine_inv (reconcile_rows scr now fresh rows e)"
proof (induction rows arbitrary: e)
  case (Cons row rows)
  note cur = current_rowsD [OF Cons.prems(2)]
  define e1 where "e1 = (if s_missed row = ''run-once'' then
      snd (dispatchScheduleRun now (fresh (s_id row)) (hydrateScheduleRow scr row) ''catch-up'' e)
    else case calculateNextRunAt (s_timing row) (Some now) of
        Inr next_run \<Rightarrow> update_schedule (s_id row) (\<lambda>r. r\<lparr>s_nextRunAt := next_run, s_updatedAt := now\<rparr>) e
      | Inl err \<Rightarrow> update_schedule (s_id row) (\<lambda>r. r\<lparr>s_status := ''error'', s_nextRunAt := None, s_updatedAt := now\<rparr>) e)"
  have ok: "row_ok (s_id row) (auto_runs (s_id row) e) row" by (rule engine_inv_row [OF Cons.prems(1) cur(1)])
  have "engine_inv e1"
  proof (cases "s_missed row = ''run-once''")
    case True
    with dispatch_inv [OF Cons.prems(1) cur(1) snapshot_hydrate disjI2 [OF cur(2)]] show ?thesis by (simp add: e1_def)
  next
    case False
    show ?thesis
    proof (cases "calculateNextRunAt (s_timing row) (Some now)")
      case (Inl err)
      have "row_ok (s_id row) (auto_runs (s_id row) e) (row\<lparr>s_status := ''error'', s_nextRunAt := None, s_updatedAt := now\<rparr>)"
        using ok by (simp add: row_ok_def)
      then show ?thesis
        using False Inl cur(1) by (simp add: e1_def engine_inv_update1 [OF Cons.prems(1) cur(1)])
    next
      case (Inr next_run)
      have "row_ok (s_id row) (auto_runs (s_id row) e) (row\<lparr>s_nextRunAt := next_run, s_updatedAt := now\<rparr>)"
        using ok by (simp add: row_ok_def)
      then show ?thesis
        using False Inr cur(1) by (simp add: e1_def engine_inv_update1 [OF Cons.prems(1) cur(1)])
    qed
  qed
  moreover have "current_rows rows e1"
  proof (cases "s_missed row = ''run-once''")
    case True
    with current_rows_dispatch [OF Cons.prems(2)] show ?thesis by (simp add: e1_def)
  next
    case False
    then show ?thesis
      using current_rows_frame [OF cur(3,4), of e1] by (simp add: e1_def update_schedule_row split: sum.splits)
  qed
  ultimately show ?case using Cons.IH by (simp add: e1_def)
qed simp

lemma engine_ids:
  assumes "engine_inv e"
  shows "map s_id (map snd (e_schedules e)) = map fst (e_schedules e)"
proof -
  have "s_id row = i" if "(i, row) \<in> set (e_schedules e)" for i row
    using assms that by (auto simp: engine_inv_def row_ok_def)
  then show ?thesis by auto
qed

lemma current_rows_stored:
  assumes inv: "engine_inv e" and "\<And>row. row \<in> set rows \<Longrightarrow> row \<in> snd ` set (e_schedules e) \<and> is_due now row"
    and "distinct (map s_id rows)"
  shows "current_rows rows e"
proof -
  have "map_of (e_schedules e) (s_id row) = Some row" if "row \<in> snd ` set (e_schedules e)" for row
  proof -
    from that obtain i where i: "map_of (e_schedules e) i = Some row" using inv by (auto simp: engine_inv_def)
    with engine_inv_row [OF inv i] show ?thesis by (simp add: row_ok_def)
  qed
  with assms show ?thesis by (simp add: current_rows_def is_due_def)
qed

lemma distinct_ids_sort: "distinct (map f (sort_key g xs)) = distinct (map f xs)"
  using mset_eq_imp_distinct_iff [of "map f (sort_key g xs)" "map f xs"] by simp

lemma due_ids:
  assumes "engine_inv e"
  shows "distinct (map s_id (filter P (map snd (e_schedules e))))"
  using assms engine_ids [OF assms] by (metis distinct_map_filter engine_inv_def)

lemma current_due:
  assumes "engine_inv e"
  shows "current_rows (due_rows now e) e" "current_rows (filter (is_due now) (map snd (e_schedules e))) e"
proof -
  show "current_rows (due_rows now e) e"
  proof (rule current_rows_stored [OF assms])
    show "distinct (map s_id (due_rows now e))"
      using due_ids [OF assms] distinct_ids_sort distinct_take by (metis due_rows_def take_map)
  qed (auto simp: due_rows_def dest!: in_set_takeD)
  show "current_rows (filter (is_due now) (map snd (e_schedules e))) e"
    by (rule current_rows_stored [OF assms _ due_ids [OF assms]]) auto
qed

subsection \<open>Every operation keeps it\<close>

lemma auto_runs_unknown:
  assumes "engine_inv e" "map_of (e_schedules e) i = None"
  shows "auto_runs i e = 0"
proof -
  have "run_schedule r \<noteq> i" if "(k, r) \<in> set (e_runs e)" for k r
  proof -
    have "map_of (e_runs e) k = Some r" using assms(1) that by (simp add: engine_inv_def)
    then have "run_ok e r" using assms(1) by (simp add: engine_inv_def)
    with assms(2) show ?thesis unfolding run_ok_def by metis
  qed
  then show ?thesis by (auto simp: auto_runs_def auto_run_def filter_empty_conv)
qed

lemma check_create_row:
  "check_create now freshId q = Inr row \<Longrightarrow> s_totalRuns row = 0 \<and> s_status row = ''active'' \<and> s_concurrency row = c_concurrency q"
  unfolding check_create_def guard_simps by (elim exE conjE) (simp only: sum.inject, clarsimp)

lemma create_inv: "engine_inv e \<Longrightarrow> engine_inv (snd (createSchedule now freshId q e))"
proof (cases "check_create now freshId q")
  case (Inl err)
  then show "engine_inv e \<Longrightarrow> ?thesis" by (simp add: createSchedule_def)
next
  case (Inr row)
  assume inv: "engine_inv e"
  show ?thesis
  proof (cases "map_of (e_schedules e) (s_id row)")
    case None
    have "row_ok (s_id row) 0 row" using check_create_row [OF Inr] by (intro row_okI) simp_all
    moreover have "auto_runs (s_id row) e = 0" by (rule auto_runs_unknown [OF inv None])
    moreover have "auto_runs j (e\<lparr>e_schedules := ss\<rparr>) = auto_runs j e" for j ss by (simp add: auto_runs_def)
    moreover have "snd (createSchedule now freshId q e) = e\<lparr>e_schedules := AList.update (s_id row) row (e_schedules e)\<rparr>"
      using Inr None by (simp add: createSchedule_def)
    moreover have "run_ok (e\<lparr>e_schedules := AList.update (s_id row) row (e_schedules e)\<rparr>) r" if "run_ok e r" for r
      using that by (auto simp: run_ok_def map_of_update)
    ultimately show ?thesis
      using inv by (simp add: engine_inv_def map_of_update)
  next
    case (Some r)
    with Inr inv show ?thesis by (simp add: createSchedule_def)
  qed
qed

lemma delete_inv: "engine_inv e \<Longrightarrow> engine_inv (snd (deleteSchedule i e))"
proof (cases "map_of (e_schedules e) i")
  case None
  then show "engine_inv e \<Longrightarrow> ?thesis" by (simp add: deleteSchedule_def)
next
  case (Some row)
  assume inv: "engine_inv e"
  let ?e = "e\<lparr>e_schedules := AList.delete i (e_schedules e), e_runs := filter (\<lambda>(k, r). run_schedule r \<noteq> i) (e_runs e)\<rparr>"
  have "auto_runs j ?e = auto_runs j e" if "j \<noteq> i" for j
    using that by (auto simp: auto_runs_def auto_run_def intro!: arg_cong [where f = length] filter_cong)
  moreover have "omap_wf (e_runs e)" using inv by (simp add: engine_inv_def)
  ultimately have "engine_inv ?e"
    using inv unfolding engine_inv_def
    by (auto simp: map_of_delete map_of_filter_wf run_ok_def split: if_splits option.splits)
  with Some show ?thesis by (simp add: deleteSchedule_def)
qed

lemma pause_inv: "engine_inv e \<Longrightarrow> engine_inv (snd (pauseSchedule now i e))"
  by (auto simp: pauseSchedule_def row_ok_def dest: engine_inv_row split: option.splits intro!: engine_inv_update)

lemma resume_inv: "engine_inv e \<Longrightarrow> engine_inv (snd (resumeSchedule now i e))"
  by (auto simp: resumeSchedule_def row_ok_def dest: engine_inv_row split: option.splits sum.splits intro!: engine_inv_update)

lemma job_status_text_not_skipped: "job_status_text s \<noteq> ''skipped''"
  by (cases s) (simp_all add: job_status_text_def)

lemma outcome_inv: "engine_inv e \<Longrightarrow> engine_inv (record_outcome k e)"
proof -
  assume inv: "engine_inv e"
  consider "record_outcome k e = e"
    | r and j :: job where "map_of (e_runs e) k = Some r" "run_jobId r \<noteq> None"
      "record_outcome k e = e\<lparr>e_runs := AList.update k (r\<lparr>run_status := job_status_text (j_status j), run_summary := Some (summ j)\<rparr>) (e_runs e)\<rparr>"
  proof (cases "\<exists>r jid j. map_of (e_runs e) k = Some r \<and> run_jobId r = Some jid \<and> map_of (jobs (e_fleet e)) jid = Some j \<and> j_done j")
    case True
    then obtain r jid j where "map_of (e_runs e) k = Some r" "run_jobId r = Some jid"
      "map_of (jobs (e_fleet e)) jid = Some j" "j_done j" by blast
    then show thesis by (intro that(2) [where j = j and r = r]) (simp_all add: record_outcome_def update_run_def)
  next
    case False
    then show thesis by (intro that(1)) (auto simp: record_outcome_def split: option.splits)
  qed
  then show ?thesis
  proof cases
    case (2 r j)
    define r' where "r' = r\<lparr>run_status := job_status_text (j_status j), run_summary := Some (summ j)\<rparr>"
    let ?e = "e\<lparr>e_runs := AList.update k r' (e_runs e)\<rparr>"
    have wf: "omap_wf (e_runs e)" using inv by (simp add: engine_inv_def)
    have r: "run_ok e r" using inv 2(1) by (simp add: engine_inv_def)
    then have "auto_run i r' = auto_run i r" for i
      using 2(2) job_status_text_not_skipped by (simp add: auto_run_def r'_def run_ok_def)
    then have "auto_runs i ?e = auto_runs i e" for i
      using omap_count_update [OF wf 2(1), of "auto_run i" r'] by (simp add: auto_runs_def split: if_splits)
    moreover have "run_ok ?e r'" using r job_status_text_not_skipped by (simp add: run_ok_def r'_def)
    ultimately show ?thesis
      using inv 2(3) unfolding r'_def [symmetric] by (auto simp: engine_inv_def map_of_update run_ok_def)
  qed (use inv in simp)
qed

lemma engine_inv_step:
  assumes inv: "engine_inv e"
  shows "engine_inv (engine_step scr op e)"
proof (cases op)
  case (Start now fresh)
  let ?e = "e\<lparr>e_running := True\<rparr>"
  have "engine_inv ?e" using engine_inv_cong [of ?e e] inv by simp
  from reconcile_rows_inv [OF this current_due(2) [OF this]] inv Start show ?thesis
    by (simp add: start_engine_def reconcileOnStartup_def)
next
  case (Evaluate now fresh)
  then show ?thesis
    using dispatch_all_inv [OF inv current_due(1) [OF inv]] inv by (simp add: evaluateDueSchedules_def)
next
  case (Trigger now fresh i)
  then show ?thesis
    using inv dispatch_inv [OF inv _ snapshot_hydrate]
    by (auto simp: trigger_schedule_def getSchedule_def split: option.split)
next
  case Stop
  then show ?thesis using engine_inv_cong [of "stop_engine e" e] inv by (simp add: stop_engine_def)
next
  case (JobStep jid ev)
  then show ?thesis using engine_inv_cong [of "engine_step scr op e" e] inv by simp
next
  case (CancelJob jid)
  then show ?thesis using engine_inv_cong [of "engine_step scr op e" e] inv by simp
next
  case (Submit freshId jid tt pl spec caps tmo oper)
  then show ?thesis using engine_inv_cong [of "engine_step scr op e" e] inv by simp
qed (use inv create_inv pause_inv resume_inv delete_inv outcome_inv in simp_all)

lemma engine_inv_run: "engine_inv e \<Longrightarrow> engine_inv (engine_run scr ops e)"
  by (induction ops arbitrary: e) (simp_all add: engine_run_def engine_inv_step)

lemma engine_inv_new: "engine_inv (new_engine f)"
  by (simp add: engine_inv_def new_engine_def)

section \<open>Jobs of a schedule\<close>

definition active_for :: "str \<Rightarrow> job \<Rightarrow> bool" where
  "active_for i j \<longleftrightarrow> payload_field ''_fleetScheduleId'' j = JStr i \<and> (j_status j = JPending \<or> j_status j = JRunning)"

definition active_jobs :: "str \<Rightarrow> fleet \<Rightarrow> nat" where
  "active_jobs i f = length (filter (\<lambda>(k, j). active_for i j) (jobs f))"

lemma hasActive_iff: "hasActiveJobForSchedule i f \<longleftrightarrow> active_jobs i f \<noteq> 0"
  by (auto simp: hasActiveJobForSchedule_def active_jobs_def active_for_def list_ex_iff filter_empty_conv)

lemma filter_update_le:
  "length (filter (\<lambda>(k, v). P v) (AList.update k v m)) \<le> length (filter (\<lambda>(k, v). P v) m) + (if P v then 1 else 0)"
  by (induction m) auto

lemma filter_update_mono:
  "map_of m k = Some v \<Longrightarrow> (P v' \<Longrightarrow> P v) \<Longrightarrow>
    length (filter (\<lambda>(k, v). P v) (AList.update k v' m)) \<le> length (filter (\<lambda>(k, v). P v) m)"
  by (induction m) (auto split: if_splits)

lemma job_step_active: "active_for i (job_step ev j) \<Longrightarrow> active_for i j"
  by (cases ev) (auto simp: active_for_def payload_field_def worker_next_def settle_def cancel_job_def finish_job_def
      set_task_def count_status_def Let_def split: worker.splits outcome.splits if_splits jsval.splits)

lemma with_job_active: "active_jobs i (with_job jid (job_step ev) f) \<le> active_jobs i f"
  by (auto simp: with_job_def active_jobs_def job_step_active split: option.split intro!: filter_update_mono)

lemma cancelJob_active: "active_jobs i (snd (cancelJob jid f)) \<le> active_jobs i f"
proof -
  have "job_step Cancel = cancel_job" by (rule ext) simp
  then show ?thesis using with_job_active [of i jid Cancel f] by (simp add: cancelJob_def split: option.split)
qed

lemma filter_nodes_payload: "payload (fst (filter_nodes reg ns j)) = payload j"
  by (induction ns arbitrary: j) (auto simp: Let_def count_status_def set_task_def split: option.split)

lemma start_job_payload: "payload (start_job reg mc j) = payload j"
  by (simp add: start_job_def Let_def filter_nodes_payload)

text \<open>What a submission adds: nothing, or one job carrying the cloned payload.\<close>

lemma submit_cases:
  obtains (none) "snd (submitJob freshId jid tt pl spec caps tmo oper f) = f"
  | (added) k j ps where "pl = JObj ps" "payload j = JObj (clone_entries ps)"
      "snd (submitJob freshId jid tt pl spec caps tmo oper f) = f\<lparr>jobs := AList.update k j (jobs f)\<rparr>"
proof -
  have new: "\<exists>k j. payload j = c \<and> f\<lparr>jobs := AList.update i (start_job reg mc (make_job i' t c caps tm oper ns)) (jobs f)\<rparr>
      = f\<lparr>jobs := AList.update k j (jobs f)\<rparr>" for i reg mc i' t c tm ns
    by (rule exI [of _ i], rule exI [of _ "start_job reg mc (make_job i' t c caps tm oper ns)"])
      (simp add: start_job_payload make_job_def)
  have "snd (submitJob freshId jid tt pl spec caps tmo oper f) = f \<or> (\<exists>ps. pl = JObj ps \<and>
     (\<exists>k j. payload j = JObj (clone_entries ps) \<and>
       snd (submitJob freshId jid tt pl spec caps tmo oper f) = f\<lparr>jobs := AList.update k j (jobs f)\<rparr>))"
    unfolding submitJob_def Let_def
    by (simp add: new split: sum.split option.split jsval.split)
  then show thesis using none added by metis
qed

lemma clone_str: "json_clone v = Some (JStr s) \<Longrightarrow> v = JStr s"
  by (cases v) auto

lemma clone_entries_in: "(k, w) \<in> set (clone_entries ps) \<Longrightarrow> \<exists>v. (k, v) \<in> set ps \<and> json_clone v = Some w"
proof (induction ps)
  case (Cons p ps)
  obtain a b where p: "p = (a, b)" by (cases p)
  show ?case
  proof (cases "(k, w) \<in> set (clone_entries ps)")
    case True
    with Cons.IH show ?thesis by auto
  next
    case False
    with Cons.prems p have "k = a" "json_clone b = Some w" by (auto split: option.splits)
    with p show ?thesis by auto
  qed
qed simp

lemma clone_entries_get: "map_of ps k = Some v \<Longrightarrow> json_clone v = Some w \<Longrightarrow> map_of (clone_entries ps) k = Some w"
  by (induction ps) (auto split: option.splits if_splits)

lemma run_payload_id: "js_get ''_fleetScheduleId'' (clone_entries ps) = JStr (s_id sched)" if "run_payload sched runId = JObj ps"
proof -
  have "map_of ps ''_fleetScheduleId'' = Some (JStr (s_id sched))"
    using that by (auto simp: run_payload_def map_of_update)
  from clone_entries_get [OF this] show ?thesis by (simp add: js_get_def)
qed

definition over_inv :: "str \<Rightarrow> engine \<Rightarrow> bool" where
  "over_inv i e \<longleftrightarrow> active_jobs i (e_fleet e) \<le> 1 \<and>
     (\<forall>row. map_of (e_schedules e) i = Some row \<longrightarrow> s_concurrency row = ''forbid'')"

lemma submit_run_active:
  "active_jobs i (snd (submit_run fresh sched f)) \<le> active_jobs i f + (if s_id sched = i then 1 else 0)"
proof (cases rule: submit_cases [of "snd fresh" JNull "JStr (s_taskType sched)" "run_payload sched (fst fresh)" "s_targetSpec sched"
      "s_caps sched" "s_timeoutMs sched" "''schedule:'' @ s_createdBy sched" f])
  case none
  then show ?thesis by (simp add: submit_run_def)
next
  case (added k j ps)
  then have "active_for i j \<Longrightarrow> s_id sched = i"
    using run_payload_id [OF added(1)] by (simp add: active_for_def payload_field_def)
  then show ?thesis
    using filter_update_le [of "active_for i" k j "jobs f"] added(3)
    by (auto simp: submit_run_def active_jobs_def split: if_splits)
qed

lemma dispatch_over:
  assumes ov: "over_inv i e" and row: "map_of (e_schedules e) (s_id row) = Some row" and snap: "snapshot_of sched row"
  shows "over_inv i (snd (dispatchScheduleRun now fresh sched trigger e))"
proof -
  have ids: "s_id sched = s_id row" "s_concurrency sched = s_concurrency row" using snapshot_fields [OF snap] by simp_all
  have free: "active_jobs i (snd (submit_run fresh sched (e_fleet e))) \<le> 1"
    if "\<not> (s_concurrency sched = ''forbid'' \<and> hasActiveJobForSchedule (s_id sched) (e_fleet e))"
  proof (cases "s_id sched = i")
    case True
    with ov row ids have "s_concurrency sched = ''forbid''" by (auto simp: over_inv_def)
    with that True have "active_jobs i (e_fleet e) = 0" by (simp add: hasActive_iff)
    with submit_run_active [of i fresh sched "e_fleet e"] show ?thesis by (simp split: if_splits)
  next
    case False
    with submit_run_active [of i fresh sched "e_fleet e"] ov show ?thesis by (simp add: over_inv_def)
  qed
  show ?thesis
  proof (cases "s_concurrency sched = ''forbid'' \<and> hasActiveJobForSchedule (s_id sched) (e_fleet e)")
    case True
    then show ?thesis
      using ov
      by (auto dest!: insert_runD(3) simp: dispatchScheduleRun_def Let_def over_inv_def update_schedule_row split: option.split if_splits)
  next
    case False
    then show ?thesis
      using ov free [OF False]
      by (auto dest!: insert_runD(3) simp: dispatchScheduleRun_def Let_def over_inv_def update_schedule_row split: option.split if_splits)
  qed
qed

lemma dispatch_all_over:
  "over_inv i e \<Longrightarrow> current_rows rows e \<Longrightarrow> over_inv i (dispatch_all scr now fresh rows e)"
proof (induction rows arbitrary: e)
  case (Cons row rows)
  note cur = current_rowsD [OF Cons.prems(2)]
  have "over_inv i (snd (dispatchScheduleRun now (fresh (s_id row)) (hydrateScheduleRow scr row) ''scheduled'' e))"
    by (rule dispatch_over [OF Cons.prems(1) cur(1) snapshot_hydrate])
  with Cons.IH current_rows_dispatch [OF Cons.prems(2)] show ?case
    by (simp add: Let_def split: option.split)
qed simp

lemma over_inv_update:
  "over_inv i e \<Longrightarrow> (\<And>r. s_concurrency (g r) = s_concurrency r) \<Longrightarrow> over_inv i (update_schedule j g e)"
  by (auto simp: over_inv_def update_schedule_row split: if_splits)

lemma reconcile_rows_over:
  "over_inv i e \<Longrightarrow> current_rows rows e \<Longrightarrow> over_inv i (reconcile_rows scr now fresh rows e)"
proof (induction rows arbitrary: e)
  case (Cons row rows)
  note cur = current_rowsD [OF Cons.prems(2)]
  show ?case
  proof (cases "s_missed row = ''run-once''")
    case True
    then show ?thesis
      using Cons.IH [OF dispatch_over [OF Cons.prems(1) cur(1) snapshot_hydrate] current_rows_dispatch [OF Cons.prems(2)]]
      by simp
  next
    case False
    have "current_rows rows (update_schedule (s_id row) g e)" for g
      using current_rows_frame [OF cur(3,4), of "update_schedule (s_id row) g e"] by (simp add: update_schedule_row)
    with False Cons.IH over_inv_update [OF Cons.prems(1)] show ?thesis
      by (simp split: sum.split)
  qed
qed simp

text \<open>An operator's own submissions do not carry the id; a schedule under the id is created with \<open>forbid\<close>.\<close>

fun keeps_policy :: "str \<Rightarrow> engine_op \<Rightarrow> bool" where
  "keeps_policy i (Create now freshId q) =
     (c_concurrency q = ''forbid'' \<or> (case check_create now freshId q of Inl err \<Rightarrow> True | Inr row \<Rightarrow> s_id row \<noteq> i))"
| "keeps_policy i (Submit freshId jid tt pl spec caps tmo oper) =
     (case pl of JObj ps \<Rightarrow> (''_fleetScheduleId'', JStr i) \<notin> set ps | _ \<Rightarrow> True)"
| "keeps_policy i _ = True"

lemma over_inv_cong: "e_schedules e' = e_schedules e \<Longrightarrow> e_fleet e' = e_fleet e \<Longrightarrow> over_inv i e' = over_inv i e"
  by (simp add: over_inv_def)

lemma over_inv_step:
  assumes inv: "engine_inv e" and ov: "over_inv i e" and ok: "keeps_policy i op"
  shows "over_inv i (engine_step scr op e)"
proof (cases op)
  case (Create now freshId q)
  with ok ov check_create_row [of now freshId q] show ?thesis
    by (auto simp: createSchedule_def over_inv_def map_of_update split: sum.splits)
next
  case (Pause now j)
  then show ?thesis using ov over_inv_update [OF ov] by (simp add: pauseSchedule_def split: option.split)
next
  case (Resume now j)
  then show ?thesis using ov over_inv_update [OF ov] by (simp add: resumeSchedule_def split: option.split sum.split)
next
  case (Remove j)
  with ov show ?thesis by (auto simp: deleteSchedule_def over_inv_def map_of_delete split: option.split if_splits)
next
  case (Start now fresh)
  let ?e = "e\<lparr>e_running := True\<rparr>"
  have "engine_inv ?e" "over_inv i ?e" using engine_inv_cong [of ?e e] over_inv_cong [of ?e e] inv ov by simp_all
  with reconcile_rows_over [OF this(2) current_due(2) [OF this(1)]] ov Start show ?thesis
    by (simp add: start_engine_def reconcileOnStartup_def)
next
  case (Evaluate now fresh)
  then show ?thesis
    using dispatch_all_over [OF ov current_due(1) [OF inv]] ov by (simp add: evaluateDueSchedules_def)
next
  case (Trigger now fresh j)
  show ?thesis
  proof (cases "map_of (e_schedules e) j")
    case (Some row)
    then have "s_id row = j" using engine_inv_row [OF inv] by (simp add: row_ok_def)
    with Some dispatch_over [OF ov _ snapshot_hydrate, of row] Trigger show ?thesis
      by (simp add: trigger_schedule_def getSchedule_def)
  qed (use ov Trigger in \<open>simp add: trigger_schedule_def getSchedule_def\<close>)
next
  case (Submit freshId jid tt pl spec caps tmo oper)
  show ?thesis
  proof (cases rule: submit_cases [of freshId jid tt pl spec caps tmo oper "e_fleet e"])
    case none
    with ov Submit show ?thesis by (simp add: over_inv_def)
  next
    case (added k j ps)
    have "\<not> active_for i j"
    proof
      assume "active_for i j"
      then have "js_get ''_fleetScheduleId'' (clone_entries ps) = JStr i"
        using added(2) by (simp add: active_for_def payload_field_def)
      then have "(''_fleetScheduleId'', JStr i) \<in> set (clone_entries ps)"
        by (auto simp: js_get_def dest: map_of_SomeD split: option.splits)
      with ok Submit added(1) show False using clone_entries_in clone_str by fastforce
    qed
    then have "active_jobs i (snd (submitJob freshId jid tt pl spec caps tmo oper (e_fleet e))) \<le> active_jobs i (e_fleet e)"
      using filter_update_le [of "active_for i" k j "jobs (e_fleet e)"] added(3) by (simp add: active_jobs_def)
    with ov Submit show ?thesis by (simp add: over_inv_def)
  qed
next
  case (JobStep jid ev)
  with ov with_job_active [of i jid ev "e_fleet e"] show ?thesis by (simp add: over_inv_def)
next
  case (CancelJob jid)
  with ov cancelJob_active [of i jid "e_fleet e"] show ?thesis by (simp add: over_inv_def)
next
  case (RecordOutcome k)
  have "e_schedules (record_outcome k e) = e_schedules e" "e_fleet (record_outcome k e) = e_fleet e"
    by (simp_all add: record_outcome_def update_run_def split: option.split)
  with over_inv_cong [of "record_outcome k e" e i] ov RecordOutcome show ?thesis by simp
qed (use ov in \<open>simp_all add: over_inv_def stop_engine_def\<close>)

lemma over_inv_run:
  "engine_inv e \<Longrightarrow> over_inv i e \<Longrightarrow> list_all (keeps_policy i) ops \<Longrightarrow> over_inv i (engine_run scr ops e)"
  by (induction ops arbitrary: e) (simp_all add: engine_run_def engine_inv_step over_inv_step)

section \<open>The next run lies ahead\<close>

lemma calculate_future:
  assumes "calculateNextRunAt tm (Some now) = Inr (Some t)"
  shows "now < t"
proof (cases "scheduleType tm = ''cron''")
  case True
  then obtain p where "getNextCronOccurrence p (Some now) = Inr t"
    using assms by (auto simp: calculateNextRunAt_def split: sum.splits)
  then show ?thesis using cron_next_exact [where p = p and t = now] by simp
next
  case False
  then have "getNextIntervalOccurrence (intervalMs tm) (Some now) = Inr t"
    using assms by (auto simp: calculateNextRunAt_def split: sum.splits if_splits)
  then obtain r where r: "intervalMs tm = Some r" "snd (quotient_of r) = 1" "r \<ge> 1000" "t = now + fst (quotient_of r)"
    by (auto simp: getNextIntervalOccurrence_def split: option.splits if_splits)
  have "r = of_int (fst (quotient_of r))"
    using quotient_of_div [of r "fst (quotient_of r)" 1] r(2) by (metis div_by_1 of_int_1 prod.collapse)
  with r(3) have "(1000 :: rat) \<le> of_int (fst (quotient_of r))" by simp
  then have "1000 \<le> fst (quotient_of r)" by linarith
  with r(4) show ?thesis by simp
qed

text \<open>No next run of this engine lies beyond the year 9999, where ISO strings stop sorting by time.\<close>

definition in_range :: "int \<Rightarrow> schedule \<Rightarrow> bool" where
  "in_range now row \<longleftrightarrow> (case calculateNextRunAt (s_timing row) (Some now) of
     Inr (Some t) \<Rightarrow> t < 253402300800000 | _ \<Rightarrow> True)"

lemma next_state_not_due:
  assumes "now < 253402300800000" "in_range now sched"
    and "s_nextRunAt row = snd (next_state now sched c)"
  shows "\<not> is_due now row"
proof (cases "calculateNextRunAt (s_timing sched) (Some now)")
  case (Inr n)
  show ?thesis
  proof (cases n)
    case (Some t)
    with Inr have "now < t" using calculate_future by blast
    with assms Inr Some show ?thesis
      by (auto simp: is_due_def next_state_def in_range_def iso_key_def split: if_splits option.splits)
  qed (use assms Inr in \<open>auto simp: is_due_def next_state_def split: if_splits option.splits\<close>)
qed (use assms in \<open>auto simp: is_due_def next_state_def split: if_splits option.splits\<close>)

lemma dispatch_clears:
  assumes now: "now < 253402300800000" "in_range now row"
    and row: "map_of (e_schedules e) (s_id row) = Some row" and snap: "snapshot_of sched row"
    and fresh: "map_of (e_runs e) (fst fresh) = None"
  shows "fst (dispatchScheduleRun now fresh sched trigger e) \<noteq> None"
    and "\<exists>row'. map_of (e_schedules (snd (dispatchScheduleRun now fresh sched trigger e))) (s_id row) = Some row'
      \<and> \<not> is_due now row'"
    and "fst ` set (e_runs (snd (dispatchScheduleRun now fresh sched trigger e))) = insert (fst fresh) (fst ` set (e_runs e))"
proof -
  have ids: "s_id sched = s_id row" "in_range now sched"
    using snapshot_fields [OF snap] now(2) by (simp_all add: in_range_def)
  have ins: "insert_run (fst fresh) r e' = Some (e'\<lparr>e_runs := e_runs e @ [(fst fresh, r)]\<rparr>)"
    if "run_schedule r = s_id row" "e_runs e' = e_runs e" "e_schedules e' = e_schedules e" for r e'
    using that row fresh update_absent [of "fst fresh" "e_runs e" r] by (simp add: insert_run_def map_of_eq_None_iff)
  note nd = next_state_not_due [OF now(1) ids(2)]
  have "fst (dispatchScheduleRun now fresh sched trigger e) \<noteq> None \<and>
    (\<exists>row'. map_of (e_schedules (snd (dispatchScheduleRun now fresh sched trigger e))) (s_id row) = Some row' \<and> \<not> is_due now row')
    \<and> fst ` set (e_runs (snd (dispatchScheduleRun now fresh sched trigger e))) = insert (fst fresh) (fst ` set (e_runs e))"
  proof (cases "s_concurrency sched = ''forbid'' \<and> hasActiveJobForSchedule (s_id sched) (e_fleet e)")
    case True
    have "insert_run (fst fresh) (skipped_run now sched trigger) e
        = Some (e\<lparr>e_runs := e_runs e @ [(fst fresh, skipped_run now sched trigger)]\<rparr>)"
      by (rule ins) (simp_all add: skipped_run_def ids)
    then have "dispatchScheduleRun now fresh sched trigger e = (Some (fst fresh, ''skipped''),
        update_schedule (s_id sched) (\<lambda>r. r\<lparr>s_status := fst (next_state now sched None),
          s_nextRunAt := snd (next_state now sched None), s_updatedAt := now\<rparr>)
          (e\<lparr>e_runs := e_runs e @ [(fst fresh, skipped_run now sched trigger)]\<rparr>))"
      using True by (simp add: dispatchScheduleRun_def Let_def)
    with ids(1) row show ?thesis by (simp add: update_schedule_row nd [where c = None])
  next
    case False
    let ?sub = "submit_run fresh sched (e_fleet e)"
    have "insert_run (fst fresh) (sent_run now sched trigger (fst ?sub)) (e\<lparr>e_fleet := snd ?sub\<rparr>)
        = Some (e\<lparr>e_fleet := snd ?sub, e_runs := e_runs e @ [(fst fresh, sent_run now sched trigger (fst ?sub))]\<rparr>)"
      using ins [of "sent_run now sched trigger (fst ?sub)" "e\<lparr>e_fleet := snd ?sub\<rparr>"] by (simp add: sent_run_def ids)
    then have "dispatchScheduleRun now fresh sched trigger e = (Some (fst fresh, run_status (sent_run now sched trigger (fst ?sub))),
        update_schedule (s_id sched) (\<lambda>r. r\<lparr>s_totalRuns := Suc (s_totalRuns sched), s_lastRunAt := Some now,
          s_nextRunAt := snd (next_state now sched (Some (Suc (s_totalRuns sched)))),
          s_status := fst (next_state now sched (Some (Suc (s_totalRuns sched)))), s_updatedAt := now\<rparr>)
          (e\<lparr>e_fleet := snd ?sub, e_runs := e_runs e @ [(fst fresh, sent_run now sched trigger (fst ?sub))]\<rparr>))"
      by (simp add: dispatchScheduleRun_def Let_def False)
    with ids(1) row show ?thesis by (simp add: update_schedule_row nd [where c = "Some (Suc (s_totalRuns sched))"])
  qed
  then show "fst (dispatchScheduleRun now fresh sched trigger e) \<noteq> None"
    and "\<exists>row'. map_of (e_schedules (snd (dispatchScheduleRun now fresh sched trigger e))) (s_id row) = Some row'
      \<and> \<not> is_due now row'"
    and "fst ` set (e_runs (snd (dispatchScheduleRun now fresh sched trigger e))) = insert (fst fresh) (fst ` set (e_runs e))"
    by blast+
qed

text \<open>Fresh run ids: none in use, none handed out twice.\<close>

definition fresh_runs :: "(str \<Rightarrow> str \<times> str) \<Rightarrow> engine \<Rightarrow> bool" where
  "fresh_runs fresh e \<longleftrightarrow> (\<forall>i j. fst (fresh i) = fst (fresh j) \<longrightarrow> i = j) \<and>
     (\<forall>i. fst (fresh i) \<notin> fst ` set (e_runs e))"

lemma dispatch_all_clears:
  assumes "now < 253402300800000" "\<forall>row \<in> set rows. in_range now row" "current_rows rows e"
    and "\<forall>row \<in> set rows. fst (fresh (s_id row)) \<notin> fst ` set (e_runs e)"
    and "\<forall>i j. fst (fresh i) = fst (fresh j) \<longrightarrow> i = j"
  shows "\<forall>i. case map_of (e_schedules (dispatch_all scr now fresh rows e)) i of
      None \<Rightarrow> True
    | Some r \<Rightarrow> if i \<in> s_id ` set rows then \<not> is_due now r else map_of (e_schedules e) i = Some r"
  using assms(2-4)
proof (induction rows arbitrary: e)
  case Nil
  then show ?case by (auto split: option.split)
next
  case (Cons row rows)
  let ?d = "dispatchScheduleRun now (fresh (s_id row)) (hydrateScheduleRow scr row) ''scheduled'' e"
  note cur = current_rowsD [OF Cons.prems(2)]
  have nk: "map_of (e_runs e) (fst (fresh (s_id row))) = None"
    using Cons.prems(3) by (simp add: map_of_eq_None_iff)
  have inr: "in_range now row" using Cons.prems(1) by simp
  note dc = dispatch_clears [OF assms(1) inr cur(1) snapshot_hydrate [of scr row] nk, where trigger = "''scheduled''"]
  have "\<forall>r \<in> set rows. fst (fresh (s_id r)) \<notin> fst ` set (e_runs (snd ?d))"
    using Cons.prems(3) dc(3) assms(5) cur(4) by (auto simp: dc(3))
  with Cons.IH [of "snd ?d"] Cons.prems(1) current_rows_dispatch [OF Cons.prems(2)]
  have ih: "\<forall>i. case map_of (e_schedules (dispatch_all scr now fresh rows (snd ?d))) i of
      None \<Rightarrow> True
    | Some r \<Rightarrow> if i \<in> s_id ` set rows then \<not> is_due now r else map_of (e_schedules (snd ?d)) i = Some r" by auto
  have step: "dispatch_all scr now fresh (row # rows) e = dispatch_all scr now fresh rows (snd ?d)"
    using dc(1) by (auto simp: Let_def split: option.split)
  have frame: "map_of (e_schedules (snd ?d)) i = map_of (e_schedules e) i" if "i \<noteq> s_id row" for i
    using dispatch_frame [of i "hydrateScheduleRow scr row"] that by (simp add: hydrateScheduleRow_def)
  show ?case
  proof (intro allI)
    fix i
    show "case map_of (e_schedules (dispatch_all scr now fresh (row # rows) e)) i of
      None \<Rightarrow> True
    | Some r \<Rightarrow> if i \<in> s_id ` set (row # rows) then \<not> is_due now r else map_of (e_schedules e) i = Some r"
      unfolding step using ih [THEN spec, of i] dc(2) frame [of i]
      by (cases "i = s_id row") (auto split: option.splits if_splits)
  qed
qed

definition ex_create :: "str \<Rightarrow> rat option \<Rightarrow> create_request" where
  "ex_create policy limit =
     \<lparr>c_id = JStr ''sched_0123456789abcdef'', c_name = JStr ''n'',
      c_timing = \<lparr>scheduleType = ''interval'', cronExpression = None, intervalMs = Some 60000\<rparr>,
      c_taskType = Some ''command'', c_payload = JObj [], c_targetSpec = ex_spec, c_caps = [], c_timeoutMs = JNull,
      c_concurrency = policy, c_missed = ''skip'', c_maxRuns = limit, c_createdBy = ''op''\<rparr>"

definition ex_ops :: "rat option \<Rightarrow> engine_op list" where
  "ex_ops limit = [Create 0 ''s'' (ex_create ''forbid'' limit), Start 0 (\<lambda>i. ([], [])), Evaluate 60000 (\<lambda>i. (''r1'', ''job_1''))]"

text \<open>
  A stored payload is redacted every time its row is read, and dispatching reads it: the job a schedule
  submits carries the redaction mark in place of every value under a sensitive name.
\<close>

lemma scheduled_payload_is_redacted:
  "map (\<lambda>(k, j). payload_field ''token'' j)
     (jobs (e_fleet (engine_run id [Create 0 ''s'' (ex_create ''forbid'' None\<lparr>c_payload := JObj [(''token'', JStr ''t0p'')]\<rparr>),
        Start 0 (\<lambda>i. ([], [])), Evaluate 60000 (\<lambda>i. (''r1'', ''job_1''))] (new_engine ex_fleet))))
   = [JStr ''[REDACTED]'']"
  by code_simp

text \<open>A schedule of type \<open>once\<close> has no next run, so no evaluation ever finds it due.\<close>

lemma once_never_due:
  assumes "scheduleType (c_timing q) = ''once''" "check_create now freshId q = Inr row"
  shows "\<not> is_due t row"
proof -
  have "calculateNextRunAt (c_timing q) (Some now) = Inr None"
    using assms(1) by (simp add: calculateNextRunAt_def)
  then have "s_nextRunAt row = None"
    using assms(2) unfolding check_create_def guard_simps by (elim exE conjE) (simp only: sum.inject, clarsimp)
  then show ?thesis by (simp add: is_due_def)
qed

text \<open>An interval that ends beyond the year 9999 is due at once: its ISO text begins with a plus sign.\<close>

lemma far_interval_due_at_once:
  "calculateNextRunAt \<lparr>scheduleType = ''interval'', cronExpression = None, intervalMs = Some 300000000000000\<rparr> (Some 0)
     = Inr (Some 300000000000000) \<and> iso_key 300000000000000 \<le> iso_key 0"
  by code_simp

section \<open>Properties\<close>

text \<open>C35. A run limit is kept: however schedules are created, paused, resumed, deleted, triggered by
  hand, evaluated and reconciled at startup, the runs a schedule with a limit was given by the engine
  itself never exceed the limit, and it is active or paused only while its total is below the limit.\<close>

theorem schedule_max_runs:
  assumes "map_of (e_schedules (engine_run scr ops (new_engine f))) i = Some row"
    and "s_maxRuns row = Some (of_nat m)" "0 < m"
  shows "length (filter (\<lambda>(k, r). run_schedule r = i \<and> run_trigger r \<noteq> ''manual'' \<and> run_status r \<noteq> ''skipped'')
      (e_runs (engine_run scr ops (new_engine f)))) \<le> m
    \<and> (s_status row \<in> {''active'', ''paused''} \<longrightarrow> s_totalRuns row < m)"
proof -
  have "row_ok i (auto_runs i (engine_run scr ops (new_engine f))) row"
    using engine_inv_row [OF engine_inv_run [OF engine_inv_new] assms(1)] .
  then have "of_nat (auto_runs i (engine_run scr ops (new_engine f))) < (of_nat m + 1 :: rat)"
    and tot: "s_status row \<in> {''active'', ''paused''} \<Longrightarrow> of_nat (s_totalRuns row) < (of_nat m :: rat)"
    using assms(2,3) unfolding row_ok_def by (metis of_nat_0_less_iff)+
  then have "auto_runs i (engine_run scr ops (new_engine f)) < m + 1"
    by (metis of_nat_less_iff of_nat_add of_nat_1)
  then have "auto_runs i (engine_run scr ops (new_engine f)) \<le> m" by simp
  then show ?thesis using tot by (simp add: auto_runs_def auto_run_def)
qed

theorem schedule_max_runs_witness:
  "length (filter (\<lambda>(k, r). run_schedule r = ''sched_0123456789abcdef'' \<and> run_trigger r \<noteq> ''manual'' \<and> run_status r \<noteq> ''skipped'')
      (e_runs (engine_run id (ex_ops (Some 1)) (new_engine ex_fleet)))) \<le> 1"
proof -
  let ?e = "engine_run id (ex_ops (Some 1)) (new_engine ex_fleet)"
  have "map_of (e_schedules ?e) ''sched_0123456789abcdef'' = Some (the (map_of (e_schedules ?e) ''sched_0123456789abcdef''))"
    "s_maxRuns (the (map_of (e_schedules ?e) ''sched_0123456789abcdef'')) = Some (of_nat 1)"
    by code_simp+
  from schedule_max_runs [OF this] show ?thesis by simp
qed

text \<open>C37. A schedule with the \<open>forbid\<close> policy never overlaps itself: as long as the schedules created
  under its id have that policy and operators do not forge its id in a payload, at most one of its jobs
  is pending or running at any time, across evaluations, manual triggers, catch-up runs and job steps.\<close>

theorem schedule_no_overlap:
  assumes "list_all (keeps_policy i) ops" "jobs f = []"
  shows "length (filter (\<lambda>(k, j). payload_field ''_fleetScheduleId'' j = JStr i
      \<and> (j_status j = JPending \<or> j_status j = JRunning)) (jobs (e_fleet (engine_run scr ops (new_engine f))))) \<le> 1"
proof -
  have "over_inv i (new_engine f)" using assms(2) by (simp add: over_inv_def new_engine_def active_jobs_def)
  then have "over_inv i (engine_run scr ops (new_engine f))"
    using over_inv_run [OF engine_inv_new] assms(1) by blast
  then show ?thesis by (simp add: over_inv_def active_jobs_def active_for_def)
qed

theorem schedule_no_overlap_witness:
  "length (filter (\<lambda>(k, j). payload_field ''_fleetScheduleId'' j = JStr ''sched_0123456789abcdef''
      \<and> (j_status j = JPending \<or> j_status j = JRunning))
      (jobs (e_fleet (engine_run id (ex_ops None @ [Evaluate 120000 (\<lambda>i. (''r2'', ''job_2''))]) (new_engine ex_fleet))))) \<le> 1"
  by (rule schedule_no_overlap) code_simp+

text \<open>An evaluation settles everything that was due: when at most fifty schedules are due and run ids
  are fresh, no schedule is due at the same instant afterwards, whether its run was dispatched, failed
  to submit or was skipped, so the one-second timer cannot fire a schedule twice for one occurrence.\<close>

theorem evaluate_clears_due:
  assumes "e = engine_run scr ops (new_engine f)" "e_running e" "now < 253402300800000"
    and "\<forall>row \<in> snd ` set (e_schedules e). in_range now row"
    and "length (filter (is_due now) (map snd (e_schedules e))) \<le> 50" "fresh_runs fresh e"
  shows "filter (is_due now) (map snd (e_schedules (evaluateDueSchedules scr now fresh e))) = []"
proof -
  have inv: "engine_inv e" unfolding assms(1) by (rule engine_inv_run [OF engine_inv_new])
  let ?e = "evaluateDueSchedules scr now fresh e"
  have inv': "engine_inv ?e" using engine_inv_step [OF inv, of scr "Evaluate now fresh"] by simp
  have due: "set (due_rows now e) = set (filter (is_due now) (map snd (e_schedules e)))"
    using assms(5) by (simp add: due_rows_def)
  have clears: "\<forall>i. case map_of (e_schedules ?e) i of None \<Rightarrow> True
      | Some r \<Rightarrow> if i \<in> s_id ` set (due_rows now e) then \<not> is_due now r else map_of (e_schedules e) i = Some r"
  proof -
    have r: "\<forall>row \<in> set (due_rows now e). in_range now row" using assms(4) unfolding due by auto
    have k: "\<forall>row \<in> set (due_rows now e). fst (fresh (s_id row)) \<notin> fst ` set (e_runs e)"
      "\<forall>i j. fst (fresh i) = fst (fresh j) \<longrightarrow> i = j"
      using assms(6) unfolding fresh_runs_def by blast+
    have eq: "?e = dispatch_all scr now fresh (due_rows now e) e"
      by (simp only: evaluateDueSchedules_def assms(2) not_True_eq_False if_False)
    show ?thesis unfolding eq by (rule dispatch_all_clears [OF assms(3) r current_due(1) [OF inv] k])
  qed
  have "\<not> is_due now r" if r: "(i, r) \<in> set (e_schedules ?e)" for i r
  proof
    assume d: "is_due now r"
    have "map_of (e_schedules ?e) i = Some r" using r inv' by (simp add: engine_inv_def)
    with clears [THEN spec, of i] d have old: "map_of (e_schedules e) i = Some r" "i \<notin> s_id ` set (due_rows now e)"
      by (auto split: if_splits)
    then have "r \<in> set (due_rows now e)" using d map_of_SomeD [OF old(1)] unfolding due by force
    moreover have "s_id r = i" using engine_inv_row [OF inv old(1)] by (simp add: row_ok_def)
    ultimately show False using old(2) by blast
  qed
  then show ?thesis by (auto simp: filter_empty_conv)
qed

theorem evaluate_clears_due_witness:
  "filter (is_due 60000) (map snd (e_schedules (evaluateDueSchedules id 60000 (\<lambda>i. (i, i))
     (engine_run id [Create 0 ''s'' (ex_create ''forbid'' None), Start 0 (\<lambda>i. ([], []))] (new_engine ex_fleet))))) = []"
  by (rule evaluate_clears_due [OF refl]) (simp add: fresh_runs_def; code_simp | code_simp)+

end
