(* ===== verification/CompatReport.thy ===== *)
theory CompatReport
  imports Prelude
begin

text \<open>
  Compatibility reports: \<^verbatim>\<open>src/compatibility-report.mjs\<close> up to the rendering of a report, and the
  version table of \<^verbatim>\<open>src/compatibility.mjs\<close>. A report is built from an untrusted JSON value. The text of a
  number is the argument \<open>numText\<close>; the time of generation is left out.
\<close>

section \<open>Checks\<close>

definition REQUIRED_CHECKS :: "str list" where
  "REQUIRED_CHECKS = [''globalPatch'', ''profilePatch'', ''runtimeReadiness'', ''settingsRead'', ''settingsNoopWrite'',
     ''authorizationSmoke'', ''sessionResume'', ''webPluginRoutes'']"

definition OPTIONAL_CHECKS :: "str list" where
  "OPTIONAL_CHECKS = [''longLivedTransport'', ''webSocketTransport'', ''terminalFence'', ''terminalPtty'']"

definition KNOWN_CHECKS :: "str list" where
  "KNOWN_CHECKS = REQUIRED_CHECKS @ OPTIONAL_CHECKS"

definition CHECK_STATUSES :: "str list" where
  "CHECK_STATUSES = [''pass'', ''fail'', ''not_run'']"

record report_check =
  ce_status :: str
  ce_required :: bool
  ce_detail :: str

datatype report_error =
    ReportRequired str
  | ReportNotText str
  | UnknownCheck str
  | InvalidStatus str
  | ReportMalformed

section \<open>Fields\<close>

text \<open>\<open>replaceAll\<close> with a non-empty needle and a replacement without special patterns.\<close>

function js_replace_all :: "str \<Rightarrow> str \<Rightarrow> str \<Rightarrow> str" where
  "js_replace_all needle by_text s =
     (if needle = [] then s
      else if js_starts_with needle s then by_text @ js_replace_all needle by_text (drop (length needle) s)
      else case s of [] \<Rightarrow> [] | c # cs \<Rightarrow> c # js_replace_all needle by_text cs)"
  by pat_completeness auto
termination
  by (relation "measure (\<lambda>(_, _, s). length s)") (auto simp: js_starts_with_def prefix_def)

declare js_replace_all.simps [simp del]

text \<open>\<open>String(value)\<close>: an array is joined by commas, with null and undefined as empty texts.\<close>

fun js_string :: "(rat \<Rightarrow> str) \<Rightarrow> jsval \<Rightarrow> str" where
  "js_string numText JUndefined = ''undefined''"
| "js_string numText JNull = ''null''"
| "js_string numText (JBool b) = (if b then ''true'' else ''false'')"
| "js_string numText (JNum q) = numText q"
| "js_string numText JNonFinite = ''NaN''"
| "js_string numText (JStr s) = s"
| "js_string numText JFun = ''function''"
| "js_string numText (JObj ps) = ''[object Object]''"
| "js_string numText (JArr xs) = js_join (CHR '','') (map (\<lambda>x. if x = JNull \<or> x = JUndefined then [] else js_string numText x) xs)"

definition sanitizeDetail :: "(rat \<Rightarrow> str) \<Rightarrow> jsval \<Rightarrow> str list \<Rightarrow> str" where
  "sanitizeDetail numText v redactions =
     foldl (\<lambda>t secret. if secret = [] then t else js_replace_all secret ''[redacted]'' t) (js_string numText v) redactions"

text \<open>\<open>v?.k\<close>.\<close>

definition js_field :: "str \<Rightarrow> jsval \<Rightarrow> jsval" where
  "js_field k v = (case v of JObj ps \<Rightarrow> js_get k ps | _ \<Rightarrow> JUndefined)"

definition requiredString :: "str \<Rightarrow> jsval \<Rightarrow> report_error + str" where
  "requiredString label v = (case v of JStr s \<Rightarrow> if js_trim s = [] then Inl (ReportRequired label) else Inr s
     | _ \<Rightarrow> Inl (ReportRequired label))"

definition optionalString :: "str \<Rightarrow> jsval \<Rightarrow> report_error + str option" where
  "optionalString label v = (case v of JUndefined \<Rightarrow> Inr None | JNull \<Rightarrow> Inr None
     | JStr s \<Rightarrow> Inr (if s = [] then None else Some s) | _ \<Rightarrow> Inl (ReportNotText label))"

text \<open>The first own key of the given checks that is no known check; an array or a text has its indices.\<close>

definition unknown_check :: "jsval \<Rightarrow> str option" where
  "unknown_check v = (case v of
     JObj ps \<Rightarrow> find (\<lambda>k. k \<notin> set KNOWN_CHECKS) (map fst ps)
   | JArr (_ # _) \<Rightarrow> Some ''0'' | JStr (_ # _) \<Rightarrow> Some ''0'' | _ \<Rightarrow> None)"

definition normalize_check :: "(rat \<Rightarrow> str) \<Rightarrow> str list \<Rightarrow> jsval \<Rightarrow> str \<Rightarrow> report_error + report_check" where
  "normalize_check numText redactions checks name =
     (let entry = js_field name checks; required = name \<in> set REQUIRED_CHECKS in
      if entry = JUndefined \<or> entry = JNull then Inr \<lparr>ce_status = ''not_run'', ce_required = required, ce_detail = []\<rparr>
      else case js_field ''status'' entry of
        JStr st \<Rightarrow>
          if st \<notin> set CHECK_STATUSES then Inl (InvalidStatus name)
          else Inr \<lparr>ce_status = st, ce_required = required,
            ce_detail = (if js_field ''detail'' entry = JUndefined then []
              else sanitizeDetail numText (js_field ''detail'' entry) redactions)\<rparr>
      | _ \<Rightarrow> Inl (InvalidStatus name))"

fun normalize_all :: "(str \<Rightarrow> report_error + report_check) \<Rightarrow> str list \<Rightarrow> report_error + (str \<times> report_check) list" where
  "normalize_all f [] = Inr []"
| "normalize_all f (n # ns) = (case f n of Inl e \<Rightarrow> Inl e | Inr c \<Rightarrow>
     (case normalize_all f ns of Inl e \<Rightarrow> Inl e | Inr cs \<Rightarrow> Inr ((n, c) # cs)))"

definition normalizeChecks :: "(rat \<Rightarrow> str) \<Rightarrow> jsval \<Rightarrow> str list \<Rightarrow> report_error + (str \<times> report_check) list" where
  "normalizeChecks numText checks redactions =
     (case unknown_check checks of Some k \<Rightarrow> Inl (UnknownCheck k)
      | None \<Rightarrow> normalize_all (normalize_check numText redactions checks) KNOWN_CHECKS)"

section \<open>Outcomes\<close>

text \<open>The reasons against compatibility; the outcome is pass when there is none.\<close>

definition check_reason :: "str \<times> report_check \<Rightarrow> str list" where
  "check_reason ne = (if ce_status (snd ne) = ''fail'' then [fst ne @ ''=fail'']
     else if ce_status (snd ne) = ''not_run'' \<and> ce_required (snd ne) then [fst ne @ ''=not_run''] else [])"

definition deriveCompatibility :: "(str \<times> report_check) list \<Rightarrow> str list" where
  "deriveCompatibility checks = concat (map check_reason checks)"

datatype promotion = NotEvaluated | Promotable | NotPromotable "str list"

record compat_report =
  cr_orbitVersion :: str
  cr_orbitRevision :: "str option"
  cr_baseImage :: "str option"
  cr_baseRevision :: "str option"
  cr_baseDsh :: "str option"
  cr_dshVersion :: str
  cr_profile :: "str option"
  cr_checks :: "(str \<times> report_check) list"
  cr_snapshot :: "str option"
  cr_snapFailure :: "str option"
  cr_reasons :: "str list"
  cr_promotion :: promotion

definition missing :: "str option \<Rightarrow> str \<Rightarrow> str list" where
  "missing v reason = (if v = None then [reason] else [])"

definition derivePromotionReadiness :: "bool \<Rightarrow> compat_report \<Rightarrow> promotion" where
  "derivePromotionReadiness evaluated rp =
     (if \<not> evaluated then NotEvaluated
      else let reasons = cr_reasons rp @ missing (cr_orbitRevision rp) ''orbit.revision missing''
               @ missing (cr_profile rp) ''candidate.profile missing'' @ missing (cr_baseImage rp) ''baseline.image missing''
               @ missing (cr_baseRevision rp) ''baseline.orbitRevision missing'' @ missing (cr_baseDsh rp) ''baseline.dshVersion missing''
               @ (case cr_snapFailure rp of Some f \<Rightarrow> [''snapshot='' @ f] | None \<Rightarrow> missing (cr_snapshot rp) ''snapshot reference missing'') in
        if reasons = [] then Promotable else NotPromotable reasons)"

definition outcome_pass :: "compat_report \<Rightarrow> bool" where
  "outcome_pass rp \<longleftrightarrow> cr_reasons rp = []"

section \<open>Creation\<close>

fun texts_of :: "jsval list \<Rightarrow> str list option" where
  "texts_of [] = Some []"
| "texts_of (JStr s # xs) = map_option (Cons s) (texts_of xs)"
| "texts_of (_ # xs) = None"

definition read_redactions :: "jsval \<Rightarrow> str list option" where
  "read_redactions v = (case v of JUndefined \<Rightarrow> Some [] | JNull \<Rightarrow> Some [] | JArr xs \<Rightarrow> texts_of xs | _ \<Rightarrow> None)"

definition is_object_value :: "jsval \<Rightarrow> bool" where
  "is_object_value v = (case v of JObj _ \<Rightarrow> True | JArr _ \<Rightarrow> True | _ \<Rightarrow> False)"

definition evaluated_flag :: "jsval \<Rightarrow> bool option" where
  "evaluated_flag v = (case v of JUndefined \<Rightarrow> Some True | JBool b \<Rightarrow> Some b | _ \<Rightarrow> None)"

definition report_fields :: "jsval \<Rightarrow> report_error + compat_report" where
  "report_fields v =
     (case requiredString ''orbit.version'' (js_field ''version'' (js_field ''orbit'' v)) of Inl e \<Rightarrow> Inl e | Inr ov \<Rightarrow>
      case optionalString ''orbit.revision'' (js_field ''revision'' (js_field ''orbit'' v)) of Inl e \<Rightarrow> Inl e | Inr orev \<Rightarrow>
      case optionalString ''baseline.image'' (js_field ''image'' (js_field ''baseline'' v)) of Inl e \<Rightarrow> Inl e | Inr bi \<Rightarrow>
      case optionalString ''baseline.orbitRevision'' (js_field ''orbitRevision'' (js_field ''baseline'' v)) of Inl e \<Rightarrow> Inl e | Inr br \<Rightarrow>
      case optionalString ''baseline.dshVersion'' (js_field ''dshVersion'' (js_field ''baseline'' v)) of Inl e \<Rightarrow> Inl e | Inr bd \<Rightarrow>
      case requiredString ''candidate.dshVersion'' (js_field ''dshVersion'' (js_field ''candidate'' v)) of Inl e \<Rightarrow> Inl e | Inr cv \<Rightarrow>
      case optionalString ''candidate.profile'' (js_field ''profile'' (js_field ''candidate'' v)) of Inl e \<Rightarrow> Inl e | Inr cp \<Rightarrow>
      Inr \<lparr>cr_orbitVersion = ov, cr_orbitRevision = orev, cr_baseImage = bi, cr_baseRevision = br, cr_baseDsh = bd,
        cr_dshVersion = cv, cr_profile = cp, cr_checks = [], cr_snapshot = None, cr_snapFailure = None,
        cr_reasons = [], cr_promotion = NotEvaluated\<rparr>)"

definition createCompatibilityReport :: "(rat \<Rightarrow> str) \<Rightarrow> jsval \<Rightarrow> report_error + compat_report" where
  "createCompatibilityReport numText v =
     (if \<not> is_obj v then Inl ReportMalformed
      else case read_redactions (js_field ''redactions'' v) of None \<Rightarrow> Inl ReportMalformed | Some redactions \<Rightarrow>
      case evaluated_flag (js_field ''promotionEvaluated'' v) of None \<Rightarrow> Inl ReportMalformed | Some evaluated \<Rightarrow>
      if js_field ''baseline'' v \<noteq> JUndefined \<and> \<not> is_object_value (js_field ''baseline'' v) then Inl ReportMalformed
      else case report_fields v of Inl e \<Rightarrow> Inl e | Inr rp \<Rightarrow>
      case normalizeChecks numText (js_field ''checks'' v) redactions of Inl e \<Rightarrow> Inl e | Inr checks \<Rightarrow>
      case optionalString ''snapshot.reference'' (js_field ''reference'' (js_field ''snapshot'' v)) of Inl e \<Rightarrow> Inl e | Inr sref \<Rightarrow>
      case optionalString ''snapshot.failure'' (js_field ''failure'' (js_field ''snapshot'' v)) of Inl e \<Rightarrow> Inl e | Inr sfail \<Rightarrow>
      let rp1 = rp\<lparr>cr_checks := checks, cr_snapshot := sref, cr_snapFailure := sfail, cr_reasons := deriveCompatibility checks\<rparr> in
      Inr (rp1\<lparr>cr_promotion := derivePromotionReadiness evaluated rp1\<rparr>))"

section \<open>Lemmas\<close>

text \<open>The status the input states for a check.\<close>

definition input_status :: "jsval \<Rightarrow> str \<Rightarrow> str" where
  "input_status v name = (case js_field ''status'' (js_field name (js_field ''checks'' v)) of JStr st \<Rightarrow> st | _ \<Rightarrow> ''not_run'')"

lemma normalize_all_Inr:
  "normalize_all f ns = Inr cs \<Longrightarrow> map fst cs = ns \<and> (\<forall>(n, c) \<in> set cs. f n = Inr c)"
  by (induction ns arbitrary: cs) (auto split: sum.splits)

lemma normalize_check_status:
  assumes "normalize_check numText red (js_field ''checks'' v) n = Inr c"
  shows "ce_status c = input_status v n \<and> ce_required c = (n \<in> set REQUIRED_CHECKS) \<and> ce_status c \<in> set CHECK_STATUSES"
proof (cases "js_field n (js_field ''checks'' v) = JUndefined \<or> js_field n (js_field ''checks'' v) = JNull")
  case True
  then have "js_field ''status'' (js_field n (js_field ''checks'' v)) = JUndefined" by (auto simp: js_field_def)
  with assms True show ?thesis by (auto simp: normalize_check_def input_status_def Let_def CHECK_STATUSES_def)
next
  case False
  with assms show ?thesis
    unfolding normalize_check_def input_status_def Let_def
    by (cases "js_field ''status'' (js_field n (js_field ''checks'' v))") (simp_all split: if_splits, auto)
qed

lemma createCompatibilityReport_checks:
  assumes "createCompatibilityReport numText v = Inr rp"
  obtains red where "normalizeChecks numText (js_field ''checks'' v) red = Inr (cr_checks rp)"
    and "cr_reasons rp = deriveCompatibility (cr_checks rp)"
  using assms unfolding createCompatibilityReport_def Let_def guard_simps
  by (elim exE conjE) (simp only: sum.inject, clarsimp)

lemma check_reason_Nil: "check_reason (n, c) = [] \<longleftrightarrow> ce_status c \<noteq> ''fail'' \<and> (ce_status c = ''not_run'' \<longrightarrow> \<not> ce_required c)"
  by (simp add: check_reason_def)

lemma no_reasons_iff:
  "deriveCompatibility cs = [] \<longleftrightarrow>
     (\<forall>(n, c) \<in> set cs. ce_status c \<noteq> ''fail'' \<and> (ce_status c = ''not_run'' \<longrightarrow> \<not> ce_required c))"
proof -
  have "deriveCompatibility cs = [] \<longleftrightarrow> (\<forall>(n, c) \<in> set cs. check_reason (n, c) = [])"
    by (induction cs) (auto simp: deriveCompatibility_def)
  then show ?thesis by (simp only: check_reason_Nil)
qed

definition ex_check :: "str \<Rightarrow> str \<times> jsval" where
  "ex_check st = (''status'', JStr st)"

definition ex_input :: "str \<Rightarrow> jsval" where
  "ex_input st = JObj [(''orbit'', JObj [(''version'', JStr ''0.4.0'')]), (''candidate'', JObj [(''dshVersion'', JStr ''0.1.1-rc.2'')]),
     (''checks'', JObj ((''webSocketTransport'', JObj [ex_check st]) # map (\<lambda>n. (n, JObj [ex_check ''pass''])) REQUIRED_CHECKS))]"

section \<open>Properties\<close>

text \<open>
  A report the Hub accepts has the outcome pass exactly if the uploaded input states pass for every
  required check and does not state fail for an optional one; a check the input leaves out counts as not run.
\<close>

theorem report_pass_exact:
  assumes "createCompatibilityReport numText v = Inr rp"
  shows "outcome_pass rp \<longleftrightarrow>
    (\<forall>n \<in> set REQUIRED_CHECKS. input_status v n = ''pass'') \<and> (\<forall>n \<in> set OPTIONAL_CHECKS. input_status v n \<noteq> ''fail'')"
proof -
  obtain red where n: "normalizeChecks numText (js_field ''checks'' v) red = Inr (cr_checks rp)"
    and r: "cr_reasons rp = deriveCompatibility (cr_checks rp)"
    using assms by (rule createCompatibilityReport_checks)
  from n have "normalize_all (normalize_check numText red (js_field ''checks'' v)) KNOWN_CHECKS = Inr (cr_checks rp)"
    by (simp add: normalizeChecks_def split: option.splits)
  from normalize_all_Inr [OF this] have names: "fst ` set (cr_checks rp) = set KNOWN_CHECKS"
    and st: "\<And>n c. (n, c) \<in> set (cr_checks rp) \<Longrightarrow> ce_status c = input_status v n
       \<and> ce_required c = (n \<in> set REQUIRED_CHECKS) \<and> ce_status c \<in> set CHECK_STATUSES"
    using normalize_check_status by (metis list.set_map, fastforce)
  have "outcome_pass rp \<longleftrightarrow> (\<forall>n \<in> set KNOWN_CHECKS. input_status v n \<noteq> ''fail''
       \<and> (input_status v n = ''not_run'' \<longrightarrow> n \<notin> set REQUIRED_CHECKS))"
    unfolding outcome_pass_def r no_reasons_iff names [symmetric] using st by fastforce
  moreover have "input_status v n \<in> set CHECK_STATUSES" if "n \<in> set KNOWN_CHECKS" for n
    using that st unfolding names [symmetric] by fastforce
  moreover have "set KNOWN_CHECKS = set REQUIRED_CHECKS \<union> set OPTIONAL_CHECKS" by (simp add: KNOWN_CHECKS_def)
  moreover have "\<forall>n \<in> set OPTIONAL_CHECKS. n \<notin> set REQUIRED_CHECKS" by code_simp
  ultimately show ?thesis by (fastforce simp: CHECK_STATUSES_def)
qed

theorem report_pass_exact_witness:
  "(let rp = projr (createCompatibilityReport (\<lambda>_. []) (ex_input ''pass'')) in
     outcome_pass rp \<longleftrightarrow> (\<forall>n \<in> set REQUIRED_CHECKS. input_status (ex_input ''pass'') n = ''pass'')
       \<and> (\<forall>n \<in> set OPTIONAL_CHECKS. input_status (ex_input ''pass'') n \<noteq> ''fail''))
   \<and> \<not> outcome_pass (projr (createCompatibilityReport (\<lambda>_. []) (ex_input ''fail'')))"
proof -
  let ?r = "\<lambda>st. createCompatibilityReport (\<lambda>_. []) (ex_input st)"
  have ok: "?r st = Inr (projr (?r st))" if "st = ''pass'' \<or> st = ''fail''" for st
    using that by (elim disjE; hypsubst; code_simp)
  have "input_status (ex_input ''fail'') ''webSocketTransport'' = ''fail''" "''webSocketTransport'' \<in> set OPTIONAL_CHECKS"
    by code_simp+
  then show ?thesis
    unfolding Let_def using report_pass_exact [OF ok, of "''pass''"] report_pass_exact [OF ok, of "''fail''"] by blast
qed

end
