(* ===== verification/RegistryState.thy ===== *)
theory RegistryState
  imports Crypto CompatReport
begin

text \<open>
  The database of \<^verbatim>\<open>src/registry/registry.mjs\<close> (schema in \<^verbatim>\<open>src/registry/sqlite.mjs\<close>) as a
  record of tables. A table is the list of its rows in insertion order, so that a query is a \<^const>\<open>find\<close>
  or a \<^const>\<open>filter\<close>, an update a map over the rows that match, and a deletion a \<^const>\<open>filter\<close>. Timestamps
  are milliseconds; they are stored as ISO strings and compared as text, which is the order of time for
  years of four digits. The clock, fresh random values and fresh key pairs are arguments of the operations.
  An operation that throws a \<open>DeniedError\<close> returns it on the left with the state it leaves behind: a
  transaction that throws is rolled back.
\<close>

section \<open>Denials and field checks\<close>

datatype denial = Denied nat str

text \<open>Any other exception reaches the client as a plain 500.\<close>

definition internal_error :: denial where
  "internal_error = Denied 500 ''internal''"

definition bad_request :: denial where
  "bad_request = Denied 400 ''bad-request''"

definition requireString :: "jsval \<Rightarrow> denial + str" where
  "requireString v = (case v of JStr s \<Rightarrow> if s = [] then Inl bad_request else Inr s | _ \<Rightarrow> Inl bad_request)"

definition requireWire :: "jsval \<Rightarrow> (str \<Rightarrow> bool) \<Rightarrow> denial + str" where
  "requireWire v pattern = (case v of JStr s \<Rightarrow> if pattern s then Inr s else Inl bad_request | _ \<Rightarrow> Inl bad_request)"

text \<open>The integer epoch pattern, an optional minus sign and digits, and the number it denotes.\<close>

definition epoch_text :: "str \<Rightarrow> bool" where
  "epoch_text s = (case s of [] \<Rightarrow> False | c # cs \<Rightarrow> if c = CHR ''-'' then digits_pattern cs else digits_pattern s)"

definition epoch_seconds :: "str \<Rightarrow> int" where
  "epoch_seconds s = (case s of [] \<Rightarrow> 0
     | c # cs \<Rightarrow> if c = CHR ''-'' then - int (nat_of_dec cs) else int (nat_of_dec s))"

text \<open>\<open>Math.abs(now / 1000 - timestamp) > 30\<close>, without the division.\<close>

definition out_of_skew :: "int \<Rightarrow> str \<Rightarrow> bool" where
  "out_of_skew now timestamp \<longleftrightarrow> \<bar>now - 1000 * epoch_seconds timestamp\<bar> > 1000 * SIGNATURE_SKEW_SECONDS"

section \<open>Tables\<close>

record identity =
  id_orbitVersion :: str
  id_orbitRevision :: "str option"
  id_dshVersion :: str
  id_profile :: "str option"

definition no_identity :: identity where
  "no_identity = \<lparr>id_orbitVersion = [], id_orbitRevision = None, id_dshVersion = [], id_profile = None\<rparr>"

record hub_node =
  hn_id :: str
  hn_state :: str
  hn_mintedAt :: int
  hn_tombstonedAt :: "int option"
  hn_tombstoneReason :: "str option"
  hn_contact :: str
  hn_authenticated :: str
  hn_dshHealthy :: str
  hn_orbitCompatible :: str
  hn_reachable :: str
  hn_alertFlags :: "str list"
  hn_lastHeartbeatAt :: "int option"
  hn_capabilities :: "str list"
  hn_capabilitiesStale :: bool
  hn_lastSeen :: "int option"
  hn_lastSeenSource :: "str option"
  hn_identity :: identity
  hn_routeMode :: str

record node_key =
  nk_node :: str
  nk_id :: str
  nk_public :: str
  nk_state :: str
  nk_createdAt :: int
  nk_revokeAfter :: "int option"
  nk_revokedAt :: "int option"
  nk_reason :: "str option"

record hub_key =
  hk_node :: str
  hk_id :: str
  hk_public :: str
  hk_private :: str
  hk_state :: str
  hk_createdAt :: int
  hk_activatedAt :: "int option"
  hk_revokeAfter :: "int option"
  hk_revokedAt :: "int option"
  hk_reason :: "str option"

record token_row =
  tk_id :: str
  tk_digest :: str
  tk_purpose :: str
  tk_boundNode :: "str option"
  tk_createdAt :: int
  tk_expiresAt :: int
  tk_consumedAt :: "int option"
  tk_consumedBy :: "str option"

text \<open>What an enrollment answers; a pairing adds the route mode and the hub's base URL.\<close>

record grant =
  gr_node :: str
  gr_key :: str
  gr_token :: str
  gr_cadence :: int
  gr_hubBaseUrl :: "str option"

record result_row =
  rr_key :: str
  rr_digest :: str
  rr_request :: str
  rr_kind :: str
  rr_node :: str
  rr_grant :: grant
  rr_createdAt :: int

record report_row =
  ro_node :: str
  ro_uploadedAt :: int
  ro_report :: compat_report

record event_row =
  ev_node :: str
  ev_at :: int
  ev_dimension :: str
  ev_from :: str
  ev_to :: str
  ev_source :: str

record audit_row =
  au_at :: int
  au_actor :: str
  au_action :: str
  au_detail :: "(str \<times> str) list"

record session_row =
  bs_id :: str
  bs_principal :: str
  bs_csrf :: str
  bs_createdAt :: int
  bs_expiresAt :: int
  bs_idleUntil :: int
  bs_revokedAt :: "int option"
  bs_auditedAt :: "int option"

record target_row =
  rt_node :: str
  rt_origin :: str
  rt_createdAt :: int
  rt_updatedAt :: int

record reg =
  tokens :: "token_row list"
  grants :: "result_row list"
  nodes :: "hub_node list"
  node_keys :: "node_key list"
  hub_keys :: "hub_key list"
  seen_nonces :: "(str \<times> str, int) omap"
  reports :: "report_row list"
  reportSeq :: nat
  events :: "event_row list"
  audit :: "audit_row list"
  sessions :: "session_row list"
  targets :: "target_row list"
  probeFailures :: "(str, nat) omap"
  cadenceSeconds :: int
  overlapHours :: int
  hubOverlapDays :: int
  pairingHubBaseUrl :: "str option"

text \<open>The bounds the constructor enforces on its configuration.\<close>

definition new_registry :: "int \<Rightarrow> int \<Rightarrow> int \<Rightarrow> str option \<Rightarrow> reg option" where
  "new_registry cadence hours days url =
     (if hours < 1 \<or> hours > 168 \<or> days < 1 \<or> days > 30 then None
      else Some \<lparr>tokens = [], grants = [], nodes = [], node_keys = [], hub_keys = [], seen_nonces = [], reports = [], reportSeq = 0,
        events = [], audit = [], sessions = [], targets = [], probeFailures = [], cadenceSeconds = cadence,
        overlapHours = hours, hubOverlapDays = days, pairingHubBaseUrl = url\<rparr>)"

section \<open>Queries and updates\<close>

text \<open>\<open>UPDATE ... SET f WHERE P\<close>.\<close>

definition upd_where :: "('a \<Rightarrow> bool) \<Rightarrow> ('a \<Rightarrow> 'a) \<Rightarrow> 'a list \<Rightarrow> 'a list" where
  "upd_where P f = map (\<lambda>x. if P x then f x else x)"

definition getNodeRow :: "str \<Rightarrow> reg \<Rightarrow> hub_node option" where
  "getNodeRow n r = find (\<lambda>x. hn_id x = n) (nodes r)"

definition set_node :: "str \<Rightarrow> (hub_node \<Rightarrow> hub_node) \<Rightarrow> reg \<Rightarrow> reg" where
  "set_node n f r = r\<lparr>nodes := upd_where (\<lambda>x. hn_id x = n) f (nodes r)\<rparr>"

definition deriveKeyRow :: "str \<Rightarrow> str \<Rightarrow> reg \<Rightarrow> node_key option" where
  "deriveKeyRow n k r = find (\<lambda>x. nk_node x = n \<and> nk_id x = k) (node_keys r)"

text \<open>The last row in the order of a key; among equal keys the last inserted, as \<open>id DESC\<close> asks for.\<close>

fun latest_by :: "('a \<Rightarrow> int) \<Rightarrow> 'a list \<Rightarrow> 'a option" where
  "latest_by key [] = None"
| "latest_by key (x # xs) =
     (case latest_by key xs of None \<Rightarrow> Some x | Some y \<Rightarrow> if key y < key x then Some x else Some y)"

definition getLatestReport :: "str \<Rightarrow> reg \<Rightarrow> report_row option" where
  "getLatestReport n r = latest_by ro_uploadedAt (filter (\<lambda>x. ro_node x = n) (reports r))"

definition recordEvent :: "int \<Rightarrow> str \<Rightarrow> str \<Rightarrow> str \<Rightarrow> str \<Rightarrow> str \<Rightarrow> reg \<Rightarrow> reg" where
  "recordEvent now n dimen from to source r =
     (if from = to then r
      else r\<lparr>events := events r @ [\<lparr>ev_node = n, ev_at = now, ev_dimension = dimen, ev_from = from, ev_to = to, ev_source = source\<rparr>]\<rparr>)"

definition recordAudit :: "int \<Rightarrow> str \<Rightarrow> str \<Rightarrow> (str \<times> str) list \<Rightarrow> reg \<Rightarrow> reg" where
  "recordAudit now actor action detail r =
     r\<lparr>audit := audit r @ [\<lparr>au_at = now, au_actor = actor, au_action = action, au_detail = detail\<rparr>]\<rparr>"

definition insert_node :: "hub_node \<Rightarrow> reg \<Rightarrow> reg option" where
  "insert_node x r = (if getNodeRow (hn_id x) r \<noteq> None then None else Some (r\<lparr>nodes := nodes r @ [x]\<rparr>))"

definition insert_node_key :: "node_key \<Rightarrow> reg \<Rightarrow> reg option" where
  "insert_node_key x r =
     (if deriveKeyRow (nk_node x) (nk_id x) r \<noteq> None then None else Some (r\<lparr>node_keys := node_keys r @ [x]\<rparr>))"

definition insert_grant :: "result_row \<Rightarrow> reg \<Rightarrow> reg option" where
  "insert_grant x r =
     (if find (\<lambda>y. rr_key y = rr_key x) (grants r) \<noteq> None then None else Some (r\<lparr>grants := grants r @ [x]\<rparr>))"

definition new_key :: "str \<Rightarrow> str \<Rightarrow> str \<Rightarrow> int \<Rightarrow> node_key" where
  "new_key n k pk now = \<lparr>nk_node = n, nk_id = k, nk_public = pk, nk_state = ''active'', nk_createdAt = now,
     nk_revokeAfter = None, nk_revokedAt = None, nk_reason = None\<rparr>"

definition new_node :: "str \<Rightarrow> str \<Rightarrow> int \<Rightarrow> hub_node" where
  "new_node n mode now = \<lparr>hn_id = n, hn_state = ''active'', hn_mintedAt = now, hn_tombstonedAt = None, hn_tombstoneReason = None,
     hn_contact = ''unknown'', hn_authenticated = ''ok'', hn_dshHealthy = ''unknown'', hn_orbitCompatible = ''unknown'',
     hn_reachable = ''unknown'', hn_alertFlags = [], hn_lastHeartbeatAt = None, hn_capabilities = [],
     hn_capabilitiesStale = True, hn_lastSeen = None, hn_lastSeenSource = None, hn_identity = no_identity, hn_routeMode = mode\<rparr>"

section \<open>Facts about the tables\<close>

lemma find_upd:
  assumes "\<And>x. Q (f x) = Q x"
  shows "find Q (upd_where P f xs) = map_option (\<lambda>x. if P x then f x else x) (find Q xs)"
  using assms by (induction xs) (auto simp: upd_where_def)

lemma set_upd: "set (upd_where P f xs) = (\<lambda>x. if P x then f x else x) ` set xs"
  by (simp add: upd_where_def)

lemma filter_upd:
  assumes "\<And>x. Q (f x) = Q x"
  shows "filter Q (upd_where P f xs) = upd_where P f (filter Q xs)"
  using assms by (induction xs) (auto simp: upd_where_def)

lemma upd_id: "(\<And>x. x \<in> set xs \<Longrightarrow> \<not> P x) \<Longrightarrow> upd_where P f xs = xs"
  by (induction xs) (auto simp: upd_where_def)

lemma upd_where_simps [simp]: "upd_where P f [] = []" "upd_where P f (x # xs) = (if P x then f x else x) # upd_where P f xs"
  "upd_where P f (xs @ ys) = upd_where P f xs @ upd_where P f ys"
  by (simp_all add: upd_where_def)

lemma set_node_other [simp]:
  "tokens (set_node n f r) = tokens r" "grants (set_node n f r) = grants r" "node_keys (set_node n f r) = node_keys r"
  "hub_keys (set_node n f r) = hub_keys r" "seen_nonces (set_node n f r) = seen_nonces r" "audit (set_node n f r) = audit r"
  "events (set_node n f r) = events r" "reports (set_node n f r) = reports r" "reportSeq (set_node n f r) = reportSeq r" "sessions (set_node n f r) = sessions r"
  "targets (set_node n f r) = targets r" "probeFailures (set_node n f r) = probeFailures r"
  "nodes (set_node n f r) = upd_where (\<lambda>x. hn_id x = n) f (nodes r)"
  "cadenceSeconds (set_node n f r) = cadenceSeconds r" "overlapHours (set_node n f r) = overlapHours r"
  "hubOverlapDays (set_node n f r) = hubOverlapDays r" "pairingHubBaseUrl (set_node n f r) = pairingHubBaseUrl r"
  by (simp_all add: set_node_def)

lemma recordEvent_other [simp]:
  "tokens (recordEvent t n d a b s r) = tokens r" "grants (recordEvent t n d a b s r) = grants r"
  "nodes (recordEvent t n d a b s r) = nodes r" "node_keys (recordEvent t n d a b s r) = node_keys r"
  "hub_keys (recordEvent t n d a b s r) = hub_keys r" "seen_nonces (recordEvent t n d a b s r) = seen_nonces r"
  "audit (recordEvent t n d a b s r) = audit r" "reports (recordEvent t n d a b s r) = reports r" "reportSeq (recordEvent t n d a b s r) = reportSeq r"
  "sessions (recordEvent t n d a b s r) = sessions r" "targets (recordEvent t n d a b s r) = targets r"
  "probeFailures (recordEvent t n d a b s r) = probeFailures r"
  "cadenceSeconds (recordEvent t n d a b s r) = cadenceSeconds r" "overlapHours (recordEvent t n d a b s r) = overlapHours r"
  "hubOverlapDays (recordEvent t n d a b s r) = hubOverlapDays r" "pairingHubBaseUrl (recordEvent t n d a b s r) = pairingHubBaseUrl r"
  by (simp_all add: recordEvent_def)

lemma recordAudit_other [simp]:
  "tokens (recordAudit t a c d r) = tokens r" "grants (recordAudit t a c d r) = grants r"
  "nodes (recordAudit t a c d r) = nodes r" "node_keys (recordAudit t a c d r) = node_keys r"
  "hub_keys (recordAudit t a c d r) = hub_keys r" "seen_nonces (recordAudit t a c d r) = seen_nonces r"
  "events (recordAudit t a c d r) = events r" "reports (recordAudit t a c d r) = reports r" "reportSeq (recordAudit t a c d r) = reportSeq r"
  "sessions (recordAudit t a c d r) = sessions r" "targets (recordAudit t a c d r) = targets r"
  "probeFailures (recordAudit t a c d r) = probeFailures r"
  "cadenceSeconds (recordAudit t a c d r) = cadenceSeconds r" "overlapHours (recordAudit t a c d r) = overlapHours r"
  "hubOverlapDays (recordAudit t a c d r) = hubOverlapDays r" "pairingHubBaseUrl (recordAudit t a c d r) = pairingHubBaseUrl r"
  by (simp_all add: recordAudit_def)

lemma getNodeRow_cong: "nodes r' = nodes r \<Longrightarrow> getNodeRow n r' = getNodeRow n r"
  by (simp add: getNodeRow_def)

lemma getNodeRow_recorded [simp]:
  "getNodeRow n (recordEvent t m d a b s r) = getNodeRow n r" "getNodeRow n (recordAudit t a' c d' r) = getNodeRow n r"
  by (simp_all add: getNodeRow_def)

lemma getNodeRow_set_node:
  assumes "\<And>x. hn_id (f x) = hn_id x"
  shows "getNodeRow m (set_node n f r) = (if m = n then map_option f (getNodeRow m r) else getNodeRow m r)"
proof -
  have "getNodeRow m (set_node n f r) = map_option (\<lambda>x. if hn_id x = n then f x else x) (getNodeRow m r)"
    unfolding getNodeRow_def set_node_other by (rule find_upd) (simp add: assms)
  moreover have "hn_id x = m" if "getNodeRow m r = Some x" for x
    using that by (auto simp: getNodeRow_def find_Some_iff)
  ultimately show ?thesis by (cases "getNodeRow m r") auto
qed

lemma getNodeRow_id: "getNodeRow n r = Some x \<Longrightarrow> hn_id x = n \<and> x \<in> set (nodes r)"
  by (auto simp: getNodeRow_def find_Some_iff)

lemma deriveKeyRow_id: "deriveKeyRow n k r = Some x \<Longrightarrow> nk_node x = n \<and> nk_id x = k \<and> x \<in> set (node_keys r)"
  by (auto simp: deriveKeyRow_def find_Some_iff)

end
