(* ===== verification/HubKeyLifecycle.thy ===== *)
theory HubKeyLifecycle
  imports RegistryState HubRouteKeys
begin

text \<open>
  The Hub route identity lifecycle of \<^verbatim>\<open>src/registry/registry.mjs\<close>: provisioning, acknowledgement by
  heartbeat, rotation, the end of a rotation overlap and revocation. A fresh Ed25519 pair is the argument
  \<open>kp\<close>, the ISO text of a time the argument \<open>isoText\<close>. The specification is the state machine of one node's
  live keys; the rows implement it.
\<close>

definition live_keys :: "str \<Rightarrow> reg \<Rightarrow> hub_key list" where
  "live_keys n r = sort_key hk_createdAt (filter (\<lambda>k. hk_node k = n \<and> hk_state k \<noteq> ''revoked'') (hub_keys r))"

definition new_hub_key :: "int \<Rightarrow> str \<Rightarrow> str \<Rightarrow> str \<times> str \<Rightarrow> hub_key" where
  "new_hub_key now n kid kp = \<lparr>hk_node = n, hk_id = kid, hk_public = fst kp, hk_private = snd kp, hk_state = ''provisioned'',
     hk_createdAt = now, hk_activatedAt = None, hk_revokeAfter = None, hk_revokedAt = None, hk_reason = None\<rparr>"

definition insert_hub_key :: "hub_key \<Rightarrow> reg \<Rightarrow> reg option" where
  "insert_hub_key k r =
     (if list_ex (\<lambda>x. hk_node x = hk_node k \<and> hk_id x = hk_id k) (hub_keys r) then None
      else Some (r\<lparr>hub_keys := hub_keys r @ [k]\<rparr>))"

text \<open>A new key is inserted when the node has none that is live; \<^const>\<open>None\<close> when the insert throws.\<close>

definition ensureHubRouteKey :: "(str \<Rightarrow> str) \<Rightarrow> int \<Rightarrow> str \<Rightarrow> str \<times> str \<Rightarrow> reg \<Rightarrow> reg option" where
  "ensureHubRouteKey sha now n kp r =
     (if live_keys n r \<noteq> [] then Some r
      else case deriveKeyId sha (fst kp) of
        Inl e \<Rightarrow> None
      | Inr kid \<Rightarrow>
        (case insert_hub_key (new_hub_key now n kid kp) r of
           None \<Rightarrow> None
         | Some r1 \<Rightarrow> Some (recordAudit now (''system:'' @ n) ''hub.route-keys.provision'' [(''nodeId'', n), (''keyId'', kid)] r1)))"

definition getHubRouteKeysForNode :: "(int \<Rightarrow> str) \<Rightarrow> str \<Rightarrow> reg \<Rightarrow> route_key list" where
  "getHubRouteKeysForNode isoText n r =
     map (\<lambda>k. \<lparr>rk_keyId = hk_id k, rk_publicKey = hk_public k, rk_state = hk_state k, rk_overlapUntil = map_option isoText (hk_revokeAfter k)\<rparr>)
       (sort_key hk_createdAt (filter (\<lambda>k. hk_node k = n \<and> hk_state k \<in> {''provisioned'', ''active'', ''rotating''}) (hub_keys r)))"

definition getActiveHubRouteKey :: "str \<Rightarrow> reg \<Rightarrow> hub_key option" where
  "getActiveHubRouteKey n r =
     (let newest = (\<lambda>st. case sort_key (\<lambda>k. - hk_createdAt k) (filter (\<lambda>k. hk_node k = n \<and> hk_state k = st) (hub_keys r)) of
          [] \<Rightarrow> None | k # _ \<Rightarrow> Some k) in
      case newest ''active'' of Some k \<Rightarrow> Some k | None \<Rightarrow> newest ''rotating'')"

definition set_hub_key :: "str \<Rightarrow> str \<Rightarrow> (hub_key \<Rightarrow> hub_key) \<Rightarrow> reg \<Rightarrow> reg" where
  "set_hub_key n kid f r = r\<lparr>hub_keys := upd_where (\<lambda>k. hk_node k = n \<and> hk_id k = kid) f (hub_keys r)\<rparr>"

definition days_ms :: "int \<Rightarrow> int" where
  "days_ms d = d * 24 * 60 * 60 * 1000"

definition acknowledgeHubRouteKeys :: "int \<Rightarrow> str \<Rightarrow> str list \<Rightarrow> reg \<Rightarrow> reg" where
  "acknowledgeHubRouteKeys now n accepted r =
     (if accepted = [] then r
      else let keys = live_keys n r in
        case keys of
          [k] \<Rightarrow> if hk_state k = ''provisioned'' then
              (if hk_id k \<in> set accepted then
                 recordAudit now (''system:'' @ n) ''hub.route-keys.activate'' [(''nodeId'', n), (''keyId'', hk_id k)]
                   (set_hub_key n (hk_id k) (\<lambda>k. k\<lparr>hk_state := ''active'', hk_activatedAt := Some now\<rparr>) r)
               else r)
            else r
        | _ \<Rightarrow>
          (case (find (\<lambda>k. hk_state k = ''active'') keys, find (\<lambda>k. hk_state k = ''provisioned'') keys) of
             (Some a, Some p) \<Rightarrow>
               if hk_id p \<in> set accepted then
                 let until = now + days_ms (hubOverlapDays r) in
                 recordAudit now (''system:'' @ n) ''hub.route-keys.rotate'' [(''nodeId'', n), (''activeKeyId'', hk_id p), (''rotatingKeyId'', hk_id a)]
                   (set_hub_key n (hk_id a) (\<lambda>k. k\<lparr>hk_state := ''rotating'', hk_revokeAfter := Some until\<rparr>)
                     (set_hub_key n (hk_id p) (\<lambda>k. k\<lparr>hk_state := ''active'', hk_activatedAt := Some now\<rparr>) r))
               else r
           | _ \<Rightarrow> r))"

definition rotateHubRouteKey ::
  "(str \<Rightarrow> str) \<Rightarrow> int \<Rightarrow> str \<Rightarrow> str \<Rightarrow> str \<times> str \<Rightarrow> reg \<Rightarrow> (denial + str \<times> str) \<times> reg" where
  "rotateHubRouteKey sha now actor n kp r =
     (if n = [] \<or> actor = [] then (Inl bad_request, r)
      else if (case getNodeRow n r of None \<Rightarrow> True | Some x \<Rightarrow> hn_state x \<noteq> ''active'') then (Inl (Denied 404 ''not-found''), r)
      else case find (\<lambda>k. hk_state k = ''active'') (live_keys n r) of
        None \<Rightarrow> (Inl (Denied 409 ''no-active-route-key''), r)
      | Some a \<Rightarrow>
        if list_ex (\<lambda>k. hk_state k = ''provisioned'' \<or> hk_state k = ''rotating'') (live_keys n r)
        then (Inl (Denied 409 ''rotation-in-progress''), r)
        else (case deriveKeyId sha (fst kp) of
            Inl e \<Rightarrow> (Inl internal_error, r)
          | Inr kid \<Rightarrow>
            (case insert_hub_key (new_hub_key now n kid kp) r of
               None \<Rightarrow> (Inl internal_error, r)
             | Some r1 \<Rightarrow> (Inr (hk_id a, kid),
                 recordAudit now actor ''hub.route-keys.rotate-intent'' [(''nodeId'', n), (''currentKeyId'', hk_id a), (''newKeyId'', kid)] r1))))"

text \<open>The part of \<open>maintenance\<close> that ends rotation overlaps; the rows to expire are selected first.\<close>

definition overlap_ended :: "int \<Rightarrow> hub_key \<Rightarrow> bool" where
  "overlap_ended now k \<longleftrightarrow> hk_state k = ''rotating'' \<and> (case hk_revokeAfter k of None \<Rightarrow> False | Some t \<Rightarrow> t \<le> now)"

definition expire_hub_key :: "int \<Rightarrow> hub_key \<Rightarrow> reg \<Rightarrow> reg" where
  "expire_hub_key now k r =
     recordAudit now (''system:'' @ hk_node k) ''hub.route-keys.revoke'' [(''nodeId'', hk_node k), (''keyId'', hk_id k), (''reason'', ''rotation-overlap-ended'')]
       (set_hub_key (hk_node k) (hk_id k)
         (\<lambda>k. k\<lparr>hk_state := ''revoked'', hk_revokedAt := Some now, hk_reason := Some ''rotation-overlap-ended''\<rparr>) r)"

definition expire_hub_keys :: "int \<Rightarrow> reg \<Rightarrow> reg" where
  "expire_hub_keys now r = fold (expire_hub_key now) (filter (overlap_ended now) (hub_keys r)) r"

text \<open>The part of \<open>deleteNode\<close> that revokes a node's route keys.\<close>

definition revoke_hub_keys :: "int \<Rightarrow> str \<Rightarrow> reg \<Rightarrow> reg" where
  "revoke_hub_keys now n r = r\<lparr>hub_keys := upd_where (\<lambda>k. hk_node k = n \<and> hk_state k \<noteq> ''revoked'')
     (\<lambda>k. k\<lparr>hk_state := ''revoked'', hk_revokedAt := Some now, hk_reason := Some ''node-delete''\<rparr>) (hub_keys r)\<rparr>"

section \<open>The specification\<close>

text \<open>The live keys of a node, as the route identity design names their stages.\<close>

datatype key_phase =
    NoKey
  | Provisioned str
  | Activated str
  | Announced str str
  | Overlapping str str int

datatype key_op =
    Ensure "str \<times> str"
  | Acknowledge "str list"
  | Rotate str "str \<times> str"
  | EndOverlaps
  | Revoke

fun key_step :: "(str \<Rightarrow> str) \<Rightarrow> int \<Rightarrow> str \<Rightarrow> key_op \<Rightarrow> reg \<Rightarrow> reg" where
  "key_step sha now n (Ensure kp) r = (case ensureHubRouteKey sha now n kp r of None \<Rightarrow> r | Some r' \<Rightarrow> r')"
| "key_step sha now n (Acknowledge ids) r = acknowledgeHubRouteKeys now n ids r"
| "key_step sha now n (Rotate actor kp) r = snd (rotateHubRouteKey sha now actor n kp r)"
| "key_step sha now n EndOverlaps r = expire_hub_keys now r"
| "key_step sha now n Revoke r = revoke_hub_keys now n r"

definition minted_id :: "(str \<Rightarrow> str) \<Rightarrow> str \<times> str \<Rightarrow> str" where
  "minted_id sha kp = take 32 (sha (fst kp))"

text \<open>The step of one node's phase: \<open>m\<close> is the node an operation addresses, overlaps end for all.\<close>

fun spec_step :: "(str \<Rightarrow> str) \<Rightarrow> (str \<Rightarrow> bool) \<Rightarrow> int \<Rightarrow> int \<Rightarrow> str \<Rightarrow> key_op \<Rightarrow> (str \<Rightarrow> key_phase) \<Rightarrow> str \<Rightarrow> key_phase" where
  "spec_step sha up days now m (Ensure kp) ph n =
     (if n = m \<and> ph n = NoKey then Provisioned (minted_id sha kp) else ph n)"
| "spec_step sha up days now m (Acknowledge ids) ph n =
     (if n \<noteq> m then ph n
      else case ph n of
        Provisioned k \<Rightarrow> if k \<in> set ids then Activated k else ph n
      | Announced a p \<Rightarrow> if p \<in> set ids then Overlapping p a (now + days_ms days) else ph n
      | _ \<Rightarrow> ph n)"
| "spec_step sha up days now m (Rotate actor kp) ph n =
     (case ph n of Activated a \<Rightarrow> if n = m \<and> n \<noteq> [] \<and> actor \<noteq> [] \<and> up n then Announced a (minted_id sha kp) else ph n
      | _ \<Rightarrow> ph n)"
| "spec_step sha up days now m EndOverlaps ph n =
     (case ph n of Overlapping a k t \<Rightarrow> if t \<le> now then Activated a else ph n | _ \<Rightarrow> ph n)"
| "spec_step sha up days now m Revoke ph n = (if n = m then NoKey else ph n)"

text \<open>The phase the rows of a node are in, if they are in one.\<close>

definition key_view :: "hub_key \<Rightarrow> str \<times> str \<times> int option" where
  "key_view k = (hk_state k, hk_id k, hk_revokeAfter k)"

definition live_views :: "str \<Rightarrow> reg \<Rightarrow> (str \<times> str \<times> int option) list" where
  "live_views n r = map key_view (filter (\<lambda>k. hk_node k = n \<and> hk_state k \<noteq> ''revoked'') (hub_keys r))"

fun rows_of :: "key_phase \<Rightarrow> (str \<times> str \<times> int option) list" where
  "rows_of NoKey = []"
| "rows_of (Provisioned k) = [(''provisioned'', k, None)]"
| "rows_of (Activated k) = [(''active'', k, None)]"
| "rows_of (Announced a p) = [(''active'', a, None), (''provisioned'', p, None)]"
| "rows_of (Overlapping a k t) = [(''rotating'', k, Some t), (''active'', a, None)]"

definition implements_phase :: "str \<Rightarrow> reg \<Rightarrow> key_phase \<Rightarrow> bool" where
  "implements_phase n r ph \<longleftrightarrow> live_views n r = rows_of ph"

section \<open>The rows implement the specification\<close>

definition keys_wf :: "reg \<Rightarrow> bool" where
  "keys_wf r \<longleftrightarrow> distinct (map (\<lambda>k. (hk_node k, hk_id k)) (hub_keys r))"

abbreviation live_at :: "str \<Rightarrow> hub_key \<Rightarrow> bool" where
  "live_at n \<equiv> \<lambda>k. hk_node k = n \<and> hk_state k \<noteq> ''revoked''"

lemma filter_upd_on:
  assumes "\<And>x. x \<in> set xs \<Longrightarrow> Q x \<Longrightarrow> P (f x) = P x"
  shows "filter P (upd_where Q f xs) = upd_where Q f (filter P xs)"
  using assms by (induction xs) auto

lemma filter_upd_drop:
  assumes "\<And>x. Q x \<Longrightarrow> \<not> P (f x)"
  shows "filter P (upd_where Q f xs) = filter (\<lambda>x. P x \<and> \<not> Q x) xs"
  using assms by (induction xs) auto

lemma unique_row:
  "keys_wf r \<Longrightarrow> x \<in> set (hub_keys r) \<Longrightarrow> y \<in> set (hub_keys r) \<Longrightarrow> hk_node x = hk_node y \<Longrightarrow> hk_id x = hk_id y \<Longrightarrow> x = y"
  unfolding keys_wf_def distinct_map inj_on_def by blast

lemma sort_key_two: "sort_key f [x, y] = [x, y] \<or> sort_key f [x, y] = [y, x]"
  by simp

lemma live_keys_set: "set (live_keys n r) = set (filter (live_at n) (hub_keys r))"
  by (simp add: live_keys_def)

text \<open>The live rows of a node, by phase.\<close>

lemma phase_rows:
  assumes "implements_phase n r ph"
  obtains "ph = NoKey" "filter (live_at n) (hub_keys r) = []"
  | k where "ph = Provisioned (hk_id k)" "filter (live_at n) (hub_keys r) = [k]" "hk_state k = ''provisioned''" "hk_revokeAfter k = None"
  | k where "ph = Activated (hk_id k)" "filter (live_at n) (hub_keys r) = [k]" "hk_state k = ''active''" "hk_revokeAfter k = None"
  | a p where "ph = Announced (hk_id a) (hk_id p)" "filter (live_at n) (hub_keys r) = [a, p]"
      "hk_state a = ''active''" "hk_revokeAfter a = None" "hk_state p = ''provisioned''" "hk_revokeAfter p = None"
  | a k t where "ph = Overlapping (hk_id a) (hk_id k) t" "filter (live_at n) (hub_keys r) = [k, a]"
      "hk_state k = ''rotating''" "hk_revokeAfter k = Some t" "hk_state a = ''active''" "hk_revokeAfter a = None"
  using assms unfolding implements_phase_def live_views_def key_view_def
  by (cases ph) (auto simp: map_eq_Cons_conv that)

lemma implements_append:
  assumes "implements_phase n r ph" "hub_keys r' = hub_keys r @ [k]"
    and "rows_of ph' = rows_of ph @ (if hk_node k = n \<and> hk_state k \<noteq> ''revoked'' then [key_view k] else [])"
  shows "implements_phase n r' ph'"
  using assms by (simp add: implements_phase_def live_views_def)

lemma implements_cong:
  "hub_keys r' = hub_keys r \<Longrightarrow> implements_phase n r' ph = implements_phase n r ph"
  by (simp add: implements_phase_def live_views_def)

lemma implements_other:
  assumes "implements_phase n r ph" "hub_keys r' = upd_where Q f (hub_keys r)"
    and "\<And>k. Q k \<Longrightarrow> hk_node k \<noteq> n" "\<And>k. hk_node (f k) = hk_node k"
  shows "implements_phase n r' ph"
proof -
  have "filter (live_at n) (upd_where Q f (hub_keys r)) = upd_where Q f (filter (live_at n) (hub_keys r))"
    by (rule filter_upd_on) (use assms(3,4) in auto)
  moreover have "upd_where Q f (filter (live_at n) (hub_keys r)) = filter (live_at n) (hub_keys r)"
    by (rule upd_id) (use assms(3) in auto)
  ultimately show ?thesis using assms(1,2) by (simp add: implements_phase_def live_views_def)
qed

lemma keys_wf_upd:
  assumes "keys_wf r" "hub_keys r' = upd_where Q f (hub_keys r)" "\<And>k. hk_node (f k) = hk_node k \<and> hk_id (f k) = hk_id k"
  shows "keys_wf r'"
proof -
  have "map (\<lambda>k. (hk_node k, hk_id k)) (upd_where Q f xs) = map (\<lambda>k. (hk_node k, hk_id k)) xs" for xs
    using assms(3) by (induction xs) auto
  with assms show ?thesis by (simp add: keys_wf_def)
qed

lemma keys_wf_append:
  assumes "keys_wf r" "hub_keys r' = hub_keys r @ [k]" "\<not> list_ex (\<lambda>x. hk_node x = hk_node k \<and> hk_id x = hk_id k) (hub_keys r)"
  shows "keys_wf r'"
  using assms by (auto simp: keys_wf_def list_ex_iff)

subsection \<open>Provisioning and rotation\<close>

definition node_active :: "reg \<Rightarrow> str \<Rightarrow> bool" where
  "node_active r n \<longleftrightarrow> (case getNodeRow n r of None \<Rightarrow> False | Some x \<Rightarrow> hn_state x = ''active'')"

text \<open>A fresh pair: its public key is well formed and its id is none of the node's.\<close>

definition fresh_pair :: "(str \<Rightarrow> str) \<Rightarrow> str \<Rightarrow> str \<times> str \<Rightarrow> reg \<Rightarrow> bool" where
  "fresh_pair sha n kp r \<longleftrightarrow> hex_pattern 64 (fst kp) \<and> (\<forall>k \<in> set (hub_keys r). hk_node k = n \<longrightarrow> hk_id k \<noteq> minted_id sha kp)"

lemma fresh_pair_new:
  assumes "fresh_pair sha n kp r"
  shows "\<not> list_ex (\<lambda>x. hk_node x = hk_node (new_hub_key now n (minted_id sha kp) kp)
    \<and> hk_id x = hk_id (new_hub_key now n (minted_id sha kp) kp)) (hub_keys r)"
  using assms unfolding fresh_pair_def list_ex_iff by (simp add: new_hub_key_def)

lemma fresh_pair_insert:
  assumes "fresh_pair sha n kp r"
  shows "deriveKeyId sha (fst kp) = Inr (minted_id sha kp)"
    and "insert_hub_key (new_hub_key now n (minted_id sha kp) kp) r
      = Some (r\<lparr>hub_keys := hub_keys r @ [new_hub_key now n (minted_id sha kp) kp]\<rparr>)"
proof -
  show "deriveKeyId sha (fst kp) = Inr (minted_id sha kp)"
    using assms by (simp add: fresh_pair_def deriveKeyId_def minted_id_def)
  have "\<not> list_ex (\<lambda>x. hk_node x = n \<and> hk_id x = minted_id sha kp) (hub_keys r)"
    using assms unfolding fresh_pair_def list_ex_iff by blast
  then show "insert_hub_key (new_hub_key now n (minted_id sha kp) kp) r
      = Some (r\<lparr>hub_keys := hub_keys r @ [new_hub_key now n (minted_id sha kp) kp]\<rparr>)"
    by (simp add: insert_hub_key_def new_hub_key_def)
qed

lemma live_keys_Nil: "live_keys n r = [] \<longleftrightarrow> filter (live_at n) (hub_keys r) = []"
proof -
  have "length (live_keys n r) = length (filter (live_at n) (hub_keys r))" unfolding live_keys_def by (rule length_sort)
  then show ?thesis by (simp only: length_0_conv [symmetric])
qed

lemma ensure_hub_keys:
  assumes "fresh_pair sha n kp r"
  obtains r' where "ensureHubRouteKey sha now n kp r = Some r'"
    "hub_keys r' = (if filter (live_at n) (hub_keys r) = [] then hub_keys r @ [new_hub_key now n (minted_id sha kp) kp] else hub_keys r)"
proof (cases "live_keys n r = []")
  case True
  let ?k = "new_hub_key now n (minted_id sha kp) kp"
  have "ensureHubRouteKey sha now n kp r = Some (recordAudit now (''system:'' @ n) ''hub.route-keys.provision''
      [(''nodeId'', n), (''keyId'', minted_id sha kp)] (r\<lparr>hub_keys := hub_keys r @ [?k]\<rparr>))"
    using True fresh_pair_insert(1) [OF assms] fresh_pair_insert(2) [OF assms, where now = now]
    by (simp add: ensureHubRouteKey_def)
  then show thesis by (rule that) (use True live_keys_Nil [of n r] in simp)
next
  case False
  then show thesis using live_keys_Nil [of n r] by (intro that [of r]) (simp_all add: ensureHubRouteKey_def)
qed

lemma phase_NoKey_iff: "implements_phase n r ph \<Longrightarrow> ph = NoKey \<longleftrightarrow> filter (live_at n) (hub_keys r) = []"
  by (erule phase_rows) auto

lemma ensure_implements:
  fixes now :: int
  assumes imp: "\<forall>n. implements_phase n r (ph n)" and fresh: "fresh_pair sha m kp r" and wf: "keys_wf r"
  defines "r' \<equiv> key_step sha now m (Ensure kp) r"
  shows "(\<forall>n. implements_phase n r' (spec_step sha up days now m (Ensure kp) ph n)) \<and> keys_wf r'"
proof -
  let ?k = "new_hub_key now m (minted_id sha kp) kp"
  obtain r1 where r1: "ensureHubRouteKey sha now m kp r = Some r1"
    "hub_keys r1 = (if filter (live_at m) (hub_keys r) = [] then hub_keys r @ [?k] else hub_keys r)"
    using ensure_hub_keys [OF fresh] by blast
  then have r': "r' = r1" by (simp add: r'_def)
  note new = fresh_pair_new [OF fresh, where now = now]
  have "keys_wf r1"
  proof (cases "filter (live_at m) (hub_keys r) = []")
    case True
    then have "hub_keys r1 = hub_keys r @ [?k]" using r1(2) by simp
    then show ?thesis by (rule keys_wf_append [OF wf _ new])
  next
    case False
    with wf r1(2) show ?thesis unfolding keys_wf_def by simp
  qed
  moreover have "implements_phase n r1 (spec_step sha up days now m (Ensure kp) ph n)" for n
  proof (cases "ph m = NoKey")
    case True
    then have e: "hub_keys r1 = hub_keys r @ [?k]" using phase_NoKey_iff [OF imp [THEN spec, of m]] r1(2) by simp
    show ?thesis
      by (rule implements_append [OF imp [THEN spec] e], cases "n = m")
        (simp_all add: True new_hub_key_def key_view_def)
  next
    case False
    then have "hub_keys r1 = hub_keys r" using phase_NoKey_iff [OF imp [THEN spec, of m]] r1(2) by simp
    moreover have "spec_step sha up days now m (Ensure kp) ph n = ph n" using False by auto
    ultimately show ?thesis using imp by (simp add: implements_cong [of r1 r])
  qed
  ultimately show ?thesis using r' by blast
qed

lemma find_live:
  "find (\<lambda>k. hk_state k = st) (live_keys n r) = None \<longleftrightarrow> (\<forall>k \<in> set (filter (live_at n) (hub_keys r)). hk_state k \<noteq> st)"
  by (auto simp: find_None_iff live_keys_def)

lemma find_live_unique:
  assumes "k \<in> set (filter (live_at n) (hub_keys r))" "hk_state k = st"
    and "\<And>x. x \<in> set (filter (live_at n) (hub_keys r)) \<Longrightarrow> hk_state x = st \<Longrightarrow> x = k"
  shows "find (\<lambda>k. hk_state k = st) (live_keys n r) = Some k"
proof (cases "find (\<lambda>k. hk_state k = st) (live_keys n r)")
  case None
  with assms(1,2) find_live show ?thesis by blast
next
  case (Some x)
  then have "x \<in> set (live_keys n r)" "hk_state x = st" by (auto simp: find_Some_iff)
  with assms(3) [of x] Some show ?thesis by (simp add: live_keys_set)
qed

lemma rotate_implements:
  fixes now :: int and actor :: str
  assumes imp: "\<forall>n. implements_phase n r (ph n)" and fresh: "fresh_pair sha m kp r" and wf: "keys_wf r"
  defines "up \<equiv> node_active r"
  defines "r' \<equiv> key_step sha now m (Rotate actor kp) r"
  shows "(\<forall>n. implements_phase n r' (spec_step sha up days now m (Rotate actor kp) ph n)) \<and> keys_wf r'"
proof (cases "m \<noteq> [] \<and> actor \<noteq> [] \<and> up m \<and> (\<exists>a. ph m = Activated a)")
  case True
  then obtain a0 where pa: "ph m = Activated a0" by blast
  from imp [THEN spec, of m] obtain a where a: "a0 = hk_id a" "filter (live_at m) (hub_keys r) = [a]" "hk_state a = ''active''"
    by (rule phase_rows) (use pa in auto)
  have lk: "live_keys m r = [a]" by (simp add: live_keys_def a(2))
  let ?k = "new_hub_key now m (minted_id sha kp) kp"
  have e: "hub_keys r' = hub_keys r @ [?k]"
    using True lk a(3) fresh_pair_insert(1) [OF fresh] fresh_pair_insert(2) [OF fresh, where now = now]
    by (auto simp: r'_def rotateHubRouteKey_def up_def node_active_def split: option.splits)
  have "keys_wf r'" by (rule keys_wf_append [OF wf e fresh_pair_new [OF fresh]])
  moreover have "implements_phase n r' (spec_step sha up days now m (Rotate actor kp) ph n)" for n
  proof (cases "n = m")
    case True
    show ?thesis
      by (rule implements_append [OF imp [THEN spec] e])
        (use \<open>m \<noteq> [] \<and> actor \<noteq> [] \<and> up m \<and> (\<exists>a. ph m = Activated a)\<close> True pa in \<open>auto simp: new_hub_key_def key_view_def\<close>)
  next
    case False
    show ?thesis
      by (rule implements_append [OF imp [THEN spec] e]) (use False in \<open>auto simp: new_hub_key_def split: key_phase.split\<close>)
  qed
  ultimately show ?thesis by blast
next
  case False
  have same: "r' = r"
  proof (cases "m \<noteq> [] \<and> actor \<noteq> [] \<and> up m")
    case False
    then show ?thesis by (auto simp: r'_def rotateHubRouteKey_def up_def node_active_def split: option.splits)
  next
    case True
    with False have na: "\<And>a. ph m \<noteq> Activated a" by blast
    from imp [THEN spec, of m]
    have "find (\<lambda>k. hk_state k = ''active'') (live_keys m r) = None
      \<or> list_ex (\<lambda>k. hk_state k = ''provisioned'' \<or> hk_state k = ''rotating'') (live_keys m r)"
      by (rule phase_rows) (use na in \<open>auto simp: find_live list_ex_iff live_keys_set\<close>)
    then show ?thesis
      using True by (auto simp: r'_def rotateHubRouteKey_def up_def node_active_def split: option.splits)
  qed
  have "spec_step sha up days now m (Rotate actor kp) ph n = ph n" for n
    using False by (auto split: key_phase.split)
  with imp wf show ?thesis by (simp add: same)
qed

subsection \<open>Acknowledgement\<close>

lemma set_hub_key_rows [simp]: "hub_keys (set_hub_key n kid f r) = upd_where (\<lambda>k. hk_node k = n \<and> hk_id k = kid) f (hub_keys r)"
  by (simp add: set_hub_key_def)

text \<open>Updating one live row of a node leaves its live rows in place.\<close>

lemma filter_live_set:
  assumes wf: "keys_wf r" and k: "k \<in> set (filter (live_at n) (hub_keys r))"
    and f: "\<And>x. hk_node (f x) = hk_node x \<and> hk_state (f x) \<noteq> ''revoked''"
  shows "filter (live_at n) (upd_where (\<lambda>x. hk_node x = n \<and> hk_id x = hk_id k) f (hub_keys r))
    = upd_where (\<lambda>x. hk_node x = n \<and> hk_id x = hk_id k) f (filter (live_at n) (hub_keys r))"
proof (rule filter_upd_on)
  fix x assume x: "x \<in> set (hub_keys r)" "hk_node x = n \<and> hk_id x = hk_id k"
  with k have "x = k" using unique_row [OF wf, of x k] by auto
  with k f show "live_at n (f x) = live_at n x" by auto
qed

lemma ack_implements:
  fixes now :: int and m :: str and ids :: "str list"
  assumes imp: "\<forall>n. implements_phase n r (ph n)" and wf: "keys_wf r"
  defines "r' \<equiv> acknowledgeHubRouteKeys now m ids r"
  shows "implements_phase n r' (spec_step sha up (hubOverlapDays r) now m (Acknowledge ids) ph n)"
    and "keys_wf r'"
proof -
  have other: "implements_phase n r2 (ph n)" if "n \<noteq> m" "hub_keys r2 = upd_where (\<lambda>x. hk_node x = m \<and> hk_id x = i) f (hub_keys r)"
    "\<And>x. hk_node (f x) = hk_node x" for r2 i f n
    by (rule implements_other [OF imp [THEN spec] that(2)]) (use that in auto)
  let ?spec = "spec_step sha up (hubOverlapDays r) now m (Acknowledge ids) ph"
  have same: "(\<forall>n. implements_phase n r' (?spec n)) \<and> keys_wf r'" if "r' = r" "\<And>n. ?spec n = ph n"
    using imp wf that by simp
  have "(\<forall>n. implements_phase n r' (?spec n)) \<and> keys_wf r'"
    using imp [THEN spec, of m]
  proof (cases rule: phase_rows)
    case 1
    then have "live_keys m r = []" using live_keys_Nil by simp
    then have "r' = r" by (simp add: r'_def acknowledgeHubRouteKeys_def)
    then show ?thesis by (rule same) (use 1(1) in simp)
  next
    case (2 k)
    have lk: "live_keys m r = [k]" by (simp add: live_keys_def 2(2))
    show ?thesis
    proof (cases "hk_id k \<in> set ids")
      case False
      then have "r' = r" using lk 2(3) by (simp add: r'_def acknowledgeHubRouteKeys_def Let_def)
      then show ?thesis by (rule same) (use 2(1) False in auto)
    next
      case True
      let ?f = "\<lambda>k. k\<lparr>hk_state := ''active'', hk_activatedAt := Some now\<rparr>"
      have rows: "hub_keys r' = upd_where (\<lambda>x. hk_node x = m \<and> hk_id x = hk_id k) ?f (hub_keys r)"
        using True lk 2(3) by (auto simp: r'_def acknowledgeHubRouteKeys_def Let_def)
      have "k \<in> set (filter (live_at m) (hub_keys r))" by (simp only: 2(2) list.set insertI1)
      from filter_live_set [OF wf this, of ?f]
      have "filter (live_at m) (hub_keys r') = upd_where (\<lambda>x. hk_node x = m \<and> hk_id x = hk_id k) ?f [k]"
        by (simp only: rows 2(2)) simp
      moreover have "hk_node k = m" using 2(2) by (auto simp: filter_eq_Cons_iff)
      ultimately have "implements_phase m r' (Activated (hk_id k))"
        using 2(4) by (simp add: implements_phase_def live_views_def key_view_def)
      moreover have "implements_phase n r' (ph n)" if "n \<noteq> m" for n by (rule other [OF that rows]) simp
      moreover have "keys_wf r'" by (rule keys_wf_upd [OF wf rows]) simp
      ultimately show ?thesis using True 2(1) by auto
    qed
  next
    case (3 k)
    have lk: "live_keys m r = [k]" by (simp add: live_keys_def 3(2))
    then have "r' = r" using 3(3) by (auto simp: r'_def acknowledgeHubRouteKeys_def Let_def)
    then show ?thesis by (rule same) (use 3(1) in auto)
  next
    case (4 a p)
    have lk: "live_keys m r = [a, p] \<or> live_keys m r = [p, a]" unfolding live_keys_def 4(2) by (rule sort_key_two)
    have f: "find (\<lambda>k. hk_state k = ''active'') (live_keys m r) = Some a" "find (\<lambda>k. hk_state k = ''provisioned'') (live_keys m r) = Some p"
      using lk 4(3,5) by auto
    show ?thesis
    proof (cases "hk_id p \<in> set ids")
      case False
      have "r' = r" using False f lk by (auto simp: r'_def acknowledgeHubRouteKeys_def Let_def)
      then show ?thesis by (rule same) (use 4(1) False in auto)
    next
      case True
      let ?t = "now + days_ms (hubOverlapDays r)"
      let ?f = "\<lambda>k. k\<lparr>hk_state := ''active'', hk_activatedAt := Some now\<rparr>"
      let ?g = "\<lambda>k. k\<lparr>hk_state := ''rotating'', hk_revokeAfter := Some ?t\<rparr>"
      define r1 where "r1 = set_hub_key m (hk_id p) ?f r"
      have rows: "hub_keys r' = upd_where (\<lambda>x. hk_node x = m \<and> hk_id x = hk_id a) ?g (hub_keys r1)"
        using True f lk by (auto simp: r'_def acknowledgeHubRouteKeys_def Let_def r1_def)
      have rows1: "hub_keys r1 = upd_where (\<lambda>x. hk_node x = m \<and> hk_id x = hk_id p) ?f (hub_keys r)" by (simp add: r1_def)
      have inr: "a \<in> set (filter (live_at m) (hub_keys r))" "p \<in> set (filter (live_at m) (hub_keys r))" by (simp_all only: 4(2)) simp_all
      have nodes: "hk_node a = m" "hk_node p = m" using inr by auto
      have "a \<noteq> p" using 4(3,5) by auto
      then have ids: "hk_id a \<noteq> hk_id p" using unique_row [OF wf, of a p] inr nodes by auto
      have wf1: "keys_wf r1" by (rule keys_wf_upd [OF wf rows1]) simp
      have "filter (live_at m) (hub_keys r1) = upd_where (\<lambda>x. hk_node x = m \<and> hk_id x = hk_id p) ?f [a, p]"
        using filter_live_set [OF wf inr(2), of ?f] by (simp only: rows1 4(2)) simp
      then have l1: "filter (live_at m) (hub_keys r1) = [a, ?f p]" using nodes ids by simp
      then have "a \<in> set (filter (live_at m) (hub_keys r1))" by (simp only:) simp
      from filter_live_set [OF wf1 this, of ?g] have "filter (live_at m) (hub_keys r') = [?g a, ?f p]"
        unfolding rows l1 using nodes ids by simp
      then have "implements_phase m r' (Overlapping (hk_id p) (hk_id a) ?t)"
        using 4(6) by (simp add: implements_phase_def live_views_def key_view_def)
      moreover have "implements_phase n r' (ph n)" if "n \<noteq> m" for n
      proof -
        have "implements_phase n r1 (ph n)" by (rule other [OF that rows1]) simp
        then show ?thesis by (rule implements_other [OF _ rows]) (use that in auto)
      qed
      moreover have "keys_wf r'" by (rule keys_wf_upd [OF wf1 rows]) simp
      ultimately show ?thesis using True 4(1) by auto
    qed
  next
    case (5 a k t)
    have lk: "live_keys m r = [k, a] \<or> live_keys m r = [a, k]" unfolding live_keys_def 5(2) by (rule sort_key_two)
    then have "find (\<lambda>k. hk_state k = ''provisioned'') (live_keys m r) = None" using 5(3,5) by auto
    then have "r' = r" using lk by (auto simp: r'_def acknowledgeHubRouteKeys_def Let_def split: option.splits)
    then show ?thesis by (rule same) (use 5(1) in auto)
  qed
  then show "implements_phase n r' (spec_step sha up (hubOverlapDays r) now m (Acknowledge ids) ph n)" "keys_wf r'"
    by blast+
qed

subsection \<open>The end of overlaps and revocation\<close>

lemma expire_fold_rows:
  "hub_keys (fold (expire_hub_key now) ks r) = upd_where (\<lambda>x. (hk_node x, hk_id x) \<in> (\<lambda>k. (hk_node k, hk_id k)) ` set ks)
     (\<lambda>k. k\<lparr>hk_state := ''revoked'', hk_revokedAt := Some now, hk_reason := Some ''rotation-overlap-ended''\<rparr>) (hub_keys r)"
proof (induction ks arbitrary: r)
  case Nil
  show ?case by (simp add: upd_id)
next
  case (Cons k ks)
  have "hub_keys (expire_hub_key now k r) = upd_where (\<lambda>x. hk_node x = hk_node k \<and> hk_id x = hk_id k)
     (\<lambda>k. k\<lparr>hk_state := ''revoked'', hk_revokedAt := Some now, hk_reason := Some ''rotation-overlap-ended''\<rparr>) (hub_keys r)"
    by (simp add: expire_hub_key_def)
  with Cons.IH [of "expire_hub_key now k r"] show ?case
    by (auto simp: upd_where_def)
qed

lemma expire_rows:
  assumes "keys_wf r"
  shows "hub_keys (expire_hub_keys now r) = upd_where (overlap_ended now)
     (\<lambda>k. k\<lparr>hk_state := ''revoked'', hk_revokedAt := Some now, hk_reason := Some ''rotation-overlap-ended''\<rparr>) (hub_keys r)"
proof -
  have "(hk_node x, hk_id x) \<in> (\<lambda>k. (hk_node k, hk_id k)) ` set (filter (overlap_ended now) (hub_keys r)) \<longleftrightarrow> overlap_ended now x"
    if "x \<in> set (hub_keys r)" for x
    using that unique_row [OF assms, of x] by auto
  then show ?thesis
    unfolding expire_hub_keys_def expire_fold_rows by (auto simp: upd_where_def)
qed

lemma expire_implements:
  assumes imp: "\<forall>n. implements_phase n r (ph n)" and wf: "keys_wf r"
  shows "implements_phase n (expire_hub_keys now r) (spec_step sha up days now m EndOverlaps ph n)"
    and "keys_wf (expire_hub_keys now r)"
proof -
  have "filter (live_at n) (hub_keys (expire_hub_keys now r)) = filter (\<lambda>x. live_at n x \<and> \<not> overlap_ended now x) (hub_keys r)"
    unfolding expire_rows [OF wf] by (rule filter_upd_drop) simp
  then have rows: "filter (live_at n) (hub_keys (expire_hub_keys now r))
      = filter (\<lambda>x. \<not> overlap_ended now x) (filter (live_at n) (hub_keys r))"
    by (simp add: conj_commute)
  show "implements_phase n (expire_hub_keys now r) (spec_step sha up days now m EndOverlaps ph n)"
    using imp [THEN spec, of n]
    by (cases rule: phase_rows)
      (simp_all add: implements_phase_def live_views_def rows overlap_ended_def key_view_def del: filter_filter)
  show "keys_wf (expire_hub_keys now r)"
    by (rule keys_wf_upd [OF wf expire_rows [OF wf]]) simp
qed

lemma revoke_implements:
  assumes imp: "\<forall>n. implements_phase n r (ph n)" and wf: "keys_wf r"
  shows "implements_phase n (revoke_hub_keys now m r) (spec_step sha up days now m Revoke ph n)"
    and "keys_wf (revoke_hub_keys now m r)"
proof -
  have e: "hub_keys (revoke_hub_keys now m r) = upd_where (live_at m)
      (\<lambda>k. k\<lparr>hk_state := ''revoked'', hk_revokedAt := Some now, hk_reason := Some ''node-delete''\<rparr>) (hub_keys r)"
    by (simp add: revoke_hub_keys_def)
  show "implements_phase n (revoke_hub_keys now m r) (spec_step sha up days now m Revoke ph n)"
  proof (cases "n = m")
    case True
    have "filter (live_at m) (hub_keys (revoke_hub_keys now m r)) = filter (\<lambda>x. live_at m x \<and> \<not> live_at m x) (hub_keys r)"
      unfolding revoke_hub_keys_def by (simp add: filter_upd_drop del: filter_False)
    then have "filter (live_at m) (hub_keys (revoke_hub_keys now m r)) = []" by simp
    with True show ?thesis by (simp add: implements_phase_def live_views_def)
  next
    case False
    have "implements_phase n (revoke_hub_keys now m r) (ph n)"
      by (rule implements_other [OF imp [THEN spec] e]) (use False in auto)
    with False show ?thesis by simp
  qed
  show "keys_wf (revoke_hub_keys now m r)"
    by (rule keys_wf_upd [OF wf e]) simp
qed

subsection \<open>Runs\<close>

type_synonym key_event = "int \<times> str \<times> key_op"

fun key_run :: "(str \<Rightarrow> str) \<Rightarrow> key_event list \<Rightarrow> reg \<Rightarrow> reg" where
  "key_run sha [] r = r"
| "key_run sha ((now, n, op) # evs) r = key_run sha evs (key_step sha now n op r)"

fun spec_run :: "(str \<Rightarrow> str) \<Rightarrow> (str \<Rightarrow> bool) \<Rightarrow> int \<Rightarrow> key_event list \<Rightarrow> (str \<Rightarrow> key_phase) \<Rightarrow> str \<Rightarrow> key_phase" where
  "spec_run sha up days [] ph = ph"
| "spec_run sha up days ((now, n, op) # evs) ph = spec_run sha up days evs (spec_step sha up days now n op ph)"

text \<open>The ids an event may bring in, and fresh pairs: well-formed public keys, no id twice.\<close>

fun minted :: "(str \<Rightarrow> str) \<Rightarrow> key_event \<Rightarrow> (str \<times> str) list" where
  "minted sha (now, n, Ensure kp) = [(n, minted_id sha kp)]"
| "minted sha (now, n, Rotate actor kp) = [(n, minted_id sha kp)]"
| "minted sha (now, n, op) = []"

fun pair_ok :: "key_event \<Rightarrow> bool" where
  "pair_ok (now, n, Ensure kp) = hex_pattern 64 (fst kp)"
| "pair_ok (now, n, Rotate actor kp) = hex_pattern 64 (fst kp)"
| "pair_ok (now, n, op) = True"

definition fresh_events :: "(str \<Rightarrow> str) \<Rightarrow> key_event list \<Rightarrow> bool" where
  "fresh_events sha evs \<longleftrightarrow> list_all pair_ok evs \<and> distinct (concat (map (minted sha) evs))"

definition key_well_derived :: "(str \<Rightarrow> str) \<Rightarrow> hub_key \<Rightarrow> bool" where
  "key_well_derived sha k \<longleftrightarrow> hex_pattern 64 (hk_public k) \<and> hk_id k = take 32 (sha (hk_public k))"

definition row_ids :: "reg \<Rightarrow> (str \<times> str) set" where
  "row_ids r = (\<lambda>k. (hk_node k, hk_id k)) ` set (hub_keys r)"

text \<open>Every step updates rows in place, keeping their identity, or appends one fresh key.\<close>

definition key_name :: "hub_key \<Rightarrow> str \<times> str \<times> str" where
  "key_name k = (hk_node k, hk_id k, hk_public k)"

lemma map_upd_same: "(\<And>x. h (f x) = h x) \<Longrightarrow> map h (upd_where Q f xs) = map h xs"
  by (induction xs) auto

lemma same_names:
  assumes "map key_name (hub_keys r') = map key_name (hub_keys r)" "k \<in> set (hub_keys r')"
  shows "\<exists>k0 \<in> set (hub_keys r). hk_node k = hk_node k0 \<and> hk_id k = hk_id k0 \<and> hk_public k = hk_public k0"
proof -
  have "key_name k \<in> set (map key_name (hub_keys r))" using assms by (metis image_eqI set_map)
  then show ?thesis by (auto simp: key_name_def)
qed

lemma ack_names: "map key_name (hub_keys (acknowledgeHubRouteKeys now n ids r)) = map key_name (hub_keys r)"
proof -
  have m: "map key_name (upd_where Q (\<lambda>k. k\<lparr>hk_state := s, hk_activatedAt := t\<rparr>) xs) = map key_name xs"
    "map key_name (upd_where Q (\<lambda>k. k\<lparr>hk_state := s, hk_revokeAfter := t\<rparr>) xs) = map key_name xs" for Q s t xs
    by (rule map_upd_same; simp add: key_name_def)+
  show ?thesis
    by (simp add: acknowledgeHubRouteKeys_def Let_def m split: list.split option.split)
qed

lemma key_step_rows:
  assumes "keys_wf r" "\<And>kp. op = Ensure kp \<or> (\<exists>a. op = Rotate a kp) \<Longrightarrow> fresh_pair sha n kp r"
  shows "(\<forall>k \<in> set (hub_keys (key_step sha now n op r)). \<exists>k0. (k0 \<in> set (hub_keys r) \<or> (\<exists>kp. (op = Ensure kp \<or> (\<exists>a. op = Rotate a kp))
      \<and> k0 = new_hub_key now n (minted_id sha kp) kp)) \<and> hk_node k = hk_node k0 \<and> hk_id k = hk_id k0 \<and> hk_public k = hk_public k0)"
proof (cases op)
  case (Ensure kp)
  then have "fresh_pair sha n kp r" using assms(2) by blast
  then obtain r' where "ensureHubRouteKey sha now n kp r = Some r'"
    "hub_keys r' = (if filter (live_at n) (hub_keys r) = [] then hub_keys r @ [new_hub_key now n (minted_id sha kp) kp] else hub_keys r)"
    by (rule ensure_hub_keys)
  with Ensure show ?thesis by (auto split: if_splits)
next
  case (Rotate actor kp)
  then have "fresh_pair sha n kp r" using assms(2) by blast
  with fresh_pair_insert(1) [OF this] fresh_pair_insert(2) [OF this, where now = now] Rotate show ?thesis
    by (auto simp: rotateHubRouteKey_def split: option.splits)
next
  case (Acknowledge ids)
  then show ?thesis using same_names [OF ack_names] by fastforce
next
  case EndOverlaps
  then show ?thesis by (auto simp: expire_rows [OF assms(1)] set_upd)
next
  case Revoke
  then show ?thesis by (auto simp: revoke_hub_keys_def set_upd)
qed

lemma key_step_frame:
  "nodes (key_step sha now n op r) = nodes r" "hubOverlapDays (key_step sha now n op r) = hubOverlapDays r"
proof -
  have e: "nodes (fold (expire_hub_key now) ks r) = nodes r" "hubOverlapDays (fold (expire_hub_key now) ks r) = hubOverlapDays r" for ks r
    by (induction ks arbitrary: r) (simp_all add: expire_hub_key_def set_hub_key_def)
  show "nodes (key_step sha now n op r) = nodes r" "hubOverlapDays (key_step sha now n op r) = hubOverlapDays r"
    by (cases op; simp add: e ensureHubRouteKey_def insert_hub_key_def rotateHubRouteKey_def acknowledgeHubRouteKeys_def
        set_hub_key_def expire_hub_keys_def revoke_hub_keys_def Let_def split: option.splits sum.splits list.splits)+
qed

lemma key_step_implements:
  assumes imp: "\<forall>n. implements_phase n r (ph n)" and wf: "keys_wf r"
    and fresh: "\<And>kp. op = Ensure kp \<or> (\<exists>a. op = Rotate a kp) \<Longrightarrow> fresh_pair sha m kp r"
    and up: "up = (node_active r)"
  shows "(\<forall>n. implements_phase n (key_step sha now m op r) (spec_step sha up (hubOverlapDays r) now m op ph n))
    \<and> keys_wf (key_step sha now m op r)"
proof (cases op)
  case (Ensure kp)
  with fresh ensure_implements [OF imp _ wf, of sha m kp now up "hubOverlapDays r"] show ?thesis by simp
next
  case (Acknowledge ids)
  with ack_implements [OF imp wf] show ?thesis by simp
next
  case (Rotate actor kp)
  with fresh rotate_implements [OF imp _ wf, of sha m kp now actor "hubOverlapDays r"] show ?thesis by (simp add: up)
next
  case EndOverlaps
  with expire_implements [OF imp wf] show ?thesis by simp
next
  case Revoke
  with revoke_implements [OF imp wf] show ?thesis by simp
qed

lemma key_run_implements:
  assumes "\<forall>n. implements_phase n r (ph n)" "keys_wf r" "fresh_events sha evs"
    and "row_ids r \<inter> set (concat (map (minted sha) evs)) = {}" "\<forall>k \<in> set (hub_keys r). key_well_derived sha k"
    and "up = (node_active r)" "days = hubOverlapDays r"
  shows "(\<forall>n. implements_phase n (key_run sha evs r) (spec_run sha up days evs ph n))
    \<and> keys_wf (key_run sha evs r) \<and> (\<forall>k \<in> set (hub_keys (key_run sha evs r)). key_well_derived sha k)"
  using assms
proof (induction evs arbitrary: r ph)
  case (Cons ev evs)
  obtain now m op where ev: "ev = (now, m, op)" by (cases ev)
  let ?r = "key_step sha now m op r"
  have fresh: "fresh_pair sha m kp r" if "op = Ensure kp \<or> (\<exists>a. op = Rotate a kp)" for kp
  proof -
    have "hex_pattern 64 (fst kp)" "(m, minted_id sha kp) \<in> set (minted sha ev)"
      using Cons.prems(3) that ev by (auto simp: fresh_events_def)
    with Cons.prems(4) show ?thesis by (fastforce simp: fresh_pair_def row_ids_def)
  qed
  note imp = key_step_implements [OF Cons.prems(1,2) fresh Cons.prems(6), where now = now]
  have rows: "\<forall>k \<in> set (hub_keys ?r). \<exists>k0. (k0 \<in> set (hub_keys r) \<or> (\<exists>kp. (op = Ensure kp \<or> (\<exists>a. op = Rotate a kp))
      \<and> k0 = new_hub_key now m (minted_id sha kp) kp)) \<and> hk_node k = hk_node k0 \<and> hk_id k = hk_id k0 \<and> hk_public k = hk_public k0"
    by (rule key_step_rows [OF Cons.prems(2) fresh])
  have new: "key_well_derived sha (new_hub_key now m (minted_id sha kp) kp) \<and> (m, minted_id sha kp) \<in> set (minted sha ev)"
    if "op = Ensure kp \<or> (\<exists>a. op = Rotate a kp)" for kp
    using Cons.prems(3) that ev by (auto simp: fresh_events_def key_well_derived_def new_hub_key_def minted_id_def)
  have "row_ids ?r \<subseteq> row_ids r \<union> set (minted sha ev)"
  proof
    fix p assume "p \<in> row_ids ?r"
    then obtain k where k: "k \<in> set (hub_keys ?r)" "p = (hk_node k, hk_id k)" by (auto simp: row_ids_def)
    with rows obtain k0 where k0: "k0 \<in> set (hub_keys r) \<or> (\<exists>kp. (op = Ensure kp \<or> (\<exists>a. op = Rotate a kp))
        \<and> k0 = new_hub_key now m (minted_id sha kp) kp)" "hk_node k = hk_node k0" "hk_id k = hk_id k0" by blast
    from k0(1) show "p \<in> row_ids r \<union> set (minted sha ev)"
    proof
      assume "k0 \<in> set (hub_keys r)"
      with k k0 show ?thesis by (auto simp: row_ids_def)
    next
      assume "\<exists>kp. (op = Ensure kp \<or> (\<exists>a. op = Rotate a kp)) \<and> k0 = new_hub_key now m (minted_id sha kp) kp"
      then obtain kp where kp: "op = Ensure kp \<or> (\<exists>a. op = Rotate a kp)" "k0 = new_hub_key now m (minted_id sha kp) kp" by blast
      with new [OF kp(1)] k k0 show ?thesis by (simp add: new_hub_key_def)
    qed
  qed
  moreover have "set (minted sha ev) \<inter> set (concat (map (minted sha) evs)) = {}" "fresh_events sha evs"
    using Cons.prems(3) by (auto simp: fresh_events_def)
  ultimately have ids: "row_ids ?r \<inter> set (concat (map (minted sha) evs)) = {}"
    using Cons.prems(4) by auto
  have wd: "\<forall>k \<in> set (hub_keys ?r). key_well_derived sha k"
  proof
    fix k assume "k \<in> set (hub_keys ?r)"
    with rows obtain k0 where k0: "k0 \<in> set (hub_keys r) \<or> (\<exists>kp. (op = Ensure kp \<or> (\<exists>a. op = Rotate a kp))
        \<and> k0 = new_hub_key now m (minted_id sha kp) kp)" "hk_id k = hk_id k0" "hk_public k = hk_public k0" by blast
    then have "key_well_derived sha k0" using Cons.prems(5) new by blast
    with k0 show "key_well_derived sha k" by (simp add: key_well_derived_def)
  qed
  have frame: "up = (node_active ?r)" "days = hubOverlapDays ?r"
    using Cons.prems(6,7) key_step_frame [of sha now m op r] by (simp_all add: fun_eq_iff node_active_def getNodeRow_cong [of ?r r])
  show ?case
    using Cons.IH [OF _ _ \<open>fresh_events sha evs\<close> ids wd frame, of "spec_step sha up days now m op ph"] imp Cons.prems(7) ev by simp
qed simp

subsection \<open>What a heartbeat delivers\<close>

definition wire_key :: "(int \<Rightarrow> str) \<Rightarrow> hub_key \<Rightarrow> route_key" where
  "wire_key isoText k = \<lparr>rk_keyId = hk_id k, rk_publicKey = hk_public k, rk_state = hk_state k, rk_overlapUntil = map_option isoText (hk_revokeAfter k)\<rparr>"

lemma delivered_rows:
  assumes "implements_phase n r ph"
  shows "getHubRouteKeysForNode isoText n r = map (wire_key isoText) (sort_key hk_createdAt (filter (live_at n) (hub_keys r)))"
proof -
  have "hk_state k \<in> {''provisioned'', ''active'', ''rotating''}" if "k \<in> set (filter (live_at n) (hub_keys r))" for k
    using assms by (rule phase_rows) (use that in auto)
  then have "filter (\<lambda>k. hk_node k = n \<and> hk_state k \<in> {''provisioned'', ''active'', ''rotating''}) (hub_keys r)
      = filter (live_at n) (hub_keys r)"
    by (intro filter_cong) auto
  then show ?thesis by (simp add: getHubRouteKeysForNode_def wire_key_def)
qed

lemma delivered_trust_set:
  assumes imp: "implements_phase n r ph" and ne: "ph \<noteq> NoKey" and wf: "keys_wf r"
    and derived: "\<forall>k \<in> set (hub_keys r). key_well_derived sha k" and sha: "\<And>p. hex_pattern 64 (sha p)"
    and dp: "\<And>t. dp (isoText t) = Some t" and overlap: "\<forall>a k t. ph = Overlapping a k t \<longrightarrow> now < t"
  shows "\<exists>form. trust_set sha dp now form (getHubRouteKeysForNode isoText n r)"
proof -
  have well: "key_well_formed sha (wire_key isoText k)" if "k \<in> set (filter (live_at n) (hub_keys r))" for k
  proof -
    have "hex_pattern 32 (take 32 (sha p))" for p
      using sha [of p] by (auto simp: hex_pattern_def list_all_iff dest: in_set_takeD)
    with that derived show ?thesis
      by (auto simp: key_well_derived_def key_well_formed_def wire_key_def wire_pattern_defs)
  qed
  have differ: "hk_id a \<noteq> hk_id b \<and> hk_public a \<noteq> hk_public b"
    if "a \<in> set (filter (live_at n) (hub_keys r))" "b \<in> set (filter (live_at n) (hub_keys r))" "a \<noteq> b" for a b
  proof -
    have m: "a \<in> set (hub_keys r)" "b \<in> set (hub_keys r)" "hk_node a = hk_node b" using that(1,2) by simp_all
    have ids: "hk_id a \<noteq> hk_id b"
    proof
      assume "hk_id a = hk_id b"
      from unique_row [OF wf m this] that(3) show False by blast
    qed
    have "hk_id a = take 32 (sha (hk_public a))" "hk_id b = take 32 (sha (hk_public b))"
      using derived m(1,2) unfolding key_well_derived_def by blast+
    then have "hk_public a = hk_public b \<Longrightarrow> hk_id a = hk_id b" by simp
    with ids show ?thesis by blast
  qed
  note d = delivered_rows [OF imp, of isoText]
  from imp show ?thesis
  proof (cases rule: phase_rows)
    case (2 k)
    with well [of k] d show ?thesis
      by (intro exI [of _ 1]) (simp add: trust_set_def provisioned_key_def wire_key_def)
  next
    case (3 k)
    with well [of k] d show ?thesis
      by (intro exI [of _ 2]) (simp add: trust_set_def active_key_def wire_key_def)
  next
    case (4 a p)
    let ?a = "wire_key isoText a" and ?p = "wire_key isoText p"
    have ne: "a \<noteq> p" using 4(3,5) by auto
    have in_live: "a \<in> set (filter (live_at n) (hub_keys r))" "p \<in> set (filter (live_at n) (hub_keys r))"
      by (simp_all only: 4(2)) simp_all
    have w: "key_well_formed sha ?a" "key_well_formed sha ?p" by (rule well [OF in_live(1)], rule well [OF in_live(2)])
    have st: "active_key ?a" "provisioned_key ?p" using 4(3-6) by (simp_all add: active_key_def provisioned_key_def wire_key_def)
    have dist: "rk_keyId ?a \<noteq> rk_keyId ?p" "rk_publicKey ?a \<noteq> rk_publicKey ?p"
      using differ [OF in_live ne] by (simp_all add: wire_key_def)
    have "getHubRouteKeysForNode isoText n r = [?a, ?p] \<or> getHubRouteKeysForNode isoText n r = [?p, ?a]"
      unfolding d 4(2) using sort_key_two [of hk_createdAt a p] by auto
    then have "trust_set sha dp now 3 (getHubRouteKeysForNode isoText n r)"
      using w st dist dist [symmetric] unfolding trust_set_def by (elim disjE) auto
    then show ?thesis ..
  next
    case (5 a k t)
    let ?a = "wire_key isoText a" and ?k = "wire_key isoText k"
    have ne: "a \<noteq> k" using 5(3,5) by auto
    have in_live: "a \<in> set (filter (live_at n) (hub_keys r))" "k \<in> set (filter (live_at n) (hub_keys r))"
      by (simp_all only: 5(2)) simp_all
    have w: "key_well_formed sha ?a" "key_well_formed sha ?k" by (rule well [OF in_live(1)], rule well [OF in_live(2)])
    have "now < t" using overlap 5(1) by blast
    then have st: "active_key ?a" "rotating_key dp now ?k"
      using 5(3-6) by (simp_all add: active_key_def rotating_key_def wire_key_def dp)
    have dist: "rk_keyId ?a \<noteq> rk_keyId ?k" "rk_publicKey ?a \<noteq> rk_publicKey ?k"
      using differ [OF in_live ne] by (simp_all add: wire_key_def)
    have "getHubRouteKeysForNode isoText n r = [?a, ?k] \<or> getHubRouteKeysForNode isoText n r = [?k, ?a]"
      unfolding d 5(2) using sort_key_two [of hk_createdAt k a] by auto
    then have "trust_set sha dp now 4 (getHubRouteKeysForNode isoText n r)"
      using w st dist dist [symmetric] unfolding trust_set_def by (elim disjE) auto
    then show ?thesis ..
  qed (use ne in auto)
qed

text \<open>A registry with one active node, and fresh pairs for it.\<close>

definition ex_reg :: reg where
  "ex_reg = (the (new_registry 60 24 14 None))\<lparr>nodes := [new_node ''node_1'' ''direct'' 0]\<rparr>"

definition ex_pair :: "char \<Rightarrow> str \<times> str" where
  "ex_pair c = (replicate 64 c, [])"

definition ex_events :: "key_event list" where
  "ex_events =
     [(0, ''node_1'', Ensure (ex_pair (CHR ''a''))), (1, ''node_1'', Acknowledge [replicate 32 (CHR ''a'')]),
      (2, ''node_1'', Rotate ''op'' (ex_pair (CHR ''b''))), (3, ''node_1'', Acknowledge [replicate 32 (CHR ''b'')])]"

lemma ex_fresh: "fresh_events id ex_events" "hub_keys ex_reg = []"
  by code_simp+

text \<open>
  Between the end of an overlap and the next maintenance tick the delivered set still holds the rotating
  key, and a node refuses the whole set.
\<close>

lemma ended_overlap_refused:
  "let t = 3 + days_ms 14 in
   validateHubRouteKeySet id (\<lambda>s. Some (int (nat_of_dec s))) t
     (JArr (map key_json (getHubRouteKeysForNode (\<lambda>i. dec_of_nat (nat i)) ''node_1'' (key_run id ex_events ex_reg)))) = Inl OverlapInPast"
  by code_simp

section \<open>Properties\<close>

text \<open>C11. The database rows of Hub route keys implement the state machine of the route identity design:
  in every run of provisioning, acknowledgement, rotation, overlap expiry and revocation over any nodes,
  the live rows of every node are exactly those of the phase the specification reaches, so a node never
  has two active keys, a rotation never starts while another is under way, and no key returns to life.\<close>

theorem hub_keys_refine_phases:
  assumes "hub_keys r = []" "fresh_events sha evs"
  shows "live_views n (key_run sha evs r)
    = rows_of (spec_run sha (node_active r) (hubOverlapDays r) evs (\<lambda>_. NoKey) n)"
  using key_run_implements [of r "\<lambda>_. NoKey" sha evs] assms
  by (simp add: implements_phase_def live_views_def keys_wf_def row_ids_def)

theorem hub_keys_refine_phases_witness:
  "live_views ''node_1'' (key_run id ex_events ex_reg)
   = rows_of (Overlapping (replicate 32 (CHR ''b'')) (replicate 32 (CHR ''a'')) (3 + days_ms 14))"
proof -
  have "spec_run id (node_active ex_reg) (hubOverlapDays ex_reg) ex_events (\<lambda>_. NoKey) ''node_1''
      = Overlapping (replicate 32 (CHR ''b'')) (replicate 32 (CHR ''a'')) (3 + days_ms 14)"
    by code_simp
  with hub_keys_refine_phases [OF ex_fresh(2,1), of "''node_1''"] show ?thesis by simp
qed

text \<open>C38. What the Hub delivers, a node accepts: in every such run, once a node has a route key and while no
  overlap has ended unnoticed, the key set its heartbeat answers with passes the node's own validation
  unchanged.\<close>

theorem delivered_keys_accepted:
  assumes "hub_keys r = []" "fresh_events sha evs" "\<And>p. hex_pattern 64 (sha p)" "\<And>t. dp (isoText t) = Some t"
    and "ph = spec_run sha (node_active r) (hubOverlapDays r) evs (\<lambda>_. NoKey) n"
    and "ph \<noteq> NoKey" "\<forall>a k t. ph = Overlapping a k t \<longrightarrow> now < t"
  shows "\<exists>form. validateHubRouteKeySet sha dp now (JArr (map key_json (getHubRouteKeysForNode isoText n (key_run sha evs r))))
    = Inr (form, getHubRouteKeysForNode isoText n (key_run sha evs r))"
proof -
  have run: "implements_phase n (key_run sha evs r) ph" "keys_wf (key_run sha evs r)"
    "\<forall>k \<in> set (hub_keys (key_run sha evs r)). key_well_derived sha k"
    using key_run_implements [of r "\<lambda>_. NoKey" sha evs] assms(1,2)
    by (simp_all add: implements_phase_def live_views_def keys_wf_def row_ids_def assms(5))
  obtain form where "trust_set sha dp now form (getHubRouteKeysForNode isoText n (key_run sha evs r))"
    using delivered_trust_set [OF run(1) assms(6) run(2,3) assms(3,4,7)] by blast
  then show ?thesis using key_set_validation_complete by blast
qed

definition ex_sha :: "str \<Rightarrow> str" where
  "ex_sha p = (if hex_pattern 64 p then p else replicate 64 (CHR ''0''))"

definition ex_isoText :: "int \<Rightarrow> str" where
  "ex_isoText t = (if t < 0 then CHR ''-'' # dec_of_nat (nat (- t)) else dec_of_nat (nat t))"

definition ex_dp :: "str \<Rightarrow> int option" where
  "ex_dp s = (case s of c # cs \<Rightarrow> if c = CHR ''-'' then Some (- int (nat_of_dec cs)) else Some (int (nat_of_dec s)) | [] \<Rightarrow> Some 0)"

lemma ex_dp_digits: "digits_pattern s \<Longrightarrow> ex_dp s = Some (int (nat_of_dec s))"
  by (cases s) (auto simp: ex_dp_def digits_pattern_def is_digit_def)

lemma ex_dp_isoText: "ex_dp (ex_isoText t) = Some t"
proof (cases "t < 0")
  case True
  then show ?thesis by (simp add: ex_dp_def ex_isoText_def)
next
  case False
  then show ?thesis by (simp add: ex_isoText_def ex_dp_digits [OF dec_of_nat_digits])
qed

lemma ex_sha_hex: "hex_pattern 64 (ex_sha p)"
  by (simp add: ex_sha_def) code_simp

theorem delivered_keys_accepted_witness:
  "\<exists>form. validateHubRouteKeySet ex_sha ex_dp 5 (JArr (map key_json (getHubRouteKeysForNode ex_isoText ''node_1'' (key_run ex_sha ex_events ex_reg))))
   = Inr (form, getHubRouteKeysForNode ex_isoText ''node_1'' (key_run ex_sha ex_events ex_reg))"
proof (rule delivered_keys_accepted [OF ex_fresh(2) _ ex_sha_hex ex_dp_isoText refl])
  let ?ph = "spec_run ex_sha (node_active ex_reg) (hubOverlapDays ex_reg) ex_events (\<lambda>_. NoKey) ''node_1''"
  have "?ph = Overlapping (replicate 32 (CHR ''b'')) (replicate 32 (CHR ''a'')) (3 + days_ms 14)" by code_simp
  then show "?ph \<noteq> NoKey" "\<forall>a k t. ?ph = Overlapping a k t \<longrightarrow> 5 < t" by (simp_all add: days_ms_def)
  show "fresh_events ex_sha ex_events" by code_simp
qed

end
