(* ===== verification/Enrollment.thy ===== *)
theory Enrollment
  imports HubKeyLifecycle
begin

text \<open>
  Tokens, enrollment, pairing and re-enrollment of \<^verbatim>\<open>src/registry/registry.mjs\<close>. The hash of a text, the
  hash of raw bytes and the Ed25519 verification are the fields of \<open>externals\<close>; fresh random ids and key
  pairs are arguments. Each operation reads the tables first, throwing without effect, and then runs one
  transaction, which is rolled back when a statement in it throws. The second read of the token inside the
  transaction returns the row of the first one, since nothing runs between them.
\<close>

record externals =
  x_sha :: "str \<Rightarrow> str"
  x_digest :: "str \<Rightarrow> str"
  x_verify :: ed_verify

text \<open>\<open>requireString\<close> and \<open>requireWire\<close> on several fields; every failure is the same denial.\<close>

fun read_fields :: "(jsval \<times> (str \<Rightarrow> bool)) list \<Rightarrow> denial + str list" where
  "read_fields [] = Inr []"
| "read_fields ((v, pattern) # fs) =
     (case requireString v of
        Inl e \<Rightarrow> Inl e
      | Inr _ \<Rightarrow>
        (case requireWire v pattern of
           Inl e \<Rightarrow> Inl e
         | Inr s \<Rightarrow> (case read_fields fs of Inl e \<Rightarrow> Inl e | Inr ss \<Rightarrow> Inr (s # ss))))"

section \<open>Tokens\<close>

definition TOKEN_TTL_SECONDS_MIN :: int where "TOKEN_TTL_SECONDS_MIN = 60"
definition TOKEN_TTL_SECONDS_MAX :: int where "TOKEN_TTL_SECONDS_MAX = 60 * 60"

definition find_token :: "str \<Rightarrow> reg \<Rightarrow> token_row option" where
  "find_token dig r = find (\<lambda>e. tk_digest e = dig) (tokens r)"

text \<open>Minting: \<open>rnd\<close> is the fresh plaintext and the fresh id; an insert throws on a duplicate of either.\<close>

definition mintEnrollmentToken ::
  "externals \<Rightarrow> int \<Rightarrow> str \<times> str \<Rightarrow> str \<Rightarrow> str \<Rightarrow> str option \<Rightarrow> int \<Rightarrow> reg \<Rightarrow> (denial + str) \<times> reg" where
  "mintEnrollmentToken X now rnd actor purpose bound ttl r =
     (if purpose \<notin> {''enroll'', ''reenroll'', ''pair''} then (Inl bad_request, r)
      else if ttl < TOKEN_TTL_SECONDS_MIN \<or> ttl > TOKEN_TTL_SECONDS_MAX then (Inl bad_request, r)
      else if purpose = ''reenroll'' \<and> (bound = None \<or> bound = Some []) then (Inl bad_request, r)
      else if purpose = ''reenroll'' \<and>
          (case getNodeRow (the bound) r of None \<Rightarrow> True | Some x \<Rightarrow> hn_state x \<noteq> ''tombstoned'')
        then (Inl (Denied 409 ''not-tombstoned''), r)
      else if purpose \<noteq> ''reenroll'' \<and> bound \<noteq> None then (Inl bad_request, r)
      else let tid = ''etok_'' @ snd rnd; dig = x_digest X (fst rnd) in
        if find_token dig r \<noteq> None \<or> find (\<lambda>e. tk_id e = tid) (tokens r) \<noteq> None then (Inl internal_error, r)
        else (Inr (fst rnd),
          recordAudit now actor ''hub.tokens.create'' [(''tokenId'', tid), (''purpose'', purpose)]
            (r\<lparr>tokens := tokens r @ [\<lparr>tk_id = tid, tk_digest = dig, tk_purpose = purpose, tk_boundNode = bound,
               tk_createdAt = now, tk_expiresAt = now + ttl * 1000, tk_consumedAt = None, tk_consumedBy = None\<rparr>]\<rparr>)))"

definition token_status :: "int \<Rightarrow> token_row \<Rightarrow> str" where
  "token_status now e = (if tk_consumedAt e \<noteq> None then ''consumed'' else if tk_expiresAt e \<le> now then ''expired'' else ''active'')"

definition listTokens :: "int \<Rightarrow> reg \<Rightarrow> (token_row \<times> str) list" where
  "listTokens now r = map (\<lambda>e. (e, token_status now e)) (sort_key (\<lambda>e. - tk_createdAt e) (tokens r))"

definition consume_token :: "int \<Rightarrow> str \<Rightarrow> str \<Rightarrow> reg \<Rightarrow> reg" where
  "consume_token now tid n r =
     r\<lparr>tokens := upd_where (\<lambda>e. tk_id e = tid) (\<lambda>e. e\<lparr>tk_consumedAt := Some now, tk_consumedBy := Some n\<rparr>) (tokens r)\<rparr>"

section \<open>Recorded results\<close>

text \<open>The idempotency key: the parts joined by colons.\<close>

definition result_key :: "str list \<Rightarrow> str" where
  "result_key parts = js_join (CHR '':'') parts"

definition find_grant :: "str \<Rightarrow> str \<Rightarrow> reg \<Rightarrow> result_row option" where
  "find_grant key kind r = find (\<lambda>x. rr_key x = key \<and> rr_kind x = kind) (grants r)"

definition replayOrDeny :: "token_row \<Rightarrow> str \<Rightarrow> str \<Rightarrow> reg \<Rightarrow> denial + grant" where
  "replayOrDeny entry kind key r =
     (case find_grant key kind r of
        Some x \<Rightarrow> if rr_digest x = tk_digest entry then Inr (rr_grant x) else Inl (Denied 401 ''token-consumed'')
      | None \<Rightarrow> Inl (Denied 401 ''token-consumed''))"

definition result_for :: "str \<Rightarrow> str \<Rightarrow> str \<Rightarrow> str \<Rightarrow> grant \<Rightarrow> int \<Rightarrow> result_row" where
  "result_for key dig req kind g now = \<lparr>rr_key = key, rr_digest = dig, rr_request = req, rr_kind = kind,
     rr_node = gr_node g, rr_grant = g, rr_createdAt = now\<rparr>"

text \<open>The end of a transaction: committed with its grant, or rolled back on a throw.\<close>

definition commit :: "reg \<Rightarrow> grant \<Rightarrow> reg option \<Rightarrow> (denial + grant) \<times> reg" where
  "commit r g tx = (case tx of None \<Rightarrow> (Inl internal_error, r) | Some r' \<Rightarrow> (Inr g, r'))"

section \<open>Enrollment\<close>

definition enroll_tx :: "int \<Rightarrow> token_row \<Rightarrow> str \<Rightarrow> str \<Rightarrow> str \<Rightarrow> str \<Rightarrow> str \<Rightarrow> grant \<Rightarrow> reg \<Rightarrow> reg option" where
  "enroll_tx now entry pk req key actor kind g r =
     (case insert_node (new_node (gr_node g) ''direct'' now) (consume_token now (tk_id entry) (gr_node g) r) of None \<Rightarrow> None | Some r1 \<Rightarrow>
      case insert_node_key (new_key (gr_node g) (gr_key g) pk now) r1 of None \<Rightarrow> None | Some r2 \<Rightarrow>
      case insert_grant (result_for key (tk_digest entry) req kind g now) r2 of None \<Rightarrow> None | Some r3 \<Rightarrow>
      Some (recordAudit now (actor @ '':'' @ gr_node g) ''node.enrolled''
        [(''nodeId'', gr_node g), (''keyId'', gr_key g), (''tokenId'', tk_id entry)] r3))"

definition enroll :: "externals \<Rightarrow> int \<Rightarrow> str \<Rightarrow> jsval \<Rightarrow> jsval \<Rightarrow> jsval \<Rightarrow> str \<Rightarrow> reg \<Rightarrow> (denial + grant) \<times> reg" where
  "enroll X now freshHex token requestId publicKey actor r =
     (case read_fields [(token, token_pattern), (requestId, request_id_pattern), (publicKey, public_key_pattern)] of
        Inr [tok, req, pk] \<Rightarrow>
          (case find_token (x_digest X tok) r of
             None \<Rightarrow> (Inl (Denied 401 ''unknown-token''), r)
           | Some entry \<Rightarrow>
             let key = result_key [tk_digest entry, req, pk] in
             if tk_purpose entry \<noteq> ''enroll'' then (Inl (Denied 400 ''purpose-mismatch''), r)
             else if tk_consumedAt entry \<noteq> None then (replayOrDeny entry ''enroll'' key r, r)
             else if tk_expiresAt entry \<le> now then (Inl (Denied 401 ''token-expired''), r)
             else case deriveKeyId (x_sha X) pk of Inl e \<Rightarrow> (Inl internal_error, r) | Inr kid \<Rightarrow>
             case find_grant key ''enroll'' r of Some x \<Rightarrow> (Inr (rr_grant x), r) | None \<Rightarrow>
             let g = \<lparr>gr_node = ''node_'' @ freshHex, gr_key = kid, gr_token = tk_id entry,
                      gr_cadence = cadenceSeconds r, gr_hubBaseUrl = None\<rparr> in
             commit r g (enroll_tx now entry pk req key actor ''enroll'' g r))
      | Inl e \<Rightarrow> (Inl e, r)
      | _ \<Rightarrow> (Inl internal_error, r))"

section \<open>Pairing\<close>

definition existing_identity :: "str \<Rightarrow> str \<Rightarrow> reg \<Rightarrow> bool" where
  "existing_identity kid pk r \<longleftrightarrow> list_ex (\<lambda>k. nk_id k = kid \<and> nk_public k = pk \<and> nk_state k = ''active'' \<and>
     list_ex (\<lambda>x. hn_id x = nk_node k \<and> hn_state x = ''active'') (nodes r)) (node_keys r)"

definition pair_tx ::
  "externals \<Rightarrow> int \<Rightarrow> str \<times> str \<Rightarrow> token_row \<Rightarrow> str \<Rightarrow> str \<Rightarrow> str \<Rightarrow> str \<Rightarrow> grant \<Rightarrow> reg \<Rightarrow> reg option" where
  "pair_tx X now kp entry pk req key actor g r =
     (case insert_node (new_node (gr_node g) ''reverse'' now) (consume_token now (tk_id entry) (gr_node g) r) of None \<Rightarrow> None | Some r1 \<Rightarrow>
      case insert_node_key (new_key (gr_node g) (gr_key g) pk now) r1 of None \<Rightarrow> None | Some r2 \<Rightarrow>
      case ensureHubRouteKey (x_sha X) now (gr_node g) kp r2 of None \<Rightarrow> None | Some r3 \<Rightarrow>
      case insert_grant (result_for key (tk_digest entry) req ''pair'' g now) r3 of None \<Rightarrow> None | Some r4 \<Rightarrow>
      Some (recordAudit now (actor @ '':'' @ gr_node g) ''node.paired''
        [(''nodeId'', gr_node g), (''keyId'', gr_key g), (''tokenId'', tk_id entry), (''routeMode'', ''reverse'')] r4))"

definition pair_node ::
  "externals \<Rightarrow> int \<Rightarrow> str \<Rightarrow> str \<times> str \<Rightarrow> jsval \<Rightarrow> jsval \<Rightarrow> jsval \<Rightarrow> str \<Rightarrow> reg \<Rightarrow> (denial + grant) \<times> reg" where
  "pair_node X now freshHex kp token requestId publicKey actor r =
     (case read_fields [(token, token_pattern), (requestId, request_id_pattern), (publicKey, public_key_pattern)] of
        Inr [tok, req, pk] \<Rightarrow>
          (if pairingHubBaseUrl r = None then (Inl (Denied 503 ''pairing-unconfigured''), r)
           else case find_token (x_digest X tok) r of
             None \<Rightarrow> (Inl (Denied 401 ''unknown-token''), r)
           | Some entry \<Rightarrow>
             let key = result_key [tk_digest entry, req, pk] in
             if tk_purpose entry \<noteq> ''pair'' then (Inl (Denied 400 ''purpose-mismatch''), r)
             else if tk_boundNode entry \<noteq> None then (Inl bad_request, r)
             else if tk_consumedAt entry \<noteq> None then (replayOrDeny entry ''pair'' key r, r)
             else if tk_expiresAt entry \<le> now then (Inl (Denied 401 ''token-expired''), r)
             else case find_grant key ''pair'' r of Some x \<Rightarrow> (Inr (rr_grant x), r) | None \<Rightarrow>
             case deriveKeyId (x_sha X) pk of Inl e \<Rightarrow> (Inl internal_error, r) | Inr kid \<Rightarrow>
             if existing_identity kid pk r then (Inl (Denied 409 ''reconcile-required''), r)
             else let g = \<lparr>gr_node = ''node_'' @ freshHex, gr_key = kid, gr_token = tk_id entry,
                      gr_cadence = cadenceSeconds r, gr_hubBaseUrl = pairingHubBaseUrl r\<rparr> in
             commit r g (pair_tx X now kp entry pk req key actor g r))
      | Inl e \<Rightarrow> (Inl e, r)
      | _ \<Rightarrow> (Inl internal_error, r))"

section \<open>Re-enrollment\<close>

definition insert_nonce :: "int \<Rightarrow> str \<Rightarrow> str \<Rightarrow> reg \<Rightarrow> reg option" where
  "insert_nonce now n nonce r =
     (if map_of (seen_nonces r) (n, nonce) \<noteq> None then None
      else Some (r\<lparr>seen_nonces := AList.update (n, nonce) now (seen_nonces r)\<rparr>))"

text \<open>The fields of a signed request.\<close>

record signed_request =
  sq_node :: jsval
  sq_key :: jsval
  sq_method :: str
  sq_path :: str
  sq_timestamp :: jsval
  sq_nonce :: jsval
  sq_bodyHash :: str
  sq_signature :: jsval

definition sq_time :: "signed_request \<Rightarrow> str" where
  "sq_time q = (case sq_timestamp q of JStr s \<Rightarrow> s | _ \<Rightarrow> ''undefined'')"

definition nonempty :: "str \<Rightarrow> bool" where
  "nonempty s \<longleftrightarrow> s \<noteq> []"

definition historical_key :: "str \<Rightarrow> reg \<Rightarrow> node_key option" where
  "historical_key n r =
     (case sort_key (\<lambda>k. - nk_createdAt k) (filter (\<lambda>k. nk_node k = n \<and> nk_state k = ''revoked'') (node_keys r)) of
        [] \<Rightarrow> None | k # _ \<Rightarrow> Some k)"

definition revive_node :: "int \<Rightarrow> hub_node \<Rightarrow> hub_node" where
  "revive_node now x = x\<lparr>hn_state := ''active'', hn_tombstonedAt := None, hn_tombstoneReason := None, hn_mintedAt := now,
     hn_contact := ''unknown'', hn_authenticated := ''ok'', hn_dshHealthy := ''unknown'', hn_orbitCompatible := ''unknown'',
     hn_reachable := ''unknown'', hn_capabilities := [], hn_capabilitiesStale := True, hn_lastSeen := None,
     hn_lastSeenSource := None, hn_identity := no_identity\<rparr>"

definition reenroll_tx ::
  "externals \<Rightarrow> int \<Rightarrow> str \<times> str \<Rightarrow> token_row \<Rightarrow> str \<Rightarrow> str \<Rightarrow> str \<Rightarrow> str \<Rightarrow> str \<Rightarrow> grant \<Rightarrow> reg \<Rightarrow> reg option" where
  "reenroll_tx X now kp entry pk req key oldKey actor g r =
     (let n = gr_node g in
      case insert_grant (result_for key (tk_digest entry) req ''reenroll'' g now) (consume_token now (tk_id entry) n r) of None \<Rightarrow> None | Some r1 \<Rightarrow>
      case insert_node_key (new_key n (gr_key g) pk now) r1 of None \<Rightarrow> None | Some r2 \<Rightarrow>
      case ensureHubRouteKey (x_sha X) now n kp (set_node n (revive_node now) r2) of None \<Rightarrow> None | Some r3 \<Rightarrow>
      let r4 = r3\<lparr>node_keys := upd_where (\<lambda>k. nk_node k = n \<and> nk_id k = oldKey) (\<lambda>k. k\<lparr>nk_reason := Some ''reenroll-possession''\<rparr>) (node_keys r3)\<rparr> in
      Some (recordEvent now n ''state'' ''tombstoned'' ''active'' ''reenroll''
        (recordAudit now (actor @ '':'' @ n) ''node.reenrolled'' [(''nodeId'', n), (''newKeyId'', gr_key g), (''oldKeyId'', oldKey)] r4)))"

definition reenroll ::
  "externals \<Rightarrow> int \<Rightarrow> str \<times> str \<Rightarrow> jsval \<Rightarrow> jsval \<Rightarrow> jsval \<Rightarrow> signed_request \<Rightarrow> str \<Rightarrow> reg \<Rightarrow> (denial + grant) \<times> reg" where
  "reenroll X now kp token requestId newPublicKey q actor r =
     (case read_fields [(token, token_pattern), (requestId, request_id_pattern), (newPublicKey, public_key_pattern),
          (sq_node q, node_id_pattern), (sq_key q, nonempty), (sq_nonce q, nonce_pattern), (sq_signature q, signature_pattern)] of
        Inr [tok, req, pk, n, kid, nonce, sig] \<Rightarrow>
          (if \<not> epoch_text (sq_time q) then (Inl bad_request, r)
           else if out_of_skew now (sq_time q) then (Inl (Denied 401 ''timestamp-out-of-skew''), r)
           else case find_token (x_digest X tok) r of
             None \<Rightarrow> (Inl (Denied 401 ''unknown-token''), r)
           | Some entry \<Rightarrow>
             let key = result_key [tk_digest entry, req, n, pk] in
             if tk_purpose entry \<noteq> ''reenroll'' then (Inl (Denied 400 ''purpose-mismatch''), r)
             else if tk_boundNode entry \<noteq> Some n then (Inl (Denied 403 ''token-node-mismatch''), r)
             else if tk_consumedAt entry \<noteq> None then (replayOrDeny entry ''reenroll'' key r, r)
             else if tk_expiresAt entry \<le> now then (Inl (Denied 401 ''token-expired''), r)
             else if (case getNodeRow n r of None \<Rightarrow> True | Some x \<Rightarrow> hn_state x \<noteq> ''tombstoned'')
               then (Inl (Denied 409 ''not-tombstoned''), r)
             else case historical_key n r of None \<Rightarrow> (Inl (Denied 500 ''missing-historical-key''), r) | Some old \<Rightarrow>
             if \<not> key_id_pattern kid then (Inl bad_request, r)
             else if kid \<noteq> nk_id old then (Inl (Denied 401 ''key-revoked''), r)
             else if verifySigningString (x_verify X) (nk_public old)
                 (buildSigningString REENROLL_V1_LABEL (sq_method q) (sq_path q) (sq_time q) nonce (sq_bodyHash q) n) sig \<noteq> Inr True
               then (Inl (Denied 401 ''possession-proof-failed''), r)
             else case find_grant key ''reenroll'' r of Some x \<Rightarrow> (Inr (rr_grant x), r) | None \<Rightarrow>
             case deriveKeyId (x_sha X) pk of Inl e \<Rightarrow> (Inl internal_error, r) | Inr newKid \<Rightarrow>
             case insert_nonce now n nonce r of None \<Rightarrow> (Inl (Denied 401 ''replay''), r) | Some r0 \<Rightarrow>
             let g = \<lparr>gr_node = n, gr_key = newKid, gr_token = tk_id entry, gr_cadence = cadenceSeconds r, gr_hubBaseUrl = None\<rparr> in
             commit r g (reenroll_tx X now kp entry pk req key (nk_id old) actor g r0))
      | Inl e \<Rightarrow> (Inl e, r)
      | _ \<Rightarrow> (Inl internal_error, r))"

end
