(* ===== verification/MachineAuth.thy ===== *)
theory MachineAuth
  imports Enrollment ReplayGuard
begin

text \<open>
  Machine authentication, credential rotation and node deletion of \<^verbatim>\<open>src/registry/registry.mjs\<close>. An
  authenticated handler runs in the same turn as its authentication, so the combined operations below are
  one step. The nonce reservation is committed before the handler and stays when the handler denies.
\<close>

section \<open>Authentication\<close>

definition key_usable :: "int \<Rightarrow> node_key \<Rightarrow> bool" where
  "key_usable now k \<longleftrightarrow> nk_state k = ''active'' \<and> (case nk_revokeAfter k of None \<Rightarrow> True | Some t \<Rightarrow> now < t)"

definition reserveNonce :: "int \<Rightarrow> str \<times> str \<Rightarrow> reg \<Rightarrow> bool \<times> reg" where
  "reserveNonce now nn r = (case insert_nonce now (fst nn) (snd nn) r of None \<Rightarrow> (False, r) | Some r' \<Rightarrow> (True, r'))"

text \<open>The checks, in their order; what passes is the node, its key and the nonce to reserve.\<close>

definition check_machine :: "externals \<Rightarrow> int \<Rightarrow> signed_request \<Rightarrow> reg \<Rightarrow> denial + (hub_node \<times> node_key \<times> str)" where
  "check_machine X now q r =
     (case read_fields [(sq_node q, node_id_pattern), (sq_key q, key_id_pattern), (sq_signature q, signature_pattern),
          (sq_nonce q, nonce_pattern)] of
        Inr [n, kid, sig, nonce] \<Rightarrow>
          (if \<not> epoch_text (sq_time q) then Inl bad_request
           else if out_of_skew now (sq_time q) then Inl (Denied 401 ''timestamp-out-of-skew'')
           else case getNodeRow n r of None \<Rightarrow> Inl (Denied 401 ''revoked'') | Some node \<Rightarrow>
           if hn_state node \<noteq> ''active'' then Inl (Denied 401 ''revoked'')
           else case deriveKeyRow n kid r of None \<Rightarrow> Inl (Denied 401 ''unknown-key'') | Some key \<Rightarrow>
           if \<not> key_usable now key then Inl (Denied 401 ''key-revoked'')
           else if verifySigningString (x_verify X) (nk_public key)
               (buildSigningString MACHINE_V1_LABEL (sq_method q) (sq_path q) (sq_time q) nonce (sq_bodyHash q) n) sig \<noteq> Inr True
             then Inl (Denied 401 ''signature-invalid'')
           else Inr (node, key, nonce))
      | Inl e \<Rightarrow> Inl e
      | _ \<Rightarrow> Inl internal_error)"

definition authenticateMachine :: "externals \<Rightarrow> int \<Rightarrow> signed_request \<Rightarrow> reg \<Rightarrow> (denial + hub_node \<times> node_key) \<times> reg" where
  "authenticateMachine X now q r =
     (case check_machine X now q r of
        Inl e \<Rightarrow> (Inl e, r)
      | Inr (node, key, nonce) \<Rightarrow>
        (let res = reserveNonce now (hn_id node, nonce) r in
         if fst res then (Inr (node, key), snd res) else (Inl (Denied 401 ''replay''), r)))"

section \<open>Credential rotation\<close>

definition hours_ms :: "int \<Rightarrow> int" where
  "hours_ms h = h * 60 * 60 * 1000"

text \<open>A body that is not JSON, or the field of a JSON value; reading a field of null throws.\<close>

definition body_field :: "str \<Rightarrow> jsval option \<Rightarrow> denial + jsval" where
  "body_field k body = (case body of
     None \<Rightarrow> Inl (Denied 400 ''bad-json'')
   | Some v \<Rightarrow> (case v of JNull \<Rightarrow> Inl internal_error | JObj ps \<Rightarrow> Inr (js_get k ps) | _ \<Rightarrow> Inr JUndefined))"

definition rotateCredentialAuthenticated ::
  "externals \<Rightarrow> int \<Rightarrow> str \<Rightarrow> node_key \<Rightarrow> jsval option \<Rightarrow> reg \<Rightarrow> (denial + str \<times> str \<times> int) \<times> reg" where
  "rotateCredentialAuthenticated X now n key body r =
     (case body_field ''newPublicKey'' body of
        Inl e \<Rightarrow> (Inl e, r)
      | Inr v \<Rightarrow>
        (case read_fields [(v, public_key_pattern)] of
           Inr [pk] \<Rightarrow>
             (case deriveKeyId (x_sha X) pk of Inl e \<Rightarrow> (Inl internal_error, r) | Inr kid \<Rightarrow>
              if kid = nk_id key then (Inl bad_request, r)
              else let until = now + hours_ms (overlapHours r);
                       r1 = r\<lparr>node_keys := upd_where (\<lambda>k. nk_node k = n \<and> nk_id k = nk_id key) (\<lambda>k. k\<lparr>nk_revokeAfter := Some until\<rparr>) (node_keys r)\<rparr> in
              case insert_node_key (new_key n kid pk now) r1 of
                None \<Rightarrow> (Inl internal_error, r)
              | Some r2 \<Rightarrow> (Inr (nk_id key, kid, until),
                  recordAudit now (''node:'' @ n) ''node.credential-rotated'' [(''oldKeyId'', nk_id key), (''newKeyId'', kid)] r2))
         | Inl e \<Rightarrow> (Inl e, r)
         | _ \<Rightarrow> (Inl internal_error, r)))"

definition rotateCredential ::
  "externals \<Rightarrow> int \<Rightarrow> signed_request \<Rightarrow> jsval option \<Rightarrow> reg \<Rightarrow> (denial + str \<times> str \<times> int) \<times> reg" where
  "rotateCredential X now q body r =
     (case authenticateMachine X now q r of
        (Inl e, r1) \<Rightarrow> (Inl e, r1)
      | (Inr (node, key), r1) \<Rightarrow> rotateCredentialAuthenticated X now (hn_id node) key body r1)"

section \<open>Deletion\<close>

definition revoke_node_keys :: "int \<Rightarrow> str \<Rightarrow> reg \<Rightarrow> reg" where
  "revoke_node_keys now n r = r\<lparr>node_keys := upd_where (\<lambda>k. nk_node k = n \<and> nk_state k = ''active'')
     (\<lambda>k. k\<lparr>nk_state := ''revoked'', nk_revokedAt := Some now, nk_reason := Some ''node-delete''\<rparr>) (node_keys r)\<rparr>"

definition prior_delete :: "str \<Rightarrow> reg \<Rightarrow> (str \<times> str) list option" where
  "prior_delete requestId r =
     map_option au_detail (find (\<lambda>a. au_action a = ''hub.nodes.delete'' \<and> map_of (au_detail a) ''requestId'' = Some requestId) (audit r))"

definition deleteNode :: "int \<Rightarrow> str \<Rightarrow> jsval \<Rightarrow> jsval \<Rightarrow> jsval \<Rightarrow> reg \<Rightarrow> (denial + str \<times> bool) \<times> reg" where
  "deleteNode now actor nodeId requestId reason r =
     (case read_fields [(nodeId, nonempty), (requestId, request_id_pattern), (reason, nonempty)] of
        Inr [n, req, why] \<Rightarrow>
          (case getNodeRow n r of None \<Rightarrow> (Inl (Denied 404 ''not-found''), r) | Some node \<Rightarrow>
           case prior_delete req r of
             Some d \<Rightarrow>
               if map_of d ''nodeId'' = Some n \<and> map_of d ''reason'' = Some why then (Inr (n, True), r)
               else (Inl (Denied 409 ''request-id-reused''), r)
           | None \<Rightarrow>
             if hn_state node = ''tombstoned'' then (Inl (Denied 409 ''already-tombstoned''), r)
             else
               let r1 = set_node n (\<lambda>x. x\<lparr>hn_state := ''tombstoned'', hn_tombstonedAt := Some now,
                          hn_tombstoneReason := Some why, hn_authenticated := ''revoked''\<rparr>) r;
                   r2 = revoke_hub_keys now n (revoke_node_keys now n r1);
                   r3 = r2\<lparr>probeFailures := AList.delete n (probeFailures r2)\<rparr>;
                   r4 = (if hn_reachable node = ''unknown'' then r3
                         else set_node n (\<lambda>x. x\<lparr>hn_reachable := ''unknown''\<rparr>)
                           (recordEvent now n ''reachable'' (hn_reachable node) ''unknown'' ''node-delete'' r3));
                   r5 = recordAudit now actor ''hub.nodes.delete'' [(''nodeId'', n), (''reason'', why), (''requestId'', req)] r4 in
               (Inr (n, False), recordEvent now n ''state'' ''active'' ''tombstoned'' ''operator-delete'' r5))
      | Inl e \<Rightarrow> (Inl e, r)
      | _ \<Rightarrow> (Inl internal_error, r))"

end
