(* ===== verification/NodeHealth.thy ===== *)
theory NodeHealth
  imports MachineAuth
begin

text \<open>
  Node health of \<^verbatim>\<open>src/registry/registry.mjs\<close> with the derivations of \<^verbatim>\<open>src/registry/capabilities.mjs\<close>:
  heartbeats, report uploads, withholding, capability reconciliation, route targets and modes, and probe
  results. A capability is its name, since every one has contract version 1. A stored report is the
  report itself, so that reading it back cannot fail.
\<close>

section \<open>Derivations from a report\<close>

definition CAPABILITY_EVIDENCE :: "(str \<times> str list) list" where
  "CAPABILITY_EVIDENCE = [(''sessions.resume'', [''sessionResume'']),
     (''settings.remote'', [''settingsRead'', ''settingsNoopWrite'', ''authorizationSmoke'']),
     (''web.routes'', [''runtimeReadiness'', ''webPluginRoutes'', ''webSocketTransport''])]"

definition compatibilityProfiles :: "str list" where
  "compatibilityProfiles = [''0.1.1-rc.2'']"

definition isDshVersionSupported :: "str \<Rightarrow> bool" where
  "isDshVersionSupported v \<longleftrightarrow> v \<in> set compatibilityProfiles"

definition check_status_of :: "compat_report \<Rightarrow> str \<Rightarrow> str option" where
  "check_status_of rp check = map_option ce_status (map_of (cr_checks rp) check)"

definition deriveCapabilities :: "compat_report \<Rightarrow> str list" where
  "deriveCapabilities rp =
     (if \<not> isDshVersionSupported (cr_dshVersion rp) then []
      else map fst (filter (\<lambda>(name, checks). list_all (\<lambda>c. check_status_of rp c = Some ''pass'') checks) CAPABILITY_EVIDENCE))"

definition deriveDshHealthy :: "compat_report \<Rightarrow> str" where
  "deriveDshHealthy rp =
     (let runtime = check_status_of rp ''runtimeReadiness''; settings = check_status_of rp ''settingsRead'' in
      if runtime = Some ''pass'' \<and> settings = Some ''pass'' then ''ok''
      else if runtime = Some ''fail'' \<or> settings = Some ''fail'' then ''degraded'' else ''unknown'')"

definition deriveOrbitCompatible :: "compat_report \<Rightarrow> str" where
  "deriveOrbitCompatible rp = (if outcome_pass rp then ''pass'' else ''fail'')"

definition reportIdentity :: "compat_report \<Rightarrow> identity" where
  "reportIdentity rp = \<lparr>id_orbitVersion = cr_orbitVersion rp, id_orbitRevision = cr_orbitRevision rp,
     id_dshVersion = cr_dshVersion rp, id_profile = cr_profile rp\<rparr>"

definition identityMatches :: "identity \<Rightarrow> identity \<Rightarrow> bool" where
  "identityMatches a b \<longleftrightarrow> id_orbitVersion a = id_orbitVersion b \<and> id_orbitRevision a = id_orbitRevision b
     \<and> id_dshVersion a = id_dshVersion b \<and> id_profile a = id_profile b"

section \<open>Dimensions and alert flags\<close>

text \<open>\<open>transitionDimension\<close>: the event of a change from the row's value or a given one; the row is set by the caller.\<close>

definition transitionDimension :: "int \<Rightarrow> str \<Rightarrow> str \<Rightarrow> str \<Rightarrow> str \<Rightarrow> str \<Rightarrow> reg \<Rightarrow> reg" where
  "transitionDimension now n column fromValue toValue source r =
     (if fromValue = toValue then r else recordEvent now n column fromValue toValue source r)"

definition HEARTBEAT_LOST_MS :: int where "HEARTBEAT_LOST_MS = 24 * 60 * 60 * 1000"
definition HEARTBEAT_MISSED_BEATS_STALE :: int where "HEARTBEAT_MISSED_BEATS_STALE = 3"

text \<open>The contact the row should have shown just before a heartbeat.\<close>

definition aged_contact :: "int \<Rightarrow> int \<Rightarrow> hub_node \<Rightarrow> str" where
  "aged_contact now cadence x = (case hn_lastHeartbeatAt x of
     None \<Rightarrow> hn_contact x
   | Some beat \<Rightarrow>
       if now - beat > HEARTBEAT_LOST_MS \<and> hn_contact x \<noteq> ''lost'' then ''lost''
       else if now - beat > HEARTBEAT_MISSED_BEATS_STALE * cadence * 1000 \<and> hn_contact x = ''fresh'' then ''stale''
       else hn_contact x)"

definition transitionRegistryContact :: "int \<Rightarrow> hub_node \<Rightarrow> str \<Rightarrow> str \<Rightarrow> reg \<Rightarrow> reg" where
  "transitionRegistryContact now x toValue source r =
     set_node (hn_id x) (\<lambda>y. y\<lparr>hn_contact := toValue\<rparr>)
       (transitionDimension now (hn_id x) ''registry_contact'' (aged_contact now (cadenceSeconds r) x) toValue source r)"

definition getAlertFlags :: "str \<Rightarrow> reg \<Rightarrow> str list" where
  "getAlertFlags n r = (case getNodeRow n r of None \<Rightarrow> [] | Some x \<Rightarrow> hn_alertFlags x)"

definition setAlertFlag :: "str \<Rightarrow> str \<Rightarrow> reg \<Rightarrow> reg" where
  "setAlertFlag n flag r = (let flags = getAlertFlags n r in
     if flag \<in> set flags then r else set_node n (\<lambda>x. x\<lparr>hn_alertFlags := flags @ [flag]\<rparr>) r)"

definition clearAlertFlag :: "str \<Rightarrow> str \<Rightarrow> reg \<Rightarrow> reg" where
  "clearAlertFlag n flag r = (let flags = getAlertFlags n r in
     if flag \<notin> set flags then r else set_node n (\<lambda>x. x\<lparr>hn_alertFlags := filter (\<lambda>f. f \<noteq> flag) flags\<rparr>) r)"

section \<open>Heartbeats\<close>

definition nonempty_text :: "jsval \<Rightarrow> str option" where
  "nonempty_text v = (case v of JStr s \<Rightarrow> if s = [] then None else Some s | _ \<Rightarrow> None)"

text \<open>An array is an object with a length and no field \<open>runtime\<close>; it is refused either way.\<close>

definition requireIdentityJson :: "jsval \<Rightarrow> denial + identity" where
  "requireIdentityJson body =
     (case js_field ''runtime'' body of
        JObj ps \<Rightarrow>
          (case requireString (js_get ''orbitVersion'' ps) of Inl e \<Rightarrow> Inl e | Inr ov \<Rightarrow>
           case requireString (js_get ''dshVersion'' ps) of Inl e \<Rightarrow> Inl e | Inr dv \<Rightarrow>
           Inr \<lparr>id_orbitVersion = ov, id_orbitRevision = nonempty_text (js_get ''orbitRevision'' ps),
             id_dshVersion = dv, id_profile = nonempty_text (js_get ''compatibilityProfile'' ps)\<rparr>)
      | _ \<Rightarrow> Inl bad_request)"

text \<open>The array of accepted key ids; an entry that is no text matches no key id.\<close>

definition accepted_ids :: "jsval \<Rightarrow> str list option" where
  "accepted_ids body = (case js_field ''acceptedHubRouteKeyIds'' body of
     JArr xs \<Rightarrow> Some (map (\<lambda>v. case v of JStr s \<Rightarrow> s | _ \<Rightarrow> []) xs) | _ \<Rightarrow> None)"

definition withheld :: "hub_node \<Rightarrow> hub_node" where
  "withheld x = x\<lparr>hn_orbitCompatible := (if hn_orbitCompatible x \<in> {''pass'', ''unknown''} then ''stale'' else hn_orbitCompatible x),
     hn_dshHealthy := ''unknown'', hn_capabilitiesStale := True\<rparr>"

definition withholdCapabilities :: "int \<Rightarrow> str \<Rightarrow> str \<Rightarrow> reg \<Rightarrow> reg" where
  "withholdCapabilities now n source r =
     (case getNodeRow n r of None \<Rightarrow> r | Some x \<Rightarrow>
      let r1 = (if hn_orbitCompatible x \<in> {''pass'', ''unknown''}
                then transitionDimension now n ''orbit_compatible'' (hn_orbitCompatible x) ''stale'' source r else r);
          r2 = transitionDimension now n ''dsh_healthy'' (hn_dshHealthy x) ''unknown'' source r1 in
      set_node n withheld r2)"

definition beat_node :: "int \<Rightarrow> identity \<Rightarrow> hub_node \<Rightarrow> hub_node" where
  "beat_node now runtime x = x\<lparr>hn_lastSeen := Some now, hn_lastSeenSource := Some ''heartbeat'',
     hn_lastHeartbeatAt := Some now, hn_identity := runtime\<rparr>"

text \<open>What a heartbeat answers: the route mode and the Hub's live route keys.\<close>

definition heartbeatAuthenticated ::
  "externals \<Rightarrow> (int \<Rightarrow> str) \<Rightarrow> int \<Rightarrow> str \<times> str \<Rightarrow> str \<Rightarrow> jsval option \<Rightarrow> reg \<Rightarrow> (denial + str \<times> route_key list) \<times> reg" where
  "heartbeatAuthenticated X isoText now kp n body r =
     (case body of None \<Rightarrow> (Inl (Denied 400 ''bad-json''), r) | Some v \<Rightarrow>
      case requireIdentityJson v of Inl e \<Rightarrow> (Inl e, r) | Inr runtime \<Rightarrow>
      case getNodeRow n r of None \<Rightarrow> (Inl internal_error, r) | Some current \<Rightarrow>
      let r1 = transitionRegistryContact now current ''fresh'' ''heartbeat'' r;
          r2 = set_node n (beat_node now runtime) (clearAlertFlag n ''contact-lost'' r1);
          r3 = (case getLatestReport n r2 of None \<Rightarrow> r2 | Some row \<Rightarrow>
                  if identityMatches (reportIdentity (ro_report row)) runtime then r2 else withholdCapabilities now n ''heartbeat'' r2);
          r4 = (case accepted_ids v of None \<Rightarrow> r3 | Some ids \<Rightarrow> acknowledgeHubRouteKeys now n ids r3) in
      case ensureHubRouteKey (x_sha X) now n kp r4 of None \<Rightarrow> (Inl internal_error, r) | Some r5 \<Rightarrow>
      (Inr (if hn_routeMode current = ''reverse'' then ''reverse'' else ''direct'', getHubRouteKeysForNode isoText n r5), r5))"

definition heartbeat ::
  "externals \<Rightarrow> (int \<Rightarrow> str) \<Rightarrow> int \<Rightarrow> str \<times> str \<Rightarrow> signed_request \<Rightarrow> jsval option \<Rightarrow> reg \<Rightarrow> (denial + str \<times> route_key list) \<times> reg" where
  "heartbeat X isoText now kp q body r =
     (case authenticateMachine X now q r of
        (Inl e, r1) \<Rightarrow> (Inl e, r1)
      | (Inr (node, key), r1) \<Rightarrow> heartbeatAuthenticated X isoText now kp (hn_id node) body r1)"

section \<open>Report uploads\<close>

definition bool_text :: "bool \<Rightarrow> str" where
  "bool_text b = (if b then ''true'' else ''false'')"

definition uploaded :: "int \<Rightarrow> bool \<Rightarrow> bool \<Rightarrow> compat_report \<Rightarrow> hub_node \<Rightarrow> hub_node" where
  "uploaded now fresh runtimeUnset rp x =
     (let y = x\<lparr>hn_lastSeen := Some now, hn_lastSeenSource := Some ''report-upload'',
        hn_dshHealthy := (if fresh then deriveDshHealthy rp else ''unknown''),
        hn_orbitCompatible := (if fresh then deriveOrbitCompatible rp else ''stale''),
        hn_capabilities := deriveCapabilities rp, hn_capabilitiesStale := \<not> fresh\<rparr> in
      if runtimeUnset then y\<lparr>hn_identity := reportIdentity rp\<rparr> else y)"

definition uploadReportAuthenticated ::
  "(rat \<Rightarrow> str) \<Rightarrow> int \<Rightarrow> str \<Rightarrow> jsval option \<Rightarrow> reg \<Rightarrow> (denial + str list \<times> str \<times> str) \<times> reg" where
  "uploadReportAuthenticated numText now n body r =
     (case body of None \<Rightarrow> (Inl (Denied 400 ''bad-json''), r) | Some v \<Rightarrow>
      case createCompatibilityReport numText v of Inl e \<Rightarrow> (Inl (Denied 400 ''invalid-report''), r) | Inr rp \<Rightarrow>
      case getNodeRow n r of None \<Rightarrow> (Inl internal_error, r) | Some current \<Rightarrow>
      let runtimeUnset = (id_orbitVersion (hn_identity current) = []);
          fresh = (runtimeUnset \<or> identityMatches (reportIdentity rp) (hn_identity current));
          healthy = (if fresh then deriveDshHealthy rp else ''unknown'');
          compatible = (if fresh then deriveOrbitCompatible rp else ''stale'');
          r1 = r\<lparr>reports := reports r @ [\<lparr>ro_node = n, ro_uploadedAt = now, ro_report = rp\<rparr>], reportSeq := Suc (reportSeq r)\<rparr>;
          r2 = r1\<lparr>events := events r1 @ [\<lparr>ev_node = n, ev_at = now, ev_dimension = ''report'', ev_from = ''uploaded'',
                 ev_to = dec_of_nat (reportSeq r1), ev_source = ''report-upload''\<rparr>]\<rparr>;
          r3 = transitionDimension now n ''dsh_healthy'' (hn_dshHealthy current) healthy ''report-upload'' r2;
          r4 = transitionDimension now n ''orbit_compatible'' (hn_orbitCompatible current) compatible ''report-upload'' r3;
          r5 = set_node n (uploaded now fresh runtimeUnset rp) r4 in
      (Inr (if fresh then deriveCapabilities rp else [], healthy, compatible),
       recordAudit now (''node:'' @ n) ''node.report-uploaded''
         [(''checkCount'', dec_of_nat (length (cr_checks rp))), (''fresh'', bool_text fresh)] r5))"

definition uploadReport ::
  "externals \<Rightarrow> (rat \<Rightarrow> str) \<Rightarrow> int \<Rightarrow> signed_request \<Rightarrow> jsval option \<Rightarrow> reg \<Rightarrow> (denial + str list \<times> str \<times> str) \<times> reg" where
  "uploadReport X numText now q body r =
     (case authenticateMachine X now q r of
        (Inl e, r1) \<Rightarrow> (Inl e, r1)
      | (Inr (node, key), r1) \<Rightarrow> uploadReportAuthenticated numText now (hn_id node) body r1)"

section \<open>Capability reconciliation\<close>

definition REPORT_STALENESS_MS :: int where "REPORT_STALENESS_MS = 7 * 24 * 60 * 60 * 1000"

text \<open>The capability state of a node: the derived set, whether it is withheld, compatibility and health.\<close>

type_synonym evidence = "str list \<times> bool \<times> str \<times> str"

definition claimed :: "hub_node \<Rightarrow> evidence" where
  "claimed x = (hn_capabilities x, hn_capabilitiesStale x, hn_orbitCompatible x, hn_dshHealthy x)"

definition set_claim :: "evidence \<Rightarrow> hub_node \<Rightarrow> hub_node" where
  "set_claim ev x = (case ev of (caps, stale, compatible, healthy) \<Rightarrow>
     x\<lparr>hn_capabilities := caps, hn_capabilitiesStale := stale, hn_orbitCompatible := compatible, hn_dshHealthy := healthy\<rparr>)"

definition no_evidence :: evidence where
  "no_evidence = ([], True, ''unknown'', ''unknown'')"

definition report_evidence :: "int \<Rightarrow> hub_node \<Rightarrow> report_row \<Rightarrow> evidence" where
  "report_evidence now x row =
     (let rp = ro_report row;
          runtimeUnset = (id_orbitVersion (hn_identity x) = [] \<and> id_dshVersion (hn_identity x) = []);
          matches = (runtimeUnset \<or> identityMatches (reportIdentity rp) (hn_identity x));
          fresh = (matches \<and> now - ro_uploadedAt row \<le> REPORT_STALENESS_MS) in
      (deriveCapabilities rp, \<not> fresh, if fresh then deriveOrbitCompatible rp else ''stale'',
       if fresh then deriveDshHealthy rp else ''unknown''))"

definition persistReconciledState :: "int \<Rightarrow> hub_node \<Rightarrow> evidence \<Rightarrow> (str \<times> str) list \<Rightarrow> reg \<Rightarrow> reg" where
  "persistReconciledState now x ev detail r =
     (case ev of (caps, stale, compatible, healthy) \<Rightarrow>
      let n = hn_id x;
          r1 = recordEvent now n ''orbit_compatible'' (hn_orbitCompatible x) compatible ''capability-reconciliation'' r;
          r2 = recordEvent now n ''dsh_healthy'' (hn_dshHealthy x) healthy ''capability-reconciliation'' r1;
          r3 = set_node n (set_claim ev) r2 in
      recordAudit now (''system:'' @ n) ''hub.capabilities.reconciled'' detail r3)"

definition reconcile_node :: "int \<Rightarrow> hub_node \<Rightarrow> reg \<Rightarrow> reg" where
  "reconcile_node now x r =
     (case getLatestReport (hn_id x) r of
        None \<Rightarrow> if claimed x = no_evidence then r
          else persistReconciledState now x no_evidence [(''reason'', ''no-report'')] r
      | Some row \<Rightarrow>
        (let ev = report_evidence now x row in
         if claimed x = ev then r
         else persistReconciledState now x ev [(''stale'', if fst (snd ev) then ''1'' else ''0'')] r))"

definition reconcileNodeCapabilities :: "int \<Rightarrow> reg \<Rightarrow> reg" where
  "reconcileNodeCapabilities now r = fold (reconcile_node now) (filter (\<lambda>x. hn_state x = ''active'') (nodes r)) r"

end
