(* ===== verification/RouteControl.thy ===== *)
theory RouteControl
  imports NodeHealth
begin

text \<open>
  Route targets, route modes and reachability of \<^verbatim>\<open>src/registry/registry.mjs\<close>, the target validation of
  \<^verbatim>\<open>src/registry/route-target.mjs\<close>, and the summaries of nodes. The URL parser is the argument \<open>parseUrl\<close>.
  A probe is two steps, up to its request and from the reply on, between which other operations run.
\<close>

section \<open>Route targets\<close>

record web_url =
  u_protocol :: str
  u_username :: str
  u_password :: str
  u_hostname :: str
  u_pathname :: str
  u_origin :: str

definition isLoopbackHostname :: "str \<Rightarrow> bool" where
  "isLoopbackHostname h \<longleftrightarrow> h = ''127.0.0.1'' \<or> h = ''::1'' \<or> h = ''[::1]''"

datatype origin_error = TargetRequired | TargetDecorated | TargetMalformed | TargetCredentials | TargetPath | TargetHost | TargetScheme

definition validateRouteTargetOrigin :: "(str \<Rightarrow> web_url option) \<Rightarrow> jsval \<Rightarrow> origin_error + str" where
  "validateRouteTargetOrigin parseUrl v =
     (case v of JStr s \<Rightarrow>
        (let trimmed = js_trim s in
         if trimmed = [] then Inl TargetRequired
         else if CHR ''?'' \<in> set trimmed \<or> CHR ''#'' \<in> set trimmed then Inl TargetDecorated
         else case parseUrl trimmed of None \<Rightarrow> Inl TargetMalformed | Some u \<Rightarrow>
           if u_username u \<noteq> [] \<or> u_password u \<noteq> [] \<or> CHR ''@'' \<in> set trimmed then Inl TargetCredentials
           else if u_pathname u \<noteq> ''/'' \<and> u_pathname u \<noteq> [] then Inl TargetPath
           else if u_protocol u = ''https:'' then (if u_hostname u = [] then Inl TargetHost else Inr (u_origin u))
           else if u_protocol u = ''http:'' then (if isLoopbackHostname (u_hostname u) then Inr (u_origin u) else Inl TargetScheme)
           else Inl TargetScheme)
      | _ \<Rightarrow> Inl TargetRequired)"

definition getRouteTarget :: "str \<Rightarrow> reg \<Rightarrow> target_row option" where
  "getRouteTarget n r = find (\<lambda>x. rt_node x = n) (targets r)"

definition clear_failures :: "str \<Rightarrow> reg \<Rightarrow> reg" where
  "clear_failures n r = r\<lparr>probeFailures := AList.delete n (probeFailures r)\<rparr>"

definition set_reachable :: "str \<Rightarrow> hub_node \<Rightarrow> hub_node" where
  "set_reachable v x = x\<lparr>hn_reachable := v\<rparr>"

text \<open>A transition of \<open>reachable\<close> from the value of the row.\<close>

definition move_reachable :: "int \<Rightarrow> str \<Rightarrow> str \<Rightarrow> str \<Rightarrow> reg \<Rightarrow> reg" where
  "move_reachable now n v source r =
     (case getNodeRow n r of None \<Rightarrow> r
      | Some x \<Rightarrow> set_node n (set_reachable v) (transitionDimension now n ''reachable'' (hn_reachable x) v source r))"

definition node_denial :: "str \<Rightarrow> reg \<Rightarrow> denial option" where
  "node_denial n r = (case getNodeRow n r of None \<Rightarrow> Some (Denied 404 ''not-found'')
     | Some x \<Rightarrow> if hn_state x = ''tombstoned'' then Some (Denied 409 ''node-tombstoned'') else None)"

definition setRouteTarget ::
  "(str \<Rightarrow> web_url option) \<Rightarrow> int \<Rightarrow> str \<Rightarrow> str \<Rightarrow> jsval \<Rightarrow> reg \<Rightarrow> (denial + target_row option) \<times> reg" where
  "setRouteTarget parseUrl now actor n routeTarget r =
     (if n = [] \<or> actor = [] then (Inl bad_request, r)
      else case node_denial n r of Some e \<Rightarrow> (Inl e, r) | None \<Rightarrow>
      case validateRouteTargetOrigin parseUrl routeTarget of Inl e \<Rightarrow> (Inl bad_request, r) | Inr origin \<Rightarrow>
      let r1 = (case getRouteTarget n r of
            Some old \<Rightarrow>
              recordAudit now actor ''hub.route-targets.replace''
                [(''nodeId'', n), (''routeTargetOrigin'', origin), (''previousRouteTargetOrigin'', rt_origin old)]
                (r\<lparr>targets := upd_where (\<lambda>t. rt_node t = n) (\<lambda>t. t\<lparr>rt_origin := origin, rt_updatedAt := now\<rparr>) (targets r)\<rparr>)
          | None \<Rightarrow>
              recordAudit now actor ''hub.route-targets.create'' [(''nodeId'', n), (''routeTargetOrigin'', origin)]
                (r\<lparr>targets := targets r @ [\<lparr>rt_node = n, rt_origin = origin, rt_createdAt = now, rt_updatedAt = now\<rparr>]\<rparr>));
          r2 = clear_failures n (move_reachable now n ''unknown'' ''route-target-change'' r1) in
      (Inr (getRouteTarget n r2), r2))"

definition removeRouteTarget :: "int \<Rightarrow> str \<Rightarrow> str \<Rightarrow> reg \<Rightarrow> (denial + str) \<times> reg" where
  "removeRouteTarget now actor n r =
     (if n = [] \<or> actor = [] then (Inl bad_request, r)
      else if getNodeRow n r = None then (Inl (Denied 404 ''not-found''), r)
      else let r1 = (case getRouteTarget n r of None \<Rightarrow> r | Some old \<Rightarrow>
              recordAudit now actor ''hub.route-targets.remove'' [(''nodeId'', n), (''previousRouteTargetOrigin'', rt_origin old)]
                (r\<lparr>targets := filter (\<lambda>t. rt_node t \<noteq> n) (targets r)\<rparr>)) in
        (Inr n, clear_failures n (move_reachable now n ''unknown'' ''route-target-remove'' r1)))"

section \<open>Route modes\<close>

definition mode_of :: "hub_node \<Rightarrow> str" where
  "mode_of x = (if hn_routeMode x = ''reverse'' then ''reverse'' else ''direct'')"

text \<open>The answer is the previous mode and whether it changed.\<close>

definition setRouteMode :: "int \<Rightarrow> str \<Rightarrow> str \<Rightarrow> str \<Rightarrow> reg \<Rightarrow> (denial + str \<times> bool) \<times> reg" where
  "setRouteMode now actor n mode r =
     (if actor = [] \<or> n = [] then (Inl bad_request, r)
      else if mode \<noteq> ''direct'' \<and> mode \<noteq> ''reverse'' then (Inl bad_request, r)
      else case node_denial n r of Some e \<Rightarrow> (Inl e, r) | None \<Rightarrow>
      case getNodeRow n r of None \<Rightarrow> (Inl internal_error, r) | Some x \<Rightarrow>
      if mode_of x = mode then (Inr (mode, False), r)
      else
        let r1 = set_node n (\<lambda>y. y\<lparr>hn_routeMode := mode, hn_reachable := ''unknown''\<rparr>)
                   (transitionDimension now n ''reachable'' (hn_reachable x) ''unknown'' ''route-mode-change'' r);
            r2 = recordAudit now actor ''hub.nodes.route-mode'' [(''nodeId'', n), (''routeMode'', mode), (''previousRouteMode'', mode_of x)]
                   (clear_failures n r1) in
        (Inr (mode_of x, True), recordEvent now n ''route_mode'' (mode_of x) mode ''operator'' r2))"

section \<open>Probes\<close>

definition ROUTE_PROBE_FAILURE_THRESHOLD :: nat where "ROUTE_PROBE_FAILURE_THRESHOLD = 3"

text \<open>What the answer of a probe says: the reachability, whether it succeeded, whether it was ignored.\<close>

type_synonym probe_answer = "str \<times> bool \<times> bool"

definition context_changed :: "str \<Rightarrow> (str \<times> str) option \<Rightarrow> reg \<Rightarrow> bool" where
  "context_changed n ctx r = (case ctx of None \<Rightarrow> False | Some (origin, kid) \<Rightarrow>
     \<not> (case (getRouteTarget n r, getActiveHubRouteKey n r) of
          (Some t, Some k) \<Rightarrow> rt_origin t = origin \<and> hk_id k = kid | _ \<Rightarrow> False))"

definition recordProbeResult :: "int \<Rightarrow> str \<Rightarrow> bool \<Rightarrow> (str \<times> str) option \<Rightarrow> reg \<Rightarrow> probe_answer \<times> reg" where
  "recordProbeResult now n success ctx r =
     (case getNodeRow n r of None \<Rightarrow> ((''unknown'', False, False), r) | Some x \<Rightarrow>
      if hn_state x \<noteq> ''active'' then ((''unknown'', False, False), r)
      else if hn_routeMode x = ''reverse'' then
        ((''unknown'', False, True), move_reachable now n ''unknown'' ''route-mode-reverse'' (clear_failures n r))
      else if context_changed n ctx r then ((hn_reachable x, False, True), clear_failures n r)
      else if success then ((''ok'', True, False), move_reachable now n ''ok'' ''route-probe'' (clear_failures n r))
      else
        let fails = (case map_of (probeFailures r) n of None \<Rightarrow> 0 | Some k \<Rightarrow> k) + 1;
            r1 = r\<lparr>probeFailures := AList.update n fails (probeFailures r)\<rparr> in
        if fails \<ge> ROUTE_PROBE_FAILURE_THRESHOLD
        then ((''unreachable'', False, False), move_reachable now n ''unreachable'' ''route-probe'' r1)
        else ((hn_reachable x, False, False), r1))"

text \<open>A probe up to its request: skipped with a reason, or sent with the headers, and the context to come back with.\<close>

datatype probe_start = ProbeSkip str | ProbeThrow | ProbeSend str "(str \<times> str) list" "str \<times> str"

definition probe_begin ::
  "ed_sign \<Rightarrow> str \<Rightarrow> int \<Rightarrow> str \<Rightarrow> str \<Rightarrow> reg \<Rightarrow> probe_start \<times> reg" where
  "probe_begin edSign domain_name now nonce n r =
     (case getNodeRow n r of None \<Rightarrow> (ProbeSkip ''node-not-active'', r) | Some x \<Rightarrow>
      if hn_state x \<noteq> ''active'' then (ProbeSkip ''node-not-active'', r)
      else if hn_routeMode x = ''reverse'' then
        (ProbeSkip ''reverse-mode'', move_reachable now n ''unknown'' ''route-mode-reverse'' (clear_failures n r))
      else case getRouteTarget n r of
        None \<Rightarrow> (ProbeSkip ''no-target'', move_reachable now n ''unknown'' ''route-probe'' (clear_failures n r))
      | Some t \<Rightarrow>
      case getActiveHubRouteKey n r of
        None \<Rightarrow> (ProbeSkip ''identity-not-active'', move_reachable now n ''unknown'' ''route-probe'' (clear_failures n r))
      | Some k \<Rightarrow>
      case computeRouteAuthority n domain_name of Inl e \<Rightarrow> (ProbeThrow, r) | Inr authority \<Rightarrow>
      case signRouteRequest edSign (hk_private k) (hk_id k) n authority ''GET'' ''/_orbit/route-ready'' (nat now) nonce of
        Inl e \<Rightarrow> (ProbeThrow, r)
      | Inr (headers, signed) \<Rightarrow>
          (ProbeSend (rt_origin t @ ''/_orbit/route-ready'') (headers @ [(''x-orbit-route-authority'', authority)])
             (rt_origin t, hk_id k), r))"

datatype probe_reply = TransportFailed | Reply nat "jsval option"

definition probe_success :: "str \<Rightarrow> probe_reply \<Rightarrow> bool" where
  "probe_success n reply = (case reply of TransportFailed \<Rightarrow> False
     | Reply status body \<Rightarrow> status = 200 \<and>
         (case body of None \<Rightarrow> False
          | Some v \<Rightarrow> js_field ''nodeId'' v = JStr n \<and> js_field ''ready'' v = JBool True))"

definition probe_finish :: "int \<Rightarrow> str \<Rightarrow> probe_reply \<Rightarrow> str \<times> str \<Rightarrow> reg \<Rightarrow> probe_answer \<times> reg" where
  "probe_finish now n reply ctx r = recordProbeResult now n (probe_success n reply) (Some ctx) r"

section \<open>Summaries\<close>

record node_summary =
  ns_row :: hub_node
  ns_target :: "target_row option"
  ns_keys :: "route_key list"
  ns_mode :: str
  ns_capabilities :: "str list"

definition toNodeSummary :: "(int \<Rightarrow> str) \<Rightarrow> reg \<Rightarrow> hub_node \<Rightarrow> node_summary" where
  "toNodeSummary isoText r x = \<lparr>ns_row = x, ns_target = getRouteTarget (hn_id x) r,
     ns_keys = getHubRouteKeysForNode isoText (hn_id x) r, ns_mode = mode_of x,
     ns_capabilities = (if hn_capabilitiesStale x then [] else hn_capabilities x)\<rparr>"

definition listNodes :: "(int \<Rightarrow> str) \<Rightarrow> reg \<Rightarrow> node_summary list" where
  "listNodes isoText r = map (toNodeSummary isoText r) (sort_key hn_mintedAt (nodes r))"

definition getNode :: "(int \<Rightarrow> str) \<Rightarrow> str \<Rightarrow> reg \<Rightarrow> denial + node_summary \<times> report_row option \<times> event_row list" where
  "getNode isoText n r = (case getNodeRow n r of None \<Rightarrow> Inl (Denied 404 ''not-found'')
     | Some x \<Rightarrow> Inr (toNodeSummary isoText r x, getLatestReport n r,
         take 50 (sort_key (\<lambda>e. - ev_at e) (filter (\<lambda>e. ev_node e = n) (events r)))))"

section \<open>Lemmas\<close>

lemma transition_other [simp]:
  "tokens (transitionDimension t n c a b s r) = tokens r" "grants (transitionDimension t n c a b s r) = grants r"
  "nodes (transitionDimension t n c a b s r) = nodes r" "node_keys (transitionDimension t n c a b s r) = node_keys r"
  "hub_keys (transitionDimension t n c a b s r) = hub_keys r" "seen_nonces (transitionDimension t n c a b s r) = seen_nonces r"
  "audit (transitionDimension t n c a b s r) = audit r" "reports (transitionDimension t n c a b s r) = reports r"
  "sessions (transitionDimension t n c a b s r) = sessions r" "targets (transitionDimension t n c a b s r) = targets r"
  "probeFailures (transitionDimension t n c a b s r) = probeFailures r"
  "cadenceSeconds (transitionDimension t n c a b s r) = cadenceSeconds r"
  "getNodeRow m (transitionDimension t n c a b s r) = getNodeRow m r"
  by (simp_all add: transitionDimension_def)

lemma move_reachable_other [simp]:
  "tokens (move_reachable t n v s r) = tokens r" "grants (move_reachable t n v s r) = grants r"
  "node_keys (move_reachable t n v s r) = node_keys r" "hub_keys (move_reachable t n v s r) = hub_keys r"
  "seen_nonces (move_reachable t n v s r) = seen_nonces r" "targets (move_reachable t n v s r) = targets r"
  "probeFailures (move_reachable t n v s r) = probeFailures r" "sessions (move_reachable t n v s r) = sessions r"
  by (simp_all add: move_reachable_def split: option.splits)

lemma getNodeRow_move [simp]:
  "getNodeRow m (move_reachable t n v s r) = (if m = n then map_option (set_reachable v) (getNodeRow m r) else getNodeRow m r)"
  by (cases "getNodeRow n r") (auto simp: move_reachable_def getNodeRow_set_node set_reachable_def)

lemma clear_failures_other [simp]:
  "tokens (clear_failures n r) = tokens r" "grants (clear_failures n r) = grants r" "nodes (clear_failures n r) = nodes r"
  "node_keys (clear_failures n r) = node_keys r" "hub_keys (clear_failures n r) = hub_keys r"
  "seen_nonces (clear_failures n r) = seen_nonces r" "targets (clear_failures n r) = targets r"
  "sessions (clear_failures n r) = sessions r" "probeFailures (clear_failures n r) = AList.delete n (probeFailures r)"
  "getNodeRow m (clear_failures n r) = getNodeRow m r"
  by (simp_all add: clear_failures_def getNodeRow_def)

lemma context_changed_cong:
  "targets r' = targets r \<Longrightarrow> hub_keys r' = hub_keys r \<Longrightarrow> context_changed n ctx r' = context_changed n ctx r"
proof -
  assume h: "targets r' = targets r" "hub_keys r' = hub_keys r"
  have "getRouteTarget n r' = getRouteTarget n r" "getActiveHubRouteKey n r' = getActiveHubRouteKey n r"
    unfolding getRouteTarget_def getActiveHubRouteKey_def h by (rule refl)+
  then show ?thesis unfolding context_changed_def by (simp only:)
qed

text \<open>Consecutive probes of one node with an unchanged context.\<close>

definition probe_run :: "str \<Rightarrow> (str \<times> str) option \<Rightarrow> (int \<times> bool) list \<Rightarrow> reg \<Rightarrow> reg" where
  "probe_run n ctx ps r = foldl (\<lambda>r (t, b). snd (recordProbeResult t n b ctx r)) r ps"

text \<open>The reachability a history of results stands for.\<close>

definition trailing :: "bool list \<Rightarrow> nat" where
  "trailing bs = length (takeWhile Not (rev bs))"

definition reach_of_history :: "str \<Rightarrow> bool list \<Rightarrow> str" where
  "reach_of_history initially bs =
     (if trailing bs \<ge> ROUTE_PROBE_FAILURE_THRESHOLD then ''unreachable'' else if True \<in> set bs then ''ok'' else initially)"

definition probed_node :: "str \<Rightarrow> (str \<times> str) option \<Rightarrow> str \<Rightarrow> nat \<Rightarrow> reg \<Rightarrow> bool" where
  "probed_node n ctx v fails r \<longleftrightarrow>
     (case getNodeRow n r of None \<Rightarrow> False
      | Some x \<Rightarrow> hn_state x = ''active'' \<and> hn_routeMode x \<noteq> ''reverse'' \<and> hn_reachable x = v)
     \<and> \<not> context_changed n ctx r \<and> map_of (probeFailures r) n = (if fails = 0 then None else Some fails)"

lemma probe_step:
  assumes "probed_node n ctx v fails r"
  shows "probed_node n ctx (if b then ''ok'' else if Suc fails \<ge> ROUTE_PROBE_FAILURE_THRESHOLD then ''unreachable'' else v)
     (if b then 0 else Suc fails) (snd (recordProbeResult t n b ctx r))"
proof -
  obtain x where x: "getNodeRow n r = Some x" "hn_state x = ''active''" "hn_routeMode x \<noteq> ''reverse''" "hn_reachable x = v"
    and c: "\<not> context_changed n ctx r" and f: "map_of (probeFailures r) n = (if fails = 0 then None else Some fails)"
    using assms by (auto simp: probed_node_def split: option.splits)
  have c': "\<not> context_changed n ctx (snd (recordProbeResult t n b ctx r))"
    using c by (subst context_changed_cong [of _ r]) (auto simp: recordProbeResult_def Let_def split: option.splits)
  show ?thesis
  proof (cases b)
    case True
    then show ?thesis
      using x c c' by (simp add: probed_node_def recordProbeResult_def set_reachable_def map_of_delete)
  next
    case False
    have fs: "(case map_of (probeFailures r) n of None \<Rightarrow> 0 | Some k \<Rightarrow> k) = fails" by (simp add: f)
    have g: "getNodeRow m (r\<lparr>probeFailures := p\<rparr>) = getNodeRow m r" for m p by (simp add: getNodeRow_def)
    show ?thesis
      using x c c' False
      by (auto simp: probed_node_def recordProbeResult_def set_reachable_def map_of_update fs g Let_def)
  qed
qed

lemma trailing_snoc: "trailing (bs @ [b]) = (if b then 0 else Suc (trailing bs))"
  by (simp add: trailing_def)

lemma reach_snoc:
  "reach_of_history v (bs @ [b]) =
     (if b then ''ok'' else if Suc (trailing bs) \<ge> ROUTE_PROBE_FAILURE_THRESHOLD then ''unreachable'' else reach_of_history v bs)"
  by (auto simp: reach_of_history_def trailing_snoc ROUTE_PROBE_FAILURE_THRESHOLD_def)

lemma probe_run_snoc: "probe_run n ctx (ps @ [(t, b)]) r = snd (recordProbeResult t n b ctx (probe_run n ctx ps r))"
  by (simp add: probe_run_def)

lemma probe_run_history:
  assumes "probed_node n ctx v 0 r"
  shows "probed_node n ctx (reach_of_history v (map snd ps)) (trailing (map snd ps)) (probe_run n ctx ps r)"
proof (induction ps rule: rev_induct)
  case Nil
  then show ?case using assms by (simp add: probe_run_def reach_of_history_def trailing_def ROUTE_PROBE_FAILURE_THRESHOLD_def)
next
  case (snoc p ps)
  obtain t b where p: "p = (t, b)" by (cases p)
  show ?case using probe_step [OF snoc, of b t] by (simp add: p probe_run_snoc reach_snoc trailing_snoc)
qed

section \<open>Properties\<close>

text \<open>
  Reachability is the history of probes: for an active node in direct mode whose probe context stays
  the same and that has no failure on record, it is unreachable after three or more consecutive failures at
  the end, ok if fewer failures follow a success, and unchanged while there are only one or two results,
  both failures.
\<close>

theorem probe_reachability_history:
  assumes "getNodeRow n r = Some x" and "hn_state x = ''active''" and "hn_routeMode x \<noteq> ''reverse''"
    and "\<not> context_changed n ctx r" and "map_of (probeFailures r) n = None"
  shows "map_option hn_reachable (getNodeRow n (probe_run n ctx ps r))
     = Some (reach_of_history (hn_reachable x) (map snd ps))"
proof -
  have "probed_node n ctx (hn_reachable x) 0 r" using assms by (simp add: probed_node_def)
  from probe_run_history [OF this, of ps] show ?thesis
    by (auto simp: probed_node_def split: option.splits)
qed

theorem probe_reachability_history_witness:
  "let r = (the (new_registry 60 24 7 None))\<lparr>nodes := [new_node ''node_1'' ''direct'' 0]\<rparr> in
   map_option hn_reachable (getNodeRow ''node_1'' (probe_run ''node_1'' None [(1, True), (2, False), (3, False)] r)) = Some ''ok''
   \<and> map_option hn_reachable (getNodeRow ''node_1'' (probe_run ''node_1'' None [(1, True), (2, False), (3, False), (4, False)] r))
     = Some ''unreachable''"
proof -
  let ?r = "(the (new_registry 60 24 7 None))\<lparr>nodes := [new_node ''node_1'' ''direct'' 0]\<rparr>"
  let ?x = "new_node ''node_1'' ''direct'' 0"
  have "getNodeRow ''node_1'' ?r = Some ?x" "hn_state ?x = ''active''" "hn_routeMode ?x \<noteq> ''reverse''"
    "\<not> context_changed ''node_1'' None ?r" "map_of (probeFailures ?r) ''node_1'' = None"
    by (simp_all add: getNodeRow_def new_node_def context_changed_def new_registry_def)
  note h = probe_reachability_history [OF this]
  have "reach_of_history (hn_reachable ?x) (map snd [(1 :: int, True), (2, False), (3, False)]) = ''ok''"
    "reach_of_history (hn_reachable ?x) (map snd [(1 :: int, True), (2, False), (3, False), (4, False)]) = ''unreachable''"
    by (simp_all add: reach_of_history_def trailing_def ROUTE_PROBE_FAILURE_THRESHOLD_def)
  then show ?thesis unfolding Let_def h by simp
qed

end
