(* ===== verification/BrowserSessions.thy ===== *)
theory BrowserSessions
  imports RegistryState
begin

text \<open>
  The browser sessions of \<^verbatim>\<open>src/registry/registry.mjs\<close>: a session is bound to a principal, has an absolute
  and an idle limit, and ends by logout. Fresh ids and CSRF tokens are arguments.
\<close>

definition SESSION_TTL_MS :: int where "SESSION_TTL_MS = 12 * 60 * 60 * 1000"
definition SESSION_IDLE_MS :: int where "SESSION_IDLE_MS = 30 * 60 * 1000"

definition find_session :: "str \<Rightarrow> reg \<Rightarrow> session_row option" where
  "find_session sid r = find (\<lambda>s. bs_id s = sid) (sessions r)"

definition bootstrapSession :: "int \<Rightarrow> str \<times> str \<Rightarrow> str \<Rightarrow> reg \<Rightarrow> (denial + session_row) \<times> reg" where
  "bootstrapSession now rnd principal_name r =
     (let sid = ''sess_'' @ fst rnd;
          row = \<lparr>bs_id = sid, bs_principal = principal_name, bs_csrf = snd rnd, bs_createdAt = now,
            bs_expiresAt = now + SESSION_TTL_MS, bs_idleUntil = now + SESSION_IDLE_MS, bs_revokedAt = None, bs_auditedAt = None\<rparr> in
      if find_session sid r \<noteq> None then (Inl internal_error, r)
      else (Inr row, recordAudit now principal_name ''session.bootstrap'' [(''sessionId'', sid)]
             (r\<lparr>sessions := sessions r @ [row]\<rparr>)))"

definition session_live :: "int \<Rightarrow> session_row \<Rightarrow> bool" where
  "session_live now s \<longleftrightarrow> bs_revokedAt s = None \<and> now < bs_expiresAt s \<and> now < bs_idleUntil s"

definition set_session :: "str \<Rightarrow> (session_row \<Rightarrow> session_row) \<Rightarrow> reg \<Rightarrow> reg" where
  "set_session sid f r = r\<lparr>sessions := upd_where (\<lambda>s. bs_id s = sid) f (sessions r)\<rparr>"

text \<open>A valid session is extended; the answer is the principal, the CSRF token and the absolute limit.\<close>

definition validateSession :: "int \<Rightarrow> str option \<Rightarrow> reg \<Rightarrow> (str \<times> str \<times> int) option \<times> reg" where
  "validateSession now sessionId r =
     (case sessionId of None \<Rightarrow> (None, r) | Some sid \<Rightarrow>
      case find_session sid r of None \<Rightarrow> (None, r) | Some s \<Rightarrow>
      if \<not> session_live now s then (None, r)
      else (Some (bs_principal s, bs_csrf s, bs_expiresAt s),
            set_session sid (\<lambda>s. s\<lparr>bs_idleUntil := now + SESSION_IDLE_MS\<rparr>) r))"

definition endSession :: "int \<Rightarrow> str \<Rightarrow> str \<Rightarrow> reg \<Rightarrow> bool \<times> reg" where
  "endSession now sid actor r =
     (if find_session sid r = None then (False, r)
      else (True, recordAudit now actor ''session.logout'' [(''sessionId'', sid)]
              (set_session sid (\<lambda>s. s\<lparr>bs_revokedAt := Some now\<rparr>) r)))"

definition countActiveSessions :: "int \<Rightarrow> reg \<Rightarrow> nat" where
  "countActiveSessions now r = length (filter (session_live now) (sessions r))"

text \<open>The part of \<open>maintenance\<close> that audits each expired session once.\<close>

definition session_expired :: "int \<Rightarrow> session_row \<Rightarrow> bool" where
  "session_expired now s \<longleftrightarrow> bs_revokedAt s = None \<and> bs_auditedAt s = None \<and> (bs_expiresAt s \<le> now \<or> bs_idleUntil s \<le> now)"

definition audit_expired :: "int \<Rightarrow> session_row \<Rightarrow> reg \<Rightarrow> reg" where
  "audit_expired now s r = recordAudit now (bs_principal s) ''session.expired'' [(''sessionId'', bs_id s)]
     (set_session (bs_id s) (\<lambda>s. s\<lparr>bs_auditedAt := Some now\<rparr>) r)"

definition audit_expired_sessions :: "int \<Rightarrow> reg \<Rightarrow> reg" where
  "audit_expired_sessions now r = fold (audit_expired now) (filter (session_expired now) (sessions r)) r"

end
