(* ===== verification/Maintenance.thy ===== *)
theory Maintenance
  imports RouteControl BrowserSessions
begin

text \<open>
  The maintenance tick of \<^verbatim>\<open>src/registry/registry.mjs\<close>: the end of rotation overlaps, retention, the aging of
  evidence, reconciliation, daily event rollups, the aging of contact and the audit of expired sessions. A
  day is the UTC day number of a time. The clock of the contact aging is the argument \<open>contactNow\<close>. The
  revoked credentials go to the lifecycle hook after the commit.
\<close>

definition NONCE_RETENTION_MS :: int where "NONCE_RETENTION_MS = 24 * 60 * 60 * 1000"
definition DAY_MS :: int where "DAY_MS = 24 * 60 * 60 * 1000"
definition ENROLLMENT_RESULT_RETENTION_MS :: int where "ENROLLMENT_RESULT_RETENTION_MS = 90 * 24 * 60 * 60 * 1000"
definition REPORT_RETENTION_MS :: int where "REPORT_RETENTION_MS = 90 * 24 * 60 * 60 * 1000"
definition EVENT_RETENTION_MS :: int where "EVENT_RETENTION_MS = 90 * 24 * 60 * 60 * 1000"
definition AUDIT_RETENTION_MS :: int where "AUDIT_RETENTION_MS = 365 * 24 * 60 * 60 * 1000"
definition EVENT_ROLLUP_AFTER_MS :: int where "EVENT_ROLLUP_AFTER_MS = 7 * 24 * 60 * 60 * 1000"

section \<open>Credentials and retention\<close>

definition rotation_ended :: "int \<Rightarrow> node_key \<Rightarrow> bool" where
  "rotation_ended now k \<longleftrightarrow> nk_state k = ''active'' \<and> (case nk_revokeAfter k of None \<Rightarrow> False | Some t \<Rightarrow> t \<le> now)"

definition revoke_node_key :: "int \<Rightarrow> node_key \<Rightarrow> reg \<Rightarrow> reg" where
  "revoke_node_key now k0 r = r\<lparr>node_keys := upd_where (\<lambda>k. nk_node k = nk_node k0 \<and> nk_id k = nk_id k0)
     (\<lambda>k. k\<lparr>nk_state := ''revoked'', nk_revokedAt := Some now, nk_reason := Some ''rotation-overlap-ended''\<rparr>) (node_keys r)\<rparr>"

text \<open>The credentials whose overlap ended, and the registry with them revoked.\<close>

definition revoke_rotated :: "int \<Rightarrow> reg \<Rightarrow> (str \<times> str) list \<times> reg" where
  "revoke_rotated now r = (let ended = filter (rotation_ended now) (node_keys r) in
     (map (\<lambda>k. (nk_node k, nk_id k)) ended, fold (revoke_node_key now) ended r))"

definition purge_tables :: "int \<Rightarrow> reg \<Rightarrow> reg" where
  "purge_tables now r = r\<lparr>seen_nonces := filter (\<lambda>e. snd e > now - NONCE_RETENTION_MS) (seen_nonces r),
     grants := filter (\<lambda>g. rr_createdAt g > now - ENROLLMENT_RESULT_RETENTION_MS) (grants r),
     reports := filter (\<lambda>p. ro_uploadedAt p > now - REPORT_RETENTION_MS) (reports r)\<rparr>"

section \<open>Aging of evidence\<close>

definition stale_claim :: "hub_node \<Rightarrow> hub_node" where
  "stale_claim x = x\<lparr>hn_orbitCompatible := (if hn_orbitCompatible x \<in> {''pass'', ''fail''} then ''stale'' else hn_orbitCompatible x),
     hn_dshHealthy := ''unknown'', hn_capabilitiesStale := True\<rparr>"

definition age_evidence :: "int \<Rightarrow> hub_node \<Rightarrow> reg \<Rightarrow> reg" where
  "age_evidence now x r =
     (let n = hn_id x in
      case getLatestReport n r of
        None \<Rightarrow>
          if claimed x = no_evidence then r
          else set_node n (set_claim no_evidence)
            (transitionDimension now n ''dsh_healthy'' (hn_dshHealthy x) ''unknown'' ''maintenance''
              (transitionDimension now n ''orbit_compatible'' (hn_orbitCompatible x) ''unknown'' ''maintenance'' r))
      | Some row \<Rightarrow>
          if now - ro_uploadedAt row > REPORT_STALENESS_MS then
            set_node n stale_claim
              (transitionDimension now n ''dsh_healthy'' (hn_dshHealthy x) ''unknown'' ''maintenance''
                (if hn_orbitCompatible x \<in> {''pass'', ''fail''}
                 then transitionDimension now n ''orbit_compatible'' (hn_orbitCompatible x) ''stale'' ''maintenance'' r else r))
          else r)"

definition age_all_evidence :: "int \<Rightarrow> reg \<Rightarrow> reg" where
  "age_all_evidence now r = fold (age_evidence now) (filter (\<lambda>x. hn_state x = ''active'') (nodes r)) r"

section \<open>Event rollups\<close>

definition day_number :: "int \<Rightarrow> int" where
  "day_number t = t div DAY_MS"

type_synonym rollup_group = "str \<times> int \<times> str"

definition group_of :: "event_row \<Rightarrow> rollup_group" where
  "group_of e = (ev_node e, day_number (ev_at e), ev_dimension e)"

definition rolls_up :: "int \<Rightarrow> event_row \<Rightarrow> bool" where
  "rolls_up cutoff e \<longleftrightarrow> ev_at e < cutoff \<and> ev_dimension e \<noteq> ''rollup'' \<and> day_number (ev_at e) < day_number cutoff"

text \<open>The count and the final value of a group, as the query computes them before any change.\<close>

definition rollup_groups :: "int \<Rightarrow> event_row list \<Rightarrow> (rollup_group \<times> nat \<times> str) list" where
  "rollup_groups cutoff es =
     map (\<lambda>g. (g, length (filter (\<lambda>e. group_of e = g) (filter (rolls_up cutoff) es)),
                case latest_by ev_at (filter (\<lambda>e. group_of e = g) es) of None \<Rightarrow> [] | Some e \<Rightarrow> ev_to e))
       (remdups (map group_of (filter (rolls_up cutoff) es)))"

text \<open>The JSON text of a summary; the values of dimensions need no escape.\<close>

definition rollup_text :: "nat \<Rightarrow> str \<Rightarrow> str" where
  "rollup_text cnt final = ''{\"count\":'' @ dec_of_nat cnt @ '',\"final\":\"'' @ final @ ''\"}''"

definition summary_row :: "rollup_group \<Rightarrow> nat \<Rightarrow> str \<Rightarrow> event_row" where
  "summary_row g cnt final = (case g of (n, d, dimen) \<Rightarrow>
     \<lparr>ev_node = n, ev_at = (d + 1) * DAY_MS - 1, ev_dimension = ''rollup'', ev_from = dimen,
      ev_to = rollup_text cnt final, ev_source = ''retention-rollup''\<rparr>)"

definition summary_exists :: "rollup_group \<Rightarrow> event_row list \<Rightarrow> bool" where
  "summary_exists g es = (case g of (n, d, dimen) \<Rightarrow>
     list_ex (\<lambda>e. ev_node e = n \<and> ev_at e = (d + 1) * DAY_MS - 1 \<and> ev_dimension e = ''rollup'' \<and> ev_from e = dimen) es)"

definition roll_group :: "rollup_group \<times> nat \<times> str \<Rightarrow> event_row list \<Rightarrow> event_row list" where
  "roll_group gcf es = (case gcf of (g, cnt, final) \<Rightarrow>
     if summary_exists g es then es else filter (\<lambda>e. group_of e \<noteq> g) es @ [summary_row g cnt final])"

definition roll_events :: "int \<Rightarrow> event_row list \<Rightarrow> event_row list" where
  "roll_events cutoff es = fold roll_group (rollup_groups cutoff es) es"

definition retain_history :: "int \<Rightarrow> reg \<Rightarrow> reg" where
  "retain_history now r = r\<lparr>events := filter (\<lambda>e. ev_at e > now - EVENT_RETENTION_MS) (roll_events (now - EVENT_ROLLUP_AFTER_MS) (events r)),
     audit := filter (\<lambda>a. au_at a > now - AUDIT_RETENTION_MS) (audit r)\<rparr>"

section \<open>Aging of contact\<close>

definition contact_target :: "int \<Rightarrow> int \<Rightarrow> hub_node \<Rightarrow> str option" where
  "contact_target gap cadence x =
     (if gap > HEARTBEAT_LOST_MS \<and> hn_contact x \<noteq> ''lost'' then Some ''lost''
      else if gap > HEARTBEAT_MISSED_BEATS_STALE * (cadence * 1000) \<and> hn_contact x = ''fresh'' then Some ''stale'' else None)"

definition age_contact :: "int \<Rightarrow> (hub_node \<Rightarrow> int) \<Rightarrow> hub_node \<Rightarrow> reg \<Rightarrow> reg" where
  "age_contact now contactNow x r =
     (case hn_lastHeartbeatAt x of None \<Rightarrow> r | Some beat \<Rightarrow>
      case contact_target (contactNow x - beat) (cadenceSeconds r) x of None \<Rightarrow> r | Some to_contact \<Rightarrow>
      let r1 = set_node (hn_id x) (\<lambda>y. y\<lparr>hn_contact := to_contact\<rparr>)
                 (transitionDimension now (hn_id x) ''registry_contact'' (hn_contact x) to_contact ''maintenance'' r) in
      if to_contact = ''lost'' then setAlertFlag (hn_id x) ''contact-lost'' r1 else r1)"

definition age_contacts :: "int \<Rightarrow> (hub_node \<Rightarrow> int) \<Rightarrow> reg \<Rightarrow> reg" where
  "age_contacts now contactNow r =
     fold (age_contact now contactNow)
       (filter (\<lambda>x. hn_state x = ''active'' \<and> hn_lastHeartbeatAt x \<noteq> None) (nodes r)) r"

section \<open>The tick\<close>

definition maintenance :: "int \<Rightarrow> (hub_node \<Rightarrow> int) \<Rightarrow> reg \<Rightarrow> (str \<times> str) list \<times> reg" where
  "maintenance now contactNow r =
     (case revoke_rotated now r of (revoked, r1) \<Rightarrow>
      let r2 = purge_tables now (expire_hub_keys now r1);
          r3 = reconcileNodeCapabilities now (age_all_evidence now r2);
          r4 = age_contacts now contactNow (retain_history now r3) in
      (revoked, audit_expired_sessions now r4))"

section \<open>Folds of row updates\<close>

text \<open>A loop over a snapshot of the nodes whose steps update the row of their node.\<close>

lemma fold_node_updates:
  assumes step: "\<And>x r. I r \<Longrightarrow> I (step x r) \<and> nodes (step x r) = upd_where (\<lambda>y. hn_id y = hn_id x) (F x) (nodes r)"
    and id: "\<And>x y. hn_id (F x y) = hn_id y" and "I r" and "distinct (map hn_id xs)"
  shows "I (fold step xs r) \<and> nodes (fold step xs r)
     = map (\<lambda>y. case find (\<lambda>x. hn_id x = hn_id y) xs of None \<Rightarrow> y | Some x \<Rightarrow> F x y) (nodes r)"
  using assms(3,4)
proof (induction xs arbitrary: r)
  case Nil
  then show ?case by simp
next
  case (Cons x xs)
  note s = step [OF Cons.prems(1), of x]
  have x: "find (\<lambda>z. hn_id z = hn_id x) xs = None"
    using Cons.prems(2) by (simp add: find_None_iff) (metis image_eqI)
  have "nodes (fold step (x # xs) r) = map (\<lambda>y. case find (\<lambda>z. hn_id z = hn_id y) xs of None \<Rightarrow> y | Some z \<Rightarrow> F z y)
      (upd_where (\<lambda>y. hn_id y = hn_id x) (F x) (nodes r))"
    using Cons.IH [of "step x r"] Cons.prems(2) s by simp
  also have "\<dots> = map (\<lambda>y. case find (\<lambda>z. hn_id z = hn_id y) (x # xs) of None \<Rightarrow> y | Some z \<Rightarrow> F z y) (nodes r)"
    using x by (auto simp: upd_where_def id)
  finally show ?case using Cons.IH [of "step x r"] Cons.prems(2) s by simp
qed

lemma find_filter_id:
  assumes "distinct (map hn_id ys)" and "y \<in> set ys"
  shows "find (\<lambda>x. hn_id x = hn_id y) (filter P ys) = (if P y then Some y else None)"
  using assms by (induction ys) (auto simp: find_None_iff image_iff)

lemma fold_snapshot:
  assumes "\<And>x r. I r \<Longrightarrow> I (step x r) \<and> nodes (step x r) = upd_where (\<lambda>y. hn_id y = hn_id x) (F x) (nodes r)"
    and "\<And>x y. hn_id (F x y) = hn_id y" and "I r" and "distinct (map hn_id (nodes r))"
  shows "I (fold step (filter P (nodes r)) r)"
    and "nodes (fold step (filter P (nodes r)) r) = map (\<lambda>y. if P y then F y y else y) (nodes r)"
proof -
  have "distinct (map hn_id (filter P (nodes r)))" using assms(4) by (rule distinct_map_filter)
  then have f: "I (fold step (filter P (nodes r)) r) \<and> nodes (fold step (filter P (nodes r)) r)
     = map (\<lambda>y. case find (\<lambda>x. hn_id x = hn_id y) (filter P (nodes r)) of None \<Rightarrow> y | Some x \<Rightarrow> F x y) (nodes r)"
    by (intro fold_node_updates [where F = F] assms(1-3))
  show "I (fold step (filter P (nodes r)) r)" using f by blast
  show "nodes (fold step (filter P (nodes r)) r) = map (\<lambda>y. if P y then F y y else y) (nodes r)"
    unfolding f [THEN conjunct2] by (intro map_cong refl) (simp add: find_filter_id [OF assms(4)])
qed

lemma upd_ident: "(\<And>x. f x = x) \<Longrightarrow> upd_where P f xs = xs"
  by (induction xs) simp_all

lemma set_node_nodes: "nodes (set_node n f r) = upd_where (\<lambda>x. hn_id x = n) f (nodes r)"
  by simp

section \<open>What the tick does to the nodes\<close>

definition evidence_at :: "int \<Rightarrow> hub_node \<Rightarrow> reg \<Rightarrow> evidence" where
  "evidence_at now x r = (case getLatestReport (hn_id x) r of None \<Rightarrow> no_evidence | Some row \<Rightarrow> report_evidence now x row)"

lemma getLatestReport_cong: "reports r' = reports r \<Longrightarrow> getLatestReport n r' = getLatestReport n r"
  by (simp add: getLatestReport_def)

lemma evidence_at_cong: "reports r' = reports r \<Longrightarrow> evidence_at now x r' = evidence_at now x r"
  unfolding evidence_at_def by (simp add: getLatestReport_cong [of r' r])

lemma set_claim_simps [simp]:
  "hn_id (set_claim ev x) = hn_id x" "hn_state (set_claim ev x) = hn_state x" "hn_identity (set_claim ev x) = hn_identity x"
  "claimed (set_claim ev x) = ev" "hn_contact (set_claim ev x) = hn_contact x" "hn_lastHeartbeatAt (set_claim ev x) = hn_lastHeartbeatAt x"
  "hn_alertFlags (set_claim ev x) = hn_alertFlags x"
proof -
  obtain a b c d where ev: "ev = (a, b, c, d)" by (cases ev rule: prod_cases4)
  show "hn_id (set_claim ev x) = hn_id x" "hn_state (set_claim ev x) = hn_state x" "hn_identity (set_claim ev x) = hn_identity x"
    "claimed (set_claim ev x) = ev" "hn_contact (set_claim ev x) = hn_contact x" "hn_lastHeartbeatAt (set_claim ev x) = hn_lastHeartbeatAt x"
    "hn_alertFlags (set_claim ev x) = hn_alertFlags x"
    unfolding ev set_claim_def prod.case by (simp_all add: claimed_def)
qed

lemma reconcile_node_eq:
  "reconcile_node now x r = (if claimed x = evidence_at now x r then r
     else persistReconciledState now x (evidence_at now x r)
       (case getLatestReport (hn_id x) r of None \<Rightarrow> [(''reason'', ''no-report'')]
        | Some row \<Rightarrow> [(''stale'', if fst (snd (report_evidence now x row)) then ''1'' else ''0'')]) r)"
  by (simp add: reconcile_node_def evidence_at_def Let_def split: option.split)

lemma persist_effect:
  "reports (persistReconciledState now x ev d r) = reports r"
  "nodes (persistReconciledState now x ev d r) = upd_where (\<lambda>y. hn_id y = hn_id x) (set_claim ev) (nodes r)"
  by (simp_all add: persistReconciledState_def Let_def split: prod.split)

lemma reconcile_node_effect:
  "reports (reconcile_node now x r) = reports r"
  "nodes (reconcile_node now x r) = upd_where (\<lambda>y. hn_id y = hn_id x)
       (\<lambda>y. if claimed x = evidence_at now x r then y else set_claim (evidence_at now x r) y) (nodes r)"
  by (simp_all add: reconcile_node_eq persist_effect upd_ident)

lemma reconcile_nodes:
  assumes "distinct (map hn_id (nodes r))"
  shows "reports (reconcileNodeCapabilities now r) = reports r"
    and "nodes (reconcileNodeCapabilities now r)
       = map (\<lambda>y. if hn_state y = ''active'' then (if claimed y = evidence_at now y r then y else set_claim (evidence_at now y r) y) else y) (nodes r)"
proof -
  define F where "F = (\<lambda>x y. if claimed x = evidence_at now x r then y else set_claim (evidence_at now x r) y)"
  have step: "reports s = reports r \<Longrightarrow> reports (reconcile_node now x s) = reports r
      \<and> nodes (reconcile_node now x s) = upd_where (\<lambda>y. hn_id y = hn_id x) (F x) (nodes s)" for x s
    by (simp add: reconcile_node_effect F_def evidence_at_cong [of s r now x] cong: if_cong)
  have id: "hn_id (F x y) = hn_id y" for x y by (simp add: F_def)
  note f = fold_snapshot [of "\<lambda>s. reports s = reports r" "reconcile_node now" F r "\<lambda>x. hn_state x = ''active''", OF step id refl assms]
  show "reports (reconcileNodeCapabilities now r) = reports r"
    using f(1) by (simp add: reconcileNodeCapabilities_def)
  show "nodes (reconcileNodeCapabilities now r)
       = map (\<lambda>y. if hn_state y = ''active'' then (if claimed y = evidence_at now y r then y else set_claim (evidence_at now y r) y) else y) (nodes r)"
    using f(2) by (simp add: reconcileNodeCapabilities_def F_def cong: map_cong)
qed

definition aged :: "int \<Rightarrow> reg \<Rightarrow> hub_node \<Rightarrow> hub_node \<Rightarrow> hub_node" where
  "aged now r x y = (case getLatestReport (hn_id x) r of
     None \<Rightarrow> if claimed x = no_evidence then y else set_claim no_evidence y
   | Some row \<Rightarrow> if now - ro_uploadedAt row > REPORT_STALENESS_MS then stale_claim y else y)"

lemma aged_simps [simp]:
  "hn_id (aged now r x y) = hn_id y" "hn_state (aged now r x y) = hn_state y" "hn_identity (aged now r x y) = hn_identity y"
  "hn_contact (aged now r x y) = hn_contact y" "hn_lastHeartbeatAt (aged now r x y) = hn_lastHeartbeatAt y"
  by (simp_all add: aged_def stale_claim_def split: option.splits)

lemma age_evidence_effect:
  "reports (age_evidence now x r) = reports r"
  "nodes (age_evidence now x r) = upd_where (\<lambda>y. hn_id y = hn_id x) (aged now r x) (nodes r)"
  by (cases "getLatestReport (hn_id x) r"; simp add: age_evidence_def aged_def [abs_def] Let_def upd_ident)+

lemma age_nodes:
  assumes "distinct (map hn_id (nodes r))"
  shows "reports (age_all_evidence now r) = reports r"
    and "nodes (age_all_evidence now r) = map (\<lambda>y. if hn_state y = ''active'' then aged now r y y else y) (nodes r)"
proof -
  have step: "reports s = reports r \<Longrightarrow> reports (age_evidence now x s) = reports r
      \<and> nodes (age_evidence now x s) = upd_where (\<lambda>y. hn_id y = hn_id x) (aged now r x) (nodes s)" for x s
  proof -
    assume h: "reports s = reports r"
    have "aged now s x = aged now r x"
      unfolding aged_def getLatestReport_cong [OF h] by (rule refl)
    then show ?thesis by (simp add: age_evidence_effect h)
  qed
  note f = fold_snapshot [of "\<lambda>s. reports s = reports r" "age_evidence now" "aged now r" r "\<lambda>x. hn_state x = ''active''",
    OF step aged_simps(1) refl assms]
  show "reports (age_all_evidence now r) = reports r" using f(1) by (simp add: age_all_evidence_def)
  show "nodes (age_all_evidence now r) = map (\<lambda>y. if hn_state y = ''active'' then aged now r y y else y) (nodes r)"
    using f(2) by (simp add: age_all_evidence_def cong: map_cong)
qed

lemma map_upd_id: "(\<And>x. g (f x) = g x) \<Longrightarrow> map g (upd_where P f xs) = map g xs"
  by (induction xs) simp_all

lemma upd_cong: "(\<And>x. x \<in> set xs \<Longrightarrow> P x \<Longrightarrow> f x = g x) \<Longrightarrow> upd_where P f xs = upd_where P g xs"
  by (induction xs) auto

definition add_flag :: "str \<Rightarrow> hub_node \<Rightarrow> hub_node" where
  "add_flag flag x = (if flag \<in> set (hn_alertFlags x) then x else x\<lparr>hn_alertFlags := hn_alertFlags x @ [flag]\<rparr>)"

lemma getNodeRow_mem:
  assumes "distinct (map hn_id (nodes r))" and "y \<in> set (nodes r)"
  shows "getNodeRow (hn_id y) r = Some y"
  using find_filter_id [OF assms, of "\<lambda>_. True"] by (simp add: getNodeRow_def)

lemma setAlertFlag_nodes:
  assumes "distinct (map hn_id (nodes r))"
  shows "nodes (setAlertFlag n flag r) = upd_where (\<lambda>y. hn_id y = n) (add_flag flag) (nodes r)"
    and "cadenceSeconds (setAlertFlag n flag r) = cadenceSeconds r"
proof -
  have same: "hn_alertFlags y = getAlertFlags n r" if "y \<in> set (nodes r)" "hn_id y = n" for y
    using getNodeRow_mem [OF assms that(1)] that(2) by (simp add: getAlertFlags_def)
  show "nodes (setAlertFlag n flag r) = upd_where (\<lambda>y. hn_id y = n) (add_flag flag) (nodes r)"
  proof (cases "flag \<in> set (getAlertFlags n r)")
    case True
    then have "upd_where (\<lambda>y. hn_id y = n) (add_flag flag) (nodes r) = upd_where (\<lambda>y. hn_id y = n) (\<lambda>y. y) (nodes r)"
      by (intro upd_cong) (simp add: add_flag_def same)
    with True show ?thesis by (simp add: setAlertFlag_def upd_ident)
  next
    case False
    then have "upd_where (\<lambda>y. hn_id y = n) (add_flag flag) (nodes r)
        = upd_where (\<lambda>y. hn_id y = n) (\<lambda>y. y\<lparr>hn_alertFlags := getAlertFlags n r @ [flag]\<rparr>) (nodes r)"
      by (intro upd_cong) (simp add: add_flag_def same)
    with False show ?thesis by (simp add: setAlertFlag_def Let_def)
  qed
  show "cadenceSeconds (setAlertFlag n flag r) = cadenceSeconds r" by (simp add: setAlertFlag_def Let_def)
qed

definition contact_aged :: "(hub_node \<Rightarrow> int) \<Rightarrow> int \<Rightarrow> hub_node \<Rightarrow> str option" where
  "contact_aged contactNow cadence x = (case hn_lastHeartbeatAt x of None \<Rightarrow> None
     | Some beat \<Rightarrow> contact_target (contactNow x - beat) cadence x)"

definition contacted :: "(hub_node \<Rightarrow> int) \<Rightarrow> int \<Rightarrow> hub_node \<Rightarrow> hub_node \<Rightarrow> hub_node" where
  "contacted contactNow cadence x y = (case contact_aged contactNow cadence x of None \<Rightarrow> y
     | Some c \<Rightarrow> (if c = ''lost'' then add_flag ''contact-lost'' (y\<lparr>hn_contact := c\<rparr>) else y\<lparr>hn_contact := c\<rparr>))"

lemma contacted_simps [simp]:
  "hn_id (contacted cN c x y) = hn_id y" "hn_state (contacted cN c x y) = hn_state y"
  "hn_identity (contacted cN c x y) = hn_identity y" "claimed (contacted cN c x y) = claimed y"
  "hn_contact (contacted cN c x y) = (case contact_aged cN c x of None \<Rightarrow> hn_contact y | Some t \<Rightarrow> t)"
  by (simp_all add: contacted_def add_flag_def claimed_def split: option.splits)

lemma upd_upd: "(\<And>x. P (f x) = P x) \<Longrightarrow> upd_where P g (upd_where P f xs) = upd_where P (\<lambda>x. g (f x)) xs"
  by (induction xs) simp_all

lemma age_contact_effect:
  assumes "distinct (map hn_id (nodes r))"
  shows "nodes (age_contact now cN x r) = upd_where (\<lambda>y. hn_id y = hn_id x) (contacted cN (cadenceSeconds r) x) (nodes r)"
    and "cadenceSeconds (age_contact now cN x r) = cadenceSeconds r"
proof -
  let ?f = "\<lambda>t y. y\<lparr>hn_contact := t :: str\<rparr>"
  have d: "distinct (map hn_id (nodes (set_node (hn_id x) (?f t) (transitionDimension now (hn_id x) a b c d r))))" for t a b c d
    using assms by (simp add: map_upd_id)
  show "nodes (age_contact now cN x r) = upd_where (\<lambda>y. hn_id y = hn_id x) (contacted cN (cadenceSeconds r) x) (nodes r)"
    by (cases "hn_lastHeartbeatAt x"; cases "contact_target (cN x - the (hn_lastHeartbeatAt x)) (cadenceSeconds r) x")
      (simp_all add: age_contact_def contacted_def [abs_def] contact_aged_def upd_ident Let_def setAlertFlag_nodes [OF d] upd_upd)
  show "cadenceSeconds (age_contact now cN x r) = cadenceSeconds r"
    by (cases "hn_lastHeartbeatAt x"; cases "contact_target (cN x - the (hn_lastHeartbeatAt x)) (cadenceSeconds r) x")
      (simp_all add: age_contact_def Let_def setAlertFlag_nodes [OF d])
qed

lemma age_contact_reports: "reports (age_contact now cN x r) = reports r"
  by (simp add: age_contact_def Let_def setAlertFlag_def split: option.split)

lemma age_contacts_nodes:
  assumes "distinct (map hn_id (nodes r))"
  shows "nodes (age_contacts now cN r) = map (\<lambda>y. if hn_state y = ''active'' then contacted cN (cadenceSeconds r) y y else y) (nodes r)"
    and "reports (age_contacts now cN r) = reports r"
proof -
  let ?I = "\<lambda>s. distinct (map hn_id (nodes s)) \<and> cadenceSeconds s = cadenceSeconds r \<and> reports s = reports r"
  have step: "?I s \<Longrightarrow> ?I (age_contact now cN x s) \<and> nodes (age_contact now cN x s)
      = upd_where (\<lambda>y. hn_id y = hn_id x) (contacted cN (cadenceSeconds r) x) (nodes s)" for x s
    by (simp add: age_contact_effect age_contact_reports map_upd_id)
  have I: "?I r" using assms by simp
  note f = fold_snapshot [of ?I "age_contact now cN" "contacted cN (cadenceSeconds r)" r
    "\<lambda>x. hn_state x = ''active'' \<and> hn_lastHeartbeatAt x \<noteq> None", OF step contacted_simps(1) I assms]
  have "(if hn_state y = ''active'' \<and> hn_lastHeartbeatAt y \<noteq> None then contacted cN c y y else y)
      = (if hn_state y = ''active'' then contacted cN c y y else y)" for y c
    by (simp add: contacted_def contact_aged_def)
  with f(2) show "nodes (age_contacts now cN r)
      = map (\<lambda>y. if hn_state y = ''active'' then contacted cN (cadenceSeconds r) y y else y) (nodes r)"
    by (simp only: age_contacts_def)
  show "reports (age_contacts now cN r) = reports r" using f(1) by (simp add: age_contacts_def)
qed

lemma fold_frame:
  assumes "\<And>x r. g (step x r) = g r"
  shows "g (fold step xs r) = g r"
  by (induction xs arbitrary: r) (simp_all add: assms)

lemma revoke_rotated_nodes:
  "nodes (snd (revoke_rotated now r)) = nodes r" "reports (snd (revoke_rotated now r)) = reports r"
  "cadenceSeconds (snd (revoke_rotated now r)) = cadenceSeconds r"
  by (simp_all add: revoke_rotated_def Let_def revoke_node_key_def fold_frame [of nodes] fold_frame [of reports] fold_frame [of cadenceSeconds])

lemma expire_hub_keys_nodes:
  "nodes (expire_hub_keys now r) = nodes r" "reports (expire_hub_keys now r) = reports r"
  "cadenceSeconds (expire_hub_keys now r) = cadenceSeconds r"
  by (simp_all add: expire_hub_keys_def expire_hub_key_def set_hub_key_def fold_frame [of nodes] fold_frame [of reports] fold_frame [of cadenceSeconds])

lemma audit_expired_nodes:
  "nodes (audit_expired_sessions now r) = nodes r" "reports (audit_expired_sessions now r) = reports r"
  by (simp_all add: audit_expired_sessions_def audit_expired_def set_session_def fold_frame [of nodes] fold_frame [of reports])

lemma fold_cadence:
  "cadenceSeconds (age_all_evidence now r) = cadenceSeconds r" "cadenceSeconds (reconcileNodeCapabilities now r) = cadenceSeconds r"
proof -
  have "cadenceSeconds (age_evidence now x s) = cadenceSeconds s" for x s
    by (cases "getLatestReport (hn_id x) s") (simp_all add: age_evidence_def Let_def)
  then show "cadenceSeconds (age_all_evidence now r) = cadenceSeconds r"
    unfolding age_all_evidence_def by (rule fold_frame)
  have "cadenceSeconds (reconcile_node now x s) = cadenceSeconds s" for x s
    by (simp add: reconcile_node_eq persistReconciledState_def Let_def split: prod.split)
  then show "cadenceSeconds (reconcileNodeCapabilities now r) = cadenceSeconds r"
    unfolding reconcileNodeCapabilities_def by (rule fold_frame)
qed

text \<open>The row of a node after a tick.\<close>

definition ticked :: "int \<Rightarrow> (hub_node \<Rightarrow> int) \<Rightarrow> int \<Rightarrow> reg \<Rightarrow> hub_node \<Rightarrow> hub_node" where
  "ticked now cN cadence r x = (if hn_state x \<noteq> ''active'' then x
     else let y = aged now r x x; z = (if claimed y = evidence_at now y r then y else set_claim (evidence_at now y r) y) in
       contacted cN cadence z z)"

lemma ticked_simps [simp]:
  "hn_id (ticked now cN c r x) = hn_id x" "hn_state (ticked now cN c r x) = hn_state x"
  "hn_identity (ticked now cN c r x) = hn_identity x"
  by (simp_all add: ticked_def Let_def)

lemma maintenance_nodes:
  assumes "distinct (map hn_id (nodes r))"
  shows "nodes (snd (maintenance now cN r)) = map (ticked now cN (cadenceSeconds r) (snd (maintenance now cN r))) (nodes r)"
    and "reports (snd (maintenance now cN r)) = filter (\<lambda>p. ro_uploadedAt p > now - REPORT_RETENTION_MS) (reports r)"
proof -
  define r2 where "r2 = purge_tables now (expire_hub_keys now (snd (revoke_rotated now r)))"
  define a where "a = age_all_evidence now r2"
  define b where "b = reconcileNodeCapabilities now a"
  define c where "c = retain_history now b"
  define d where "d = age_contacts now cN c"
  have m: "snd (maintenance now cN r) = audit_expired_sessions now d"
    by (simp add: maintenance_def r2_def a_def b_def c_def d_def Let_def split: prod.split)
  have r2: "nodes r2 = nodes r" "cadenceSeconds r2 = cadenceSeconds r"
    "reports r2 = filter (\<lambda>p. ro_uploadedAt p > now - REPORT_RETENTION_MS) (reports r)"
    by (simp_all add: r2_def purge_tables_def expire_hub_keys_nodes revoke_rotated_nodes)
  have d2: "distinct (map hn_id (nodes r2))" using assms r2 by simp
  note A = age_nodes [OF d2, of now, folded a_def]
  have "map hn_id (nodes a) = map hn_id (nodes r2)" unfolding A(2) map_map by (intro map_cong refl) simp
  with d2 have da: "distinct (map hn_id (nodes a))" by simp
  note B = reconcile_nodes [OF da, of now, folded b_def]
  have "map hn_id (nodes b) = map hn_id (nodes a)" unfolding B(2) map_map by (intro map_cong refl) simp
  with da have db: "distinct (map hn_id (nodes b))" by simp
  have C: "nodes c = nodes b" "reports c = reports b" "cadenceSeconds c = cadenceSeconds b"
    by (simp_all add: c_def retain_history_def)
  have dc: "distinct (map hn_id (nodes c))" using db C by simp
  note D = age_contacts_nodes [OF dc, of now cN, folded d_def]
  have cad: "cadenceSeconds c = cadenceSeconds r" by (simp add: C b_def a_def fold_cadence r2)
  show rep: "reports (snd (maintenance now cN r)) = filter (\<lambda>p. ro_uploadedAt p > now - REPORT_RETENTION_MS) (reports r)"
    by (simp add: m audit_expired_nodes D C B A r2)
  have ra: "reports a = reports (snd (maintenance now cN r))" "reports r2 = reports (snd (maintenance now cN r))"
    using rep by (simp_all add: A r2)
  have ev: "evidence_at now y a = evidence_at now y (snd (maintenance now cN r))" for y
    by (rule evidence_at_cong [OF ra(1)])
  have ag: "aged now r2 = aged now (snd (maintenance now cN r))"
    unfolding aged_def [abs_def] getLatestReport_cong [OF ra(2)] by (rule refl)
  show "nodes (snd (maintenance now cN r)) = map (ticked now cN (cadenceSeconds r) (snd (maintenance now cN r))) (nodes r)"
    unfolding m audit_expired_nodes D(1) C(1) B(2) A(2) r2(1) map_map cad
    unfolding m [symmetric] ev ag
    by (intro map_cong refl) (simp add: ticked_def Let_def)
qed

section \<open>What a rollup does\<close>

definition raw_group :: "rollup_group \<Rightarrow> bool" where
  "raw_group g \<longleftrightarrow> snd (snd g) \<noteq> ''rollup''"

lemma summary_exists_filter:
  "raw_group g \<Longrightarrow> summary_exists h (filter (\<lambda>e. group_of e \<noteq> g) es) = summary_exists h es"
  by (induction es) (auto simp: summary_exists_def raw_group_def group_of_def split: prod.splits)

lemma summary_exists_append: "summary_exists h (xs @ ys) = (summary_exists h xs \<or> summary_exists h ys)"
  by (auto simp: summary_exists_def split: prod.splits)

lemma summary_exists_row: "summary_exists h [summary_row g c f] \<longleftrightarrow> h = g"
  by (cases g; cases h) (auto simp: summary_exists_def summary_row_def DAY_MS_def)

lemma group_of_summary: "raw_group h \<Longrightarrow> group_of (summary_row g c f) \<noteq> h"
  by (cases g) (auto simp: summary_row_def group_of_def raw_group_def)

definition summaries :: "(rollup_group \<times> nat \<times> str) list \<Rightarrow> event_row list" where
  "summaries gs = map (\<lambda>(g, c, f). summary_row g c f) gs"

definition missing_groups :: "event_row list \<Rightarrow> (rollup_group \<times> nat \<times> str) list \<Rightarrow> (rollup_group \<times> nat \<times> str) list" where
  "missing_groups es gs = filter (\<lambda>gcf. \<not> summary_exists (fst gcf) es) gs"

lemma fold_roll_group:
  assumes "distinct (map fst gs)" and "\<forall>g \<in> fst ` set gs. raw_group g"
  shows "fold roll_group gs es = filter (\<lambda>e. group_of e \<notin> fst ` set (missing_groups es gs)) es @ summaries (missing_groups es gs)"
  using assms
proof (induction gs arbitrary: es)
  case Nil
  then show ?case by (simp add: missing_groups_def summaries_def)
next
  case (Cons x gs)
  obtain g c f where x: "x = (g, c, f)" by (cases x rule: prod_cases3)
  have rest: "distinct (map fst gs)" "\<forall>g \<in> fst ` set gs. raw_group g" "raw_group g" "g \<notin> fst ` set gs"
    using Cons.prems x by auto
  show ?case
  proof (cases "summary_exists g es")
    case True
    then show ?thesis
      using Cons.IH [OF rest(1,2), of es] by (simp add: x roll_group_def missing_groups_def)
  next
    case False
    let ?es = "filter (\<lambda>e. group_of e \<noteq> g) es @ [summary_row g c f]"
    have m: "missing_groups ?es gs = missing_groups es gs"
      unfolding missing_groups_def summary_exists_append summary_exists_filter [OF rest(3)] summary_exists_row
      by (rule filter_cong) (use rest(4) in auto)
    have raw: "\<forall>h \<in> fst ` set (missing_groups es gs). raw_group h"
      using rest(2) by (auto simp: missing_groups_def)
    have new: "group_of (summary_row g c f) \<notin> fst ` set (missing_groups es gs)"
      using raw group_of_summary by blast
    have r1: "roll_group x es = ?es" using False by (simp add: x roll_group_def)
    have "fold roll_group (x # gs) es
        = filter (\<lambda>e. group_of e \<notin> fst ` set (missing_groups es gs)) ?es @ summaries (missing_groups es gs)"
      using Cons.IH [OF rest(1,2), of ?es] unfolding m by (simp only: fold_Cons o_apply r1)
    also have "\<dots> = filter (\<lambda>e. group_of e \<notin> insert g (fst ` set (missing_groups es gs))) es
        @ summary_row g c f # summaries (missing_groups es gs)"
      using new by (simp add: conj_commute)
    finally show ?thesis using False by (simp add: x missing_groups_def summaries_def)
  qed
qed

lemma fst_rollup_groups: "map fst (rollup_groups cutoff es) = remdups (map group_of (filter (rolls_up cutoff) es))"
  by (simp add: rollup_groups_def o_def)

lemma rollup_groups_raw: "\<forall>g \<in> fst ` set (rollup_groups cutoff es). raw_group g"
proof -
  have "fst ` set (rollup_groups cutoff es) = set (map group_of (filter (rolls_up cutoff) es))"
    by (metis fst_rollup_groups list.set_map set_remdups)
  then show ?thesis by (auto simp: raw_group_def rolls_up_def group_of_def)
qed

lemma roll_events_eq:
  "roll_events cutoff es = filter (\<lambda>e. group_of e \<notin> fst ` set (missing_groups es (rollup_groups cutoff es))) es
     @ summaries (missing_groups es (rollup_groups cutoff es))"
  unfolding roll_events_def by (rule fold_roll_group [OF _ rollup_groups_raw]) (simp add: fst_rollup_groups)

lemma roll_stays:
  assumes "e \<in> set (roll_events cutoff es)" and "rolls_up cutoff e"
  shows "e \<in> set es \<and> summary_exists (group_of e) es"
proof -
  have "ev_dimension e \<noteq> ''rollup''" using assms(2) by (simp add: rolls_up_def)
  then have "e \<notin> set (summaries gs)" for gs
    by (auto simp: summaries_def summary_row_def)
  with assms(1) have e: "e \<in> set es" and g: "group_of e \<notin> fst ` set (missing_groups es (rollup_groups cutoff es))"
    unfolding roll_events_eq by auto
  have "group_of e \<in> fst ` set (rollup_groups cutoff es)"
    using e assms(2) by (metis (no_types, lifting) fst_rollup_groups image_eqI list.set_map mem_Collect_eq set_filter set_remdups)
  with g e show ?thesis by (force simp: missing_groups_def)
qed

lemma summary_stays: "summary_exists g es \<Longrightarrow> summary_exists g (roll_events cutoff es)"
proof -
  assume "summary_exists g es"
  moreover have "summary_exists g (fold roll_group gs es)" if "\<forall>h \<in> fst ` set gs. raw_group h" "summary_exists g es" for gs es
    using that
  proof (induction gs arbitrary: es)
    case (Cons x gs)
    obtain h c f where x: "x = (h, c, f)" by (cases x rule: prod_cases3)
    have "raw_group h" using Cons.prems(1) x by simp
    with Cons.prems have "summary_exists g (roll_group x es)"
      by (simp add: x roll_group_def summary_exists_append summary_exists_filter)
    with Cons show ?case by simp
  qed simp
  ultimately show ?thesis unfolding roll_events_def using rollup_groups_raw by blast
qed

lemma roll_events_idem: "roll_events cutoff (roll_events cutoff es) = roll_events cutoff es"
proof -
  let ?es = "roll_events cutoff es"
  have "summary_exists g ?es" if "g \<in> fst ` set (rollup_groups cutoff ?es)" for g
  proof -
    have "g \<in> set (map group_of (filter (rolls_up cutoff) ?es))"
      using that by (metis fst_rollup_groups list.set_map set_remdups)
    then obtain e where "e \<in> set ?es" "rolls_up cutoff e" "g = group_of e" by auto
    with roll_stays show ?thesis by (metis summary_stays)
  qed
  then have "missing_groups ?es (rollup_groups cutoff ?es) = []"
    unfolding missing_groups_def by (simp add: filter_empty_conv)
  then show ?thesis by (subst roll_events_eq) (simp add: summaries_def)
qed

lemma web_routes_derived:
  "''web.routes'' \<in> set (deriveCapabilities rp) \<longleftrightarrow> cr_dshVersion rp = ''0.1.1-rc.2''
     \<and> list_all (\<lambda>c. check_status_of rp c = Some ''pass'') [''runtimeReadiness'', ''webPluginRoutes'', ''webSocketTransport'']"
  by (simp add: deriveCapabilities_def CAPABILITY_EVIDENCE_def isDshVersionSupported_def compatibilityProfiles_def)

section \<open>Properties\<close>

text \<open>
  C27. After a maintenance tick the claims of every active node are those of its latest retained report. The
  capabilities are the ones derived from it, web routes exactly when the three checks of web routing passed for a
  supported harness version. They count, with the compatibility and the health of the report, if the report is at
  most seven days old and its four identity fields are those of the node (or the node has reported no identity yet);
  otherwise they are withheld as stale, with unknown health. Without a report the node claims nothing.
  So withholding is a matter of the evidence at the tick: contrary to the comment at \<open>withholdCapabilities\<close>, a claim
  withheld because the identity drifted counts again once the identity returns (\<open>withholding_lifted_by_tick\<close>).
\<close>

theorem maintained_claims_have_evidence:
  assumes "distinct (map hn_id (nodes r))" and "x \<in> set (nodes (snd (maintenance now contactNow r)))"
    and "hn_state x = ''active''"
  shows "case getLatestReport (hn_id x) (snd (maintenance now contactNow r)) of
      None \<Rightarrow> hn_capabilities x = [] \<and> hn_capabilitiesStale x \<and> hn_orbitCompatible x = ''unknown'' \<and> hn_dshHealthy x = ''unknown''
    | Some row \<Rightarrow>
        let rp = ro_report row; own = hn_identity x in
        hn_capabilities x = deriveCapabilities rp
        \<and> (''web.routes'' \<in> set (hn_capabilities x) \<longleftrightarrow> cr_dshVersion rp = ''0.1.1-rc.2''
             \<and> list_all (\<lambda>c. check_status_of rp c = Some ''pass'') [''runtimeReadiness'', ''webPluginRoutes'', ''webSocketTransport''])
        \<and> (if now - ro_uploadedAt row \<le> 7 * 24 * 60 * 60 * 1000
              \<and> (id_orbitVersion own = [] \<and> id_dshVersion own = []
                 \<or> cr_orbitVersion rp = id_orbitVersion own \<and> cr_orbitRevision rp = id_orbitRevision own
                    \<and> cr_dshVersion rp = id_dshVersion own \<and> cr_profile rp = id_profile own)
            then \<not> hn_capabilitiesStale x \<and> hn_orbitCompatible x = deriveOrbitCompatible rp \<and> hn_dshHealthy x = deriveDshHealthy rp
            else hn_capabilitiesStale x \<and> hn_orbitCompatible x = ''stale'' \<and> hn_dshHealthy x = ''unknown'')"
proof -
  let ?r' = "snd (maintenance now contactNow r)"
  obtain y where y: "x = ticked now contactNow (cadenceSeconds r) ?r' y"
    using assms(2) unfolding maintenance_nodes(1) [OF assms(1)] by auto
  define z where "z = aged now ?r' y y"
  define w where "w = (if claimed z = evidence_at now z ?r' then z else set_claim (evidence_at now z ?r') z)"
  have act: "hn_state y = ''active''" using assms(3) y by (auto simp: ticked_def split: if_splits)
  have x: "x = contacted contactNow (cadenceSeconds r) w w"
    using act by (simp add: y ticked_def z_def w_def Let_def)
  have w: "claimed w = evidence_at now z ?r'" "hn_id w = hn_id z" "hn_identity w = hn_identity z"
    by (simp_all add: w_def)
  have id: "hn_id x = hn_id z" "hn_identity x = hn_identity z" by (simp_all add: x w)
  have "claimed x = evidence_at now z ?r'" by (simp add: x w)
  moreover have "report_evidence now x = report_evidence now z" by (intro ext) (simp add: report_evidence_def id)
  ultimately have c: "claimed x = (case getLatestReport (hn_id x) ?r' of None \<Rightarrow> no_evidence | Some row \<Rightarrow> report_evidence now x row)"
    by (simp add: evidence_at_def id cong: option.case_cong)
  show ?thesis
  proof (cases "getLatestReport (hn_id x) ?r'")
    case None
    then show ?thesis using c by (simp add: claimed_def no_evidence_def)
  next
    case (Some row)
    let ?rp = "ro_report row"
    have e: "claimed x = report_evidence now x row" using c by (simp add: Some)
    then have caps: "hn_capabilities x = deriveCapabilities ?rp" by (simp add: claimed_def report_evidence_def Let_def)
    show ?thesis
      unfolding Some option.case Let_def
      by (intro conjI) (rule caps, unfold caps, rule web_routes_derived, use e in \<open>auto simp: claimed_def report_evidence_def
          Let_def identityMatches_def reportIdentity_def REPORT_STALENESS_MS_def split: if_splits\<close>)
  qed
qed

text \<open>
  A tick never makes contact healthier: an active node with a heartbeat on record becomes lost after more
  than a day, stale after more than three missed beats if it was fresh, and keeps its contact otherwise;
  every other node keeps it, and the rows stay in place.
\<close>

theorem maintenance_contact_exact:
  assumes "distinct (map hn_id (nodes r))"
  shows "map (\<lambda>x. (hn_id x, hn_state x, hn_contact x)) (nodes (snd (maintenance now (\<lambda>_. t) r)))
    = map (\<lambda>x. (hn_id x, hn_state x,
        case hn_lastHeartbeatAt x of None \<Rightarrow> hn_contact x
        | Some beat \<Rightarrow>
            if hn_state x \<noteq> ''active'' then hn_contact x
            else if t - beat > HEARTBEAT_LOST_MS then ''lost''
            else if t - beat > HEARTBEAT_MISSED_BEATS_STALE * cadenceSeconds r * 1000 \<and> hn_contact x = ''fresh'' then ''stale''
            else hn_contact x)) (nodes r)"
  unfolding maintenance_nodes(1) [OF assms] map_map o_def
proof (intro map_cong refl)
  fix x
  let ?r' = "snd (maintenance now (\<lambda>_. t) r)"
  define z where "z = aged now ?r' x x"
  define w where "w = (if claimed z = evidence_at now z ?r' then z else set_claim (evidence_at now z ?r') z)"
  have k: "hn_id w = hn_id x" "hn_state w = hn_state x" "hn_contact w = hn_contact x" "hn_lastHeartbeatAt w = hn_lastHeartbeatAt x"
    by (simp_all add: w_def z_def)
  have tx: "ticked now (\<lambda>_. t) c ?r' x = (if hn_state x \<noteq> ''active'' then x else contacted (\<lambda>_. t) c w w)" for c
    by (simp add: ticked_def z_def w_def Let_def)
  show "(hn_id (ticked now (\<lambda>_. t) (cadenceSeconds r) ?r' x), hn_state (ticked now (\<lambda>_. t) (cadenceSeconds r) ?r' x),
      hn_contact (ticked now (\<lambda>_. t) (cadenceSeconds r) ?r' x))
    = (hn_id x, hn_state x,
        case hn_lastHeartbeatAt x of None \<Rightarrow> hn_contact x
        | Some beat \<Rightarrow>
            if hn_state x \<noteq> ''active'' then hn_contact x
            else if t - beat > HEARTBEAT_LOST_MS then ''lost''
            else if t - beat > HEARTBEAT_MISSED_BEATS_STALE * cadenceSeconds r * 1000 \<and> hn_contact x = ''fresh'' then ''stale''
            else hn_contact x)"
    unfolding tx by (cases "hn_lastHeartbeatAt x") (simp_all add: k contact_aged_def contact_target_def mult.assoc)
qed

definition ex_report :: compat_report where
  "ex_report = \<lparr>cr_orbitVersion = ''0.4.0'', cr_orbitRevision = None, cr_baseImage = None, cr_baseRevision = None, cr_baseDsh = None,
     cr_dshVersion = ''0.1.1-rc.2'', cr_profile = None,
     cr_checks = map (\<lambda>n. (n, \<lparr>ce_status = ''pass'', ce_required = n \<in> set REQUIRED_CHECKS, ce_detail = []\<rparr>)) KNOWN_CHECKS,
     cr_snapshot = None, cr_snapFailure = None, cr_reasons = [], cr_promotion = NotEvaluated\<rparr>"

definition ex_tick_reg :: reg where
  "ex_tick_reg = (the (new_registry 60 24 7 None))\<lparr>
     nodes := [(new_node ''node_1'' ''direct'' 0)\<lparr>hn_contact := ''fresh'', hn_lastHeartbeatAt := Some 0,
       hn_capabilities := [''terminal.pty''], hn_capabilitiesStale := False\<rparr>],
     reports := [\<lparr>ro_node = ''node_1'', ro_uploadedAt = 1000, ro_report = ex_report\<rparr>]\<rparr>"

theorem maintenance_contact_exact_witness:
  "map (\<lambda>x. (hn_id x, hn_state x, hn_contact x)) (nodes (snd (maintenance 200000 (\<lambda>_. 200000) ex_tick_reg)))
    = [(''node_1'', ''active'', ''stale'')]"
proof -
  have d: "distinct (map hn_id (nodes ex_tick_reg))" and c: "cadenceSeconds ex_tick_reg = 60"
    by (simp_all add: ex_tick_reg_def new_registry_def)
  show ?thesis
    unfolding maintenance_contact_exact [OF d] c
    by (simp add: ex_tick_reg_def new_node_def HEARTBEAT_LOST_MS_def HEARTBEAT_MISSED_BEATS_STALE_def)
qed

theorem maintained_claims_have_evidence_witness:
  "claimed (hd (nodes (snd (maintenance 200000 (\<lambda>_. 200000) ex_tick_reg))))
     = ([''sessions.resume'', ''settings.remote'', ''web.routes''], False, ''pass'', ''ok'')"
proof -
  let ?r' = "snd (maintenance 200000 (\<lambda>_. 200000) ex_tick_reg)"
  have d: "distinct (map hn_id (nodes ex_tick_reg))" by (simp add: ex_tick_reg_def new_registry_def)
  have n: "nodes ?r' = [ticked 200000 (\<lambda>_. 200000) (cadenceSeconds ex_tick_reg) ?r' (hd (nodes ex_tick_reg))]"
    unfolding maintenance_nodes(1) [OF d] by (simp add: ex_tick_reg_def)
  have m: "hd (nodes ?r') \<in> set (nodes ?r')" by (subst (1 2) n) simp
  have st: "hn_state (hd (nodes ?r')) = ''active''" by (subst n) (simp add: ex_tick_reg_def new_node_def)
  have l: "getLatestReport ''node_1'' ?r' = Some \<lparr>ro_node = ''node_1'', ro_uploadedAt = 1000, ro_report = ex_report\<rparr>"
    unfolding getLatestReport_def maintenance_nodes(2) [OF d] by (simp add: ex_tick_reg_def REPORT_RETENTION_MS_def)
  have i: "hn_id (hd (nodes ?r')) = ''node_1''" "hn_identity (hd (nodes ?r')) = no_identity"
    by (subst n, simp add: ex_tick_reg_def new_node_def)+
  have e: "deriveCapabilities ex_report = [''sessions.resume'', ''settings.remote'', ''web.routes'']"
    "deriveOrbitCompatible ex_report = ''pass''" "deriveDshHealthy ex_report = ''ok''"
    by code_simp+
  show ?thesis using maintained_claims_have_evidence [OF d m st] unfolding i l option.case Let_def
    by (simp add: claimed_def e no_identity_def)
qed

text \<open>A node whose report matches its identity, withheld as after a heartbeat with another identity: the tick lifts it.\<close>

lemma withholding_lifted_by_tick:
  "let r = withholdCapabilities 150000 ''node_1'' ''heartbeat''
         (set_node ''node_1'' (\<lambda>x. x\<lparr>hn_identity := reportIdentity ex_report\<rparr>) ex_tick_reg) in
     map hn_capabilitiesStale (nodes r) = [True]
     \<and> map hn_capabilitiesStale (nodes (snd (maintenance 200000 (\<lambda>_. 200000) r))) = [False]"
  by code_simp

text \<open>
  The rollup replaces each complete day of one node and dimension that has no summary yet by one summary
  with the number of its events and the value of the last one, keeps every other event in place, and a second
  run changes nothing.
\<close>

theorem rollup_exact:
  "roll_events cutoff es =
     filter (\<lambda>e. \<not> (list_ex (\<lambda>e'. rolls_up cutoff e' \<and> group_of e' = group_of e) es \<and> \<not> summary_exists (group_of e) es)) es
     @ map (\<lambda>g. summary_row g (length (filter (\<lambda>e. rolls_up cutoff e \<and> group_of e = g) es))
           (ev_to (the (latest_by ev_at (filter (\<lambda>e. group_of e = g) es)))))
         (filter (\<lambda>g. \<not> summary_exists g es) (remdups (map group_of (filter (rolls_up cutoff) es))))
   \<and> roll_events cutoff (roll_events cutoff es) = roll_events cutoff es"
proof -
  let ?gs = "remdups (map group_of (filter (rolls_up cutoff) es))"
  let ?row = "\<lambda>g. (g, length (filter (\<lambda>e. group_of e = g) (filter (rolls_up cutoff) es)),
                case latest_by ev_at (filter (\<lambda>e. group_of e = g) es) of None \<Rightarrow> [] | Some e \<Rightarrow> ev_to e)"
  have m: "missing_groups es (rollup_groups cutoff es) = map ?row (filter (\<lambda>g. \<not> summary_exists g es) ?gs)"
    by (simp add: missing_groups_def rollup_groups_def filter_map o_def)
  have l: "latest_by ev_at xs \<noteq> None" if "xs \<noteq> []" for xs :: "event_row list"
    using that by (cases xs) (auto split: option.splits)
  have ne: "filter (\<lambda>e. group_of e = g) es \<noteq> []" if "g \<in> set ?gs" for g
    using that by (auto simp: filter_empty_conv)
  have s: "summaries (missing_groups es (rollup_groups cutoff es))
      = map (\<lambda>g. summary_row g (length (filter (\<lambda>e. rolls_up cutoff e \<and> group_of e = g) es))
           (ev_to (the (latest_by ev_at (filter (\<lambda>e. group_of e = g) es))))) (filter (\<lambda>g. \<not> summary_exists g es) ?gs)"
    unfolding m summaries_def map_map o_def prod.case
  proof (rule map_cong [OF refl])
    fix g assume "g \<in> set (filter (\<lambda>g. \<not> summary_exists g es) ?gs)"
    then have "latest_by ev_at (filter (\<lambda>e. group_of e = g) es) \<noteq> None" using l ne by simp
    then show "summary_row g (length (filter (\<lambda>e. group_of e = g) (filter (rolls_up cutoff) es)))
        (case latest_by ev_at (filter (\<lambda>e. group_of e = g) es) of None \<Rightarrow> [] | Some e \<Rightarrow> ev_to e)
      = summary_row g (length (filter (\<lambda>e. rolls_up cutoff e \<and> group_of e = g) es))
        (ev_to (the (latest_by ev_at (filter (\<lambda>e. group_of e = g) es))))"
      by (auto simp: conj_commute)
  qed
  have f: "fst ` set (missing_groups es (rollup_groups cutoff es)) = set (filter (\<lambda>g. \<not> summary_exists g es) ?gs)"
    unfolding m by force
  have "group_of e \<notin> set (filter (\<lambda>g. \<not> summary_exists g es) ?gs) \<longleftrightarrow>
      \<not> (list_ex (\<lambda>e'. rolls_up cutoff e' \<and> group_of e' = group_of e) es \<and> \<not> summary_exists (group_of e) es)" for e
    by (auto simp: list_ex_iff) (metis (mono_tags, lifting) image_eqI mem_Collect_eq)
  then show ?thesis
    using roll_events_idem by (subst roll_events_eq) (simp only: f s)
qed

end
