(* ===== verification/Registry.thy ===== *)
theory Registry
  imports Maintenance ReplayGuard
begin

text \<open>
  The registry as one machine: every operation of \<^verbatim>\<open>src/registry/registry.mjs\<close> that changes state as one
  datatype with one execution function, an abstract view of the tables that authentication rests on, and an
  inductive relation on views that every operation follows. The properties that hold whatever operations
  run in between are proved on the relation.
\<close>

section \<open>Operations\<close>

record platform =
  p_ext :: externals
  p_iso :: "int \<Rightarrow> str"
  p_num :: "rat \<Rightarrow> str"
  p_url :: "str \<Rightarrow> web_url option"
  p_sign :: ed_sign
  p_domain :: str

datatype reg_op =
    MintToken "str \<times> str" str str "str option" int
  | Enroll str jsval jsval jsval str
  | PairNode str "str \<times> str" jsval jsval jsval str
  | Reenroll "str \<times> str" jsval jsval jsval signed_request str
  | Heartbeat "str \<times> str" signed_request "jsval option"
  | UploadReport signed_request "jsval option"
  | RotateCredential signed_request "jsval option"
  | DeleteNode str jsval jsval jsval
  | SetRouteTarget str str jsval
  | RemoveRouteTarget str str
  | SetRouteMode str str str
  | RotateHubKey str str "str \<times> str"
  | ProbeBegin str str
  | ProbeFinish str probe_reply "str \<times> str"
  | BootstrapSession "str \<times> str" str
  | ValidateSession "str option"
  | EndSession str str
  | Maintain "hub_node \<Rightarrow> int"

fun reg_exec :: "platform \<Rightarrow> int \<Rightarrow> reg_op \<Rightarrow> reg \<Rightarrow> reg" where
  "reg_exec P t (MintToken rnd actor purpose bound ttl) r = snd (mintEnrollmentToken (p_ext P) t rnd actor purpose bound ttl r)"
| "reg_exec P t (Enroll hex tok req pk actor) r = snd (enroll (p_ext P) t hex tok req pk actor r)"
| "reg_exec P t (PairNode hex kp tok req pk actor) r = snd (pair_node (p_ext P) t hex kp tok req pk actor r)"
| "reg_exec P t (Reenroll kp tok req pk q actor) r = snd (reenroll (p_ext P) t kp tok req pk q actor r)"
| "reg_exec P t (Heartbeat kp q body) r = snd (heartbeat (p_ext P) (p_iso P) t kp q body r)"
| "reg_exec P t (UploadReport q body) r = snd (uploadReport (p_ext P) (p_num P) t q body r)"
| "reg_exec P t (RotateCredential q body) r = snd (rotateCredential (p_ext P) t q body r)"
| "reg_exec P t (DeleteNode actor n req why) r = snd (deleteNode t actor n req why r)"
| "reg_exec P t (SetRouteTarget actor n target) r = snd (setRouteTarget (p_url P) t actor n target r)"
| "reg_exec P t (RemoveRouteTarget actor n) r = snd (removeRouteTarget t actor n r)"
| "reg_exec P t (SetRouteMode actor n mode) r = snd (setRouteMode t actor n mode r)"
| "reg_exec P t (RotateHubKey actor n kp) r = snd (rotateHubRouteKey (x_sha (p_ext P)) t actor n kp r)"
| "reg_exec P t (ProbeBegin nonce n) r = snd (probe_begin (p_sign P) (p_domain P) t nonce n r)"
| "reg_exec P t (ProbeFinish n reply ctx) r = snd (probe_finish t n reply ctx r)"
| "reg_exec P t (BootstrapSession rnd who) r = snd (bootstrapSession t rnd who r)"
| "reg_exec P t (ValidateSession sid) r = snd (validateSession t sid r)"
| "reg_exec P t (EndSession sid actor) r = snd (endSession t sid actor r)"
| "reg_exec P t (Maintain contactNow) r = snd (maintenance t contactNow r)"

text \<open>Operations with the times they run at.\<close>

fun reg_run :: "platform \<Rightarrow> (int \<times> reg_op) list \<Rightarrow> reg \<Rightarrow> reg" where
  "reg_run P [] r = r"
| "reg_run P ((t, op) # ops) r = reg_run P ops (reg_exec P t op r)"

section \<open>The view of authentication\<close>

record auth_view =
  av_tokens :: "token_row list"
  av_grants :: "result_row list"
  av_states :: "(str \<times> str) list"
  av_keys :: "node_key list"
  av_nonces :: "(str \<times> str, int) omap"

definition view :: "reg \<Rightarrow> auth_view" where
  "view r = \<lparr>av_tokens = tokens r, av_grants = grants r, av_states = map (\<lambda>x. (hn_id x, hn_state x)) (nodes r),
     av_keys = node_keys r, av_nonces = seen_nonces r\<rparr>"

definition consumed :: "int \<Rightarrow> str \<Rightarrow> str \<Rightarrow> token_row list \<Rightarrow> token_row list" where
  "consumed t tid n = upd_where (\<lambda>e. tk_id e = tid) (\<lambda>e. e\<lparr>tk_consumedAt := Some t, tk_consumedBy := Some n\<rparr>)"

definition has_key :: "str \<Rightarrow> str \<Rightarrow> node_key list \<Rightarrow> bool" where
  "has_key n k ks \<longleftrightarrow> find (\<lambda>x. nk_node x = n \<and> nk_id x = k) ks \<noteq> None"

definition set_state :: "str \<Rightarrow> str \<Rightarrow> (str \<times> str) list \<Rightarrow> (str \<times> str) list" where
  "set_state n st = map (\<lambda>(m, s). (m, if m = n then st else s))"

text \<open>A grant row that belongs to a token and has no key in use.\<close>

definition grant_for :: "token_row \<Rightarrow> result_row \<Rightarrow> result_row list \<Rightarrow> bool" where
  "grant_for e g gs \<longleftrightarrow> rr_digest g = tk_digest e \<and> gr_token (rr_grant g) = tk_id e \<and> (\<forall>x \<in> set gs. rr_key x \<noteq> rr_key g)"

text \<open>
  The steps on views: \<open>A\<close> is the set of nodes that may be revived, \<open>L\<close> the set of credentials that may be
  withdrawn. A key update keeps the identity of the rows and never makes a revoked key usable.
\<close>

definition key_update :: "(node_key \<Rightarrow> node_key) \<Rightarrow> bool" where
  "key_update f \<longleftrightarrow> (\<forall>k. nk_node (f k) = nk_node k \<and> nk_id (f k) = nk_id k \<and> nk_public (f k) = nk_public k
     \<and> (nk_state k = ''revoked'' \<longrightarrow> nk_state (f k) = ''revoked''))"

definition withdraws :: "(node_key \<Rightarrow> bool) \<Rightarrow> (node_key \<Rightarrow> node_key) \<Rightarrow> node_key list \<Rightarrow> (str \<times> str) set" where
  "withdraws Q f ks = {(nk_node k, nk_id k) |k. k \<in> set ks \<and> Q k \<and> nk_state k = ''active'' \<and> nk_state (f k) \<noteq> ''active''}"

inductive auth_step :: "str set \<Rightarrow> (str \<times> str) set \<Rightarrow> int \<Rightarrow> auth_view \<Rightarrow> auth_view \<Rightarrow> bool" for A L t where
  mint: "\<forall>x \<in> set (av_tokens v). tk_digest x \<noteq> tk_digest e \<and> tk_id x \<noteq> tk_id e \<Longrightarrow> tk_consumedAt e = None \<Longrightarrow>
    auth_step A L t v (v\<lparr>av_tokens := av_tokens v @ [e]\<rparr>)"
| nonce: "map_of (av_nonces v) k = None \<Longrightarrow> auth_step A L t v (v\<lparr>av_nonces := AList.update k t (av_nonces v)\<rparr>)"
| admit: "e \<in> set (av_tokens v) \<Longrightarrow> tk_consumedAt e = None \<Longrightarrow> n \<notin> fst ` set (av_states v) \<Longrightarrow>
    \<not> has_key (nk_node k) (nk_id k) (av_keys v) \<Longrightarrow> grant_for e g (av_grants v) \<Longrightarrow>
    auth_step A L t v (v\<lparr>av_tokens := consumed t (tk_id e) n (av_tokens v), av_states := av_states v @ [(n, ''active'')],
      av_keys := av_keys v @ [k], av_grants := av_grants v @ [g]\<rparr>)"
| revive: "n \<in> A \<Longrightarrow> e \<in> set (av_tokens v) \<Longrightarrow> tk_consumedAt e = None \<Longrightarrow> map_of (av_states v) n = Some ''tombstoned'' \<Longrightarrow>
    \<not> has_key (nk_node k) (nk_id k) (av_keys v) \<Longrightarrow> grant_for e g (av_grants v) \<Longrightarrow>
    auth_step A L t v (v\<lparr>av_tokens := consumed t (tk_id e) n (av_tokens v), av_states := set_state n ''active'' (av_states v),
      av_keys := av_keys v @ [k], av_grants := av_grants v @ [g]\<rparr>)"
| new_key: "\<not> has_key (nk_node k) (nk_id k) (av_keys v) \<Longrightarrow> auth_step A L t v (v\<lparr>av_keys := av_keys v @ [k]\<rparr>)"
| change_keys: "key_update f \<Longrightarrow> withdraws Q f (av_keys v) \<subseteq> L \<Longrightarrow> auth_step A L t v (v\<lparr>av_keys := upd_where Q f (av_keys v)\<rparr>)"
| delete: "range (Pair n) \<subseteq> L \<Longrightarrow> auth_step A L t v (v\<lparr>av_states := set_state n ''tombstoned'' (av_states v)\<rparr>)"
| purge: "auth_step A L t v (v\<lparr>av_nonces := filter (\<lambda>x. snd x > t - NONCE_RETENTION_MS) (av_nonces v),
      av_grants := filter G (av_grants v)\<rparr>)"

text \<open>A key update that keeps the state of the keys withdraws nothing.\<close>

definition relabels :: "(node_key \<Rightarrow> node_key) \<Rightarrow> bool" where
  "relabels f \<longleftrightarrow> key_update f \<and> (\<forall>k. nk_state (f k) = nk_state k)"

lemma relabel_step: "relabels f \<Longrightarrow> auth_step A L t v (v\<lparr>av_keys := upd_where Q f (av_keys v)\<rparr>)"
  by (rule auth_step.change_keys) (auto simp: relabels_def withdraws_def)

definition auth_steps :: "str set \<Rightarrow> (str \<times> str) set \<Rightarrow> int \<Rightarrow> reg \<Rightarrow> reg \<Rightarrow> bool" where
  "auth_steps A L t r r' \<longleftrightarrow> (auth_step A L t)\<^sup>*\<^sup>* (view r) (view r')"

text \<open>The node a re-enrollment names, and the credentials that a deletion and a tick withdraw.\<close>

fun revivable :: "reg_op \<Rightarrow> str set" where
  "revivable (Reenroll kp tok req pk q actor) = (case sq_node q of JStr n \<Rightarrow> {n} | _ \<Rightarrow> {})"
| "revivable _ = {}"

fun deleted_credentials :: "denial + str \<times> bool \<Rightarrow> (str \<times> str) set" where
  "deleted_credentials (Inr (n, False)) = range (Pair n)"
| "deleted_credentials _ = {}"

fun withdrawn :: "int \<Rightarrow> reg_op \<Rightarrow> reg \<Rightarrow> (str \<times> str) set" where
  "withdrawn t (DeleteNode actor n req why) r = deleted_credentials (fst (deleteNode t actor n req why r))"
| "withdrawn t (Maintain contactNow) r = set (fst (maintenance t contactNow r))"
| "withdrawn t _ r = {}"

section \<open>Every operation follows the relation\<close>

lemma view_recorded [simp]:
  "view (recordEvent t n d a b s r) = view r" "view (recordAudit t c d' e r) = view r"
  "view (transitionDimension t n d a b s r) = view r"
  by (simp_all add: view_def)

lemma view_set_node:
  assumes "\<And>x. hn_id (f x) = hn_id x" and "\<And>x. hn_state (f x) = hn_state x"
  shows "view (set_node n f r) = view r"
  using assms by (simp add: view_def upd_where_def)

lemma view_set_state:
  assumes "\<And>x. hn_id (f x) = hn_id x" and "\<And>x. hn_state (f x) = st"
  shows "view (set_node n f r) = (view r)\<lparr>av_states := set_state n st (av_states (view r))\<rparr>"
  using assms by (simp add: view_def upd_where_def set_state_def)

lemma view_move [simp]: "view (move_reachable t n v s r) = view r"
  by (simp add: move_reachable_def view_set_node set_reachable_def split: option.split)

lemma view_clear [simp]: "view (clear_failures n r) = view r"
  by (simp add: view_def)

lemma view_updates [simp]:
  "view (r\<lparr>probeFailures := p\<rparr>) = view r" "view (r\<lparr>targets := ts\<rparr>) = view r" "view (r\<lparr>events := es\<rparr>) = view r"
  "view (r\<lparr>audit := as\<rparr>) = view r" "view (r\<lparr>sessions := ss\<rparr>) = view r" "view (r\<lparr>hub_keys := hs\<rparr>) = view r"
  "view (r\<lparr>reports := rs\<rparr>) = view r" "view (r\<lparr>reportSeq := i\<rparr>) = view r"
  by (simp_all add: view_def)

text \<open>Results of operations as the case distinctions that compute them; the answer says what was withdrawn.\<close>

definition follows :: "str set \<Rightarrow> ('a \<Rightarrow> (str \<times> str) set) \<Rightarrow> int \<Rightarrow> reg \<Rightarrow> 'a \<times> reg \<Rightarrow> bool" where
  "follows A L t r x \<longleftrightarrow> auth_steps A (L (fst x)) t r (snd x)"

lemma follows_refl: "follows A L t r (e, r)"
  by (simp add: follows_def auth_steps_def)

lemma follows_quiet: "view r' = view r \<Longrightarrow> follows A L t r (e, r')"
  by (simp add: follows_def auth_steps_def)

lemma follows_intros:
  "(P \<Longrightarrow> follows A L t r x) \<Longrightarrow> (\<not> P \<Longrightarrow> follows A L t r y) \<Longrightarrow> follows A L t r (if P then x else y)"
  "(z = None \<Longrightarrow> follows A L t r x) \<Longrightarrow> (\<And>v. z = Some v \<Longrightarrow> follows A L t r (f v)) \<Longrightarrow>
     follows A L t r (case z of None \<Rightarrow> x | Some v \<Rightarrow> f v)"
  "(\<And>e. w = Inl e \<Longrightarrow> follows A L t r (g e)) \<Longrightarrow> (\<And>v. w = Inr v \<Longrightarrow> follows A L t r (h v)) \<Longrightarrow>
     follows A L t r (case w of Inl e \<Rightarrow> g e | Inr v \<Rightarrow> h v)"
  "(l = [] \<Longrightarrow> follows A L t r x) \<Longrightarrow> (\<And>v vs. l = v # vs \<Longrightarrow> follows A L t r (k v vs)) \<Longrightarrow>
     follows A L t r (case l of [] \<Rightarrow> x | v # vs \<Rightarrow> k v vs)"
  "(\<And>a b. p = (a, b) \<Longrightarrow> follows A L t r (q a b)) \<Longrightarrow> follows A L t r (case p of (a, b) \<Rightarrow> q a b)"
  by (auto split: option.split sum.split list.split prod.split)

lemma follows_let: "follows A L t r (f v) \<Longrightarrow> follows A L t r (Let v f)"
  by (simp add: Let_def)

lemma find_token_mem: "find_token d r = Some e \<Longrightarrow> e \<in> set (av_tokens (view r)) \<and> tk_digest e = d"
  by (auto simp: find_token_def view_def find_Some_iff)

lemma insert_node_view:
  assumes "insert_node x r = Some r'"
  shows "view r' = (view r)\<lparr>av_states := av_states (view r) @ [(hn_id x, hn_state x)]\<rparr>" and "hn_id x \<notin> fst ` set (av_states (view r))"
  using assms by (auto simp: insert_node_def view_def getNodeRow_def find_None_iff split: if_splits)

lemma insert_node_key_view:
  assumes "insert_node_key x r = Some r'"
  shows "view r' = (view r)\<lparr>av_keys := av_keys (view r) @ [x]\<rparr>" and "\<not> has_key (nk_node x) (nk_id x) (av_keys (view r))"
  using assms by (auto simp: insert_node_key_def view_def deriveKeyRow_def has_key_def split: if_splits)

lemma insert_grant_view:
  assumes "insert_grant x r = Some r'"
  shows "view r' = (view r)\<lparr>av_grants := av_grants (view r) @ [x]\<rparr>" and "\<forall>y \<in> set (av_grants (view r)). rr_key y \<noteq> rr_key x"
  using assms by (auto simp: insert_grant_def view_def find_None_iff split: if_splits)

lemma insert_hub_key_view: "insert_hub_key k r = Some r' \<Longrightarrow> view r' = view r"
  by (auto simp: insert_hub_key_def split: if_splits)

lemma ensure_view: "ensureHubRouteKey sha t n kp r = Some r' \<Longrightarrow> view r' = view r"
  by (auto simp: ensureHubRouteKey_def insert_hub_key_view split: if_splits sum.splits option.splits)

lemma consume_view: "view (consume_token t tid n r) = (view r)\<lparr>av_tokens := consumed t tid n (av_tokens (view r))\<rparr>"
  by (simp add: consume_token_def view_def consumed_def)

lemma insert_nonce_view:
  assumes "insert_nonce t n c r = Some r'"
  shows "view r' = (view r)\<lparr>av_nonces := AList.update (n, c) t (av_nonces (view r))\<rparr>" and "map_of (av_nonces (view r)) (n, c) = None"
  using assms by (auto simp: insert_nonce_def view_def split: if_splits)

lemma new_node_simps [simp]: "hn_id (new_node n m t) = n" "hn_state (new_node n m t) = ''active''"
  by (simp_all add: new_node_def)

lemma new_key_simps [simp]: "nk_node (new_key n k p t) = n" "nk_id (new_key n k p t) = k"
  by (simp_all add: new_key_def)

definition admitted :: "int \<Rightarrow> token_row \<Rightarrow> grant \<Rightarrow> str \<Rightarrow> result_row \<Rightarrow> auth_view \<Rightarrow> auth_view" where
  "admitted t e g pk row v = v\<lparr>av_tokens := consumed t (tk_id e) (gr_node g) (av_tokens v),
     av_states := av_states v @ [(gr_node g, ''active'')], av_keys := av_keys v @ [new_key (gr_node g) (gr_key g) pk t],
     av_grants := av_grants v @ [row]\<rparr>"

definition admits :: "token_row \<Rightarrow> grant \<Rightarrow> result_row \<Rightarrow> auth_view \<Rightarrow> bool" where
  "admits e g row v \<longleftrightarrow> gr_node g \<notin> fst ` set (av_states v) \<and> \<not> has_key (gr_node g) (gr_key g) (av_keys v)
     \<and> (\<forall>y \<in> set (av_grants v). rr_key y \<noteq> rr_key row)"

lemma enroll_tx_view:
  assumes "enroll_tx t e pk req key actor kind g r = Some r'"
  shows "view r' = admitted t e g pk (result_for key (tk_digest e) req kind g t) (view r)"
    and "admits e g (result_for key (tk_digest e) req kind g t) (view r)"
proof -
  obtain r1 r2 r3 where r: "insert_node (new_node (gr_node g) ''direct'' t) (consume_token t (tk_id e) (gr_node g) r) = Some r1"
    "insert_node_key (new_key (gr_node g) (gr_key g) pk t) r1 = Some r2"
    "insert_grant (result_for key (tk_digest e) req kind g t) r2 = Some r3" and v: "view r' = view r3"
    using assms by (auto simp: enroll_tx_def split: option.splits)
  note s = insert_node_view [OF r(1)] insert_node_key_view [OF r(2)] insert_grant_view [OF r(3)]
  show "view r' = admitted t e g pk (result_for key (tk_digest e) req kind g t) (view r)"
    by (simp add: v s consume_view admitted_def)
  show "admits e g (result_for key (tk_digest e) req kind g t) (view r)"
    using s by (simp add: consume_view admits_def)
qed

lemma pair_tx_view:
  assumes "pair_tx X t kp e pk req key actor g r = Some r'"
  shows "view r' = admitted t e g pk (result_for key (tk_digest e) req ''pair'' g t) (view r)"
    and "admits e g (result_for key (tk_digest e) req ''pair'' g t) (view r)"
proof -
  obtain r1 r2 r3 r4 where r: "insert_node (new_node (gr_node g) ''reverse'' t) (consume_token t (tk_id e) (gr_node g) r) = Some r1"
    "insert_node_key (new_key (gr_node g) (gr_key g) pk t) r1 = Some r2"
    "ensureHubRouteKey (x_sha X) t (gr_node g) kp r2 = Some r3"
    "insert_grant (result_for key (tk_digest e) req ''pair'' g t) r3 = Some r4" and v: "view r' = view r4"
    using assms by (auto simp: pair_tx_def split: option.splits)
  note s = insert_node_view [OF r(1)] insert_node_key_view [OF r(2)] ensure_view [OF r(3)] insert_grant_view [OF r(4)]
  show "view r' = admitted t e g pk (result_for key (tk_digest e) req ''pair'' g t) (view r)"
    by (simp add: v s consume_view admitted_def)
  show "admits e g (result_for key (tk_digest e) req ''pair'' g t) (view r)"
    using s by (simp add: consume_view admits_def)
qed

lemma admit_follows:
  assumes "view r' = admitted t e g pk row (view r)" and "admits e g row (view r)"
    and "find_token d r = Some e" and "tk_consumedAt e = None" and "rr_digest row = tk_digest e" and "rr_grant row = g"
    and "gr_token g = tk_id e"
  shows "follows A L t r (x, r')"
proof -
  have "auth_step A (L x) t (view r) (view r')"
    unfolding assms(1) admitted_def
    by (rule auth_step.admit) (use assms find_token_mem [OF assms(3)] in \<open>auto simp: admits_def grant_for_def\<close>)
  then show ?thesis by (simp add: follows_def auth_steps_def)
qed

lemma result_for_simps [simp]: "rr_digest (result_for key d req kind g t) = d" "rr_grant (result_for key d req kind g t) = g"
  "rr_key (result_for key d req kind g t) = key" "rr_kind (result_for key d req kind g t) = kind"
  by (simp_all add: result_for_def)

lemma enroll_follows: "follows A L t r (enroll X t hex token req pk actor r)"
  unfolding enroll_def Let_def commit_def
  by (intro follows_intros follows_refl)
    (rule admit_follows [OF enroll_tx_view], assumption, assumption, assumption, simp_all only: not_not result_for_simps grant.simps)

lemma pair_follows: "follows A L t r (pair_node X t hex kp token req pk actor r)"
  unfolding pair_node_def Let_def commit_def
  by (intro follows_intros follows_refl)
    (rule admit_follows [OF pair_tx_view], assumption, assumption, assumption, simp_all only: not_not result_for_simps grant.simps)

lemma revive_view: "view (set_node n (revive_node t) r) = (view r)\<lparr>av_states := set_state n ''active'' (av_states (view r))\<rparr>"
  by (rule view_set_state) (simp_all add: revive_node_def)

lemma reason_view:
  "view (r\<lparr>node_keys := upd_where Q f (node_keys r)\<rparr>) = (view r)\<lparr>av_keys := upd_where Q f (av_keys (view r))\<rparr>"
  by (simp add: view_def)

definition revived :: "int \<Rightarrow> token_row \<Rightarrow> grant \<Rightarrow> str \<Rightarrow> result_row \<Rightarrow> auth_view \<Rightarrow> auth_view" where
  "revived t e g pk row v = v\<lparr>av_tokens := consumed t (tk_id e) (gr_node g) (av_tokens v),
     av_states := set_state (gr_node g) ''active'' (av_states v), av_keys := av_keys v @ [new_key (gr_node g) (gr_key g) pk t],
     av_grants := av_grants v @ [row]\<rparr>"

lemma reenroll_tx_view:
  assumes "reenroll_tx X t kp e pk req key old actor g r = Some r'"
  shows "\<exists>Q f. relabels f \<and> view r' = (let v = revived t e g pk (result_for key (tk_digest e) req ''reenroll'' g t) (view r) in
      v\<lparr>av_keys := upd_where Q f (av_keys v)\<rparr>)"
    and "\<not> has_key (gr_node g) (gr_key g) (av_keys (view r)) \<and> (\<forall>y \<in> set (av_grants (view r)). rr_key y \<noteq> key)"
proof -
  let ?row = "result_for key (tk_digest e) req ''reenroll'' g t" and ?n = "gr_node g"
  let ?Q = "\<lambda>k. nk_node k = ?n \<and> nk_id k = old" and ?f = "\<lambda>k. k\<lparr>nk_reason := Some ''reenroll-possession''\<rparr>"
  obtain r1 r2 r3 where r: "insert_grant ?row (consume_token t (tk_id e) ?n r) = Some r1"
    "insert_node_key (new_key ?n (gr_key g) pk t) r1 = Some r2"
    "ensureHubRouteKey (x_sha X) t ?n kp (set_node ?n (revive_node t) r2) = Some r3"
    and v: "view r' = view (r3\<lparr>node_keys := upd_where ?Q ?f (node_keys r3)\<rparr>)"
    using assms by (auto simp: reenroll_tx_def Let_def split: option.splits)
  note s = insert_grant_view [OF r(1)] insert_node_key_view [OF r(2)] ensure_view [OF r(3)]
  have f: "relabels ?f" by (simp add: relabels_def key_update_def)
  have "view r' = (let v = revived t e g pk ?row (view r) in v\<lparr>av_keys := upd_where ?Q ?f (av_keys v)\<rparr>)"
    unfolding v reason_view s(3,5) revive_view by (simp add: s consume_view revived_def)
  with f show "\<exists>Q f. relabels f \<and> view r' = (let v = revived t e g pk ?row (view r) in v\<lparr>av_keys := upd_where Q f (av_keys v)\<rparr>)"
    by blast
  show "\<not> has_key ?n (gr_key g) (av_keys (view r)) \<and> (\<forall>y \<in> set (av_grants (view r)). rr_key y \<noteq> key)"
    using s by (simp add: consume_view)
qed

lemma state_of_view: "map_of (av_states (view r)) n = map_option hn_state (getNodeRow n r)"
proof -
  have "map_of (map (\<lambda>x. (hn_id x, hn_state x)) xs) n = map_option hn_state (find (\<lambda>x. hn_id x = n) xs)" for xs
    by (induction xs) auto
  then show ?thesis by (simp add: view_def getNodeRow_def)
qed

lemma revive_follows:
  assumes "reenroll_tx X t kp e pk req key old actor g r0 = Some r'" and "insert_nonce t n c r = Some r0"
    and "gr_node g \<in> A" and "find_token d r = Some e" and "tk_consumedAt e = None"
    and "\<not> (case getNodeRow (gr_node g) r of None \<Rightarrow> True | Some x \<Rightarrow> hn_state x \<noteq> ''tombstoned'')" and "gr_token g = tk_id e"
  shows "follows A L t r (y, r')"
proof -
  note nv = insert_nonce_view [OF assms(2)]
  have st: "map_of (av_states (view r)) (gr_node g) = Some ''tombstoned''"
    using assms(6) by (auto simp: state_of_view split: option.splits)
  let ?row = "result_for key (tk_digest e) req ''reenroll'' g t"
  let ?v = "revived t e g pk ?row (view r0)"
  obtain Q f where f: "relabels f" and r': "view r' = ?v\<lparr>av_keys := upd_where Q f (av_keys ?v)\<rparr>"
    using reenroll_tx_view(1) [OF assms(1)] by (auto simp: Let_def)
  note side = reenroll_tx_view(2) [OF assms(1)]
  have "auth_step A (L y) t (view r) (view r0)" unfolding nv(1) by (rule auth_step.nonce) (rule nv(2))
  moreover have "auth_step A (L y) t (view r0) ?v"
    unfolding revived_def
    by (rule auth_step.revive)
      (use assms side find_token_mem [OF assms(4)] st in \<open>simp_all add: nv(1) grant_for_def\<close>)
  moreover have "auth_step A (L y) t ?v (view r')" unfolding r' by (rule relabel_step) (rule f)
  ultimately show ?thesis unfolding follows_def auth_steps_def fst_conv snd_conv
    by (meson converse_rtranclp_into_rtranclp r_into_rtranclp)
qed

lemma read_fields_Cons: "read_fields ((v, p) # fs) = Inr ss \<Longrightarrow> \<exists>s ss'. v = JStr s \<and> ss = s # ss' \<and> p s \<and> s \<noteq> [] \<and> read_fields fs = Inr ss'"
  by (cases v) (auto simp: requireString_def requireWire_def split: if_splits sum.splits)

lemma reenroll_node:
  assumes "read_fields [(a, p1), (b, p2), (c, p3), (sq_node q, p4), (d, p5), (e, p6), (f, p7)] = Inr [w1, w2, w3, n, w5, w6, w7]"
  shows "n \<in> revivable (Reenroll kp a b c q actor)"
  using assms by (auto dest!: read_fields_Cons simp del: read_fields.simps)

lemma reenroll_follows: "follows (revivable (Reenroll kp token req pk q actor)) L t r (reenroll X t kp token req pk q actor r)"
  unfolding reenroll_def Let_def commit_def
  by (intro follows_intros follows_refl)
    (rule revive_follows, assumption, assumption, simp only: grant.simps, erule reenroll_node,
      assumption, simp_all only: not_not grant.simps simp_thms)

lemma follows_after: "follows A (\<lambda>_. L (fst y)) t r x \<Longrightarrow> snd x = r1 \<Longrightarrow> follows A L t r1 y \<Longrightarrow> follows A L t r y"
  by (auto simp: follows_def auth_steps_def)

lemma reserve_follows: "follows A L t r (reserveNonce t nn r)"
proof (cases "insert_nonce t (fst nn) (snd nn) r")
  case None
  then show ?thesis by (simp add: reserveNonce_def follows_refl)
next
  case (Some r')
  have "auth_step A (L True) t (view r) (view r')"
    unfolding insert_nonce_view(1) [OF Some] by (rule auth_step.nonce) (rule insert_nonce_view(2) [OF Some])
  with Some show ?thesis by (simp add: reserveNonce_def follows_def auth_steps_def r_into_rtranclp)
qed

lemma authenticate_follows: "follows A L t r (authenticateMachine X t q r)"
  unfolding authenticateMachine_def Let_def
  by (intro follows_intros follows_refl) (use reserve_follows in \<open>simp add: follows_def\<close>)

lemma authenticated_follows:
  assumes "\<And>node key r1. authenticateMachine X t q r = (Inr (node, key), r1) \<Longrightarrow> follows A L t r1 (h node key r1)"
  shows "follows A L t r (case authenticateMachine X t q r of (Inl e, r1) \<Rightarrow> (Inl e, r1) | (Inr (node, key), r1) \<Rightarrow> h node key r1)"
proof (cases "authenticateMachine X t q r")
  case (Pair w r1)
  have a: "follows A K t r (w, r1)" for K using authenticate_follows [of A K t r X q] Pair by simp
  show ?thesis
  proof (cases w)
    case (Inl e)
    with a [of "\<lambda>_. L (Inl e)"] Pair show ?thesis by (simp add: follows_def)
  next
    case (Inr p)
    with Pair show ?thesis
      by (cases p) (simp, rule follows_after [OF a], simp, rule assms, simp)
  qed
qed

lemma rotate_authenticated_follows: "follows A L t r (rotateCredentialAuthenticated X t n key body r)"
  unfolding rotateCredentialAuthenticated_def Let_def
proof (intro follows_intros follows_refl)
  fix kid pk r2
  let ?f = "\<lambda>k. k\<lparr>nk_revokeAfter := Some (t + hours_ms (overlapHours r))\<rparr>"
  let ?K = "L (Inr (nk_id key, kid, t + hours_ms (overlapHours r)))"
  let ?r1 = "r\<lparr>node_keys := upd_where (\<lambda>k. nk_node k = n \<and> nk_id k = nk_id key) ?f (node_keys r)\<rparr>"
  assume i: "insert_node_key (new_key n kid pk t) ?r1 = Some r2"
  have "auth_step A ?K t (view r) (view ?r1)"
    unfolding reason_view by (rule relabel_step) (simp add: relabels_def key_update_def)
  moreover have "auth_step A ?K t (view ?r1) (view r2)"
    unfolding insert_node_key_view(1) [OF i] by (rule auth_step.new_key) (rule insert_node_key_view(2) [OF i])
  ultimately show "follows A L t r (Inr (nk_id key, kid, t + hours_ms (overlapHours r)),
      recordAudit t (''node:'' @ n) ''node.credential-rotated'' [(''oldKeyId'', nk_id key), (''newKeyId'', kid)] r2)"
    by (simp add: follows_def auth_steps_def)
qed

lemma rotate_follows: "follows A L t r (rotateCredential X t q body r)"
  unfolding rotateCredential_def by (rule authenticated_follows) (rule rotate_authenticated_follows)

lemma contact_view [simp]: "view (transitionRegistryContact t x v s r) = view r"
  by (simp add: transitionRegistryContact_def view_set_node)

lemma flag_view [simp]: "view (clearAlertFlag n f r) = view r" "view (setAlertFlag n f r) = view r"
  by (simp_all add: clearAlertFlag_def setAlertFlag_def Let_def view_set_node)

lemma withhold_view [simp]: "view (withholdCapabilities t n s r) = view r"
  by (simp add: withholdCapabilities_def Let_def view_set_node withheld_def split: option.split)

lemma set_hub_key_view [simp]: "view (set_hub_key n k f r) = view r"
  by (simp add: set_hub_key_def)

lemma view_branches:
  "view x = view r \<Longrightarrow> (\<And>v. view (f v) = view r) \<Longrightarrow> view (case z of None \<Rightarrow> x | Some v \<Rightarrow> f v) = view r"
  "view x = view r \<Longrightarrow> view y = view r \<Longrightarrow> view (if P then x else y) = view r"
  "view x = view r \<Longrightarrow> (\<And>v vs. view (h v vs) = view r) \<Longrightarrow> view (case l of [] \<Rightarrow> x | v # vs \<Rightarrow> h v vs) = view r"
  "(\<And>a b. view (k a b) = view r) \<Longrightarrow> view (case p of (a, b) \<Rightarrow> k a b) = view r"
  by (auto split: option.split list.split prod.split)

lemma acknowledge_view [simp]: "view (acknowledgeHubRouteKeys t n ids r) = view r"
  unfolding acknowledgeHubRouteKeys_def Let_def by (intro view_branches) simp_all

lemma acknowledge_view_trans: "view s = view r \<Longrightarrow> view (acknowledgeHubRouteKeys t n ids s) = view r"
  "view s = view r \<Longrightarrow> view (withholdCapabilities t n src s) = view r"
  by simp_all

lemma beat_view [simp]: "view (set_node n (beat_node t i) r) = view r"
  by (rule view_set_node) (simp_all add: beat_node_def)

lemma heartbeat_authenticated_follows: "follows A L t r (heartbeatAuthenticated X isoT t kp n body r)"
  unfolding heartbeatAuthenticated_def Let_def
  by (intro follows_intros follows_refl)
    (rule follows_quiet, drule ensure_view, erule trans, intro view_branches acknowledge_view_trans, simp_all)

lemma heartbeat_follows: "follows A L t r (heartbeat X isoT t kp q body r)"
  unfolding heartbeat_def by (rule authenticated_follows) (rule heartbeat_authenticated_follows)

lemma upload_authenticated_follows: "follows A L t r (uploadReportAuthenticated num t n body r)"
  unfolding uploadReportAuthenticated_def Let_def
proof (intro follows_intros follows_refl follows_quiet)
qed (simp_all add: view_set_node uploaded_def Let_def)

lemma upload_follows: "follows A L t r (uploadReport X num t q body r)"
  unfolding uploadReport_def by (rule authenticated_follows) (rule upload_authenticated_follows)

lemma mint_follows: "follows A L t r (mintEnrollmentToken X t rnd actor purpose bound ttl r)"
proof -
  have m: "follows A L t r (x, recordAudit t a c d (r\<lparr>tokens := tokens r @ [e]\<rparr>))"
    if "\<not> (find_token (tk_digest e) r \<noteq> None \<or> find (\<lambda>x. tk_id x = tk_id e) (tokens r) \<noteq> None)" "tk_consumedAt e = None" for x a c d e
  proof -
    have v: "view (r\<lparr>tokens := tokens r @ [e]\<rparr>) = (view r)\<lparr>av_tokens := av_tokens (view r) @ [e]\<rparr>"
      by (simp add: view_def)
    have "auth_step A (L x) t (view r) (view (r\<lparr>tokens := tokens r @ [e]\<rparr>))"
      unfolding v by (rule auth_step.mint) (use that in \<open>auto simp: find_token_def find_None_iff view_def\<close>)
    then show ?thesis by (simp add: follows_def auth_steps_def)
  qed
  show ?thesis
    unfolding mintEnrollmentToken_def Let_def
    by (intro follows_intros follows_refl) (rule m; simp only: token_row.simps not_not simp_thms)
qed

lemma revoke_hub_keys_view [simp]: "view (revoke_hub_keys t n r) = view r"
  by (simp add: revoke_hub_keys_def)

lemma tombstone_follows:
  assumes L: "range (Pair n) \<subseteq> L y" and r': "view r' = view (revoke_node_keys t n (set_node n (\<lambda>x. x\<lparr>hn_state := ''tombstoned'', hn_tombstonedAt := Some t,
      hn_tombstoneReason := Some why, hn_authenticated := ''revoked''\<rparr>) r))"
  shows "follows A L t r (y, r')"
proof -
  let ?r1 = "set_node n (\<lambda>x. x\<lparr>hn_state := ''tombstoned'', hn_tombstonedAt := Some t,
      hn_tombstoneReason := Some why, hn_authenticated := ''revoked''\<rparr>) r"
  have 1: "auth_step A (L y) t (view r) (view ?r1)"
    by (subst view_set_state [where st = "''tombstoned''"]) (simp_all add: auth_step.delete [OF L])
  have 2: "auth_step A (L y) t (view ?r1) (view (revoke_node_keys t n ?r1))"
    unfolding revoke_node_keys_def reason_view
    by (rule auth_step.change_keys) (use L in \<open>auto simp: key_update_def withdraws_def\<close>)
  show ?thesis
    unfolding follows_def auth_steps_def fst_conv snd_conv r' using 1 2 by (meson converse_rtranclp_into_rtranclp r_into_rtranclp)
qed

lemma delete_follows: "follows A deleted_credentials t r (deleteNode t actor n req why r)"
  unfolding deleteNode_def Let_def
  by (intro follows_intros follows_refl) (rule tombstone_follows [rotated], simp add: view_set_node, simp)

lemma route_view [simp]: "view (set_node n (set_reachable v) r) = view r"
  by (rule view_set_node) (simp_all add: set_reachable_def)

lemma mode_view [simp]: "view (set_node n (\<lambda>y. y\<lparr>hn_routeMode := m, hn_reachable := v\<rparr>) r) = view r"
  by (rule view_set_node) simp_all

lemma set_target_follows: "follows A L t r (setRouteTarget u t actor n target r)"
  unfolding setRouteTarget_def Let_def
  by (intro follows_intros follows_refl follows_quiet) (simp split: option.split)

lemma remove_target_follows: "follows A L t r (removeRouteTarget t actor n r)"
  unfolding removeRouteTarget_def Let_def
  by (intro follows_intros follows_refl follows_quiet) (simp split: option.split)

lemma set_mode_follows: "follows A L t r (setRouteMode t actor n m r)"
  unfolding setRouteMode_def Let_def
  by (intro follows_intros follows_refl follows_quiet) simp

lemma rotate_hub_follows: "follows A L t r (rotateHubRouteKey sha t actor n kp r)"
  unfolding rotateHubRouteKey_def Let_def
  by (intro follows_intros follows_refl follows_quiet) (simp add: insert_hub_key_view)

lemma probe_result_follows: "follows A L t r (recordProbeResult t n b ctx r)"
  unfolding recordProbeResult_def Let_def
  by (intro follows_intros follows_refl follows_quiet) simp_all

lemma probe_begin_follows: "follows A L t r (probe_begin sgnr dmn t nonce n r)"
  unfolding probe_begin_def Let_def
  by (intro follows_intros follows_refl follows_quiet) simp_all

lemma session_view [simp]: "view (set_session sid f r) = view r"
  by (simp add: set_session_def)

lemma bootstrap_follows: "follows A L t r (bootstrapSession t rnd who r)"
  unfolding bootstrapSession_def Let_def
  by (intro follows_intros follows_refl follows_quiet) simp

lemma validate_follows: "follows A L t r (validateSession t sid r)"
  unfolding validateSession_def
  by (intro follows_intros follows_refl follows_quiet) simp

lemma end_follows: "follows A L t r (endSession t sid actor r)"
  unfolding endSession_def
  by (intro follows_intros follows_refl follows_quiet) simp

subsection \<open>The tick\<close>

lemma fold_view:
  assumes "\<And>x r. view (step x r) = view r"
  shows "view (fold step xs r) = view r"
  by (rule fold_frame) (rule assms)

lemma fold_steps:
  assumes "\<And>x r. x \<in> set xs \<Longrightarrow> auth_steps A L t r (step x r)"
  shows "auth_steps A L t r (fold step xs r)"
  using assms
proof (induction xs arbitrary: r)
  case (Cons x xs)
  have "auth_steps A L t r (step x r)" using Cons.prems by simp
  moreover have "auth_steps A L t (step x r) (fold step xs (step x r))" by (rule Cons.IH) (simp add: Cons.prems)
  ultimately show ?case by (simp add: auth_steps_def)
qed (simp add: auth_steps_def)

lemma revoke_rotated_steps: "auth_steps A (set (fst (revoke_rotated t r))) t r (snd (revoke_rotated t r))"
proof -
  have "auth_steps A (set (fst (revoke_rotated t r))) t s (revoke_node_key t k s)"
    if "k \<in> set (filter (rotation_ended t) (node_keys r))" for k s
    unfolding auth_steps_def revoke_node_key_def reason_view
    by (rule r_into_rtranclp, rule auth_step.change_keys)
      (use that in \<open>auto simp: key_update_def withdraws_def revoke_rotated_def Let_def intro!: image_eqI [of _ _ k]\<close>)
  then have "auth_steps A (set (fst (revoke_rotated t r))) t r (fold (revoke_node_key t) (filter (rotation_ended t) (node_keys r)) r)"
    by (rule fold_steps)
  then show ?thesis by (simp add: revoke_rotated_def Let_def)
qed

lemma expire_hub_keys_view [simp]: "view (expire_hub_keys t r) = view r"
  unfolding expire_hub_keys_def by (rule fold_view) (simp add: expire_hub_key_def)

lemma set_claim_view [simp]: "view (set_node n (set_claim ev) r) = view r"
  by (rule view_set_node) simp_all

lemma stale_claim_view [simp]: "view (set_node n stale_claim r) = view r"
  by (rule view_set_node) (simp_all add: stale_claim_def)

lemma age_evidence_view [simp]: "view (age_all_evidence t r) = view r"
proof -
  have "view (age_evidence t x s) = view s" for x s
    unfolding age_evidence_def Let_def by (intro view_branches) simp_all
  then show ?thesis unfolding age_all_evidence_def by (rule fold_view)
qed

lemma reconcile_view [simp]: "view (reconcileNodeCapabilities t r) = view r"
proof -
  have "view (persistReconciledState t x ev d s) = view s" for x ev d s
    by (cases ev rule: prod_cases4) (simp add: persistReconciledState_def Let_def)
  then have "view (reconcile_node t x s) = view s" for x s
    by (simp add: reconcile_node_eq)
  then show ?thesis unfolding reconcileNodeCapabilities_def by (rule fold_view)
qed

lemma age_contacts_view [simp]: "view (age_contacts t cN r) = view r"
proof -
  have c: "view (set_node n (\<lambda>y. y\<lparr>hn_contact := c\<rparr>) s) = view s" for n c s
    by (rule view_set_node) simp_all
  have "view (age_contact t cN x s) = view s" for x s
    unfolding age_contact_def Let_def by (intro view_branches) (simp_all add: c)
  then show ?thesis unfolding age_contacts_def by (rule fold_view)
qed

lemma audit_expired_view [simp]: "view (audit_expired_sessions t r) = view r"
  unfolding audit_expired_sessions_def by (rule fold_view) (simp add: audit_expired_def)

lemma maintenance_follows: "follows A set t r (maintenance t cN r)"
proof -
  define r1 where "r1 = snd (revoke_rotated t r)"
  let ?K = "set (fst (revoke_rotated t r))"
  have 1: "auth_steps A ?K t r r1" unfolding r1_def by (rule revoke_rotated_steps)
  have "view (purge_tables t (expire_hub_keys t r1)) = (view r1)\<lparr>
      av_nonces := filter (\<lambda>x. snd x > t - NONCE_RETENTION_MS) (av_nonces (view r1)),
      av_grants := filter (\<lambda>g. rr_createdAt g > t - ENROLLMENT_RESULT_RETENTION_MS) (av_grants (view r1))\<rparr>"
  proof -
    have "view (purge_tables t s) = (view s)\<lparr>
      av_nonces := filter (\<lambda>x. snd x > t - NONCE_RETENTION_MS) (av_nonces (view s)),
      av_grants := filter (\<lambda>g. rr_createdAt g > t - ENROLLMENT_RESULT_RETENTION_MS) (av_grants (view s))\<rparr>" for s
      by (simp add: purge_tables_def view_def)
    then show ?thesis by simp
  qed
  then have "auth_step A ?K t (view r1) (view (purge_tables t (expire_hub_keys t r1)))"
    by (simp only:) (rule auth_step.purge)
  with 1 have 2: "auth_steps A ?K t r (purge_tables t (expire_hub_keys t r1))"
    by (simp add: auth_steps_def)
  have "view (retain_history t s) = view s" for s by (simp add: retain_history_def view_def)
  then have "view (snd (maintenance t cN r)) = view (purge_tables t (expire_hub_keys t r1))"
    by (simp add: maintenance_def r1_def Let_def split: prod.split)
  moreover have "fst (maintenance t cN r) = fst (revoke_rotated t r)"
    by (simp add: maintenance_def Let_def split: prod.split)
  ultimately show ?thesis using 2 by (simp add: follows_def auth_steps_def)
qed

lemma exec_follows: "auth_steps (revivable op) (withdrawn t op r) t r (reg_exec P t op r)"
proof -
  note f = mint_follows enroll_follows pair_follows reenroll_follows heartbeat_follows upload_follows rotate_follows
    delete_follows set_target_follows remove_target_follows set_mode_follows rotate_hub_follows probe_begin_follows
    bootstrap_follows validate_follows end_follows maintenance_follows
  show ?thesis
    by (cases op; simp only: reg_exec.simps probe_finish_def withdrawn.simps; rule f [unfolded follows_def] probe_result_follows [unfolded follows_def])
qed

section \<open>Invariants of the relation\<close>

lemma auth_steps_invariant:
  assumes "auth_steps A L t r r'" and "I (view r)" and "\<And>v v'. auth_step A L t v v' \<Longrightarrow> I v \<Longrightarrow> I v'"
  shows "I (view r')"
proof -
  have "(auth_step A L t)\<^sup>*\<^sup>* v v' \<Longrightarrow> I v \<Longrightarrow> I v'" for v v'
    by (induction rule: rtranclp_induct) (auto intro: assms(3))
  with assms(1,2) show ?thesis by (simp add: auth_steps_def)
qed

lemma reg_run_invariant:
  assumes "I (view r)" and "list_all (\<lambda>top. revivable (snd top) \<subseteq> A) ops"
    and "\<And>t B L v v'. B \<subseteq> A \<Longrightarrow> auth_step B L t v v' \<Longrightarrow> I v \<Longrightarrow> I v'"
  shows "I (view (reg_run P ops r))"
  using assms(1,2)
proof (induction ops arbitrary: r)
  case (Cons top ops)
  obtain t op where top: "top = (t, op)" by (cases top)
  have "I (view (reg_exec P t op r))"
    by (rule auth_steps_invariant [where I = I, OF exec_follows Cons.prems(1)]) (use Cons.prems(2) top in \<open>auto intro: assms(3)\<close>)
  with Cons show ?case by (simp add: top)
qed simp

subsection \<open>Keys and node states\<close>

definition key_dead :: "str \<Rightarrow> str \<Rightarrow> auth_view \<Rightarrow> bool" where
  "key_dead n k v \<longleftrightarrow> (case find (\<lambda>x. nk_node x = n \<and> nk_id x = k) (av_keys v) of None \<Rightarrow> False | Some x \<Rightarrow> nk_state x = ''revoked'')"

lemma find_append: "find P (xs @ ys) = (case find P xs of None \<Rightarrow> find P ys | Some x \<Rightarrow> Some x)"
  by (induction xs) auto

lemma key_dead_step: "auth_step A L t v v' \<Longrightarrow> key_dead n k v \<Longrightarrow> key_dead n k v'"
proof (induction rule: auth_step.induct)
  case (change_keys f Q v)
  have "find (\<lambda>x. nk_node x = n \<and> nk_id x = k) (upd_where Q f (av_keys v))
      = map_option (\<lambda>x. if Q x then f x else x) (find (\<lambda>x. nk_node x = n \<and> nk_id x = k) (av_keys v))"
    by (rule find_upd) (use change_keys(1) in \<open>simp add: key_update_def\<close>)
  with change_keys show ?case by (auto simp: key_dead_def key_update_def split: option.splits)
qed (auto simp: key_dead_def find_append split: option.splits)

definition buried :: "str \<Rightarrow> auth_view \<Rightarrow> bool" where
  "buried n v \<longleftrightarrow> map_of (av_states v) n = Some ''tombstoned''"

lemma map_of_set_state: "map_of (set_state m st xs) n = (if m = n then map_option (\<lambda>_. st) (map_of xs n) else map_of xs n)"
  by (induction xs) (auto simp: set_state_def)

lemma buried_step: "auth_step A L t v v' \<Longrightarrow> n \<notin> A \<Longrightarrow> buried n v \<Longrightarrow> buried n v'"
  by (induction rule: auth_step.induct) (auto simp: buried_def map_of_set_state map_add_def split: option.splits)

lemma check_machine_ok:
  assumes "check_machine X t q r = Inr (x, key, c)"
  obtains n k sig where "sq_node q = JStr n" "sq_key q = JStr k" "sq_signature q = JStr sig" "sq_nonce q = JStr c"
    "node_id_pattern n" "nonce_pattern c" "epoch_text (sq_time q)" "\<not> out_of_skew t (sq_time q)"
    "getNodeRow n r = Some x" "hn_state x = ''active''" "deriveKeyRow n k r = Some key" "key_usable t key"
    "verifySigningString (x_verify X) (nk_public key)
       (buildSigningString MACHINE_V1_LABEL (sq_method q) (sq_path q) (sq_time q) c (sq_bodyHash q) n) sig = Inr True"
proof -
  obtain n k sig c' where f: "read_fields [(sq_node q, node_id_pattern), (sq_key q, key_id_pattern), (sq_signature q, signature_pattern),
        (sq_nonce q, nonce_pattern)] = Inr [n, k, sig, c']"
    using assms unfolding check_machine_def by (auto split: sum.splits list.splits simp del: read_fields.simps)
  then have w: "sq_node q = JStr n" "sq_key q = JStr k" "sq_signature q = JStr sig" "sq_nonce q = JStr c'"
    "node_id_pattern n" "nonce_pattern c'"
    by (auto dest!: read_fields_Cons simp del: read_fields.simps)
  from assms have "\<exists>y. epoch_text (sq_time q) \<and> \<not> out_of_skew t (sq_time q) \<and> getNodeRow n r = Some x \<and> hn_state x = ''active''
      \<and> deriveKeyRow n k r = Some key \<and> key_usable t key \<and> c' = c \<and>
      verifySigningString (x_verify X) (nk_public key)
       (buildSigningString MACHINE_V1_LABEL (sq_method q) (sq_path q) (sq_time q) c' (sq_bodyHash q) n) sig = Inr y \<and> y"
    unfolding check_machine_def f sum.case list.case guard_simps by (simp split: if_splits option.splits) auto
  with w that show ?thesis by auto
qed

lemma authenticate_ok:
  assumes "authenticateMachine X t q r = (Inr (x, key), r')"
  obtains c where "check_machine X t q r = Inr (x, key, c)" and "fst (reserveNonce t (hn_id x, c) r)"
    and "r' = snd (reserveNonce t (hn_id x, c) r)"
  using assms by (auto simp: authenticateMachine_def Let_def split: sum.splits if_splits)

lemma authenticate_denied: "\<not> (\<exists>p r'. authenticateMachine X t q r = (Inr p, r')) \<Longrightarrow> \<exists>e. authenticateMachine X t q r = (Inl e, r)"
  unfolding authenticateMachine_def Let_def by (auto split: sum.splits prod.splits if_splits)

lemma dead_key_denied:
  assumes "key_dead n k (view r)" and "sq_node q = JStr n" and "sq_key q = JStr k"
  shows "\<exists>e. authenticateMachine X t q r = (Inl e, r)"
proof (rule authenticate_denied, rule notI, elim exE)
  fix p r' assume "authenticateMachine X t q r = (Inr p, r')"
  then obtain x key c where "check_machine X t q r = Inr (x, key, c)"
    by (cases p) (auto elim: authenticate_ok)
  then have "deriveKeyRow n k r = Some key" "key_usable t key"
    using assms by (auto elim!: check_machine_ok)
  then show False using assms(1) by (simp add: key_dead_def view_def deriveKeyRow_def key_usable_def)
qed

lemma buried_denied:
  assumes "buried n (view r)" and "sq_node q = JStr n"
  shows "\<exists>e. authenticateMachine X t q r = (Inl e, r)"
proof (rule authenticate_denied, rule notI, elim exE)
  fix p r' assume "authenticateMachine X t q r = (Inr p, r')"
  then obtain x key c where "check_machine X t q r = Inr (x, key, c)"
    by (cases p) (auto elim: authenticate_ok)
  then have "getNodeRow n r = Some x" "hn_state x = ''active''"
    using assms by (auto elim!: check_machine_ok)
  then show False using assms(1) by (simp add: buried_def state_of_view)
qed

lemma deleteNode_ok:
  assumes "deleteNode t actor nodeId requestId reason r = (Inr (n, False), r')"
  obtains x why where "getNodeRow n r = Some x" and
    "view r' = view (revoke_node_keys t n (set_node n (\<lambda>x. x\<lparr>hn_state := ''tombstoned'', hn_tombstonedAt := Some t,
      hn_tombstoneReason := Some why, hn_authenticated := ''revoked''\<rparr>) r))"
proof -
  let ?P = "\<lambda>y. y = (Inr (n, False), r') \<longrightarrow> (\<exists>x why. getNodeRow n r = Some x \<and>
    view r' = view (revoke_node_keys t n (set_node n (\<lambda>x. x\<lparr>hn_state := ''tombstoned'', hn_tombstonedAt := Some t,
      hn_tombstoneReason := Some why, hn_authenticated := ''revoked''\<rparr>) r)))"
  have i: "(b \<Longrightarrow> ?P x) \<Longrightarrow> (\<not> b \<Longrightarrow> ?P y) \<Longrightarrow> ?P (if b then x else y)"
    "(z = None \<Longrightarrow> ?P x) \<Longrightarrow> (\<And>v. z = Some v \<Longrightarrow> ?P (f v)) \<Longrightarrow> ?P (case z of None \<Rightarrow> x | Some v \<Rightarrow> f v)"
    "(\<And>e. w = Inl e \<Longrightarrow> ?P (g e)) \<Longrightarrow> (\<And>v. w = Inr v \<Longrightarrow> ?P (h v)) \<Longrightarrow> ?P (case w of Inl e \<Rightarrow> g e | Inr v \<Rightarrow> h v)"
    "(l = [] \<Longrightarrow> ?P x) \<Longrightarrow> (\<And>v vs. l = v # vs \<Longrightarrow> ?P (k v vs)) \<Longrightarrow> ?P (case l of [] \<Rightarrow> x | v # vs \<Rightarrow> k v vs)"
    for b x y z f w g h l k
    by (auto split: option.splits sum.splits list.splits)
  have "?P (deleteNode t actor nodeId requestId reason r)"
    unfolding deleteNode_def Let_def
    by (intro i) (simp_all only: prod.inject sum.inject sum.distinct simp_thms, simp_all, auto simp: view_set_node)
  with assms that show ?thesis by blast
qed

lemma deleted_dead:
  assumes "deleteNode t actor nodeId requestId reason r = (Inr (n, False), r')"
  shows "buried n (view r')" and "deriveKeyRow n k r = Some row \<Longrightarrow> nk_state row = ''active'' \<Longrightarrow> key_dead n k (view r')"
proof -
  obtain x why where x: "getNodeRow n r = Some x" and v: "view r' = view (revoke_node_keys t n (set_node n (\<lambda>x. x\<lparr>hn_state := ''tombstoned'', hn_tombstonedAt := Some t,
      hn_tombstoneReason := Some why, hn_authenticated := ''revoked''\<rparr>) r))"
    using assms by (rule deleteNode_ok)
  have s: "av_states (view r') = set_state n ''tombstoned'' (av_states (view r))"
    unfolding v revoke_node_keys_def reason_view by (subst view_set_state [where st = "''tombstoned''"]) simp_all
  have "map_of (av_states (view r)) n = Some (hn_state x)" by (simp add: state_of_view x)
  then show "buried n (view r')" by (simp add: buried_def s map_of_set_state)
  have k: "av_keys (view r') = upd_where (\<lambda>k. nk_node k = n \<and> nk_state k = ''active'')
     (\<lambda>k. k\<lparr>nk_state := ''revoked'', nk_revokedAt := Some t, nk_reason := Some ''node-delete''\<rparr>) (node_keys r)"
    unfolding v revoke_node_keys_def reason_view by (simp add: view_def)
  show "key_dead n k (view r')" if "deriveKeyRow n k r = Some row" "nk_state row = ''active''"
    unfolding key_dead_def k
    by (subst find_upd) (use that deriveKeyRow_id [OF that(1)] in \<open>simp_all add: deriveKeyRow_def\<close>)
qed

subsection \<open>Nonces\<close>

definition nonces_kept :: "int \<Rightarrow> auth_view \<Rightarrow> auth_view \<Rightarrow> bool" where
  "nonces_kept t v v' \<longleftrightarrow> omap_wf (av_nonces v') \<and>
     (\<forall>m a. map_of (av_nonces v) m = Some a \<longrightarrow> t \<le> a + (NONCE_RETENTION_MS - 1) \<longrightarrow> map_of (av_nonces v') m = Some a)"

lemma nonces_kept_step: "auth_step A L t v v' \<Longrightarrow> omap_wf (av_nonces v) \<Longrightarrow> nonces_kept t v v'"
  by (induction rule: auth_step.induct) (auto simp: nonces_kept_def map_of_update map_of_filter_wf)

lemma nonces_kept_steps:
  assumes "auth_steps A L t r r'" and "omap_wf (seen_nonces r)"
  shows "nonces_kept t (view r) (view r')"
proof -
  have "(auth_step A L t)\<^sup>*\<^sup>* v v' \<Longrightarrow> omap_wf (av_nonces v) \<Longrightarrow> nonces_kept t v v'" for v v'
  proof (induction rule: rtranclp_induct)
    case base
    then show ?case by (simp add: nonces_kept_def)
  next
    case (step v1 v2)
    then have "nonces_kept t v v1" by blast
    moreover from this have "nonces_kept t v1 v2" using nonces_kept_step [OF step(2)] unfolding nonces_kept_def by blast
    ultimately show ?case unfolding nonces_kept_def by blast
  qed
  with assms show ?thesis by (simp add: auth_steps_def view_def)
qed

interpretation machine_nonces: replay_guard "\<lambda>t r. omap_wf (seen_nonces r)" "\<lambda>r. NONCE_RETENTION_MS - 1"
  "\<lambda>r. map_of (seen_nonces r)" reserveNonce "\<lambda>t r r'. \<exists>P op. r' = reg_exec P t op r"
proof
  fix t :: int and r r' :: reg and n m :: "str \<times> str" and a
  let ?r = "snd (reserveNonce t n r)"
  have k: "omap_wf (seen_nonces r) \<Longrightarrow> nonces_kept t (view r) (view ?r)"
    using nonces_kept_steps [of "{}" "{}" t r ?r] reserve_follows [of "{}" "\<lambda>_. {}" t r n] by (simp add: follows_def)
  have vs: "av_nonces (view s) = seen_nonces s" for s by (simp add: view_def)
  show "omap_wf (seen_nonces r) \<Longrightarrow> omap_wf (seen_nonces ?r)"
    using k unfolding nonces_kept_def vs by blast
  show "omap_wf (seen_nonces r) \<Longrightarrow> map_of (seen_nonces r) m = Some a \<Longrightarrow> t \<le> a + (NONCE_RETENTION_MS - 1)
      \<Longrightarrow> map_of (seen_nonces ?r) m = Some a"
    using k unfolding nonces_kept_def vs by blast
  show "map_of (seen_nonces r) n = Some a \<Longrightarrow> \<not> fst (reserveNonce t n r)"
    by (simp add: reserveNonce_def insert_nonce_def)
  show "fst (reserveNonce t n r) \<Longrightarrow> map_of (seen_nonces ?r) n = Some t"
    by (auto simp: reserveNonce_def insert_nonce_def map_of_update split: option.splits if_splits)
  show "omap_wf (seen_nonces r') \<and> NONCE_RETENTION_MS - 1 = NONCE_RETENTION_MS - 1 \<and>
      (map_of (seen_nonces r) m = Some a \<longrightarrow> t \<le> a + (NONCE_RETENTION_MS - 1) \<longrightarrow> map_of (seen_nonces r') m = Some a)"
    if "omap_wf (seen_nonces r)" "\<exists>P op. r' = reg_exec P t op r"
    using that(2) nonces_kept_steps [OF exec_follows that(1)] unfolding nonces_kept_def vs by blast
qed (assumption, rule refl)

text \<open>The states of a run as a trace of the guarded store.\<close>

fun reg_trace :: "platform \<Rightarrow> (int \<times> reg_op) list \<Rightarrow> reg \<Rightarrow> (int \<times> reg) list" where
  "reg_trace P [] r = []"
| "reg_trace P ((t, op) # ops) r = (t, reg_exec P t op r) # reg_trace P ops (reg_exec P t op r)"

lemma reg_trace_guarded: "sorted (t # map fst ops) \<Longrightarrow> machine_nonces.guarded_trace t r (reg_trace P ops r)"
proof (induction ops arbitrary: t r)
  case (Cons top ops)
  obtain t' op where top: "top = (t', op)" by (cases top)
  have "machine_nonces.guarded t' r (reg_exec P t' op r)" by (auto simp: machine_nonces.guarded_def)
  with Cons show ?case by (simp add: top)
qed simp

lemma reg_trace_end: "machine_nonces.trace_end t r (reg_trace P ops r) = (last (t # map fst ops), reg_run P ops r)"
  by (induction ops arbitrary: t r) auto

lemma sorted_last: "sorted (x # xs) \<Longrightarrow> last (x # xs) \<le> (y :: int) \<Longrightarrow> x \<le> y"
  by (metis last_in_set list.discI order.trans set_ConsD sorted_simps(2))

subsection \<open>Tokens and grants\<close>

definition ledger_ok :: "auth_view \<Rightarrow> bool" where
  "ledger_ok v \<longleftrightarrow> distinct (map tk_id (av_tokens v)) \<and> distinct (map tk_digest (av_tokens v))
     \<and> (\<forall>g \<in> set (av_grants v). \<exists>e \<in> set (av_tokens v).
          rr_digest g = tk_digest e \<and> gr_token (rr_grant g) = tk_id e \<and> tk_consumedAt e \<noteq> None)
     \<and> (\<forall>g \<in> set (av_grants v). \<forall>g' \<in> set (av_grants v). rr_digest g = rr_digest g' \<longrightarrow> g = g')"

lemma consumed_map [simp]: "map tk_id (consumed t i n es) = map tk_id es" "map tk_digest (consumed t i n es) = map tk_digest es"
  by (simp_all add: consumed_def map_upd_id)

lemma consumed_mem:
  assumes "e \<in> set es"
  shows "\<exists>e' \<in> set (consumed t i n es). tk_id e' = tk_id e \<and> tk_digest e' = tk_digest e
    \<and> (tk_consumedAt e \<noteq> None \<or> tk_id e = i \<longrightarrow> tk_consumedAt e' \<noteq> None)"
  by (rule bexI [of _ "if tk_id e = i then e\<lparr>tk_consumedAt := Some t, tk_consumedBy := Some n\<rparr> else e"])
    (use assms in \<open>auto simp: consumed_def set_upd\<close>)

lemma distinct_map_eq: "distinct (map f xs) \<Longrightarrow> x \<in> set xs \<Longrightarrow> y \<in> set xs \<Longrightarrow> f x = f y \<Longrightarrow> x = y"
  by (metis distinct_map inj_onD)

lemma ledger_grant:
  assumes l: "ledger_ok v" and e: "e \<in> set (av_tokens v)" "tk_consumedAt e = None" and g: "grant_for e g (av_grants v)"
    and v': "av_tokens v' = consumed t (tk_id e) n (av_tokens v)" "av_grants v' = av_grants v @ [g]"
  shows "ledger_ok v'"
proof -
  have no: "rr_digest x \<noteq> tk_digest e" if x: "x \<in> set (av_grants v)" for x
  proof
    assume d: "rr_digest x = tk_digest e"
    from l x obtain e' where e': "e' \<in> set (av_tokens v)" "rr_digest x = tk_digest e'" "tk_consumedAt e' \<noteq> None"
      unfolding ledger_ok_def by blast
    then have "e' = e" using l e(1) d by (metis distinct_map_eq ledger_ok_def)
    with e' e(2) show False by simp
  qed
  have gd: "rr_digest g = tk_digest e" "gr_token (rr_grant g) = tk_id e" using g by (simp_all add: grant_for_def)
  have tok: "\<exists>y \<in> set (av_tokens v'). rr_digest x = tk_digest y \<and> gr_token (rr_grant x) = tk_id y \<and> tk_consumedAt y \<noteq> None"
    if x: "x \<in> set (av_grants v')" for x
  proof (cases "x = g")
    case True
    from consumed_mem [OF e(1), of t "tk_id e" n] gd show ?thesis unfolding v' True by metis
  next
    case False
    with x v' have "x \<in> set (av_grants v)" by simp
    then obtain y where y: "y \<in> set (av_tokens v)" "rr_digest x = tk_digest y" "gr_token (rr_grant x) = tk_id y" "tk_consumedAt y \<noteq> None"
      using l unfolding ledger_ok_def by blast
    from consumed_mem [OF y(1), of t "tk_id e" n] y show ?thesis unfolding v' by metis
  qed
  have uniq: "x = x'" if "x \<in> set (av_grants v')" "x' \<in> set (av_grants v')" "rr_digest x = rr_digest x'" for x x'
  proof -
    have "x \<in> set (av_grants v) \<and> x' \<in> set (av_grants v) \<or> x = g \<and> x' = g"
      using that no [of x] no [of x'] by (auto simp: v' gd)
    with that(3) l show ?thesis unfolding ledger_ok_def by blast
  qed
  have "distinct (map tk_id (av_tokens v'))" "distinct (map tk_digest (av_tokens v'))"
    using l by (simp_all add: v' ledger_ok_def)
  with tok uniq show ?thesis unfolding ledger_ok_def by blast
qed

lemma ledger_step: "auth_step A L t v v' \<Longrightarrow> ledger_ok v \<Longrightarrow> ledger_ok v'"
proof (induction rule: auth_step.induct)
  case (mint v e)
  then show ?case by (force simp: ledger_ok_def)
next
  case (admit e v n k g)
  show ?case by (rule ledger_grant [OF admit(6,1,2,5), of _ t n]) simp_all
next
  case (revive n e v k g)
  show ?case by (rule ledger_grant [OF revive(7,2,3,6), of _ t n]) simp_all
qed (auto simp: ledger_ok_def)

text \<open>A grant that is settled: its token is consumed and every recorded grant of the token is this one.\<close>

definition grant_settled :: "grant \<Rightarrow> auth_view \<Rightarrow> bool" where
  "grant_settled g v \<longleftrightarrow> (\<exists>e \<in> set (av_tokens v). tk_id e = gr_token g \<and> tk_consumedAt e \<noteq> None
     \<and> (\<forall>x \<in> set (av_grants v). rr_digest x = tk_digest e \<longrightarrow> rr_grant x = g))"

lemma settled_grant:
  assumes l: "ledger_ok v" and s: "grant_settled h v" and e: "e \<in> set (av_tokens v)" "tk_consumedAt e = None" and g: "grant_for e g (av_grants v)"
    and v': "av_tokens v' = consumed t (tk_id e) n (av_tokens v)" "av_grants v' = av_grants v @ [g]"
  shows "grant_settled h v'"
proof -
  obtain y where y: "y \<in> set (av_tokens v)" "tk_id y = gr_token h" "tk_consumedAt y \<noteq> None"
    "\<forall>x \<in> set (av_grants v). rr_digest x = tk_digest y \<longrightarrow> rr_grant x = h"
    using s unfolding grant_settled_def by blast
  have "tk_digest y \<noteq> tk_digest e"
    using y(1,3) e l by (metis distinct_map_eq ledger_ok_def)
  then have "\<forall>x \<in> set (av_grants v'). rr_digest x = tk_digest y \<longrightarrow> rr_grant x = h"
    using y(4) g by (auto simp: v' grant_for_def)
  with consumed_mem [OF y(1), of t "tk_id e" n] y(2,3) show ?thesis
    unfolding grant_settled_def v'(1) by metis
qed

lemma settled_step: "auth_step A L t v v' \<Longrightarrow> ledger_ok v \<and> grant_settled h v \<Longrightarrow> ledger_ok v' \<and> grant_settled h v'"
proof (intro conjI)
  assume st: "auth_step A L t v v'" and i: "ledger_ok v \<and> grant_settled h v"
  then show "ledger_ok v'" using ledger_step by blast
  from st i show "grant_settled h v'"
  proof (induction rule: auth_step.induct)
    case (mint v e)
    then show ?case by (auto simp: grant_settled_def)
  next
    case (admit e v n k g)
    show ?case
      by (rule settled_grant [OF conjunct1 [OF admit.prems] conjunct2 [OF admit.prems] admit.hyps(1,2,5), of _ t n]) simp_all
  next
    case (revive n e v k g)
    show ?case
      by (rule settled_grant [OF conjunct1 [OF revive.prems] conjunct2 [OF revive.prems] revive.hyps(2,3,6), of _ t n]) simp_all
  qed (auto simp: grant_settled_def)
qed

text \<open>The grant an operation answers.\<close>

fun reg_grant :: "platform \<Rightarrow> int \<Rightarrow> reg_op \<Rightarrow> reg \<Rightarrow> grant option" where
  "reg_grant P t (Enroll hex tok req pk actor) r =
     (case fst (enroll (p_ext P) t hex tok req pk actor r) of Inl e \<Rightarrow> None | Inr g \<Rightarrow> Some g)"
| "reg_grant P t (PairNode hex kp tok req pk actor) r =
     (case fst (pair_node (p_ext P) t hex kp tok req pk actor r) of Inl e \<Rightarrow> None | Inr g \<Rightarrow> Some g)"
| "reg_grant P t (Reenroll kp tok req pk q actor) r =
     (case fst (reenroll (p_ext P) t kp tok req pk q actor r) of Inl e \<Rightarrow> None | Inr g \<Rightarrow> Some g)"
| "reg_grant P t _ r = None"

definition recorded :: "grant \<Rightarrow> auth_view \<Rightarrow> bool" where
  "recorded g v \<longleftrightarrow> (\<exists>x \<in> set (av_grants v). rr_grant x = g)"

definition records :: "(denial + grant) \<times> reg \<Rightarrow> bool" where
  "records x \<longleftrightarrow> (case fst x of Inl e \<Rightarrow> True | Inr g \<Rightarrow> recorded g (view (snd x)))"

lemma records_intros:
  "(P \<Longrightarrow> records x) \<Longrightarrow> (\<not> P \<Longrightarrow> records y) \<Longrightarrow> records (if P then x else y)"
  "(z = None \<Longrightarrow> records x) \<Longrightarrow> (\<And>v. z = Some v \<Longrightarrow> records (f v)) \<Longrightarrow> records (case z of None \<Rightarrow> x | Some v \<Rightarrow> f v)"
  "(\<And>e. w = Inl e \<Longrightarrow> records (g e)) \<Longrightarrow> (\<And>v. w = Inr v \<Longrightarrow> records (h v)) \<Longrightarrow>
     records (case w of Inl e \<Rightarrow> g e | Inr v \<Rightarrow> h v)"
  "(l = [] \<Longrightarrow> records x) \<Longrightarrow> (\<And>v vs. l = v # vs \<Longrightarrow> records (k v vs)) \<Longrightarrow>
     records (case l of [] \<Rightarrow> x | v # vs \<Rightarrow> k v vs)"
  "records (Inl e, r)"
  by (auto simp: records_def split: option.split sum.split list.split)

lemma find_grant_recorded: "find_grant key kind r = Some x \<Longrightarrow> records (Inr (rr_grant x), r)"
  by (force simp: records_def recorded_def view_def find_grant_def find_Some_iff)

lemma replay_recorded: "records (replayOrDeny e kind key r, r)"
  by (cases "find_grant key kind r") (use find_grant_recorded in \<open>auto simp: replayOrDeny_def records_intros(5)\<close>)

lemma tx_recorded: "row \<in> set (av_grants (view r')) \<Longrightarrow> rr_grant row = g \<Longrightarrow> records (Inr g, r')"
  by (auto simp: records_def recorded_def)

lemma reenroll_tx_row:
  "reenroll_tx X t kp e pk req key old actor g r = Some r' \<Longrightarrow> result_for key (tk_digest e) req ''reenroll'' g t \<in> set (av_grants (view r'))"
  using reenroll_tx_view(1) [of X t kp e pk req key old actor g r r'] by (auto simp: Let_def revived_def)

lemma enroll_tx_row:
  "enroll_tx t e pk req key actor kind g r = Some r' \<Longrightarrow> result_for key (tk_digest e) req kind g t \<in> set (av_grants (view r'))"
  using enroll_tx_view(1) [of t e pk req key actor kind g r r'] by (simp add: admitted_def)

lemma pair_tx_row:
  "pair_tx X t kp e pk req key actor g r = Some r' \<Longrightarrow> result_for key (tk_digest e) req ''pair'' g t \<in> set (av_grants (view r'))"
  using pair_tx_view(1) [of X t kp e pk req key actor g r r'] by (simp add: admitted_def)

lemma enroll_records: "records (enroll X t hex token req pk actor r)"
  unfolding enroll_def Let_def commit_def
  by (intro records_intros replay_recorded)
    ((erule find_grant_recorded | (drule enroll_tx_row, erule tx_recorded, simp only: result_for_simps))+)

lemma pair_records: "records (pair_node X t hex kp token req pk actor r)"
  unfolding pair_node_def Let_def commit_def
  by (intro records_intros replay_recorded)
    ((erule find_grant_recorded | (drule pair_tx_row, erule tx_recorded, simp only: result_for_simps))+)

lemma reenroll_records: "records (reenroll X t kp token req pk q actor r)"
  unfolding reenroll_def Let_def commit_def
  by (intro records_intros replay_recorded)
    ((erule find_grant_recorded | (drule reenroll_tx_row, erule tx_recorded, simp only: result_for_simps))+)

lemma reg_grant_recorded:
  assumes "reg_grant P t op r = Some g"
  shows "recorded g (view (reg_exec P t op r))"
proof -
  have r: "recorded g (view (snd x))" if "records x" "(case fst x of Inl e \<Rightarrow> None | Inr g \<Rightarrow> Some g) = Some g" for x
    using that by (auto simp: records_def split: sum.splits)
  show ?thesis
    using assms by (cases op) (auto intro!: r enroll_records pair_records reenroll_records)
qed

lemma recorded_settled: "ledger_ok v \<Longrightarrow> recorded g v \<Longrightarrow> grant_settled g v"
  unfolding ledger_ok_def recorded_def grant_settled_def by metis

lemma settled_recorded:
  assumes "ledger_ok v" and "grant_settled g v" and "recorded g' v" and "gr_token g' = gr_token g"
  shows "g' = g"
proof -
  obtain e where e: "e \<in> set (av_tokens v)" "tk_id e = gr_token g"
    "\<forall>x \<in> set (av_grants v). rr_digest x = tk_digest e \<longrightarrow> rr_grant x = g"
    using assms(2) unfolding grant_settled_def by blast
  obtain x where x: "x \<in> set (av_grants v)" "rr_grant x = g'" using assms(3) unfolding recorded_def by blast
  then obtain e' where e': "e' \<in> set (av_tokens v)" "rr_digest x = tk_digest e'" "gr_token g' = tk_id e'"
    using assms(1) unfolding ledger_ok_def by blast
  have "e' = e" using assms(1,4) e e' by (metis distinct_map_eq ledger_ok_def)
  with e x e' show ?thesis by simp
qed

lemma ledger_run: "ledger_ok (view r) \<Longrightarrow> ledger_ok (view (reg_run P ops r))"
  by (rule reg_run_invariant [where A = UNIV and I = ledger_ok]) (auto simp: list_all_iff intro: ledger_step)

lemma settled_run:
  assumes "ledger_ok (view r)" and "grant_settled g (view r)"
  shows "grant_settled g (view (reg_run P ops r))"
proof -
  have "ledger_ok (view (reg_run P ops r)) \<and> grant_settled g (view (reg_run P ops r))"
    by (rule reg_run_invariant [where A = UNIV and I = "\<lambda>v. ledger_ok v \<and> grant_settled g v"])
      (use assms in \<open>auto simp: list_all_iff dest: settled_step [OF _ conjI]\<close>)
  then show ?thesis ..
qed

lemma reg_run_snoc: "reg_run P (ops @ [(t, op)]) r = reg_exec P t op (reg_run P ops r)"
  by (induction ops arbitrary: r) auto

lemma ledger_new: "new_registry c h d u = Some r \<Longrightarrow> ledger_ok (view r)"
  by (auto simp: new_registry_def ledger_ok_def view_def split: if_splits)

subsection \<open>Denials\<close>

text \<open>The operation answers a denial.\<close>

fun reg_denies :: "platform \<Rightarrow> int \<Rightarrow> reg_op \<Rightarrow> reg \<Rightarrow> bool" where
  "reg_denies P t (MintToken rnd actor purpose bound ttl) r = isl (fst (mintEnrollmentToken (p_ext P) t rnd actor purpose bound ttl r))"
| "reg_denies P t (Enroll hex tok req pk actor) r = isl (fst (enroll (p_ext P) t hex tok req pk actor r))"
| "reg_denies P t (PairNode hex kp tok req pk actor) r = isl (fst (pair_node (p_ext P) t hex kp tok req pk actor r))"
| "reg_denies P t (Reenroll kp tok req pk q actor) r = isl (fst (reenroll (p_ext P) t kp tok req pk q actor r))"
| "reg_denies P t (Heartbeat kp q body) r = isl (fst (heartbeat (p_ext P) (p_iso P) t kp q body r))"
| "reg_denies P t (UploadReport q body) r = isl (fst (uploadReport (p_ext P) (p_num P) t q body r))"
| "reg_denies P t (RotateCredential q body) r = isl (fst (rotateCredential (p_ext P) t q body r))"
| "reg_denies P t (DeleteNode actor n req why) r = isl (fst (deleteNode t actor n req why r))"
| "reg_denies P t (SetRouteTarget actor n target) r = isl (fst (setRouteTarget (p_url P) t actor n target r))"
| "reg_denies P t (RemoveRouteTarget actor n) r = isl (fst (removeRouteTarget t actor n r))"
| "reg_denies P t (SetRouteMode actor n mode) r = isl (fst (setRouteMode t actor n mode r))"
| "reg_denies P t (RotateHubKey actor n kp) r = isl (fst (rotateHubRouteKey (x_sha (p_ext P)) t actor n kp r))"
| "reg_denies P t (BootstrapSession rnd who) r = isl (fst (bootstrapSession t rnd who r))"
| "reg_denies P t _ r = False"

text \<open>What a machine request leaves behind when it is authenticated and then denied.\<close>

fun machine_nonce :: "platform \<Rightarrow> int \<Rightarrow> reg_op \<Rightarrow> reg \<Rightarrow> reg option" where
  "machine_nonce P t (Heartbeat kp q body) r = (case authenticateMachine (p_ext P) t q r of (Inl e, r1) \<Rightarrow> None | (Inr p, r1) \<Rightarrow> Some r1)"
| "machine_nonce P t (UploadReport q body) r = (case authenticateMachine (p_ext P) t q r of (Inl e, r1) \<Rightarrow> None | (Inr p, r1) \<Rightarrow> Some r1)"
| "machine_nonce P t (RotateCredential q body) r = (case authenticateMachine (p_ext P) t q r of (Inl e, r1) \<Rightarrow> None | (Inr p, r1) \<Rightarrow> Some r1)"
| "machine_nonce P t _ r = None"

definition atomic :: "reg \<Rightarrow> ('e + 'a) \<times> reg \<Rightarrow> bool" where
  "atomic r x \<longleftrightarrow> isl (fst x) \<longrightarrow> snd x = r"

lemma atomic_intros:
  "(P \<Longrightarrow> atomic r x) \<Longrightarrow> (\<not> P \<Longrightarrow> atomic r y) \<Longrightarrow> atomic r (if P then x else y)"
  "(z = None \<Longrightarrow> atomic r x) \<Longrightarrow> (\<And>v. z = Some v \<Longrightarrow> atomic r (f v)) \<Longrightarrow> atomic r (case z of None \<Rightarrow> x | Some v \<Rightarrow> f v)"
  "(\<And>e. w = Inl e \<Longrightarrow> atomic r (g e)) \<Longrightarrow> (\<And>v. w = Inr v \<Longrightarrow> atomic r (h v)) \<Longrightarrow>
     atomic r (case w of Inl e \<Rightarrow> g e | Inr v \<Rightarrow> h v)"
  "(l = [] \<Longrightarrow> atomic r x) \<Longrightarrow> (\<And>v vs. l = v # vs \<Longrightarrow> atomic r (k v vs)) \<Longrightarrow>
     atomic r (case l of [] \<Rightarrow> x | v # vs \<Rightarrow> k v vs)"
  "atomic r (w, r)" "atomic r (Inr a, s)"
  by (auto simp: atomic_def split: option.split sum.split list.split)

lemma atomic_operations:
  "atomic r (mintEnrollmentToken X t rnd actor purpose bound ttl r)" "atomic r (enroll X t hex tok req pk actor r)"
  "atomic r (pair_node X t hex kp tok req pk actor r)" "atomic r (reenroll X t kp tok req pk q actor r)"
  "atomic r (heartbeatAuthenticated X isoT t kp n body r)" "atomic r (uploadReportAuthenticated num t n body r)"
  "atomic r (rotateCredentialAuthenticated X t n key body r)" "atomic r (deleteNode t actor nid rid why r)"
  "atomic r (setRouteTarget u t actor n target r)" "atomic r (removeRouteTarget t actor n r)"
  "atomic r (setRouteMode t actor n m r)" "atomic r (rotateHubRouteKey sha t actor n kp r)"
  "atomic r (bootstrapSession t ids who r)"
  unfolding mintEnrollmentToken_def enroll_def pair_node_def reenroll_def heartbeatAuthenticated_def
    uploadReportAuthenticated_def rotateCredentialAuthenticated_def deleteNode_def setRouteTarget_def removeRouteTarget_def
    setRouteMode_def rotateHubRouteKey_def bootstrapSession_def commit_def Let_def
  by (intro atomic_intros)+

lemma atomicD: "atomic r x \<Longrightarrow> isl (fst x) \<Longrightarrow> snd x = r"
  by (simp add: atomic_def)

lemma machine_denied:
  assumes "\<And>x key r1. atomic r1 (h x key r1)"
    and "isl (fst (case authenticateMachine X t q r of (Inl e, r1) \<Rightarrow> (Inl e, r1) | (Inr (x, key), r1) \<Rightarrow> h x key r1))"
  shows "snd (case authenticateMachine X t q r of (Inl e, r1) \<Rightarrow> (Inl e, r1) | (Inr (x, key), r1) \<Rightarrow> h x key r1)
    = (case (case authenticateMachine X t q r of (Inl e, r1) \<Rightarrow> None | (Inr p, r1) \<Rightarrow> Some r1) of None \<Rightarrow> r | Some r1 \<Rightarrow> r1)"
proof (cases "\<exists>p r'. authenticateMachine X t q r = (Inr p, r')")
  case True
  then obtain x key r' where a: "authenticateMachine X t q r = (Inr (x, key), r')" by auto
  show ?thesis using assms(2) atomicD [OF assms(1) [where x = x and key = key and ?r1.0 = r']] by (simp add: a)
next
  case False
  from authenticate_denied [OF this] show ?thesis by auto
qed

definition ex_ext :: externals where
  "ex_ext = \<lparr>x_sha = \<lambda>s. replicate 64 (CHR ''0''), x_digest = \<lambda>s. s, x_verify = \<lambda>pk m s. s = replicate 128 (CHR ''a'')\<rparr>"

definition ex_platform :: platform where
  "ex_platform = \<lparr>p_ext = ex_ext, p_iso = \<lambda>t. [], p_num = \<lambda>x. [], p_url = \<lambda>s. None, p_sign = \<lambda>k m. [], p_domain = ''dsh.example.com''\<rparr>"

definition ex_id :: str where "ex_id = ''node_00112233445566778899aabbccddeeff''"
definition ex_kid :: str where "ex_kid = replicate 32 (CHR ''1'')"

definition ex_enrolled :: reg where
  "ex_enrolled = (the (new_registry 60 24 7 None))\<lparr>nodes := [new_node ex_id ''direct'' 0], node_keys := [new_key ex_id ex_kid (replicate 64 (CHR ''b'')) 0]\<rparr>"

definition ex_signed :: "str \<Rightarrow> signed_request" where
  "ex_signed c = \<lparr>sq_node = JStr ex_id, sq_key = JStr ex_kid, sq_method = ''POST'', sq_path = ''/api/heartbeat'', sq_timestamp = JStr ''100'',
     sq_nonce = JStr c, sq_bodyHash = [], sq_signature = JStr (replicate 128 (CHR ''a''))\<rparr>"

subsection \<open>The overlap of a credential rotation\<close>

text \<open>
  The rotated-out key stays usable during the overlap, also for another rotation, which sets its end anew: a
  key rotated out at hour 0 with an overlap of 24 hours authenticates at hour 46.
\<close>

definition ex_rotate :: "int \<Rightarrow> char \<Rightarrow> reg \<Rightarrow> (denial + str \<times> str \<times> int) \<times> reg" where
  "ex_rotate hour c r = rotateCredential (ex_ext\<lparr>x_sha := ex_sha\<rparr>) (hour * 3600000)
     ((ex_signed (replicate 32 c))\<lparr>sq_timestamp := JStr (dec_of_nat (nat hour * 3600))\<rparr>)
     (Some (JObj [(''newPublicKey'', JStr (replicate 64 c))])) r"

lemma old_key_extends_overlap:
  "let r1 = snd (ex_rotate 0 (CHR ''2'') ex_enrolled); r2 = snd (ex_rotate 23 (CHR ''3'') r1) in
   map_option nk_revokeAfter (deriveKeyRow ex_id ex_kid r1) = Some (Some (24 * 3600000))
   \<and> \<not> isl (fst (ex_rotate 46 (CHR ''4'') r2))"
  by code_simp

section \<open>Properties\<close>

text \<open>
  C5. A deleted node is locked out: whatever operations follow, no request in its name is authenticated while
  none of them re-enrolls it, and no request with a key that was active at the deletion ever again. The
  registry does not even record the nonce of such a request.
\<close>

theorem deleted_node_locked_out:
  assumes "deleteNode t actor nodeId requestId reason r = (Inr (n, False), r')" and "sq_node q = JStr n"
    and "list_all (\<lambda>top. n \<notin> revivable (snd top)) ops
      \<or> (case sq_key q of JStr k \<Rightarrow> map_option nk_state (deriveKeyRow n k r) = Some ''active'' | _ \<Rightarrow> False)"
  shows "\<exists>e. authenticateMachine (p_ext P) t' q (reg_run P ops r') = (Inl e, reg_run P ops r')"
proof (cases "list_all (\<lambda>top. n \<notin> revivable (snd top)) ops")
  case True
  have "buried n (view (reg_run P ops r'))"
    by (rule reg_run_invariant [where A = "- {n}" and I = "buried n", OF deleted_dead(1) [OF assms(1)]])
      (use True in \<open>auto simp: list_all_iff intro: buried_step\<close>)
  then show ?thesis using assms(2) by (rule buried_denied)
next
  case False
  then obtain k row where k: "sq_key q = JStr k" "deriveKeyRow n k r = Some row" "nk_state row = ''active''"
    using assms(3) by (auto split: jsval.splits)
  have "key_dead n k (view (reg_run P ops r'))"
    by (rule reg_run_invariant [where A = UNIV and I = "key_dead n k", OF deleted_dead(2) [OF assms(1) k(2,3)]])
      (auto simp: list_all_iff intro: key_dead_step)
  then show ?thesis using assms(2) k(1) by (rule dead_key_denied)
qed

theorem deleted_node_locked_out_witness:
  "let r' = snd (deleteNode 90000 ''op'' (JStr ex_id) (JStr (replicate 32 (CHR ''c''))) (JStr ''gone'') ex_enrolled);
       q = ex_signed (replicate 32 (CHR ''7''))
   in isl (fst (authenticateMachine ex_ext 100000 q (reg_run ex_platform [(95000, Maintain (\<lambda>_. 95000))] r')))
     \<and> \<not> isl (fst (authenticateMachine ex_ext 100000 q ex_enrolled))"
proof -
  let ?d = "deleteNode 90000 ''op'' (JStr ex_id) (JStr (replicate 32 (CHR ''c''))) (JStr ''gone'') ex_enrolled"
  let ?q = "ex_signed (replicate 32 (CHR ''7''))" and ?ops = "[(95000, Maintain (\<lambda>_. 95000))]"
  have d: "?d = (Inr (ex_id, False), snd ?d)"
  proof -
    have "fst ?d = Inr (ex_id, False)" by code_simp
    then show ?thesis by (metis prod.collapse)
  qed
  have n: "sq_node ?q = JStr ex_id" by (simp add: ex_signed_def)
  have "\<exists>e. authenticateMachine (p_ext ex_platform) 100000 ?q (reg_run ex_platform ?ops (snd ?d)) = (Inl e, reg_run ex_platform ?ops (snd ?d))"
    by (rule deleted_node_locked_out [OF d n]) simp
  moreover have "\<not> isl (fst (authenticateMachine ex_ext 100000 ?q ex_enrolled))" by code_simp
  ultimately show ?thesis unfolding Let_def by (auto simp: ex_platform_def simp del: reg_run.simps)
qed

text \<open>
  C9. A machine request is accepted at most once: after an accepted request no request with its node, nonce
  and timestamp is authenticated at any later time, whatever operations run in between, purges of the nonce
  table included; the time stamp is refused before its nonce may be forgotten.
\<close>

theorem machine_request_accepted_once:
  assumes "omap_wf (seen_nonces r)" and "authenticateMachine X t q r = (Inr p, r1)"
    and "sorted (t # map fst ops)" and "last (t # map fst ops) \<le> t2"
    and "sq_node q' = sq_node q" and "sq_nonce q' = sq_nonce q" and "sq_timestamp q' = sq_timestamp q"
  shows "isl (fst (authenticateMachine X' t2 q' (reg_run P ops r1)))"
proof (rule ccontr)
  assume "\<not> isl (fst (authenticateMachine X' t2 q' (reg_run P ops r1)))"
  then obtain x' key' r2 where 2: "authenticateMachine X' t2 q' (reg_run P ops r1) = (Inr (x', key'), r2)"
    by (metis prod.collapse sum.collapse(2))
  obtain x key where p: "p = (x, key)" by (cases p)
  obtain c where c: "check_machine X t q r = Inr (x, key, c)" "fst (reserveNonce t (hn_id x, c) r)"
    "r1 = snd (reserveNonce t (hn_id x, c) r)"
    using authenticate_ok [OF assms(2) [unfolded p]] by blast
  obtain c' where c': "check_machine X' t2 q' (reg_run P ops r1) = Inr (x', key', c')"
    "fst (reserveNonce t2 (hn_id x', c') (reg_run P ops r1))"
    using authenticate_ok [OF 2] by blast
  from c(1) obtain n where n: "sq_node q = JStr n" "sq_nonce q = JStr c" "hn_id x = n" "\<not> out_of_skew t (sq_time q)"
    by (elim check_machine_ok) (auto dest: getNodeRow_id)
  from c'(1) obtain n' where n': "sq_node q' = JStr n'" "sq_nonce q' = JStr c'" "hn_id x' = n'" "\<not> out_of_skew t2 (sq_time q')"
    by (elim check_machine_ok) (auto dest: getNodeRow_id)
  have same: "n' = n" "c' = c" "sq_time q' = sq_time q" using n n' assms(5-7) by (simp_all add: sq_time_def)
  have "t \<le> t2" using assms(3,4) by (rule sorted_last)
  moreover have "t2 \<le> t + (NONCE_RETENTION_MS - 1)"
    using n(4) n'(4) same(3) by (simp add: out_of_skew_def SIGNATURE_SKEW_SECONDS_def NONCE_RETENTION_MS_def)
  ultimately have "\<not> fst (reserveNonce t2 (n, c) (reg_run P ops r1))"
    using machine_nonces.no_replay [OF assms(1), of t "(n, c)" "reg_trace P ops r1" "last (t # map fst ops)" "reg_run P ops r1" t2]
      c(2,3) n(3) assms(3,4) by (simp add: reg_trace_guarded reg_trace_end)
  with c'(2) n'(3) same show False by simp
qed

theorem machine_request_accepted_once_witness:
  "let q = ex_signed (replicate 32 (CHR ''7'')) in
   isl (fst (authenticateMachine ex_ext 110000 q
     (reg_run ex_platform [(105000, Maintain (\<lambda>_. 105000))] (snd (authenticateMachine ex_ext 100000 q ex_enrolled)))))"
proof -
  let ?q = "ex_signed (replicate 32 (CHR ''7''))"
  have ok: "\<not> isl (fst (authenticateMachine ex_ext 100000 ?q ex_enrolled))" by code_simp
  then have a: "authenticateMachine ex_ext 100000 ?q ex_enrolled
      = (Inr (projr (fst (authenticateMachine ex_ext 100000 ?q ex_enrolled))), snd (authenticateMachine ex_ext 100000 ?q ex_enrolled))"
    by (metis prod.collapse sum.collapse(2))
  have wf: "omap_wf (seen_nonces ex_enrolled)" by (simp add: ex_enrolled_def new_registry_def)
  show ?thesis unfolding Let_def
    by (rule machine_request_accepted_once [OF wf a]) simp_all
qed

text \<open>
  C21. Whoever passes machine authentication has signed exactly this request with a usable key of an active
  node: the row of the key belongs to the named node and is active and not past its overlap, the signature
  verifies on method, path, timestamp, nonce, body hash and node, the time is within the skew window, and
  the nonce is new and on record afterwards; nothing else changes.
\<close>

theorem authenticated_request_was_signed:
  assumes "authenticateMachine X t q r = (Inr (x, key), r')"
  shows "\<exists>n k sig c. sq_node q = JStr n \<and> sq_key q = JStr k \<and> sq_signature q = JStr sig \<and> sq_nonce q = JStr c
    \<and> getNodeRow n r = Some x \<and> hn_state x = ''active''
    \<and> deriveKeyRow n k r = Some key \<and> key_usable t key
    \<and> \<bar>t - 1000 * epoch_seconds (sq_time q)\<bar> \<le> 30000
    \<and> x_verify X (nk_public key) (buildSigningString MACHINE_V1_LABEL (sq_method q) (sq_path q) (sq_time q) c (sq_bodyHash q) n) sig
    \<and> map_of (seen_nonces r) (n, c) = None \<and> r' = r\<lparr>seen_nonces := AList.update (n, c) t (seen_nonces r)\<rparr>"
proof -
  obtain c where c: "check_machine X t q r = Inr (x, key, c)" "fst (reserveNonce t (hn_id x, c) r)"
    "r' = snd (reserveNonce t (hn_id x, c) r)"
    using authenticate_ok [OF assms] by blast
  from c(1) obtain n k sig where w: "sq_node q = JStr n" "sq_key q = JStr k" "sq_signature q = JStr sig" "sq_nonce q = JStr c"
    "\<not> out_of_skew t (sq_time q)" "getNodeRow n r = Some x" "hn_state x = ''active''" "deriveKeyRow n k r = Some key" "key_usable t key"
    "verifySigningString (x_verify X) (nk_public key)
       (buildSigningString MACHINE_V1_LABEL (sq_method q) (sq_path q) (sq_time q) c (sq_bodyHash q) n) sig = Inr True"
    by (rule check_machine_ok)
  have "hn_id x = n" using w(6) getNodeRow_id by blast
  moreover have "x_verify X (nk_public key)
      (buildSigningString MACHINE_V1_LABEL (sq_method q) (sq_path q) (sq_time q) c (sq_bodyHash q) n) sig"
    using w(10) by (simp add: verifySigningString_def split: if_splits)
  moreover have "\<bar>t - 1000 * epoch_seconds (sq_time q)\<bar> \<le> 30000"
    using w(5) by (simp add: out_of_skew_def SIGNATURE_SKEW_SECONDS_def)
  ultimately show ?thesis
    using w(1-9) c(2,3) by (auto simp: reserveNonce_def insert_nonce_def split: if_splits)
qed

theorem authenticated_request_was_signed_witness:
  "let q = ex_signed (replicate 32 (CHR ''7'')) in
   \<exists>n k sig c x key. sq_node q = JStr n \<and> sq_key q = JStr k \<and> sq_signature q = JStr sig \<and> sq_nonce q = JStr c
    \<and> deriveKeyRow n k ex_enrolled = Some key \<and> getNodeRow n ex_enrolled = Some x"
proof -
  let ?q = "ex_signed (replicate 32 (CHR ''7''))" and ?a = "authenticateMachine ex_ext 100000 (ex_signed (replicate 32 (CHR ''7''))) ex_enrolled"
  have "\<not> isl (fst ?a)" by code_simp
  then have "?a = (Inr (fst (projr (fst ?a)), snd (projr (fst ?a))), snd ?a)" by (metis prod.collapse sum.collapse(2))
  from authenticated_request_was_signed [OF this] show ?thesis unfolding Let_def by blast
qed

text \<open>
  C15. A token is good for one grant: two enrollments, pairings or re-enrollments of one registry that answer
  with the same token answer with the same node, key and parameters, however many operations, purges and
  repetitions lie between them.
\<close>

theorem token_grants_once:
  assumes "new_registry c h d u = Some r0" and "r = reg_run P ops0 r0"
    and "reg_grant P t op r = Some g"
    and "reg_grant P t' op' (reg_run P ops (reg_exec P t op r)) = Some g'"
    and "gr_token g' = gr_token g"
  shows "g' = g"
proof -
  let ?r1 = "reg_exec P t op r" and ?r2 = "reg_run P ops (reg_exec P t op r)"
  have l1: "ledger_ok (view ?r1)"
    using ledger_run [OF ledger_new [OF assms(1)], of P "ops0 @ [(t, op)]"] by (simp add: reg_run_snoc assms(2))
  have s1: "grant_settled g (view ?r1)" by (rule recorded_settled [OF l1 reg_grant_recorded [OF assms(3)]])
  have "reg_exec P t' op' ?r2 = reg_run P (ops @ [(t', op')]) ?r1" by (simp add: reg_run_snoc)
  then have "ledger_ok (view (reg_exec P t' op' ?r2))" "grant_settled g (view (reg_exec P t' op' ?r2))"
    using ledger_run [OF l1] settled_run [OF l1 s1] by simp_all
  then show ?thesis using reg_grant_recorded [OF assms(4)] assms(5) by (rule settled_recorded)
qed

theorem token_grants_once_witness:
  "let r0 = the (new_registry 60 24 7 None); tok = replicate 32 (CHR ''d'');
       r = reg_run ex_platform [(0, MintToken (tok, ''1'') ''op'' ''enroll'' None 600)] r0;
       op = Enroll (replicate 32 (CHR ''e'')) (JStr tok) (JStr (replicate 32 (CHR ''c''))) (JStr (replicate 64 (CHR ''b''))) ''system'';
       op' = Enroll (replicate 32 (CHR ''f'')) (JStr tok) (JStr (replicate 32 (CHR ''c''))) (JStr (replicate 64 (CHR ''b''))) ''system'';
       g = the (reg_grant ex_platform 1000 op r); g' = the (reg_grant ex_platform 900000 op' (reg_exec ex_platform 1000 op r))
   in g' = g \<and> gr_node g = ''node_'' @ replicate 32 (CHR ''e'')"
proof -
  let ?base = "the (new_registry 60 24 7 None)" and ?tok = "replicate 32 (CHR ''d'')"
  let ?m = "[(0, MintToken (?tok, ''1'') ''op'' ''enroll'' None 600)]"
  let ?r = "reg_run ex_platform ?m ?base"
  let ?op = "\<lambda>c. Enroll (replicate 32 c) (JStr ?tok) (JStr (replicate 32 (CHR ''c''))) (JStr (replicate 64 (CHR ''b''))) ''system''"
  let ?g = "reg_grant ex_platform 1000 (?op (CHR ''e'')) ?r"
  let ?g' = "reg_grant ex_platform 900000 (?op (CHR ''f'')) (reg_run ex_platform [] (reg_exec ex_platform 1000 (?op (CHR ''e'')) ?r))"
  have n: "new_registry 60 24 7 None = Some ?base"  by (unfold new_registry_def) simp
  have v: "?g = Some \<lparr>gr_node = ''node_'' @ replicate 32 (CHR ''e''), gr_key = replicate 32 (CHR ''0''), gr_token = ''etok_1'', gr_cadence = 60, gr_hubBaseUrl = None\<rparr>"
    by code_simp
  have s: "map_option gr_token ?g' = Some ''etok_1''"
    by code_simp
  have g: "?g = Some (the ?g)" using v by simp
  have g': "?g' = Some (the ?g')" using s by (cases ?g') simp_all
  have "gr_token (the ?g') = gr_token (the ?g)" using s v g' by (metis grant.select_convs(3) option.map(2) option.sel)
  from token_grants_once [OF n refl g g' this, unfolded reg_run.simps(1)] show ?thesis
    unfolding Let_def by (simp only: v option.sel grant.select_convs simp_thms)
qed

text \<open>
  C24. A denied operation changes nothing: the registry is as before, except that a machine request that was
  authenticated before its handler denied it leaves its nonce on record.
\<close>

theorem denied_operation_changes_nothing:
  assumes "reg_denies P t op r"
  shows "reg_exec P t op r = (case machine_nonce P t op r of None \<Rightarrow> r | Some r1 \<Rightarrow> r1)"
  using assms
proof (cases op)
  case (Heartbeat kp q body)
  then show ?thesis using assms machine_denied [OF atomic_operations(5)] by (simp add: heartbeat_def)
next
  case (UploadReport q body)
  then show ?thesis using assms machine_denied [OF atomic_operations(6)] by (simp add: uploadReport_def)
next
  case (RotateCredential q body)
  then show ?thesis using assms machine_denied [OF atomic_operations(7)] by (simp add: rotateCredential_def)
qed (use assms in \<open>simp_all add: atomicD [OF atomic_operations(1)] atomicD [OF atomic_operations(2)] atomicD [OF atomic_operations(3)]
  atomicD [OF atomic_operations(4)] atomicD [OF atomic_operations(8)] atomicD [OF atomic_operations(9)] atomicD [OF atomic_operations(10)]
  atomicD [OF atomic_operations(11)] atomicD [OF atomic_operations(12)] atomicD [OF atomic_operations(13)]\<close>)

theorem denied_operation_changes_nothing_witness:
  "reg_exec ex_platform 0 (SetRouteMode ''op'' ex_id ''sideways'') ex_enrolled = ex_enrolled"
proof -
  have "reg_denies ex_platform 0 (SetRouteMode ''op'' ex_id ''sideways'') ex_enrolled" by code_simp
  from denied_operation_changes_nothing [OF this] show ?thesis by simp
qed

end
