(* ===== verification/QrField.thy ===== *)
theory QrField
  imports Prelude "HOL-Library.Word"
begin

text \<open>
  The arithmetic of \<^verbatim>\<open>src/plugin/qr-svg.mjs\<close>: the exponent and logarithm tables of GF(256), multiplication
  by table lookup, the Reed-Solomon generator polynomial and the error correction codewords. Field elements
  are 8-bit words, as the \<open>Uint8Array\<close>s hold them; array writes are list updates. The lemmas show that
  the tables compute the multiplication of polynomials modulo the primitive polynomial, and that data and
  codewords together are a multiple of the generator polynomial.
\<close>

unbundle bit_operations_syntax

type_synonym octet = "8 word"

section \<open>Tables and loops\<close>

definition gf_double :: "octet \<Rightarrow> octet" where
  "gf_double val = push_bit 1 val XOR (if bit val 7 then 0x11d else 0)"

definition gf_entry :: "nat \<Rightarrow> octet \<times> octet list \<times> nat list \<Rightarrow> octet \<times> octet list \<times> nat list" where
  "gf_entry i = (\<lambda>(val, exps, logs). (gf_double val, exps[i := val, i + 255 := val], logs[unat val := i]))"

definition initGf256 :: "octet list \<times> nat list" where
  "initGf256 = (case fold gf_entry [0..<255] (1, replicate 512 0, replicate 256 0) of
     (val, exps, logs) \<Rightarrow> (exps, logs[0 := 0]))"

definition GF256_EXP :: "octet list" where
  "GF256_EXP = fst initGf256"

definition GF256_LOG :: "nat list" where
  "GF256_LOG = snd initGf256"

definition gfMultiply :: "octet \<Rightarrow> octet \<Rightarrow> octet" where
  "gfMultiply a b =
     (if a = 0 \<or> b = 0 then 0 else GF256_EXP ! (GF256_LOG ! unat a + GF256_LOG ! unat b))"

definition times_factor :: "octet list \<Rightarrow> octet list \<Rightarrow> octet list" where
  "times_factor poly factor =
     fold (\<lambda>j newPoly.
         let newPoly = newPoly[j := newPoly ! j XOR gfMultiply (poly ! j) (factor ! 0)]
         in newPoly[j + 1 := newPoly ! (j + 1) XOR gfMultiply (poly ! j) (factor ! 1)])
       [0..<length poly] (replicate (length poly + 1) 0)"

definition rsGeneratorPolynomial :: "nat \<Rightarrow> octet list" where
  "rsGeneratorPolynomial degree = fold (\<lambda>i poly. times_factor poly [1, GF256_EXP ! i]) [0..<degree] [1]"

definition rs_step :: "nat \<Rightarrow> octet list \<Rightarrow> octet \<Rightarrow> octet list \<Rightarrow> octet list" where
  "rs_step ecCount genPoly d remainder =
     (let factor = d XOR remainder ! 0;
          remainder = fold (\<lambda>j remainder.
              remainder[j := remainder ! (j + 1) XOR gfMultiply factor (genPoly ! (j + 1))])
            [0..<ecCount - 1] remainder
      in remainder[ecCount - 1 := gfMultiply factor (genPoly ! ecCount)])"

definition rsComputeCodewords :: "octet list \<Rightarrow> nat \<Rightarrow> octet list" where
  "rsComputeCodewords xs ecCount =
     fold (rs_step ecCount (rsGeneratorPolynomial ecCount)) xs (replicate ecCount 0)"

section \<open>Multiplication of polynomials modulo the primitive polynomial\<close>

text \<open>The reference: the sum of the multiples of \<open>a\<close> by the powers of \<open>x\<close> that occur in \<open>b\<close>.\<close>

definition power_of :: "nat \<Rightarrow> octet \<Rightarrow> octet" where
  "power_of i a = (gf_double ^^ i) a"

definition poly_times :: "octet \<Rightarrow> octet \<Rightarrow> octet" where
  "poly_times a b = foldr (\<lambda>i acc. acc XOR (if bit b i then power_of i a else 0)) [0..<8] 0"

lemma gf_double_xor: "gf_double (a XOR b) = gf_double a XOR gf_double b"
  by (cases "bit a 7"; cases "bit b 7") (simp_all add: gf_double_def bit_simps ac_simps)

lemma power_of_xor: "power_of i (a XOR b) = power_of i a XOR power_of i b"
  by (induction i) (simp_all add: power_of_def gf_double_xor)

lemma power_of_0 [simp]: "power_of i 0 = 0"
  by (induction i) (simp_all add: power_of_def gf_double_def)

lemma power_of_add: "power_of i (power_of j a) = power_of (i + j) a"
  by (simp add: power_of_def funpow_add)

lemma power_of_Suc: "power_of (Suc i) a = gf_double (power_of i a)"
  by (simp add: power_of_def)


lemma poly_times_sum:
  "poly_times a b = (if bit b 0 then power_of 0 a else 0) XOR (if bit b 1 then power_of 1 a else 0)
     XOR (if bit b 2 then power_of 2 a else 0) XOR (if bit b 3 then power_of 3 a else 0)
     XOR (if bit b 4 then power_of 4 a else 0) XOR (if bit b 5 then power_of 5 a else 0)
     XOR (if bit b 6 then power_of 6 a else 0) XOR (if bit b 7 then power_of 7 a else 0)"
proof -
  have "[0..<8] = [0, 1, 2, 3, 4, 5, 6, 7::nat]" by (simp add: upt_rec)
  then show ?thesis unfolding poly_times_def by (simp add: ac_simps)
qed


text \<open>An octet as its eight bits, so that concrete doublings are computed on truth values.\<close>

type_synonym bits8 = "bool \<times> bool \<times> bool \<times> bool \<times> bool \<times> bool \<times> bool \<times> bool"

definition to_bits8 :: "octet \<Rightarrow> bits8" where
  "to_bits8 a = (bit a 7, bit a 6, bit a 5, bit a 4, bit a 3, bit a 2, bit a 1, bit a 0)"

fun double8 :: "bits8 \<Rightarrow> bits8" where
  "double8 (h, g, f, e, d, c, b, a) = (g, f, e, d \<noteq> h, c \<noteq> h, b \<noteq> h, a, h)"

fun xor8 :: "bits8 \<Rightarrow> bits8 \<Rightarrow> bits8" where
  "xor8 (h, g, f, e, d, c, b, a) (h', g', f', e', d', c', b', a') =
     (h \<noteq> h', g \<noteq> g', f \<noteq> f', e \<noteq> e', d \<noteq> d', c \<noteq> c', b \<noteq> b', a \<noteq> a')"

fun double8s :: "nat \<Rightarrow> bits8 \<Rightarrow> bits8" where
  "double8s 0 x = x"
| "double8s (Suc n) x = double8s n (double8 x)"

lemma to_bits8_inject: "to_bits8 a = to_bits8 b \<longleftrightarrow> a = b"
proof
  assume e: "to_bits8 a = to_bits8 b"
  show "a = b"
  proof (rule bit_word_eqI)
    fix n :: nat assume "n < LENGTH(8)"
    then have "n \<in> {0, 1, 2, 3, 4, 5, 6, 7}" by auto
    then show "bit a n = bit b n" using e by (auto simp: to_bits8_def)
  qed
qed simp

lemma to_bits8_double: "to_bits8 (gf_double a) = double8 (to_bits8 a)"
  unfolding gf_double_def to_bits8_def bit_xor_iff bit_push_bit_iff by simp

lemma to_bits8_xor: "to_bits8 (a XOR b) = xor8 (to_bits8 a) (to_bits8 b)"
  by (simp add: to_bits8_def bit_xor_iff)

lemma to_bits8_power: "to_bits8 (power_of i a) = double8s i (to_bits8 a)"
  by (induction i arbitrary: a) (simp_all add: power_of_def to_bits8_double [symmetric] funpow_swap1)

lemma double8s_numeral: "double8s (numeral k) x = double8s (pred_numeral k) (double8 x)"
  by (simp add: numeral_eq_Suc)

lemmas compute8 = to_bits8_inject [symmetric] to_bits8_xor to_bits8_power double8s_numeral

lemma to_bits8_1: "to_bits8 1 = (False, False, False, False, False, False, False, True)"
  by (simp add: to_bits8_def)

lemma power_of_orders: "power_of 255 1 = 1" "power_of 85 1 \<noteq> 1" "power_of 51 1 \<noteq> 1" "power_of 15 1 \<noteq> 1"
  by (simp_all add: compute8 to_bits8_1)

lemma octet_bits:
  "(a::octet) = (if bit a 0 then 1 else 0) XOR (if bit a 1 then 2 else 0) XOR (if bit a 2 then 4 else 0)
     XOR (if bit a 3 then 8 else 0) XOR (if bit a 4 then 16 else 0) XOR (if bit a 5 then 32 else 0)
     XOR (if bit a 6 then 64 else 0) XOR (if bit a 7 then 128 else 0)"
  by (simp add: to_bits8_inject [symmetric] to_bits8_xor to_bits8_def)

lemma linear_ext:
  fixes f g :: "octet \<Rightarrow> octet"
  assumes "\<And>a b. f (a XOR b) = f a XOR f b" "\<And>a b. g (a XOR b) = g a XOR g b"
    and "list_all (\<lambda>e. f e = g e) [1, 2, 4, 8, 16, 32, 64, 128]"
  shows "f a = g a"
proof -
  have z: "f 0 = 0" "g 0 = 0" using assms(1) [of 0 0] assms(2) [of 0 0] by simp_all
  show ?thesis
    apply (subst (1 2) octet_bits [of a])
    using assms(3) by (simp add: assms(1,2) if_distrib [of f] if_distrib [of g] z cong: if_cong)
qed

lemma power_of_8: "power_of 8 a = power_of 4 a XOR power_of 3 a XOR power_of 2 a XOR a"
proof (rule linear_ext [where f = "power_of 8" and g = "\<lambda>a. power_of 4 a XOR power_of 3 a XOR power_of 2 a XOR a"])
  show "power_of 8 (a XOR b) = power_of 8 a XOR power_of 8 b" for a b by (rule power_of_xor)
  show "power_of 4 (a XOR b) XOR power_of 3 (a XOR b) XOR power_of 2 (a XOR b) XOR (a XOR b) =
    (power_of 4 a XOR power_of 3 a XOR power_of 2 a XOR a) XOR (power_of 4 b XOR power_of 3 b XOR power_of 2 b XOR b)" for a b
    by (simp add: power_of_xor ac_simps)
  show "list_all (\<lambda>e. power_of 8 e = power_of 4 e XOR power_of 3 e XOR power_of 2 e XOR e) [1, 2, 4, 8, 16, 32, 64, 128]"
    by (simp add: compute8) (simp add: to_bits8_def)
qed

lemma if_xor_zero: "(if P then x XOR y else (0::octet)) = (if P then x else 0) XOR (if P then y else 0)"
  "(if P \<noteq> Q then x else (0::octet)) = (if P then x else 0) XOR (if Q then x else 0)"
  by simp_all

lemma poly_times_xor_left: "poly_times (a XOR b) c = poly_times a c XOR poly_times b c"
  by (simp only: poly_times_sum power_of_xor if_xor_zero ac_simps)

lemma poly_times_xor_right: "poly_times a (b XOR c) = poly_times a b XOR poly_times a c"
  by (simp only: poly_times_sum bit_xor_iff if_xor_zero ac_simps)

lemma bits_double:
  "bit (gf_double b) 0 = bit b 7" "bit (gf_double b) 1 = bit b 0" "bit (gf_double b) 2 = (bit b 1 \<noteq> bit b 7)"
  "bit (gf_double b) 3 = (bit b 2 \<noteq> bit b 7)" "bit (gf_double b) 4 = (bit b 3 \<noteq> bit b 7)"
  "bit (gf_double b) 5 = bit b 4" "bit (gf_double b) 6 = bit b 5" "bit (gf_double b) 7 = bit b 6"
  using to_bits8_double [of b] by (simp_all add: to_bits8_def)

lemma gf_double_if: "gf_double (if P then x else 0) = (if P then gf_double x else 0)"
  by (simp add: gf_double_def)

lemma poly_times_double: "poly_times a (gf_double b) = gf_double (poly_times a b)"
proof -
  have s: "gf_double (power_of 0 a) = power_of 1 a" "gf_double (power_of 1 a) = power_of 2 a"
    "gf_double (power_of 2 a) = power_of 3 a" "gf_double (power_of 3 a) = power_of 4 a"
    "gf_double (power_of 4 a) = power_of 5 a" "gf_double (power_of 5 a) = power_of 6 a"
    "gf_double (power_of 6 a) = power_of 7 a" "gf_double (power_of 7 a) = power_of 8 a"
    by (simp_all add: power_of_Suc [symmetric] eval_nat_numeral)
  have "gf_double (poly_times a b) = (if bit b 0 then power_of 1 a else 0) XOR (if bit b 1 then power_of 2 a else 0)
     XOR (if bit b 2 then power_of 3 a else 0) XOR (if bit b 3 then power_of 4 a else 0)
     XOR (if bit b 4 then power_of 5 a else 0) XOR (if bit b 5 then power_of 6 a else 0)
     XOR (if bit b 6 then power_of 7 a else 0) XOR (if bit b 7 then power_of 8 a else 0)"
    unfolding poly_times_sum gf_double_xor gf_double_if s by (rule refl)
  also have "power_of 8 a = power_of 4 a XOR power_of 3 a XOR power_of 2 a XOR power_of 0 a"
    by (simp add: power_of_8) (simp add: power_of_def)
  finally show ?thesis
    unfolding poly_times_sum bits_double if_xor_zero by (simp only: ac_simps)
qed

lemma poly_times_1 [simp]: "poly_times a 1 = a"
  by (simp add: poly_times_sum) (simp add: power_of_def)

lemma poly_times_power: "poly_times a (power_of j 1) = power_of j a"
  by (induction j) (simp_all add: power_of_Suc poly_times_double, simp add: power_of_def)

lemma poly_times_powers: "poly_times (power_of i 1) (power_of j 1) = power_of (i + j) 1"
  by (simp add: poly_times_power power_of_add add.commute)

lemma poly_times_0 [simp]: "poly_times 0 b = 0" "poly_times a 0 = 0"
  by (simp_all add: poly_times_sum)

section \<open>The tables\<close>

lemma gf_double_inject: "gf_double a = gf_double b \<longleftrightarrow> a = b"
proof -
  have "double8 x = double8 y \<longleftrightarrow> x = y" for x y
    by (cases x; cases y) auto
  then show ?thesis by (simp add: to_bits8_inject [symmetric] to_bits8_double)
qed

lemma power_of_inject: "power_of i a = power_of i b \<longleftrightarrow> a = b"
  by (induction i) (simp_all add: power_of_Suc gf_double_inject, simp add: power_of_def)

lemma power_of_mult_period: "power_of d 1 = 1 \<Longrightarrow> power_of (k * d) 1 = 1"
  by (induction k) (simp_all add: power_of_add [symmetric], simp add: power_of_def)

lemma power_of_period: "power_of (i + 255) 1 = power_of i 1"
  by (simp add: power_of_add [symmetric] power_of_orders)

lemma power_of_not_1:
  assumes "0 < d" "d < 255"
  shows "power_of d 1 \<noteq> 1"
proof
  assume p: "power_of d 1 = 1"
  define g where "g = gcd d 255"
  obtain x y where "d * x = 255 * y + g" using bezout_nat [of d 255] assms(1) by (auto simp: g_def)
  then have xy: "x * d = y * 255 + g" by (simp add: mult.commute)
  have "power_of (y * 255 + g) 1 = 1" using power_of_mult_period [OF p, of x] xy by simp
  then have "power_of g 1 = 1"
    using power_of_mult_period [OF power_of_orders(1), of y] power_of_add [of g "y * 255" 1]
    by (simp add: add.commute)
  moreover have "g dvd 85 \<or> g dvd 51 \<or> g dvd 15"
  proof -
    obtain k where k: "255 = g * k" unfolding g_def by (meson dvdE gcd_dvd2)
    have "g \<le> d" using assms(1) by (simp add: g_def gcd_le1_nat)
    then have "k \<noteq> 1" "g < 255" using k assms(2) by auto
    show ?thesis
    proof (cases "g \<le> 15")
      case True
      then have "g \<in> {0, 1, 2, 3, 4, 5, 6, 7, 8, 9, 10, 11, 12, 13, 14, 15}" unfolding insert_iff empty_iff by presburger
      then show ?thesis using k by auto presburger+
    next
      case False
      have "k \<le> 15"
      proof (rule ccontr)
        assume "\<not> k \<le> 15"
        then have "16 * 16 \<le> g * k" using False by (intro mult_le_mono) auto
        then show False using k by simp
      qed
      then have "k \<in> {0, 1, 2, 3, 4, 5, 6, 7, 8, 9, 10, 11, 12, 13, 14, 15}" unfolding insert_iff empty_iff by presburger
      then have "g = 85 \<or> g = 51 \<or> g = 17" using k \<open>k \<noteq> 1\<close> by auto presburger+
      then show ?thesis by auto
    qed
  qed
  ultimately show False
    using power_of_mult_period [of g] power_of_orders by (metis dvd_def mult.commute)
qed

lemma power_of_distinct:
  assumes "i < 255" "j < 255" "power_of i 1 = power_of j 1"
  shows "i = j"
proof -
  have "j' \<le> i'" if "i' < j'" "j' < 255" "power_of i' 1 = power_of j' 1" for i' j'
    using power_of_not_1 [of "j' - i'"] that power_of_add [of i' "j' - i'" 1] power_of_inject [of i' 1]
    by (metis less_imp_diff_less less_or_eq_imp_le le_add_diff_inverse linorder_not_le zero_less_diff)
  then show ?thesis using assms by (metis linorder_neqE_nat not_le)
qed

lemma power_of_not_0: "power_of i 1 \<noteq> 0"
  using power_of_inject [of i 1 0] by simp

lemma power_of_surj:
  assumes "a \<noteq> 0"
  obtains i where "i < 255" "a = power_of i 1"
proof -
  have "card ((\<lambda>i. power_of i 1) ` {..<255}) = 255"
    by (subst card_image) (auto simp: inj_on_def intro: power_of_distinct)
  moreover have "(\<lambda>i. power_of i 1) ` {..<255} \<subseteq> UNIV - {0}" using power_of_not_0 by auto
  moreover have "card (UNIV - {0 :: octet}) = 255" by (simp add: card_Diff_singleton card_word)
  ultimately have "(\<lambda>i. power_of i 1) ` {..<255} = UNIV - {0}"
    by (intro card_subset_eq) auto
  then have "a \<in> (\<lambda>i. power_of i 1) ` {..<255}" using assms by auto
  then show ?thesis using that by blast
qed

lemma octet_lt: "unat (a::octet) < 256"
  using unsigned_less [of a, where ?'a = nat] by simp

lemma gf_entry_apply: "gf_entry i (v, es, ls) = (gf_double v, es[i := v, i + 255 := v], ls[unat v := i])"
  by (simp add: gf_entry_def)

lemma table_loop:
  assumes "n \<le> 255" "fold gf_entry [0..<n] (1, replicate 512 0, replicate 256 0) = (v, es, ls)"
  shows "v = power_of n 1 \<and> length es = 512 \<and> length ls = 256
    \<and> (\<forall>i < n. es ! i = power_of i 1 \<and> es ! (i + 255) = power_of i 1 \<and> ls ! unat (power_of i 1) = i)"
  using assms
proof (induction n arbitrary: v es ls)
  case (Suc n)
  obtain v' es' ls' where f: "fold gf_entry [0..<n] (1, replicate 512 0, replicate 256 0) = (v', es', ls')"
    by (metis prod_cases3)
  note IH = Suc.IH [OF _ f]
  have e: "v = gf_double v'" "es = es'[n := v', n + 255 := v']" "ls = ls'[unat v' := n]"
    using Suc.prems(2) f by (simp_all add: gf_entry_apply)
  have d: "unat (power_of i 1) \<noteq> unat (power_of n 1)" if "i < n" for i
    using power_of_distinct [of i n] that Suc.prems(1) by (auto simp: word_unat_eq_iff [symmetric])
  show ?case
    using IH Suc.prems(1) d d [symmetric] octet_lt [of "power_of n 1"]
    by (auto simp: e power_of_Suc nth_list_update less_Suc_eq)
qed (auto simp: power_of_def)

lemma tables:
  "i < 255 \<Longrightarrow> GF256_EXP ! i = power_of i 1"
  "i < 255 \<Longrightarrow> GF256_EXP ! (i + 255) = power_of i 1"
  "i < 255 \<Longrightarrow> GF256_LOG ! unat (power_of i 1) = i"
proof -
  obtain v es ls where f: "fold gf_entry [0..<255] (1, replicate 512 0, replicate 256 0) = (v, es, ls)"
    by (metis prod_cases3)
  have z: "unat (power_of i 1) \<noteq> 0" for i using power_of_not_0 [of i] by (simp add: unat_eq_0)
  show "i < 255 \<Longrightarrow> GF256_EXP ! i = power_of i 1"
    "i < 255 \<Longrightarrow> GF256_EXP ! (i + 255) = power_of i 1"
    "i < 255 \<Longrightarrow> GF256_LOG ! unat (power_of i 1) = i"
    using table_loop [OF order_refl f] z
    by (simp_all add: GF256_EXP_def GF256_LOG_def initGf256_def f del: upt_Suc)
qed

lemma exp_power: "i < 510 \<Longrightarrow> GF256_EXP ! i = power_of i 1"
  using tables(1) [of i] tables(2) [of "i - 255"] power_of_period [of "i - 255"]
  by (cases "i < 255") simp_all

lemma gfMultiply_poly: "gfMultiply a b = poly_times a b"
proof (cases "a = 0 \<or> b = 0")
  case False
  then obtain i j where "i < 255" "a = power_of i 1" "j < 255" "b = power_of j 1"
    by (metis power_of_surj)
  then show ?thesis using False by (simp add: gfMultiply_def tables exp_power poly_times_powers)
qed (auto simp: gfMultiply_def)

section \<open>Reed-Solomon codewords\<close>

lemma gfMultiply_commute: "gfMultiply a b = gfMultiply b a"
  by (simp add: gfMultiply_def add.commute)

lemma gfMultiply_assoc: "gfMultiply (gfMultiply a b) c = gfMultiply a (gfMultiply b c)"
proof (cases "a = 0 \<or> b = 0 \<or> c = 0")
  case False
  then obtain i j k where "a = power_of i 1" "b = power_of j 1" "c = power_of k 1"
    by (metis power_of_surj)
  then show ?thesis by (simp add: gfMultiply_poly poly_times_powers ac_simps)
qed (auto simp: gfMultiply_def)

lemma gfMultiply_left_commute: "gfMultiply a (gfMultiply b c) = gfMultiply b (gfMultiply a c)"
  by (metis gfMultiply_assoc gfMultiply_commute)

lemma gfMultiply_0 [simp]: "gfMultiply 0 a = 0" "gfMultiply a 0 = 0"
  by (simp_all add: gfMultiply_def)

lemma gfMultiply_1 [simp]: "gfMultiply a 1 = a" "gfMultiply 1 a = a"
  by (simp add: gfMultiply_poly) (metis gfMultiply_commute gfMultiply_poly poly_times_1)

lemma gfMultiply_xor:
  "gfMultiply (a XOR b) c = gfMultiply a c XOR gfMultiply b c"
  "gfMultiply c (a XOR b) = gfMultiply c a XOR gfMultiply c b"
  by (simp_all add: gfMultiply_poly poly_times_xor_left poly_times_xor_right)

lemmas gf_algebra = gfMultiply_xor gfMultiply_assoc gfMultiply_commute gfMultiply_left_commute xor.assoc xor.commute xor.left_commute

text \<open>The value of a polynomial, highest coefficient first, at a point.\<close>

definition horner :: "octet \<Rightarrow> octet \<Rightarrow> octet list \<Rightarrow> octet" where
  "horner y a p = foldl (\<lambda>acc c. gfMultiply acc y XOR c) a p"

definition poly_eval :: "octet list \<Rightarrow> octet \<Rightarrow> octet" where
  "poly_eval p y = horner y 0 p"

definition gf_pow :: "octet \<Rightarrow> nat \<Rightarrow> octet" where
  "gf_pow y n = (gfMultiply y ^^ n) 1"

lemma horner_simps [simp]: "horner y a [] = a" "horner y a (c # p) = horner y (gfMultiply a y XOR c) p"
  by (simp_all add: horner_def)

lemma gf_pow_simps [simp]: "gf_pow y 0 = 1" "gf_pow y (Suc n) = gfMultiply y (gf_pow y n)"
  by (simp_all add: gf_pow_def)

lemma poly_eval_Nil [simp]: "poly_eval [] y = 0"
  by (simp add: poly_eval_def)

lemma poly_eval_horner: "poly_eval (c # p) y = horner y c p"
  by (simp add: poly_eval_def)

lemma horner_start: "horner y a p = gfMultiply a (gf_pow y (length p)) XOR poly_eval p y"
proof (induction p arbitrary: a)
  case (Cons c p)
  have "horner y a (c # p) = gfMultiply (gfMultiply a y XOR c) (gf_pow y (length p)) XOR poly_eval p y"
    using Cons.IH [of "gfMultiply a y XOR c"] by simp
  also have "\<dots> = gfMultiply a (gfMultiply y (gf_pow y (length p))) XOR (gfMultiply c (gf_pow y (length p)) XOR poly_eval p y)"
    by (simp only: gf_algebra)
  also have "\<dots> = gfMultiply a (gf_pow y (length (c # p))) XOR poly_eval (c # p) y"
    using Cons.IH [of c] by (simp add: poly_eval_horner)
  finally show ?case .
qed simp

lemma poly_eval_Cons: "poly_eval (c # p) y = gfMultiply c (gf_pow y (length p)) XOR poly_eval p y"
  by (simp add: poly_eval_horner horner_start)

lemma poly_eval_append: "poly_eval (p @ q) y = gfMultiply (poly_eval p y) (gf_pow y (length q)) XOR poly_eval q y"
proof -
  have "poly_eval (p @ q) y = horner y (poly_eval p y) q" by (simp add: poly_eval_def horner_def)
  then show ?thesis by (simp add: horner_start)
qed

lemma poly_eval_map2:
  "length p = length q \<Longrightarrow> poly_eval (map2 (XOR) p q) y = poly_eval p y XOR poly_eval q y"
  proof (induction rule: list_induct2)
  case (Cons c p d q)
  then show ?case by (simp add: poly_eval_Cons) (simp only: gf_algebra)
qed simp

lemma poly_eval_scale: "poly_eval (map (gfMultiply f) p) y = gfMultiply f (poly_eval p y)"
  proof (induction p)
  case (Cons c p)
  then show ?case by (simp add: poly_eval_Cons) (simp only: gf_algebra)
qed simp

definition factor_terms :: "octet list \<Rightarrow> octet \<Rightarrow> nat \<Rightarrow> octet list" where
  "factor_terms poly f n =
     map (\<lambda>k. (if k < n then poly ! k else 0) XOR (if 0 < k \<and> k \<le> n then gfMultiply f (poly ! (k - 1)) else 0))
       [0..<length poly + 1]"

lemma factor_terms_nth:
  "length (factor_terms poly f n) = length poly + 1"
  "k < length poly + 1 \<Longrightarrow> factor_terms poly f n ! k =
     (if k < n then poly ! k else 0) XOR (if 0 < k \<and> k \<le> n then gfMultiply f (poly ! (k - 1)) else 0)"
  by (simp_all add: factor_terms_def del: upt_Suc)

lemma factor_terms_step:
  assumes "n < length poly"
  shows "(let newPoly = (factor_terms poly f n)[n := factor_terms poly f n ! n XOR gfMultiply (poly ! n) 1]
         in newPoly[n + 1 := newPoly ! (n + 1) XOR gfMultiply (poly ! n) f]) = factor_terms poly f (Suc n)"
proof (rule nth_equalityI)
  fix k assume "k < length (let newPoly = (factor_terms poly f n)[n := factor_terms poly f n ! n XOR gfMultiply (poly ! n) 1]
         in newPoly[n + 1 := newPoly ! (n + 1) XOR gfMultiply (poly ! n) f])"
  then have k: "k < length poly + 1" by (simp add: factor_terms_nth)
  consider "k < n" | "k = n" | "k = Suc n" | "Suc n < k" by linarith
  then show "(let newPoly = (factor_terms poly f n)[n := factor_terms poly f n ! n XOR gfMultiply (poly ! n) 1]
         in newPoly[n + 1 := newPoly ! (n + 1) XOR gfMultiply (poly ! n) f]) ! k = factor_terms poly f (Suc n) ! k"
  proof cases
    case 2
    then show ?thesis using assms k by (simp add: factor_terms_nth) (rule impI xor.commute)+
  next
    case 3
    then show ?thesis using assms k by (simp add: factor_terms_nth gfMultiply_commute [of f])
  qed (use assms k in \<open>simp_all add: factor_terms_nth\<close>)
qed (simp add: factor_terms_nth)

lemma factor_terms_0: "replicate (length poly + 1) 0 = factor_terms poly f 0"
  by (rule nth_equalityI) (auto simp: factor_terms_nth)

lemma factor_terms_all: "factor_terms poly f (length poly) = map2 (XOR) (poly @ [0]) (0 # map (gfMultiply f) poly)"
  by (rule nth_equalityI) (auto simp: factor_terms_nth nth_append nth_Cons')

lemma times_factor_map2: "times_factor poly [1, f] = map2 (XOR) (poly @ [0]) (0 # map (gfMultiply f) poly)"
proof -
  have "n \<le> length poly \<Longrightarrow> fold (\<lambda>j newPoly.
         let newPoly = newPoly[j := newPoly ! j XOR gfMultiply (poly ! j) ([1, f] ! 0)]
         in newPoly[j + 1 := newPoly ! (j + 1) XOR gfMultiply (poly ! j) ([1, f] ! 1)])
       [0..<n] (replicate (length poly + 1) 0) = factor_terms poly f n" for n
  proof (induction n)
    case 0
    show ?case by (simp only: upt_0 fold_simps id_apply factor_terms_0 [of poly f])
  next
    case (Suc n)
    then show ?case using factor_terms_step [of n poly f] by (simp add: Let_def)
  qed
  from this [OF order_refl] show ?thesis unfolding times_factor_def factor_terms_all .
qed

lemma poly_eval_times_factor:
  "poly_eval (times_factor p [1, f]) y = gfMultiply (poly_eval p y) (y XOR f)"
  unfolding times_factor_map2
  by (simp add: poly_eval_map2 poly_eval_append poly_eval_Cons [of 0] poly_eval_Cons [of _ "[]"] poly_eval_scale gfMultiply_xor
      gfMultiply_commute [of f])

lemma generator_length: "length (rsGeneratorPolynomial n) = n + 1"
  by (induction n) (simp_all add: rsGeneratorPolynomial_def times_factor_map2)

lemma generator_root: "i < n \<Longrightarrow> poly_eval (rsGeneratorPolynomial n) (GF256_EXP ! i) = 0"
proof (induction n)
  case (Suc n)
  have "rsGeneratorPolynomial (Suc n) = times_factor (rsGeneratorPolynomial n) [1, GF256_EXP ! n]"
    by (simp add: rsGeneratorPolynomial_def)
  then show ?case using Suc by (cases "i = n") (simp_all add: poly_eval_times_factor)
qed simp

lemma generator_monic: "rsGeneratorPolynomial n ! 0 = 1"
proof (induction n)
  case (Suc n)
  have "rsGeneratorPolynomial (Suc n) = times_factor (rsGeneratorPolynomial n) [1, GF256_EXP ! n]"
    by (simp add: rsGeneratorPolynomial_def)
  then show ?case using Suc generator_length [of n] by (simp add: times_factor_map2 nth_append)
qed (simp add: rsGeneratorPolynomial_def)

lemma list_front:
  "length xs = k \<Longrightarrow> (xs @ a # b # zs) ! Suc k = b" "length xs = k \<Longrightarrow> (xs @ a # zs)[k := v] = xs @ v # zs"
  by (auto simp: nth_append list_update_append)

lemma rs_step_map2:
  assumes "length rem = Suc n" "length gen = n + 2"
  shows "rs_step (Suc n) gen d rem = map2 (XOR) (tl rem @ [0]) (map (gfMultiply (d XOR rem ! 0)) (tl gen))"
proof -
  let ?f = "d XOR rem ! 0"
  have loop: "k \<le> n \<Longrightarrow> fold (\<lambda>j remainder. remainder[j := remainder ! (j + 1) XOR gfMultiply ?f (gen ! (j + 1))]) [0..<k] rem
      = map (\<lambda>j. rem ! (j + 1) XOR gfMultiply ?f (gen ! (j + 1))) [0..<k] @ drop k rem" for k
  proof (induction k)
    case (Suc k)
    then have "k < length rem" using assms by simp
    then show ?case using Suc assms
      by (simp add: Cons_nth_drop_Suc [symmetric] list_front)
  qed simp
  obtain z where z: "drop n rem = [z]" using assms(1) by (metis Cons_nth_drop_Suc drop_all lessI order_refl)
  show ?thesis
    unfolding rs_step_def Let_def using loop [of n] assms z
    by (intro nth_equalityI) (auto simp: nth_append list_update_append nth_tl less_Suc_eq)
qed

lemma octet_xor_0: "(a::octet) XOR b = 0 \<longleftrightarrow> a = b"
proof
  assume z: "a XOR b = 0"
  have "a = a XOR (b XOR b)" by simp
  also have "\<dots> = (a XOR b) XOR b" by (simp only: xor.assoc)
  finally show "a = b" using z by simp
qed simp

lemma octet_cancel: "(a::octet) XOR (b XOR a) = b"
  by (simp only: xor.left_commute [of a b a]) simp

lemma poly_eval_shift:
  assumes "length rem = Suc n"
  shows "poly_eval (tl rem @ [0]) y = gfMultiply y (poly_eval rem y) XOR gfMultiply (rem ! 0) (gf_pow y (Suc n))"
proof -
  obtain r rs where r: "rem = r # rs" "length rs = n" using assms by (cases rem) auto
  have "poly_eval (tl rem @ [0]) y = gfMultiply (poly_eval rs y) y"
    by (simp add: r poly_eval_append poly_eval_Cons [of _ "[]"])
  moreover have "poly_eval rem y = gfMultiply r (gf_pow y n) XOR poly_eval rs y"
    by (simp add: r poly_eval_Cons)
  ultimately show ?thesis by (simp add: r) (simp add: gf_algebra)
qed

lemma rs_step_eval:
  assumes "length rem = Suc n" "length gen = n + 2" "gen ! 0 = 1" "poly_eval gen y = 0"
  shows "poly_eval (rs_step (Suc n) gen d rem) y
    = gfMultiply y (poly_eval rem y) XOR gfMultiply d (gf_pow y (Suc n))"
proof -
  obtain gs where g: "gen = 1 # gs" "length gs = n + 1" using assms by (cases gen) auto
  have "poly_eval gs y = gf_pow y (Suc n)"
    using assms(4) g by (simp add: poly_eval_Cons octet_xor_0)
  then have "poly_eval (rs_step (Suc n) gen d rem) y = gfMultiply y (poly_eval rem y) XOR gfMultiply (rem ! 0) (gf_pow y (Suc n))
      XOR gfMultiply (d XOR rem ! 0) (gf_pow y (Suc n))"
    using assms g by (simp only: rs_step_map2 poly_eval_map2 poly_eval_scale length_map length_append length_tl list.size
        list.sel poly_eval_shift xor.assoc)
  then show ?thesis by (simp only: gfMultiply_xor octet_cancel)
qed

lemma rs_codewords_loop:
  assumes "0 < ec"
  shows "length (rsComputeCodewords xs ec) = ec
    \<and> (\<forall>i < ec. poly_eval (xs @ rsComputeCodewords xs ec) (GF256_EXP ! i) = 0)"
proof (induction xs rule: rev_induct)
  case Nil
  have "poly_eval (replicate n 0) y = 0" for n y by (induction n) (simp_all add: poly_eval_Cons)
  then show ?case by (simp add: rsComputeCodewords_def)
next
  case (snoc d xs)
  obtain n where n: "ec = Suc n" using assms by (cases ec) auto
  let ?r = "rsComputeCodewords xs ec" and ?g = "rsGeneratorPolynomial ec"
  have e: "rsComputeCodewords (xs @ [d]) ec = rs_step ec ?g d ?r" by (simp add: rsComputeCodewords_def)
  have l: "length ?r = Suc n" "length ?g = n + 2" "?g ! 0 = 1"
    using snoc n by (simp_all add: generator_length generator_monic)
  have len: "length (rs_step ec ?g d ?r) = Suc n" using l by (simp add: n rs_step_map2)
  have "poly_eval ((xs @ [d]) @ rs_step ec ?g d ?r) y = 0" if "poly_eval (xs @ ?r) y = 0" "poly_eval ?g y = 0" for y
  proof -
    let ?p = "gf_pow y (Suc n)"
    have z: "gfMultiply (poly_eval xs y) ?p XOR poly_eval ?r y = 0" using that(1) l(1) by (simp add: poly_eval_append)
    have "poly_eval ((xs @ [d]) @ rs_step ec ?g d ?r) y
      = gfMultiply (gfMultiply (poly_eval xs y) y XOR d) ?p XOR (gfMultiply y (poly_eval ?r y) XOR gfMultiply d ?p)"
      using rs_step_eval [OF l that(2), of d] len
      by (simp only: n poly_eval_append) (simp add: poly_eval_Cons)
    also have "\<dots> = gfMultiply y (gfMultiply (poly_eval xs y) ?p XOR poly_eval ?r y)"
      by (simp only: gf_algebra) (simp add: xor.assoc)
    finally show ?thesis using z by simp
  qed
  then show ?case using snoc generator_root [of _ ec] len e n by simp
qed

section \<open>Properties\<close>

text \<open>The tables compute the field: the product looked up through logarithms and exponents is the
  product of the two polynomials over GF(2) modulo \<open>x^8 + x^4 + x^3 + x^2 + 1\<close>, for all operands.\<close>

theorem gf_multiply_exact: "gfMultiply a b = poly_times a b"
  by (rule gfMultiply_poly)

text \<open>Reed-Solomon: data followed by its error correction codewords, as a polynomial, vanishes at all the
  roots of the generator polynomial, and there are exactly as many codewords as asked for.\<close>

theorem rs_codewords_vanish:
  assumes "0 < ec" "i < ec"
  shows "length (rsComputeCodewords xs ec) = ec \<and> poly_eval (xs @ rsComputeCodewords xs ec) (GF256_EXP ! i) = 0"
  using rs_codewords_loop [OF assms(1)] assms(2) by blast

theorem rs_codewords_vanish_witness:
  "length (rsComputeCodewords [0x40, 0x14, 0x10] 7) = 7
    \<and> poly_eval ([0x40, 0x14, 0x10] @ rsComputeCodewords [0x40, 0x14, 0x10] 7) (GF256_EXP ! 6) = 0"
  by (rule rs_codewords_vanish) simp_all

end
