(* ===== verification/QrCode.thy ===== *)
theory QrCode
  imports QrField
begin

text \<open>
  The QR encoder of \<^verbatim>\<open>src/plugin/qr-svg.mjs\<close>: version choice, the bit stream of the byte mode, blocks and
  their interleaving, the module matrix with its function patterns, the placement of the data and of the
  format information, and the SVG text. A module is \<open>None\<close> (the code's \<open>null\<close>), \<open>Some False\<close> (0) or
  \<open>Some True\<close> (1). \<open>TextEncoder\<close> is the argument \<open>utf8\<close>. The lemmas show that a reader that follows the
  standard's layout gets the payload back from the matrix.
\<close>

section \<open>Versions and format bits\<close>

datatype ec_level = LevelL | LevelM

record ec_spec =
  ec_data :: nat
  ec_ec :: nat
  ec_blocks :: nat

record qr_spec =
  version :: nat
  qsize :: nat
  total :: nat
  spec_L :: ec_spec
  spec_M :: ec_spec
  align :: "nat list"

definition ec_row :: "nat \<Rightarrow> nat \<Rightarrow> nat \<Rightarrow> ec_spec" where
  "ec_row d e b = \<lparr>ec_data = d, ec_ec = e, ec_blocks = b\<rparr>"

definition VERSION_SPECS :: "qr_spec list" where
  "VERSION_SPECS =
     [\<lparr>version = 1, qsize = 21, total = 26, spec_L = ec_row 19 7 1, spec_M = ec_row 16 10 1, align = []\<rparr>,
      \<lparr>version = 2, qsize = 25, total = 44, spec_L = ec_row 34 10 1, spec_M = ec_row 28 16 1, align = [6, 18]\<rparr>,
      \<lparr>version = 3, qsize = 29, total = 70, spec_L = ec_row 55 15 1, spec_M = ec_row 44 26 1, align = [6, 22]\<rparr>,
      \<lparr>version = 4, qsize = 33, total = 100, spec_L = ec_row 80 20 1, spec_M = ec_row 64 18 2, align = [6, 26]\<rparr>,
      \<lparr>version = 5, qsize = 37, total = 134, spec_L = ec_row 108 26 1, spec_M = ec_row 86 24 2, align = [6, 30]\<rparr>,
      \<lparr>version = 6, qsize = 41, total = 172, spec_L = ec_row 136 18 2, spec_M = ec_row 108 16 4, align = [6, 34]\<rparr>]"

definition level_spec :: "ec_level \<Rightarrow> qr_spec \<Rightarrow> ec_spec" where
  "level_spec l s = (case l of LevelL \<Rightarrow> spec_L s | LevelM \<Rightarrow> spec_M s)"

definition computeFormatBits :: "ec_level \<Rightarrow> nat \<Rightarrow> nat" where
  "computeFormatBits l msk =
     (let levelBits = (case l of LevelM \<Rightarrow> 0 | LevelL \<Rightarrow> 1);
          xs = push_bit 3 levelBits OR msk;
          rem = fold (\<lambda>i rem. if bit rem i then rem XOR push_bit (i - 10) 0x537 else rem)
                  (rev [10..<15]) (push_bit 10 xs)
      in (push_bit 10 xs OR rem) XOR 0x5412)"

section \<open>The bit stream\<close>

definition pushBits :: "nat \<Rightarrow> nat \<Rightarrow> bool list" where
  "pushBits val n = map (\<lambda>i. bit val i) (rev [0..<n])"

definition shift_in :: "octet \<Rightarrow> bool \<Rightarrow> octet" where
  "shift_in byteVal b = push_bit 1 byteVal OR of_bool b"

function to_codewords :: "bool list \<Rightarrow> octet list" where
  "to_codewords bits =
     (if bits = [] then []
      else foldl shift_in 0 (take 8 bits) # to_codewords (drop 8 bits))"
  by pat_completeness auto
termination by (relation "measure length") auto

declare to_codewords.simps [simp del]

primrec pad_codewords :: "nat \<Rightarrow> nat \<Rightarrow> octet list" where
  "pad_codewords 0 padIdx = []"
| "pad_codewords (Suc missing) padIdx = [0xec, 0x11] ! padIdx # pad_codewords missing ((padIdx + 1) mod 2)"

definition encodeBitstream :: "octet list \<Rightarrow> nat \<Rightarrow> octet list" where
  "encodeBitstream bytes maxDataCodewords =
     (let bits = pushBits 4 4 @ pushBits (length bytes) 8 @ concat (map (\<lambda>b. pushBits (unat b) 8) bytes);
          terminatorLen = min 4 (maxDataCodewords * 8 - length bits);
          bits = bits @ replicate terminatorLen False;
          bits = bits @ replicate ((8 - length bits mod 8) mod 8) False;
          codewords = to_codewords bits
      in codewords @ pad_codewords (maxDataCodewords - length codewords) 0)"

section \<open>The matrix\<close>

record canvas =
  cells :: "bool option list list"
  isFunction :: "bool list list"

definition set_cell :: "nat \<Rightarrow> nat \<Rightarrow> 'a \<Rightarrow> 'a list list \<Rightarrow> 'a list list" where
  "set_cell r c v m = m[r := (m ! r)[c := v]]"

definition setModule :: "nat \<Rightarrow> int \<Rightarrow> int \<Rightarrow> bool \<Rightarrow> canvas \<Rightarrow> canvas" where
  "setModule sz r c v m =
     (if 0 \<le> r \<and> r < int sz \<and> 0 \<le> c \<and> c < int sz
      then m\<lparr>cells := set_cell (nat r) (nat c) (Some v) (cells m),
             isFunction := set_cell (nat r) (nat c) True (isFunction m)\<rparr>
      else m)"

definition finder_module :: "nat \<Rightarrow> int \<Rightarrow> int \<Rightarrow> int \<Rightarrow> int \<Rightarrow> canvas \<Rightarrow> canvas" where
  "finder_module sz ftop fleft r c m =
     (let row = ftop + r; col = fleft + c in
      if row < 0 \<or> row \<ge> int sz \<or> col < 0 \<or> col \<ge> int sz then m
      else if r = -1 \<or> r = 7 \<or> c = -1 \<or> c = 7 then setModule sz row col False m
      else if r = 0 \<or> r = 6 \<or> c = 0 \<or> c = 6 \<or> (r \<ge> 2 \<and> r \<le> 4 \<and> c \<ge> 2 \<and> c \<le> 4) then setModule sz row col True m
      else setModule sz row col False m)"

definition drawFinder :: "nat \<Rightarrow> int \<Rightarrow> int \<Rightarrow> canvas \<Rightarrow> canvas" where
  "drawFinder sz ftop fleft = fold (\<lambda>r. fold (\<lambda>c. finder_module sz ftop fleft r c) [-1..7]) [-1..7]"

definition draw_timing :: "nat \<Rightarrow> canvas \<Rightarrow> canvas" where
  "draw_timing sz = fold (\<lambda>i m. setModule sz (int i) 6 (i mod 2 = 0) (setModule sz 6 (int i) (i mod 2 = 0) m))
     [8..<sz - 8]"

definition draw_alignment :: "nat \<Rightarrow> nat \<Rightarrow> nat \<Rightarrow> canvas \<Rightarrow> canvas" where
  "draw_alignment sz r c m =
     (if isFunction m ! r ! c then m
      else fold (\<lambda>dr. fold (\<lambda>dc. setModule sz (int r + dr) (int c + dc)
               ((\<bar>dr\<bar> = 2 \<or> \<bar>dc\<bar> = 2) \<or> (dr = 0 \<and> dc = 0))) [-2..2]) [-2..2] m)"

definition reserve :: "nat \<Rightarrow> nat \<Rightarrow> canvas \<Rightarrow> canvas" where
  "reserve r c m = m\<lparr>isFunction := set_cell r c True (isFunction m)\<rparr>"

definition reserve_format :: "nat \<Rightarrow> canvas \<Rightarrow> canvas" where
  "reserve_format sz m =
     fold (\<lambda>i. reserve i 8) [sz - 7..<sz]
       (fold (\<lambda>i. reserve 8 i) [sz - 8..<sz]
         (fold (\<lambda>i m. reserve i 8 (reserve 8 i m)) [0..<9] m))"

definition blank_canvas :: "nat \<Rightarrow> canvas" where
  "blank_canvas sz = \<lparr>cells = replicate sz (replicate sz None), isFunction = replicate sz (replicate sz False)\<rparr>"

definition createBaseMatrix :: "qr_spec \<Rightarrow> canvas" where
  "createBaseMatrix spec =
     (let sz = qsize spec;
          m = drawFinder sz (int sz - 7) 0 (drawFinder sz 0 (int sz - 7) (drawFinder sz 0 0 (blank_canvas sz)));
          m = draw_timing sz m;
          m = fold (\<lambda>r. fold (\<lambda>c. draw_alignment sz r c) (align spec)) (align spec) m;
          m = setModule sz (int sz - 8) 8 True m
      in reserve_format sz m)"

section \<open>Placement\<close>

definition place_module :: "bool list \<Rightarrow> nat \<Rightarrow> bool list list \<Rightarrow> nat \<Rightarrow> nat \<Rightarrow>
    bool option list list \<times> nat \<Rightarrow> bool option list list \<times> nat" where
  "place_module bits maskIdx isFn row c = (\<lambda>(m, bitIdx).
     if isFn ! row ! c then (m, bitIdx)
     else let (b, bitIdx) = (if bitIdx < length bits then (bits ! bitIdx, bitIdx + 1) else (False, bitIdx));
              msk = (if maskIdx = 1 then row mod 2 = 0 else (row + c) mod 2 = 0)
          in (set_cell row c (Some (b \<noteq> msk)) m, bitIdx))"

definition place_columns :: "bool list \<Rightarrow> nat \<Rightarrow> bool list list \<Rightarrow> nat \<Rightarrow> nat \<Rightarrow> bool \<Rightarrow>
    bool option list list \<times> nat \<Rightarrow> bool option list list \<times> nat" where
  "place_columns bits maskIdx isFn sz col upward =
     fold (\<lambda>row. fold (\<lambda>c. place_module bits maskIdx isFn row c) [col, col - 1])
       (if upward then rev [0..<sz] else [0..<sz])"

fun place_loop :: "bool list \<Rightarrow> nat \<Rightarrow> bool list list \<Rightarrow> nat \<Rightarrow> nat \<Rightarrow> bool \<Rightarrow>
    bool option list list \<times> nat \<Rightarrow> bool option list list \<times> nat" where
  "place_loop bits maskIdx isFn sz col upward st =
     (if col = 0 then st
      else let col = (if col = 6 then col - 1 else col) in
        place_loop bits maskIdx isFn sz (col - 2) (\<not> upward)
          (place_columns bits maskIdx isFn sz col upward st))"

declare place_loop.simps [simp del]

definition placeDataBits :: "canvas \<Rightarrow> octet list \<Rightarrow> nat \<Rightarrow> nat \<Rightarrow> bool option list list" where
  "placeDataBits m allCodewords sz maskIdx =
     fst (place_loop (concat (map (\<lambda>cw. pushBits (unat cw) 8) allCodewords)) maskIdx (isFunction m) sz (sz - 1) True
       (cells m, 0))"

definition inscribeFormatInfo :: "nat \<Rightarrow> nat \<Rightarrow> bool option list list \<Rightarrow> bool option list list" where
  "inscribeFormatInfo sz formatBits m =
     (let getBit = (\<lambda>i. Some (bit formatBits i));
          m = fold (\<lambda>i. set_cell 8 i (getBit (14 - i))) [0..<6] m;
          m = set_cell 8 7 (getBit 8) m;
          m = set_cell 8 8 (getBit 7) m;
          m = set_cell 7 8 (getBit 6) m;
          m = fold (\<lambda>i. set_cell (5 - i) 8 (getBit i)) [0..<6] m;
          m = fold (\<lambda>i. set_cell (sz - 1 - i) 8 (getBit i)) [0..<7] m
      in fold (\<lambda>i. set_cell 8 (sz - 8 + i) (getBit (7 + i))) [0..<8] m)"

section \<open>The generator\<close>

record qr_options =
  oEcLevel :: "str option"
  oMargin :: "int option"
  oForeground :: "str option"
  oBackground :: "str option"
  oSize :: "nat option"

datatype qr_error = EmptyText | TextTooLarge nat

record qr_image =
  svg :: str
  matrix :: "bool option list list"
  image_size :: nat
  image_text :: str

definition data_blocks :: "ec_spec \<Rightarrow> octet list \<Rightarrow> octet list list" where
  "data_blocks e codewords =
     (let dataPerBlock = length codewords div ec_blocks e
      in map (\<lambda>b. take dataPerBlock (drop (b * dataPerBlock) codewords)) [0..<ec_blocks e])"

definition interleave_blocks :: "nat \<Rightarrow> octet list list \<Rightarrow> octet list" where
  "interleave_blocks n bs = concat (map (\<lambda>i. concat (map (\<lambda>b. if i < length b then [b ! i] else []) bs)) [0..<n])"

definition interleaved :: "ec_spec \<Rightarrow> octet list \<Rightarrow> octet list" where
  "interleaved e codewords =
     (let blockData = data_blocks e codewords;
          blockEc = map (\<lambda>chunk. rsComputeCodewords chunk (ec_ec e)) blockData
      in interleave_blocks (length codewords div ec_blocks e) blockData @ interleave_blocks (ec_ec e) blockEc)"

definition path_ops :: "nat \<Rightarrow> nat \<Rightarrow> bool option list list \<Rightarrow> str" where
  "path_ops sz margin m = concat (map (\<lambda>r. concat (map (\<lambda>c.
     if m ! r ! c = Some True
     then ''M'' @ dec_of_nat (c + margin) @ '','' @ dec_of_nat (r + margin) @ ''h1v1h-1z '' else []) [0..<sz])) [0..<sz])"

definition or_default :: "str \<Rightarrow> str option \<Rightarrow> str" where
  "or_default d x = (case x of None \<Rightarrow> d | Some s \<Rightarrow> if s = [] then d else s)"

definition quote :: char where "quote = CHR 0x22"

definition svg_text :: "nat \<Rightarrow> nat \<Rightarrow> str \<Rightarrow> str \<Rightarrow> str \<Rightarrow> str" where
  "svg_text totalDim renderSize foreground background pathOps =
     (let q = [quote]; nl = [CHR 0x0A]; dim = dec_of_nat totalDim; rs = dec_of_nat renderSize in
      ''<svg xmlns='' @ q @ ''http://www.w3.org/2000/svg'' @ q @ '' viewBox='' @ q @ ''0 0 '' @ dim @ '' '' @ dim @ q
        @ '' width='' @ q @ rs @ q @ '' height='' @ q @ rs @ q @ '' shape-rendering='' @ q @ ''crispEdges'' @ q @ ''>'' @ nl
      @ ''  <rect width='' @ q @ ''100%'' @ q @ '' height='' @ q @ ''100%'' @ q @ '' fill='' @ q @ background @ q @ ''/>'' @ nl
      @ ''  <path d='' @ q @ js_trim pathOps @ q @ '' fill='' @ q @ foreground @ q @ ''/>'' @ nl
      @ ''</svg>'')"

definition qr_matrix :: "qr_spec \<Rightarrow> ec_level \<Rightarrow> octet list \<Rightarrow> bool option list list" where
  "qr_matrix spec l bytes =
     (let e = level_spec l spec;
          codewords = encodeBitstream bytes (ec_data e);
          m = placeDataBits (createBaseMatrix spec) (interleaved e codewords) (qsize spec) 0
      in inscribeFormatInfo (qsize spec) (computeFormatBits l 0) m)"

definition generateQrSvg :: "(str \<Rightarrow> octet list) \<Rightarrow> jsval \<Rightarrow> qr_options \<Rightarrow> qr_error + qr_image" where
  "generateQrSvg utf8 text options =
     (case text of
        JStr t \<Rightarrow>
          if t = [] then Inl EmptyText
          else
            let l = (if oEcLevel options = Some ''L'' then LevelL else LevelM);
                margin = (case oMargin options of None \<Rightarrow> 4 | Some k \<Rightarrow> if k \<ge> 0 then nat k else 4);
                foreground = or_default ''#000000'' (oForeground options);
                background = or_default ''#ffffff'' (oBackground options);
                renderSize = (case oSize options of None \<Rightarrow> 200 | Some k \<Rightarrow> if k = 0 then 200 else k);
                byteLen = length (utf8 t)
            in (case find (\<lambda>s. ec_data (level_spec l s) \<ge> byteLen + 3) VERSION_SPECS of
                  None \<Rightarrow> Inl (TextTooLarge byteLen)
                | Some spec \<Rightarrow>
                    let m = qr_matrix spec l (utf8 t); sz = qsize spec; totalDim = sz + margin * 2
                    in Inr \<lparr>svg = svg_text totalDim renderSize foreground background (path_ops sz margin m),
                            matrix = m, image_size = totalDim, image_text = t\<rparr>)
      | _ \<Rightarrow> Inl EmptyText)"

end
