(* ===== verification/QrRead.thy ===== *)
theory QrRead
  imports QrCode
begin

text \<open>
  A reader for the matrices of \<^verbatim>\<open>src/plugin/qr-svg.mjs\<close>, written after the layout of the standard and not
  after the encoder: function modules, the zig-zag of the data modules, blocks, the byte mode. The lemmas
  follow the encoder stage by stage and show that the reader undoes each of them.
\<close>

section \<open>The bit stream\<close>

lemma length_pushBits [simp]: "length (pushBits v n) = n"
  by (simp add: pushBits_def)






lemma length_pad_codewords [simp]: "length (pad_codewords n i) = n"
  by (induction n arbitrary: i) simp_all








section \<open>Blocks\<close>






section \<open>Cells\<close>

definition cell :: "'a list list \<Rightarrow> nat \<times> nat \<Rightarrow> 'a" where
  "cell m p = m ! fst p ! snd p"

definition square :: "nat \<Rightarrow> 'a list list \<Rightarrow> bool" where
  "square n m \<longleftrightarrow> length m = n \<and> (\<forall>row \<in> set m. length row = n)"

definition inside :: "nat \<Rightarrow> nat \<times> nat \<Rightarrow> bool" where
  "inside n p \<longleftrightarrow> fst p < n \<and> snd p < n"

lemma inside_pair [simp]: "inside n (r, c) \<longleftrightarrow> r < n \<and> c < n"
  by (simp add: inside_def)

lemma square_row: "square n m \<Longrightarrow> r < n \<Longrightarrow> length (m ! r) = n"
  by (simp add: square_def)

lemma square_set_cell [simp]: "square n m \<Longrightarrow> square n (set_cell r c v m)"
proof (cases "r < length m")
  case True
  then show "square n m \<Longrightarrow> square n (set_cell r c v m)"
    by (auto simp: square_def set_cell_def dest!: set_update_subset_insert [THEN subsetD])
qed (simp add: set_cell_def list_update_beyond)

lemma cell_set_cell:
  assumes "square n m" "r < n" "c < n" "inside n p"
  shows "cell (set_cell r c v m) p = (if p = (r, c) then v else cell m p)"
  using assms square_row [OF assms(1,2)] by (cases p) (auto simp: cell_def set_cell_def square_def nth_list_update)

text \<open>A list of writes to distinct cells.\<close>

definition write_cells :: "((nat \<times> nat) \<times> 'a) list \<Rightarrow> 'a list list \<Rightarrow> 'a list list" where
  "write_cells ws = fold (\<lambda>((r, c), v). set_cell r c v) ws"

lemma write_cells_cell:
  assumes "square n m" "\<forall>w \<in> set ws. inside n (fst w)" "inside n p"
  shows "square n (write_cells ws m)"
    and "p \<notin> fst ` set ws \<Longrightarrow> cell (write_cells ws m) p = cell m p"
    and "distinct (map fst ws) \<Longrightarrow> (p, v) \<in> set ws \<Longrightarrow> cell (write_cells ws m) p = v"
proof -
  have a: "square n (write_cells ws m) \<and> (p \<notin> fst ` set ws \<longrightarrow> cell (write_cells ws m) p = cell m p)
    \<and> (distinct (map fst ws) \<longrightarrow> (p, v) \<in> set ws \<longrightarrow> cell (write_cells ws m) p = v)"
    using assms
  proof (induction ws arbitrary: m)
    case (Cons w ws)
    obtain r c u where w: "w = ((r, c), u)" by (metis surj_pair)
    have i: "r < n" "c < n" using Cons.prems w by auto
    have e: "write_cells (w # ws) m = write_cells ws (set_cell r c u m)" by (simp add: write_cells_def w)
    have IH: "square n (write_cells ws (set_cell r c u m))"
      "p \<notin> fst ` set ws \<longrightarrow> cell (write_cells ws (set_cell r c u m)) p = cell (set_cell r c u m) p"
      "distinct (map fst ws) \<longrightarrow> (p, v) \<in> set ws \<longrightarrow> cell (write_cells ws (set_cell r c u m)) p = v"
      using Cons.IH [of "set_cell r c u m"] Cons.prems by auto
    show ?case
      using IH cell_set_cell [OF Cons.prems(1) i Cons.prems(3), of u] by (auto simp: e [unfolded w] w)
  qed (simp add: write_cells_def)
  then show "square n (write_cells ws m)"
    and "p \<notin> fst ` set ws \<Longrightarrow> cell (write_cells ws m) p = cell m p"
    and "distinct (map fst ws) \<Longrightarrow> (p, v) \<in> set ws \<Longrightarrow> cell (write_cells ws m) p = v" by blast+
qed

section \<open>Function patterns\<close>

text \<open>The function modules of the standard and the colour of those that carry a pattern. The two other
  finders are the first one moved to the right and to the bottom edge.\<close>

definition finder_color :: "int \<Rightarrow> int \<Rightarrow> bool" where
  "finder_color r c \<longleftrightarrow> max \<bar>r - 3\<bar> \<bar>c - 3\<bar> \<in> {0, 1, 3}"

definition pattern_module :: "qr_spec \<Rightarrow> nat \<times> nat \<Rightarrow> bool" where
  "pattern_module spec p \<longleftrightarrow> (let n = qsize spec; r = fst p; c = snd p in
     (r < 8 \<and> c < 8) \<or> (r < 8 \<and> n - 8 \<le> c) \<or> (n - 8 \<le> r \<and> c < 8) \<or> r = 6 \<or> c = 6
     \<or> (align spec \<noteq> [] \<and> n - 9 \<le> r \<and> r \<le> n - 5 \<and> n - 9 \<le> c \<and> c \<le> n - 5)
     \<or> (r = n - 8 \<and> c = 8))"

definition format_module :: "nat \<Rightarrow> nat \<times> nat \<Rightarrow> bool" where
  "format_module n p \<longleftrightarrow> (let r = fst p; c = snd p in
     (r = 8 \<and> (c \<le> 8 \<or> n - 8 \<le> c)) \<or> (c = 8 \<and> (r \<le> 8 \<or> n - 7 \<le> r)))"

definition pattern_color :: "qr_spec \<Rightarrow> nat \<times> nat \<Rightarrow> bool" where
  "pattern_color spec p \<longleftrightarrow> (let n = qsize spec; r = fst p; c = snd p in
     if r < 8 \<and> c < 8 then finder_color (int r) (int c)
     else if r < 8 \<and> n - 8 \<le> c then finder_color (int r) (int c - (int n - 7))
     else if n - 8 \<le> r \<and> c < 8 then finder_color (int r - (int n - 7)) (int c)
     else if r = 6 \<or> c = 6 then even (r + c)
     else if r = n - 8 \<and> c = 8 then True
     else max \<bar>int r - (int n - 7)\<bar> \<bar>int c - (int n - 7)\<bar> \<noteq> 1)"

definition canvas_ok :: "nat \<Rightarrow> canvas \<Rightarrow> bool" where
  "canvas_ok n m \<longleftrightarrow> square n (cells m) \<and> square n (isFunction m)"

text \<open>\<open>f\<close> draws the pattern \<open>col\<close> on the modules of \<open>S\<close>, and nothing else.\<close>

definition paints :: "nat \<Rightarrow> (nat \<times> nat \<Rightarrow> bool) \<Rightarrow> (nat \<times> nat) set \<Rightarrow> (canvas \<Rightarrow> canvas) \<Rightarrow> bool" where
  "paints n col S f \<longleftrightarrow> (\<forall>m. canvas_ok n m \<longrightarrow> canvas_ok n (f m) \<and> (\<forall>p. inside n p \<longrightarrow>
     cell (isFunction (f m)) p = (cell (isFunction m) p \<or> p \<in> S)
     \<and> cell (cells (f m)) p = (if p \<in> S then Some (col p) else cell (cells m) p)))"

lemma paints_id: "paints n col {} id"
  by (simp add: paints_def)

lemma paints_comp: "paints n col S f \<Longrightarrow> paints n col T g \<Longrightarrow> paints n col (S \<union> T) (\<lambda>m. g (f m))"
  by (auto simp: paints_def)

lemma paints_fold:
  "(\<And>x. x \<in> set xs \<Longrightarrow> paints n col (S x) (f x)) \<Longrightarrow> paints n col (\<Union>x \<in> set xs. S x) (fold f xs)"
proof (induction xs)
  case (Cons x xs)
  then have "paints n col (S x \<union> (\<Union>x \<in> set xs. S x)) (\<lambda>m. fold f xs (f x m))"
    by (intro paints_comp) auto
  then show ?case by (simp add: comp_def)
qed (simp add: paints_def)

lemma paints_mono: "paints n col S f \<Longrightarrow> (\<And>p. inside n p \<Longrightarrow> p \<in> S \<longleftrightarrow> p \<in> T) \<Longrightarrow> paints n col T f"
  by (simp add: paints_def)

lemma paints_setModule:
  assumes "0 \<le> r \<Longrightarrow> r < int n \<Longrightarrow> 0 \<le> c \<Longrightarrow> c < int n \<Longrightarrow> v = col (nat r, nat c)"
  shows "paints n col {p. int (fst p) = r \<and> int (snd p) = c} (setModule n r c v)"
  unfolding paints_def
proof (intro allI impI conjI)
  fix m assume "canvas_ok n m"
  then have sq: "square n (cells m)" "square n (isFunction m)" by (simp_all add: canvas_ok_def)
  then show "canvas_ok n (setModule n r c v m)" by (simp add: canvas_ok_def setModule_def)
  fix p assume p: "inside n p"
  have "cell (isFunction (setModule n r c v m)) p = (cell (isFunction m) p \<or> p \<in> {p. int (fst p) = r \<and> int (snd p) = c})
    \<and> cell (cells (setModule n r c v m)) p = (if p \<in> {p. int (fst p) = r \<and> int (snd p) = c} then Some (col p) else cell (cells m) p)"
  proof (cases "0 \<le> r \<and> r < int n \<and> 0 \<le> c \<and> c < int n")
    case True
    then obtain i j where ij: "r = int i" "c = int j" by (metis nonneg_int_cases)
    then have "i < n" "j < n" "v = col (i, j)" using True assms by auto
    then show ?thesis using ij sq p by (cases p) (auto simp: setModule_def cell_set_cell)
  next
    case False
    then show ?thesis using p by (cases p) (auto simp: setModule_def)
  qed
  then show "cell (isFunction (setModule n r c v m)) p = (cell (isFunction m) p \<or> p \<in> {p. int (fst p) = r \<and> int (snd p) = c})"
    "cell (cells (setModule n r c v m)) p = (if p \<in> {p. int (fst p) = r \<and> int (snd p) = c} then Some (col p) else cell (cells m) p)"
    by blast+
qed

lemma paints_finder_module:
  assumes "-1 \<le> r" "r \<le> 7" "-1 \<le> c" "c \<le> 7"
    and "0 \<le> t + r \<Longrightarrow> t + r < int n \<Longrightarrow> 0 \<le> l + c \<Longrightarrow> l + c < int n \<Longrightarrow> col (nat (t + r), nat (l + c)) = finder_color r c"
  shows "paints n col {p. int (fst p) = t + r \<and> int (snd p) = l + c} (finder_module n t l r c)"
proof (cases "t + r < 0 \<or> t + r \<ge> int n \<or> l + c < 0 \<or> l + c \<ge> int n")
  case True
  then show ?thesis by (auto simp: paints_def finder_module_def)
next
  case False
  then have v: "col (nat (t + r), nat (l + c)) = finder_color r c" using assms(5) by simp
  have "finder_module n t l r c = setModule n (t + r) (l + c) (finder_color r c)"
  proof -
    have "r = -1 \<or> r = 7 \<or> c = -1 \<or> c = 7 \<Longrightarrow> \<not> finder_color r c"
      using assms(1-4) unfolding finder_color_def max_def abs_if by simp presburger
    moreover have "\<not> (r = -1 \<or> r = 7 \<or> c = -1 \<or> c = 7) \<Longrightarrow> finder_color r c
        \<longleftrightarrow> r = 0 \<or> r = 6 \<or> c = 0 \<or> c = 6 \<or> (r \<ge> 2 \<and> r \<le> 4 \<and> c \<ge> 2 \<and> c \<le> 4)"
      using assms(1-4) unfolding finder_color_def max_def abs_if by simp presburger
    ultimately show ?thesis using False by (auto simp: finder_module_def Let_def fun_eq_iff)
  qed
  then show ?thesis using paints_setModule [of "t + r" n "l + c" "finder_color r c" col] v by simp
qed

lemma union_shift:
  "p \<in> (\<Union>r \<in> A. \<Union>c \<in> B. {p. int (fst p) = t + r \<and> int (snd p) = l + c}) \<longleftrightarrow> int (fst p) - t \<in> A \<and> int (snd p) - l \<in> B"
proof
  assume "int (fst p) - t \<in> A \<and> int (snd p) - l \<in> B"
  then show "p \<in> (\<Union>r \<in> A. \<Union>c \<in> B. {p. int (fst p) = t + r \<and> int (snd p) = l + c})"
    by (intro UN_I [of "int (fst p) - t"] UN_I [of "int (snd p) - l"]) simp_all
qed auto

lemma paints_drawFinder:
  assumes "\<And>r c. -1 \<le> r \<Longrightarrow> r \<le> 7 \<Longrightarrow> -1 \<le> c \<Longrightarrow> c \<le> 7 \<Longrightarrow>
      0 \<le> t + r \<Longrightarrow> t + r < int n \<Longrightarrow> 0 \<le> l + c \<Longrightarrow> l + c < int n \<Longrightarrow> col (nat (t + r), nat (l + c)) = finder_color r c"
  shows "paints n col {p. t - 1 \<le> int (fst p) \<and> int (fst p) \<le> t + 7 \<and> l - 1 \<le> int (snd p) \<and> int (snd p) \<le> l + 7}
    (drawFinder n t l)"
proof -
  have "paints n col (\<Union>r \<in> set [-1..7]. \<Union>c \<in> set [-1..7]. {p. int (fst p) = t + r \<and> int (snd p) = l + c}) (drawFinder n t l)"
    unfolding drawFinder_def by (intro paints_fold paints_finder_module) (use assms in auto)
  then show ?thesis
  proof (rule paints_mono)
    fix p :: "nat \<times> nat"
    show "p \<in> (\<Union>r \<in> set [-1..7]. \<Union>c \<in> set [-1..7]. {p. int (fst p) = t + r \<and> int (snd p) = l + c})
      \<longleftrightarrow> p \<in> {p. t - 1 \<le> int (fst p) \<and> int (fst p) \<le> t + 7 \<and> l - 1 \<le> int (snd p) \<and> int (snd p) \<le> l + 7}"
      unfolding union_shift set_upto by auto
  qed
qed

lemma paints_timing:
  assumes "\<And>i. 8 \<le> i \<Longrightarrow> i < n - 8 \<Longrightarrow> col (6, i) = even i \<and> col (i, 6) = even i"
  shows "paints n col {p. (fst p = 6 \<and> 8 \<le> snd p \<and> snd p < n - 8) \<or> (snd p = 6 \<and> 8 \<le> fst p \<and> fst p < n - 8)} (draw_timing n)"
proof -
  have "paints n col (\<Union>i \<in> set [8..<n - 8]. {p. int (fst p) = 6 \<and> int (snd p) = int i} \<union> {p. int (fst p) = int i \<and> int (snd p) = 6})
    (draw_timing n)"
    unfolding draw_timing_def by (intro paints_fold paints_comp paints_setModule) (use assms in \<open>auto simp: even_iff_mod_2_eq_zero\<close>)
  then show ?thesis by (rule paints_mono) auto
qed

lemma paints_align:
  assumes "\<And>p. \<bar>int (fst p) - int x\<bar> \<le> 2 \<Longrightarrow> \<bar>int (snd p) - int x\<bar> \<le> 2 \<Longrightarrow> col p = (max \<bar>int (fst p) - int x\<bar> \<bar>int (snd p) - int x\<bar> \<noteq> 1)"
  shows "paints n col {p. \<bar>int (fst p) - int x\<bar> \<le> 2 \<and> \<bar>int (snd p) - int x\<bar> \<le> 2}
    (fold (\<lambda>dr. fold (\<lambda>dc. setModule n (int x + dr) (int x + dc)
               ((\<bar>dr\<bar> = 2 \<or> \<bar>dc\<bar> = 2) \<or> (dr = 0 \<and> dc = 0))) [-2..2]) [-2..2])"
    (is "paints n col ?S ?f")
proof -
  have v: "((\<bar>dr\<bar> = 2 \<or> \<bar>dc\<bar> = 2) \<or> (dr = 0 \<and> dc = 0)) = col (nat (int x + dr), nat (int x + dc))"
    if "dr \<in> {-2..2}" "dc \<in> {-2..2}" "0 \<le> int x + dr" "0 \<le> int x + dc" for dr dc
  proof -
    have "((\<bar>dr\<bar> = 2 \<or> \<bar>dc\<bar> = 2) \<or> (dr = 0 \<and> dc = 0)) \<longleftrightarrow> max \<bar>dr\<bar> \<bar>dc\<bar> \<noteq> 1"
      using that(1,2) unfolding max_def abs_if by simp presburger
    moreover have "\<bar>dr\<bar> \<le> 2" "\<bar>dc\<bar> \<le> 2" using that(1,2) by auto
    ultimately show ?thesis using that(3,4) assms [of "(nat (int x + dr), nat (int x + dc))"] by simp
  qed
  have "paints n col (\<Union>dr \<in> set [-2..2]. \<Union>dc \<in> set [-2..2]. {p. int (fst p) = int x + dr \<and> int (snd p) = int x + dc}) ?f"
    by (intro paints_fold paints_setModule v) auto
  then show ?thesis
  proof (rule paints_mono)
    fix p :: "nat \<times> nat"
    show "p \<in> (\<Union>dr \<in> set [-2..2]. \<Union>dc \<in> set [-2..2]. {p. int (fst p) = int x + dr \<and> int (snd p) = int x + dc}) \<longleftrightarrow> p \<in> ?S"
      unfolding union_shift set_upto by auto
  qed
qed

definition spec_shape :: "qr_spec \<Rightarrow> bool" where
  "spec_shape spec \<longleftrightarrow> 21 \<le> qsize spec \<and> odd (qsize spec)
     \<and> (align spec = [] \<or> align spec = [6, qsize spec - 7] \<and> 25 \<le> qsize spec)"

lemma spec_shape: "spec \<in> set VERSION_SPECS \<Longrightarrow> spec_shape spec"
  by (auto simp: VERSION_SPECS_def spec_shape_def)

lemma canvas_blank: "canvas_ok n (blank_canvas n)"
  "inside n p \<Longrightarrow> cell (isFunction (blank_canvas n)) p = False \<and> cell (cells (blank_canvas n)) p = None"
  by (auto simp: canvas_ok_def blank_canvas_def square_def cell_def inside_def)

lemma paintsD:
  assumes "paints n col S f" "canvas_ok n m"
  shows "canvas_ok n (f m)" "inside n p \<Longrightarrow> cell (isFunction (f m)) p = (cell (isFunction m) p \<or> p \<in> S)"
    "inside n p \<Longrightarrow> cell (cells (f m)) p = (if p \<in> S then Some (col p) else cell (cells m) p)"
  using assms unfolding paints_def by blast+

text \<open>The modules of the finders, their separators and the timing patterns.\<close>

definition early_module :: "nat \<Rightarrow> nat \<times> nat \<Rightarrow> bool" where
  "early_module n p \<longleftrightarrow> (fst p < 8 \<and> snd p < 8) \<or> (fst p < 8 \<and> n - 8 \<le> snd p) \<or> (n - 8 \<le> fst p \<and> snd p < 8) \<or> fst p = 6 \<or> snd p = 6"

definition before_alignment :: "nat \<Rightarrow> canvas" where
  "before_alignment n = draw_timing n (drawFinder n (int n - 7) 0 (drawFinder n 0 (int n - 7) (drawFinder n 0 0 (blank_canvas n))))"

lemma before_alignment:
  assumes "spec_shape spec" "qsize spec = n"
  shows "canvas_ok n (before_alignment n)"
    and "inside n p \<Longrightarrow> cell (isFunction (before_alignment n)) p = early_module n p"
    and "inside n p \<Longrightarrow> cell (cells (before_alignment n)) p = (if early_module n p then Some (pattern_color spec p) else None)"
proof -
  have n: "21 \<le> n" "odd n" using assms by (auto simp: spec_shape_def)
  let ?col = "pattern_color spec"
  have f1: "paints n ?col {p. 0 - 1 \<le> int (fst p) \<and> int (fst p) \<le> 0 + 7 \<and> 0 - 1 \<le> int (snd p) \<and> int (snd p) \<le> 0 + 7} (drawFinder n 0 0)"
    by (rule paints_drawFinder) (use n in \<open>simp add: pattern_color_def assms(2) nat_less_iff\<close>)
  have f2: "paints n ?col {p. 0 - 1 \<le> int (fst p) \<and> int (fst p) \<le> 0 + 7 \<and> int n - 7 - 1 \<le> int (snd p) \<and> int (snd p) \<le> int n - 7 + 7}
      (drawFinder n 0 (int n - 7))"
    by (rule paints_drawFinder) (use n in \<open>auto simp: pattern_color_def assms(2) nat_less_iff le_nat_iff nat_le_iff\<close>)
  have f3: "paints n ?col {p. int n - 7 - 1 \<le> int (fst p) \<and> int (fst p) \<le> int n - 7 + 7 \<and> 0 - 1 \<le> int (snd p) \<and> int (snd p) \<le> 0 + 7}
      (drawFinder n (int n - 7) 0)"
    by (rule paints_drawFinder) (use n in \<open>auto simp: pattern_color_def assms(2) nat_less_iff le_nat_iff nat_le_iff\<close>)
  have tm: "paints n ?col {p. (fst p = 6 \<and> 8 \<le> snd p \<and> snd p < n - 8) \<or> (snd p = 6 \<and> 8 \<le> fst p \<and> fst p < n - 8)} (draw_timing n)"
    by (rule paints_timing) (use n in \<open>auto simp: pattern_color_def assms(2)\<close>)
  have "paints n ?col {p. early_module n p} (\<lambda>m. draw_timing n (drawFinder n (int n - 7) 0 (drawFinder n 0 (int n - 7) (drawFinder n 0 0 m))))"
    by (rule paints_mono [OF paints_comp [OF paints_comp [OF paints_comp [OF f1 f2] f3] tm]])
      (use n in \<open>simp only: Un_iff mem_Collect_eq inside_def early_module_def; presburger\<close>)
  note D = paintsD [OF this canvas_blank(1)]
  show "canvas_ok n (before_alignment n)" using D(1) by (simp add: before_alignment_def)
  show "inside n p \<Longrightarrow> cell (isFunction (before_alignment n)) p = early_module n p"
    using D(2) [of p] canvas_blank(2) [of n p] by (simp add: before_alignment_def)
  show "inside n p \<Longrightarrow> cell (cells (before_alignment n)) p = (if early_module n p then Some (pattern_color spec p) else None)"
    using D(3) [of p] canvas_blank(2) [of n p] by (simp add: before_alignment_def)
qed

lemma align_skip: "isFunction m ! r ! c \<Longrightarrow> draw_alignment n r c m = m"
  by (simp add: draw_alignment_def)

definition after_alignment :: "qr_spec \<Rightarrow> canvas" where
  "after_alignment spec = fold (\<lambda>r. fold (\<lambda>c. draw_alignment (qsize spec) r c) (align spec)) (align spec) (before_alignment (qsize spec))"

definition align_module :: "qr_spec \<Rightarrow> nat \<times> nat \<Rightarrow> bool" where
  "align_module spec p \<longleftrightarrow> align spec \<noteq> [] \<and> qsize spec - 9 \<le> fst p \<and> fst p \<le> qsize spec - 5
     \<and> qsize spec - 9 \<le> snd p \<and> snd p \<le> qsize spec - 5"

lemma after_alignment:
  assumes "spec_shape spec" "qsize spec = n"
  shows "canvas_ok n (after_alignment spec)"
    and "inside n p \<Longrightarrow> cell (isFunction (after_alignment spec)) p = (early_module n p \<or> align_module spec p)"
    and "inside n p \<Longrightarrow> cell (cells (after_alignment spec)) p =
      (if early_module n p \<or> align_module spec p then Some (pattern_color spec p) else None)"
proof -
  note b = before_alignment [OF assms]
  have "canvas_ok n (after_alignment spec) \<and> (inside n p \<longrightarrow> cell (isFunction (after_alignment spec)) p = (early_module n p \<or> align_module spec p)
    \<and> cell (cells (after_alignment spec)) p = (if early_module n p \<or> align_module spec p then Some (pattern_color spec p) else None))"
  proof (cases "align spec = []")
    case True
    then show ?thesis using b by (simp add: after_alignment_def align_module_def assms(2))
  next
    case False
    then have a: "align spec = [6, n - 7]" "25 \<le> n" using assms by (auto simp: spec_shape_def)
    let ?B = "before_alignment n"
    let ?f = "fold (\<lambda>dr. fold (\<lambda>dc. setModule n (int (n - 7) + dr) (int (n - 7) + dc)
               ((\<bar>dr\<bar> = 2 \<or> \<bar>dc\<bar> = 2) \<or> (dr = 0 \<and> dc = 0))) [-2..2]) [-2..2]"
    have fn: "isFunction ?B ! 6 ! 6" "isFunction ?B ! 6 ! (n - 7)" "isFunction ?B ! (n - 7) ! 6" "\<not> isFunction ?B ! (n - 7) ! (n - 7)"
      using b(2) [of "(6, 6)"] b(2) [of "(6, n - 7)"] b(2) [of "(n - 7, 6)"] b(2) [of "(n - 7, n - 7)"] a(2)
      by (auto simp: cell_def early_module_def)
    have e: "after_alignment spec = ?f ?B"
      using fn by (simp add: after_alignment_def a(1) assms(2) align_skip) (simp add: draw_alignment_def)
    have "paints n (pattern_color spec) {p. \<bar>int (fst p) - int (n - 7)\<bar> \<le> 2 \<and> \<bar>int (snd p) - int (n - 7)\<bar> \<le> 2} ?f"
    proof (rule paints_align)
      fix p :: "nat \<times> nat"
      assume "\<bar>int (fst p) - int (n - 7)\<bar> \<le> 2" "\<bar>int (snd p) - int (n - 7)\<bar> \<le> 2"
      then have "9 \<le> fst p" "9 \<le> snd p" using a(2) by linarith+
      then show "pattern_color spec p = (max \<bar>int (fst p) - int (n - 7)\<bar> \<bar>int (snd p) - int (n - 7)\<bar> \<noteq> 1)"
        using a(2) by (simp add: pattern_color_def assms(2) of_nat_diff)
    qed
    then have "paints n (pattern_color spec) {p. align_module spec p} ?f"
      by (rule paints_mono) (use a in \<open>simp only: mem_Collect_eq align_module_def assms(2); auto\<close>)
    note D = paintsD [OF this b(1)]
    show ?thesis using D b(2,3) [of p] by (auto simp: e)
  qed
  then show "canvas_ok n (after_alignment spec)"
    "inside n p \<Longrightarrow> cell (isFunction (after_alignment spec)) p = (early_module n p \<or> align_module spec p)"
    "inside n p \<Longrightarrow> cell (cells (after_alignment spec)) p =
      (if early_module n p \<or> align_module spec p then Some (pattern_color spec p) else None)" by blast+
qed

definition reserves :: "nat \<Rightarrow> (nat \<times> nat) set \<Rightarrow> (canvas \<Rightarrow> canvas) \<Rightarrow> bool" where
  "reserves n S f \<longleftrightarrow> (\<forall>m. canvas_ok n m \<longrightarrow> canvas_ok n (f m) \<and> cells (f m) = cells m
     \<and> (\<forall>p. inside n p \<longrightarrow> cell (isFunction (f m)) p = (cell (isFunction m) p \<or> p \<in> S)))"

lemma reserves_reserve: "r < n \<Longrightarrow> c < n \<Longrightarrow> reserves n {(r, c)} (reserve r c)"
  unfolding reserves_def by (auto simp: canvas_ok_def reserve_def cell_set_cell split: if_splits)

lemma reserves_comp: "reserves n S f \<Longrightarrow> reserves n T g \<Longrightarrow> reserves n (S \<union> T) (\<lambda>m. g (f m))"
  unfolding reserves_def by simp

lemma reserves_fold:
  "(\<And>x. x \<in> set xs \<Longrightarrow> reserves n (S x) (f x)) \<Longrightarrow> reserves n (\<Union>x \<in> set xs. S x) (fold f xs)"
proof (induction xs)
  case (Cons x xs)
  then have "reserves n (S x \<union> (\<Union>x \<in> set xs. S x)) (\<lambda>m. fold f xs (f x m))"
    by (intro reserves_comp) auto
  then show ?case by (simp add: comp_def)
qed (simp add: reserves_def)

lemma reserves_format:
  assumes "21 \<le> n"
  shows "reserves n ((\<Union>i \<in> set [0..<9]. {(8, i)} \<union> {(i, 8)}) \<union> (\<Union>i \<in> set [n - 8..<n]. {(8, i)})
    \<union> (\<Union>i \<in> set [n - 7..<n]. {(i, 8)})) (reserve_format n)"
  unfolding reserve_format_def
  by (intro reserves_comp reserves_fold reserves_reserve) (use assms in auto)

lemma cross_set:
  "p \<in> (\<Union>i \<in> A. {(8, i)} \<union> {(i, 8)}) \<union> (\<Union>i \<in> B. {(8, i)}) \<union> (\<Union>i \<in> C. {(i, 8)})
    \<longleftrightarrow> fst p = 8 \<and> snd p \<in> A \<or> snd p = 8 \<and> fst p \<in> A \<or> fst p = 8 \<and> snd p \<in> B \<or> snd p = 8 \<and> fst p \<in> (C :: nat set)"
  by (cases p) auto

lemma createBaseMatrix_cells:
  assumes "spec_shape spec" "qsize spec = n"
  shows "canvas_ok n (createBaseMatrix spec)"
    and "inside n p \<Longrightarrow> cell (isFunction (createBaseMatrix spec)) p = (pattern_module spec p \<or> format_module n p)"
    and "inside n p \<Longrightarrow> cell (cells (createBaseMatrix spec)) p =
      (if pattern_module spec p then Some (pattern_color spec p) else None)"
proof -
  have n: "21 \<le> n" using assms by (auto simp: spec_shape_def)
  note a = after_alignment [OF assms]
  have e: "createBaseMatrix spec = reserve_format n (setModule n (int n - 8) 8 True (after_alignment spec))"
    by (simp add: createBaseMatrix_def after_alignment_def before_alignment_def Let_def assms(2))
  have d: "paints n (pattern_color spec) {p. int (fst p) = int n - 8 \<and> int (snd p) = 8} (setModule n (int n - 8) 8 True)"
  proof (rule paints_setModule)
    have "\<not> n - 8 < 8" using n by simp
    then show "True = pattern_color spec (nat (int n - 8), nat 8)"
      by (simp add: pattern_color_def Let_def assms(2) nat_diff_distrib)
  qed
  note D = paintsD [OF d a(1)]
  note R = reserves_format [OF n, unfolded reserves_def, rule_format, OF D(1)]
  have pm: "pattern_module spec p \<longleftrightarrow> early_module n p \<or> align_module spec p \<or> int (fst p) = int n - 8 \<and> int (snd p) = 8"
  proof -
    have "int (fst p) = int n - 8 \<and> int (snd p) = 8 \<longleftrightarrow> fst p = n - 8 \<and> snd p = 8" using n by auto
    then show ?thesis
      by (simp only: pattern_module_def Let_def early_module_def align_module_def assms(2) disj_assoc)
  qed
  have fm: "format_module n p \<longleftrightarrow> p \<in> (\<Union>i \<in> set [0..<9]. {(8, i)} \<union> {(i, 8)}) \<union> (\<Union>i \<in> set [n - 8..<n]. {(8, i)})
    \<union> (\<Union>i \<in> set [n - 7..<n]. {(i, 8)})" if "inside n p"
  proof -
    have "fst p < n" "snd p < n" using that by (simp_all add: inside_def)
    then show ?thesis
      unfolding cross_set set_upt format_module_def Let_def atLeastLessThan_iff by linarith
  qed
  show "canvas_ok n (createBaseMatrix spec)" using R by (simp add: e)
  show "inside n p \<Longrightarrow> cell (isFunction (createBaseMatrix spec)) p = (pattern_module spec p \<or> format_module n p)"
    using R D(2) [of p] a(2) [of p] unfolding e fm pm by blast
  show "inside n p \<Longrightarrow> cell (cells (createBaseMatrix spec)) p = (if pattern_module spec p then Some (pattern_color spec p) else None)"
    using R D(3) [of p] a(3) [of p] unfolding e pm by auto
qed

section \<open>The data modules\<close>

text \<open>The zig-zag of the standard: column pairs from the right, alternately upwards and downwards, without the
  column of the vertical timing pattern. \<open>zigzag n j up\<close> are the modules of the last \<open>j\<close> pairs.\<close>

definition pair_column :: "nat \<Rightarrow> nat" where
  "pair_column j = (if 2 * j + 2 \<le> 6 then 2 * j + 1 else 2 * j + 2)"

primrec zigzag :: "nat \<Rightarrow> nat \<Rightarrow> bool \<Rightarrow> (nat \<times> nat) list" where
  "zigzag n 0 upward = []"
| "zigzag n (Suc j) upward =
     concat (map (\<lambda>r. [(r, pair_column j), (r, pair_column j - 1)]) (if upward then rev [0..<n] else [0..<n]))
     @ zigzag n j (\<not> upward)"

definition data_modules :: "qr_spec \<Rightarrow> (nat \<times> nat) list" where
  "data_modules spec = filter (\<lambda>p. \<not> pattern_module spec p \<and> \<not> format_module (qsize spec) p)
     (zigzag (qsize spec) ((qsize spec - 1) div 2) True)"

lemma fold_concat: "fold f (concat xss) = fold (fold f) xss"
  by (induction xss) auto

lemma place_columns_fold:
  "place_columns bits k isFn n c up =
     fold (\<lambda>(r, c). place_module bits k isFn r c) (concat (map (\<lambda>r. [(r, c), (r, c - 1)]) (if up then rev [0..<n] else [0..<n])))"
  unfolding place_columns_def fold_concat fold_map comp_def by simp

lemma place_loop_step:
  assumes "x \<noteq> 0" "(if x = 6 then x - 1 else x) = y" "y - 2 = z"
  shows "place_loop bits k isFn n x up st = place_loop bits k isFn n z (\<not> up) (place_columns bits k isFn n y up st)"
  using assms by (subst place_loop.simps) (simp add: Let_def)

lemma place_loop_zigzag:
  "place_loop bits k isFn n (if 2 * j \<ge> 6 then 2 * j else 2 * j - 1) up st =
     fold (\<lambda>(r, c). place_module bits k isFn r c) (zigzag n j up) st"
proof (induction j arbitrary: up st)
  case (Suc j)
  have "place_loop bits k isFn n (if 2 * Suc j \<ge> 6 then 2 * Suc j else 2 * Suc j - 1) up st
    = place_loop bits k isFn n (if 2 * j \<ge> 6 then 2 * j else 2 * j - 1) (\<not> up) (place_columns bits k isFn n (pair_column j) up st)"
    by (rule place_loop_step) (auto simp: pair_column_def)
  then show ?case unfolding Suc by (simp only: place_columns_fold zigzag.simps fold_append comp_def)
qed (simp add: place_loop.simps)

definition column_limit :: "nat \<Rightarrow> nat" where
  "column_limit j = (if 4 \<le> j then 2 * j else 2 * j - 1)"

lemma zigzag_set: "set (zigzag n j up) = {(r, c). r < n \<and> c \<noteq> 6 \<and> c \<le> column_limit j \<and> 0 < j}"
proof (induction j arbitrary: up)
  case (Suc j)
  have c: "c \<noteq> 6 \<and> c \<le> column_limit (Suc j) \<longleftrightarrow>
      c = pair_column j \<or> c = pair_column j - 1 \<or> (c \<noteq> 6 \<and> c \<le> column_limit j \<and> 0 < j)" for c
  proof -
    consider "j < 3" "pair_column j = 2 * j + 1" "column_limit (Suc j) = 2 * j + 1"
        "column_limit j = 2 * j - 1"
      | "j = 3" | "4 \<le> j" "pair_column j = 2 * j + 2" "column_limit (Suc j) = 2 * j + 2"
        "column_limit j = 2 * j"
      unfolding pair_column_def column_limit_def by (cases "j < 3"; cases "j = 3"; simp)
    then show ?thesis
    proof cases
      case 1
      show ?thesis unfolding 1(2-4) using 1(1) by presburger
    next
      case 2
      then show ?thesis by (simp add: pair_column_def column_limit_def) presburger
    next
      case 3
      show ?thesis unfolding 3(2-4) using 3(1) by presburger
    qed
  qed
  have "set (zigzag n (Suc j) up) = {(r, c). r < n \<and> (c = pair_column j \<or> c = pair_column j - 1)} \<union> set (zigzag n j (\<not> up))"
    by auto
  also have "\<dots> = {(r, c). r < n \<and> (c = pair_column j \<or> c = pair_column j - 1 \<or> (c \<noteq> 6 \<and> c \<le> column_limit j \<and> 0 < j))}"
    unfolding Suc by blast
  finally show ?case unfolding c [symmetric] by simp
qed simp

lemma zigzag_distinct: "distinct (zigzag n j up)"
proof (induction j arbitrary: up)
  case (Suc j)
  have d: "distinct (concat (map (\<lambda>r. [(r, c), (r, c - 1)]) rs))" if "distinct rs" "0 < c" for rs and c :: nat
    using that by (induction rs) auto
  have p: "0 < pair_column j"
    "c \<noteq> 6 \<and> c \<le> column_limit j \<and> 0 < j \<Longrightarrow> c \<noteq> pair_column j \<and> c \<noteq> pair_column j - 1" for c
    by (auto simp: pair_column_def column_limit_def split: if_splits)
  show ?case
    unfolding zigzag.simps distinct_append zigzag_set
  proof (intro conjI Suc)
    show "distinct (concat (map (\<lambda>r. [(r, pair_column j), (r, pair_column j - 1)]) (if up then rev [0..<n] else [0..<n])))"
      by (rule d) (use p(1) in auto)
  qed (use p(2) in auto)
qed simp

definition bit_at :: "bool list \<Rightarrow> nat \<Rightarrow> bool" where
  "bit_at bits i \<longleftrightarrow> i < length bits \<and> bits ! i"

lemma place_module_free:
  assumes "\<not> isFn ! r ! c" "k \<le> length bits"
  obtains k' where "place_module bits 0 isFn r c (m, k) = (set_cell r c (Some (bit_at bits k \<noteq> even (r + c))) m, k')"
    "k' \<le> length bits" "\<And>i. bit_at bits (k' + i) = bit_at bits (Suc k + i)"
proof (cases "k < length bits")
  case True
  then show ?thesis using assms
    by (intro that [of "Suc k"]) (auto simp: place_module_def bit_at_def even_iff_mod_2_eq_zero)
next
  case False
  then show ?thesis using assms
    by (intro that [of k]) (auto simp: place_module_def bit_at_def even_iff_mod_2_eq_zero)
qed

lemma place_fold:
  assumes "distinct ps" "\<forall>p \<in> set ps. inside n p \<and> \<not> cell isFn p" "square n m" "k \<le> length bits"
  shows "square n (fst (fold (\<lambda>(r, c). place_module bits 0 isFn r c) ps (m, k)))
    \<and> (\<forall>p. inside n p \<longrightarrow> p \<notin> set ps \<longrightarrow> cell (fst (fold (\<lambda>(r, c). place_module bits 0 isFn r c) ps (m, k))) p = cell m p)
    \<and> (\<forall>i < length ps. cell (fst (fold (\<lambda>(r, c). place_module bits 0 isFn r c) ps (m, k))) (ps ! i)
        = Some (bit_at bits (k + i) \<noteq> even (fst (ps ! i) + snd (ps ! i))))"
  using assms
proof (induction ps arbitrary: m k)
  case (Cons p ps)
  obtain r c where p: "p = (r, c)" by (cases p)
  have rc: "r < n" "c < n" "\<not> isFn ! r ! c" using Cons.prems(2) by (auto simp: p cell_def)
  obtain k' where k': "place_module bits 0 isFn r c (m, k) = (set_cell r c (Some (bit_at bits k \<noteq> even (r + c))) m, k')"
    "k' \<le> length bits" "\<And>i. bit_at bits (k' + i) = bit_at bits (Suc k + i)"
    using place_module_free [OF rc(3) Cons.prems(4)] by blast
  let ?m = "set_cell r c (Some (bit_at bits k \<noteq> even (r + c))) m"
  note IH = Cons.IH [of ?m k']
  have IH: "square n (fst (fold (\<lambda>(r, c). place_module bits 0 isFn r c) ps (?m, k')))"
    "\<And>q. inside n q \<Longrightarrow> q \<notin> set ps \<Longrightarrow> cell (fst (fold (\<lambda>(r, c). place_module bits 0 isFn r c) ps (?m, k'))) q = cell ?m q"
    "\<And>i. i < length ps \<Longrightarrow> cell (fst (fold (\<lambda>(r, c). place_module bits 0 isFn r c) ps (?m, k'))) (ps ! i)
        = Some (bit_at bits (k' + i) \<noteq> even (fst (ps ! i) + snd (ps ! i)))"
    using IH Cons.prems k'(2) by auto
  have f: "fold (\<lambda>(r, c). place_module bits 0 isFn r c) (p # ps) (m, k) = fold (\<lambda>(r, c). place_module bits 0 isFn r c) ps (?m, k')"
    by (simp add: p k'(1))
  have c: "cell ?m q = (if q = (r, c) then Some (bit_at bits k \<noteq> even (r + c)) else cell m q)" if "inside n q" for q
    using cell_set_cell [OF Cons.prems(3) rc(1,2) that] .
  show ?case unfolding f
  proof (intro conjI allI impI)
    fix q assume "inside n q" "q \<notin> set (p # ps)"
    then show "cell (fst (fold (\<lambda>(r, c). place_module bits 0 isFn r c) ps (?m, k'))) q = cell m q"
      using IH(2) [of q] c [of q] by (simp add: p)
  next
    fix i assume "i < length (p # ps)"
    then show "cell (fst (fold (\<lambda>(r, c). place_module bits 0 isFn r c) ps (?m, k'))) ((p # ps) ! i)
      = Some (bit_at bits (k + i) \<noteq> even (fst ((p # ps) ! i) + snd ((p # ps) ! i)))"
      using IH(2) [of p] IH(3) k'(3) c [of p] rc(1,2) Cons.prems(1) by (cases i) (simp_all add: p)
  qed (rule IH(1))
qed simp

lemma fold_skip: "(\<And>x s. x \<in> set xs \<Longrightarrow> \<not> P x \<Longrightarrow> f x s = s) \<Longrightarrow> fold f xs = fold f (filter P xs)"
  by (induction xs) (auto simp: fun_eq_iff)

lemma data_modules_free:
  assumes "spec_shape spec" "qsize spec = n"
  shows "distinct (data_modules spec)"
    and "set (data_modules spec) = {p. inside n p \<and> \<not> pattern_module spec p \<and> \<not> format_module n p}"
proof -
  show "distinct (data_modules spec)" by (simp add: data_modules_def zigzag_distinct)
  have n: "21 \<le> n" "odd n" using assms by (auto simp: spec_shape_def)
  then have l: "column_limit ((n - 1) div 2) = n - 1" "0 < (n - 1) div 2" by (auto simp: column_limit_def)
  show "set (data_modules spec) = {p. inside n p \<and> \<not> pattern_module spec p \<and> \<not> format_module n p}"
  proof -
    have "pattern_module spec (r, 6)" for r by (simp add: pattern_module_def)
    then show ?thesis using n by (auto simp: data_modules_def zigzag_set assms(2) l [unfolded One_nat_def])
  qed
qed

lemma placeDataBits_cells:
  fixes ws :: "octet list"
  assumes "spec_shape spec" "qsize spec = n"
  defines "m \<equiv> placeDataBits (createBaseMatrix spec) ws n 0" and "bits \<equiv> concat (map (\<lambda>w. pushBits (unat w) 8) ws)"
  shows "square n m"
    and "inside n p \<Longrightarrow> p \<notin> set (data_modules spec) \<Longrightarrow> cell m p = cell (cells (createBaseMatrix spec)) p"
    and "i < length (data_modules spec) \<Longrightarrow> cell m (data_modules spec ! i)
        = Some (bit_at bits i \<noteq> even (fst (data_modules spec ! i) + snd (data_modules spec ! i)))"
proof -
  let ?B = "createBaseMatrix spec"
  note b = createBaseMatrix_cells [OF assms(1,2)] and d = data_modules_free [OF assms(1,2)]
  have n: "21 \<le> n" "odd n" using assms by (auto simp: spec_shape_def)
  have e: "2 * ((n - 1) div 2) = n - 1" using n by simp
  have "(if 6 \<le> n - 1 then n - 1 else n - 1 - 1) = n - 1" using n by simp
  then have "m = fst (fold (\<lambda>(r, c). place_module bits 0 (isFunction ?B) r c) (zigzag n ((n - 1) div 2) True) (cells ?B, 0))"
    using place_loop_zigzag [of bits 0 "isFunction ?B" n "(n - 1) div 2" True "(cells ?B, 0)", unfolded e]
    unfolding m_def placeDataBits_def bits_def by (simp only: )
  also have "fold (\<lambda>(r, c). place_module bits 0 (isFunction ?B) r c) (zigzag n ((n - 1) div 2) True)
    = fold (\<lambda>(r, c). place_module bits 0 (isFunction ?B) r c) (data_modules spec)"
    unfolding data_modules_def assms(2)
  proof (rule fold_skip)
    fix x and s :: "bool option list list \<times> nat"
    assume "x \<in> set (zigzag n ((n - 1) div 2) True)" "\<not> (\<not> pattern_module spec x \<and> \<not> format_module n x)"
    moreover have "column_limit ((n - 1) div 2) = n - 1" using n by (auto simp: column_limit_def)
    ultimately have "cell (isFunction ?B) x" using b(2) [of x] n by (auto simp: zigzag_set)
    then show "(\<lambda>(r, c). place_module bits 0 (isFunction ?B) r c) x s = s"
      by (cases x; cases s) (simp add: place_module_def cell_def)
  qed
  finally have m: "m = fst (fold (\<lambda>(r, c). place_module bits 0 (isFunction ?B) r c) (data_modules spec) (cells ?B, 0))" .
  have free: "\<forall>p \<in> set (data_modules spec). inside n p \<and> \<not> cell (isFunction ?B) p" using b(2) d(2) by auto
  have sq: "square n (cells ?B)" using b(1) by (simp add: canvas_ok_def)
  note F = place_fold [OF d(1) free sq, of 0 bits, folded m]
  show "square n m" "inside n p \<Longrightarrow> p \<notin> set (data_modules spec) \<Longrightarrow> cell m p = cell (cells ?B) p"
    "i < length (data_modules spec) \<Longrightarrow> cell m (data_modules spec ! i)
        = Some (bit_at bits i \<noteq> even (fst (data_modules spec ! i) + snd (data_modules spec ! i)))"
    using F unfolding add_0 by blast+
qed

section \<open>Format information\<close>

definition format_writes :: "nat \<Rightarrow> nat \<Rightarrow> ((nat \<times> nat) \<times> bool option) list" where
  "format_writes n f = (let b = (\<lambda>i. Some (bit f i)) in
     map (\<lambda>i. ((8, i), b (14 - i))) [0..<6] @ [((8, 7), b 8), ((8, 8), b 7), ((7, 8), b 6)]
     @ map (\<lambda>i. ((5 - i, 8), b i)) [0..<6] @ map (\<lambda>i. ((n - 1 - i, 8), b i)) [0..<7]
     @ map (\<lambda>i. ((8, n - 8 + i), b (7 + i))) [0..<8])"

lemma inscribe_writes: "inscribeFormatInfo n f m = write_cells (format_writes n f) m"
  by (simp add: inscribeFormatInfo_def write_cells_def format_writes_def Let_def fold_map comp_def del: upt_Suc)

lemma format_writes_places:
  assumes "21 \<le> n"
  shows "distinct (map fst (format_writes n f))"
    and "fst ` set (format_writes n f) = {p. inside n p \<and> format_module n p \<and> p \<noteq> (8, 6) \<and> p \<noteq> (6, 8)}"
proof -
  have u: "[0..<6] = [0, 1, 2, 3, 4, 5::nat]" "[0..<7] = [0, 1, 2, 3, 4, 5, 6::nat]" "[0..<8] = [0, 1, 2, 3, 4, 5, 6, 7::nat]"
    by (simp_all add: upt_rec)
  show "distinct (map fst (format_writes n f))"
  proof -
    obtain k where "n = k + 21" using assms by (metis add.commute le_Suc_ex)
    then show ?thesis by (simp add: format_writes_def Let_def u del: upt_Suc)
  qed
  have im: "(\<lambda>i. 5 - i) ` {0..<6} = {0..<6::nat}" "(\<lambda>i. n - 1 - i) ` {0..<7} = {n - 7..<n}" "(\<lambda>i. n - 8 + i) ` {0..<8} = {n - 8..<n}"
  proof -
    show "(\<lambda>i. 5 - i) ` {0..<6} = {0..<6::nat}"
    proof (intro set_eqI iffI)
      fix x :: nat assume "x \<in> {0..<6}"
      then show "x \<in> (\<lambda>i. 5 - i) ` {0..<6}" by (intro image_eqI [where x = "5 - x"]) auto
    qed auto
    show "(\<lambda>i. n - 1 - i) ` {0..<7} = {n - 7..<n}"
    proof (intro set_eqI iffI)
      fix x assume "x \<in> {n - 7..<n}"
      then show "x \<in> (\<lambda>i. n - 1 - i) ` {0..<7}" using assms by (intro image_eqI [where x = "n - 1 - x"]) auto
    qed (use assms in auto)
    show "(\<lambda>i. n - 8 + i) ` {0..<8} = {n - 8..<n}"
    proof (intro set_eqI iffI)
      fix x assume "x \<in> {n - 8..<n}"
      then show "x \<in> (\<lambda>i. n - 8 + i) ` {0..<8}" using assms by (intro image_eqI [where x = "x - (n - 8)"]) auto
    qed (use assms in auto)
  qed
  have pair: "(\<lambda>i. (a, g i)) ` A = {a} \<times> g ` A" "(\<lambda>i. (g i, a)) ` A = g ` A \<times> {a}" for a :: nat and g :: "nat \<Rightarrow> nat" and A
    by auto
  have "fst ` set (format_writes n f) = {8} \<times> {0..<6} \<union> ({(8, 7), (8, 8), (7, 8)} \<union> ({0..<6} \<times> {8}
      \<union> ({n - 7..<n} \<times> {8} \<union> {8} \<times> {n - 8..<n})))"
    by (simp only: format_writes_def Let_def set_append set_map set_upt image_Un image_image fst_conv list.set image_insert
        image_empty pair im pair [where g = "\<lambda>i. i"] image_ident)
  then have w: "p \<in> fst ` set (format_writes n f) \<longleftrightarrow> fst p = 8 \<and> snd p < 6 \<or> fst p = 8 \<and> snd p = 7 \<or> fst p = 8 \<and> snd p = 8
      \<or> fst p = 7 \<and> snd p = 8 \<or> fst p < 6 \<and> snd p = 8 \<or> n - 7 \<le> fst p \<and> fst p < n \<and> snd p = 8
      \<or> fst p = 8 \<and> n - 8 \<le> snd p \<and> snd p < n" for p
    by (cases p) auto
  have "p \<in> fst ` set (format_writes n f) \<longleftrightarrow> inside n p \<and> format_module n p \<and> p \<noteq> (8, 6) \<and> p \<noteq> (6, 8)" for p
    using assms unfolding w inside_def format_module_def Let_def prod_eq_iff fst_conv snd_conv
    by (cases "fst p = 8"; cases "snd p = 8"; simp; linarith)
  then show "fst ` set (format_writes n f) = {p. inside n p \<and> format_module n p \<and> p \<noteq> (8, 6) \<and> p \<noteq> (6, 8)}" by blast
qed

section \<open>Capacity\<close>







section \<open>The reader\<close>












lemma qr_matrix_cells:
  fixes l :: ec_level and bytes :: "octet list"
  assumes "spec \<in> set VERSION_SPECS"
  defines "n \<equiv> qsize spec" and "bits \<equiv> concat (map (\<lambda>w. pushBits (unat w) 8)
      (interleaved (level_spec l spec) (encodeBitstream bytes (ec_data (level_spec l spec)))))"
  shows "square n (qr_matrix spec l bytes)"
    and "inside n p \<Longrightarrow> pattern_module spec p \<Longrightarrow> \<not> format_module n p \<or> p = (8, 6) \<or> p = (6, 8)
      \<Longrightarrow> cell (qr_matrix spec l bytes) p = Some (pattern_color spec p)"
    and "i < length (data_modules spec) \<Longrightarrow> cell (qr_matrix spec l bytes) (data_modules spec ! i)
        = Some (bit_at bits i \<noteq> even (fst (data_modules spec ! i) + snd (data_modules spec ! i)))"
    and "(p, v) \<in> set (format_writes n (computeFormatBits l 0)) \<Longrightarrow> cell (qr_matrix spec l bytes) p = v"
proof -
  note sh = spec_shape [OF assms(1)]
  have n: "21 \<le> n" using sh by (auto simp: spec_shape_def n_def)
  let ?m = "placeDataBits (createBaseMatrix spec) (interleaved (level_spec l spec) (encodeBitstream bytes (ec_data (level_spec l spec)))) n 0"
  let ?w = "format_writes n (computeFormatBits l 0)"
  note P = placeDataBits_cells [OF sh n_def [symmetric, THEN meta_eq_to_obj_eq], where ws = "interleaved (level_spec l spec) (encodeBitstream bytes (ec_data (level_spec l spec)))"]
  note F = format_writes_places [OF n, of "computeFormatBits l 0"]
  note D = data_modules_free [OF sh n_def [symmetric, THEN meta_eq_to_obj_eq]]
  have e: "qr_matrix spec l bytes = write_cells ?w ?m"
    by (simp add: qr_matrix_def Let_def n_def inscribe_writes)
  have i: "\<forall>w \<in> set ?w. inside n (fst w)" using F(2) by auto
  note W = write_cells_cell [OF P(1) i, of p]
  show "square n (qr_matrix spec l bytes)" using write_cells_cell(1) [OF P(1) i, of "(0, 0)"] n by (simp add: e)
  show "inside n p \<Longrightarrow> pattern_module spec p \<Longrightarrow> \<not> format_module n p \<or> p = (8, 6) \<or> p = (6, 8)
      \<Longrightarrow> cell (qr_matrix spec l bytes) p = Some (pattern_color spec p)"
  proof -
    assume a: "inside n p" "pattern_module spec p" "\<not> format_module n p \<or> p = (8, 6) \<or> p = (6, 8)"
    then have "p \<notin> fst ` set ?w" "p \<notin> set (data_modules spec)" unfolding F(2) D(2) by auto
    then have "cell (qr_matrix spec l bytes) p = cell (cells (createBaseMatrix spec)) p"
      using W(2) [OF a(1)] P(2) [OF a(1)] by (simp add: e)
    then show ?thesis using createBaseMatrix_cells(3) [OF sh n_def [symmetric, THEN meta_eq_to_obj_eq] a(1)] a(2) by simp
  qed
  show "i < length (data_modules spec) \<Longrightarrow> cell (qr_matrix spec l bytes) (data_modules spec ! i)
        = Some (bit_at bits i \<noteq> even (fst (data_modules spec ! i) + snd (data_modules spec ! i)))"
  proof -
    assume a: "i < length (data_modules spec)"
    then have q: "data_modules spec ! i \<in> set (data_modules spec)" by simp
    then have "inside n (data_modules spec ! i)" "data_modules spec ! i \<notin> fst ` set ?w" unfolding F(2) D(2) by auto
    then show ?thesis using write_cells_cell(2) [OF P(1) i, of "data_modules spec ! i"] P(3) [OF a] by (simp add: e bits_def)
  qed
  show "(p, v) \<in> set ?w \<Longrightarrow> cell (qr_matrix spec l bytes) p = v"
    using W(3) [OF _ F(1)] i by (auto simp: e)
qed

section \<open>Properties\<close>


lemma format_writes_Some: "(p, v) \<in> set (format_writes n f) \<Longrightarrow> v \<noteq> None"
  unfolding format_writes_def Let_def set_append set_map by auto






lemma generate_cases:
  assumes "generateQrSvg utf8 (JStr t) options = Inr img"
  obtains spec l where "spec \<in> set VERSION_SPECS" "l = (if oEcLevel options = Some ''L'' then LevelL else LevelM)"
    "length (utf8 t) + 3 \<le> ec_data (level_spec l spec)" "matrix img = qr_matrix spec l (utf8 t)"
proof -
  let ?l = "if oEcLevel options = Some ''L'' then LevelL else LevelM"
  let ?P = "\<lambda>s. ec_data (level_spec ?l s) \<ge> length (utf8 t) + 3"
  obtain spec where "find ?P VERSION_SPECS = Some spec" "matrix img = qr_matrix spec ?l (utf8 t)"
    using assms by (cases "find ?P VERSION_SPECS") (auto simp: generateQrSvg_def Let_def split: if_split_asm)
  then show thesis using that [of spec ?l] by (auto simp: find_Some_iff)
qed


definition example_options :: qr_options where
  "example_options = \<lparr>oEcLevel = None, oMargin = None, oForeground = None, oBackground = None, oSize = None\<rparr>"

lemma example_accepted: "\<not> isl (generateQrSvg (map (\<lambda>c. of_char c)) (JStr ''HTTPS://HUB'') example_options)"
  by (simp add: generateQrSvg_def example_options_def VERSION_SPECS_def level_spec_def ec_row_def Let_def)


text \<open>The matrix is complete and carries the function patterns of the standard: every module is set,
  and finders, separators, timing, alignment pattern and dark module have the prescribed colours.\<close>

theorem qr_patterns:
  assumes "generateQrSvg utf8 (JStr t) options = Inr img"
  shows "\<exists>spec. spec \<in> set VERSION_SPECS \<and> square (qsize spec) (matrix img)
    \<and> (\<forall>p. inside (qsize spec) p \<longrightarrow> cell (matrix img) p \<noteq> None
        \<and> (pattern_module spec p \<longrightarrow> \<not> format_module (qsize spec) p \<or> p = (8, 6) \<or> p = (6, 8)
            \<longrightarrow> cell (matrix img) p = Some (pattern_color spec p)))"
proof -
  obtain spec l where s: "spec \<in> set VERSION_SPECS" "matrix img = qr_matrix spec l (utf8 t)"
    using assms by (rule generate_cases)
  note q = qr_matrix_cells [OF s(1), where l = l and bytes = "utf8 t"] and sh = spec_shape [OF s(1)]
  have n: "21 \<le> qsize spec" using sh by (auto simp: spec_shape_def)
  have "cell (qr_matrix spec l (utf8 t)) p \<noteq> None" if "inside (qsize spec) p" for p
  proof -
    have six: "pattern_module spec (8, 6)" "pattern_module spec (6, 8)" by (simp_all add: pattern_module_def)
    have d: "p \<in> set (data_modules spec) \<longleftrightarrow> \<not> pattern_module spec p \<and> \<not> format_module (qsize spec) p"
      using that by (simp add: data_modules_free(2) [OF sh refl])
    consider "p \<in> set (data_modules spec)" | "format_module (qsize spec) p" "p \<noteq> (8, 6)" "p \<noteq> (6, 8)"
      | "pattern_module spec p" "\<not> format_module (qsize spec) p \<or> p = (8, 6) \<or> p = (6, 8)"
      using d six by (cases "p = (8, 6)"; cases "p = (6, 8)"; cases "pattern_module spec p") blast+
    then show ?thesis
    proof cases
      case 1
      then show ?thesis using q(3) by (auto simp: in_set_conv_nth)
    next
      case 2
      then have "p \<in> fst ` set (format_writes (qsize spec) (computeFormatBits l 0))"
        using that by (simp add: format_writes_places(2) [OF n])
      then obtain v where "(p, v) \<in> set (format_writes (qsize spec) (computeFormatBits l 0))" by auto
      then show ?thesis using q(4) format_writes_Some by metis
    next
      case 3
      then show ?thesis using q(2) that by simp
    qed
  qed
  then show ?thesis using s q(1,2) by auto
qed

theorem qr_patterns_witness:
  "\<exists>spec. spec \<in> set VERSION_SPECS
    \<and> square (qsize spec) (matrix (projr (generateQrSvg (map (\<lambda>c. of_char c)) (JStr ''HTTPS://HUB'') example_options)))
    \<and> (\<forall>p. inside (qsize spec) p \<longrightarrow>
        cell (matrix (projr (generateQrSvg (map (\<lambda>c. of_char c)) (JStr ''HTTPS://HUB'') example_options))) p \<noteq> None
        \<and> (pattern_module spec p \<longrightarrow> \<not> format_module (qsize spec) p \<or> p = (8, 6) \<or> p = (6, 8)
            \<longrightarrow> cell (matrix (projr (generateQrSvg (map (\<lambda>c. of_char c)) (JStr ''HTTPS://HUB'') example_options))) p
              = Some (pattern_color spec p)))"
  by (rule qr_patterns [where options = example_options]) (rule sum.collapse(2) [OF example_accepted, symmetric])

lemma find_None_list_all: "find P xs = None \<longleftrightarrow> list_all (\<lambda>x. \<not> P x) xs"
  by (induction xs) auto

text \<open>Texts are accepted by their length in bytes alone: at most 133 bytes at level L, 105 at level M, one less
  than the largest version holds.\<close>

theorem qr_accepts_by_length:
  "(\<exists>img. generateQrSvg utf8 (JStr t) options = Inr img) \<longleftrightarrow>
     t \<noteq> [] \<and> length (utf8 t) \<le> (if oEcLevel options = Some ''L'' then 133 else 105)"
proof -
  let ?l = "if oEcLevel options = Some ''L'' then LevelL else LevelM"
  let ?f = "find (\<lambda>s. ec_data (level_spec ?l s) \<ge> length (utf8 t) + 3) VERSION_SPECS"
  have "?f = None \<longleftrightarrow> \<not> length (utf8 t) \<le> (if oEcLevel options = Some ''L'' then 133 else 105)"
    unfolding find_None_list_all
    by (cases "oEcLevel options = Some ''L''") (simp_all add: VERSION_SPECS_def level_spec_def ec_row_def, linarith+)
  moreover have "(\<exists>img. generateQrSvg utf8 (JStr t) options = Inr img) \<longleftrightarrow> t \<noteq> [] \<and> ?f \<noteq> None"
    by (cases ?f; cases "t = []") (simp_all add: generateQrSvg_def Let_def)
  ultimately show ?thesis by simp
qed

text \<open>The second copy of the format information is written backwards: where the standard puts bit \<open>i\<close> (row 8
  from the right edge, then column 8 from row \<open>size - 7\<close> down) stands bit \<open>14 - i\<close>; and in the first copy
  the bits of rows 0 to 5 of column 8 are reversed.\<close>

theorem format_copies_reversed:
  assumes "spec \<in> set VERSION_SPECS"
  shows "i < 15 \<Longrightarrow> cell (qr_matrix spec l bytes) (if i < 8 then (8, qsize spec - 1 - i) else (qsize spec - 15 + i, 8))
      = Some (bit (computeFormatBits l 0) (14 - i))"
    and "i < 6 \<Longrightarrow> cell (qr_matrix spec l bytes) (i, 8) = Some (bit (computeFormatBits l 0) (5 - i))"
proof -
  have n: "21 \<le> qsize spec" using spec_shape [OF assms] by (auto simp: spec_shape_def)
  note q = qr_matrix_cells(4) [OF assms]
  show "cell (qr_matrix spec l bytes) (if i < 8 then (8, qsize spec - 1 - i) else (qsize spec - 15 + i, 8))
      = Some (bit (computeFormatBits l 0) (14 - i))" if "i < 15"
  proof (rule q, cases "i < 8")
    case True
    then show "((if i < 8 then (8, qsize spec - 1 - i) else (qsize spec - 15 + i, 8)), Some (bit (computeFormatBits l 0) (14 - i)))
      \<in> set (format_writes (qsize spec) (computeFormatBits l 0))"
      using n unfolding format_writes_def Let_def set_append set_map
      by (intro UnI2 image_eqI [where x = "7 - i"]) auto
  next
    case False
    then show "((if i < 8 then (8, qsize spec - 1 - i) else (qsize spec - 15 + i, 8)), Some (bit (computeFormatBits l 0) (14 - i)))
      \<in> set (format_writes (qsize spec) (computeFormatBits l 0))"
      using n that unfolding format_writes_def Let_def set_append set_map
      by (rule_tac UnI2, rule_tac UnI2, rule_tac UnI2, rule_tac UnI1) (rule image_eqI [where x = "14 - i"], auto)
  qed
  show "cell (qr_matrix spec l bytes) (i, 8) = Some (bit (computeFormatBits l 0) (5 - i))" if "i < 6"
  proof (rule q)
    show "((i, 8), Some (bit (computeFormatBits l 0) (5 - i))) \<in> set (format_writes (qsize spec) (computeFormatBits l 0))"
      using that unfolding format_writes_def Let_def set_append set_map
      by (rule_tac UnI2, rule_tac UnI2, rule_tac UnI1) (rule image_eqI [where x = "5 - i"], auto)
  qed
qed

end
