(* ===== verification/RouteHeaders.thy ===== *)
theory RouteHeaders
  imports Prelude
begin

text \<open>
  What passes between a browser and a node, header by header: the sanitizers of
  \<^verbatim>\<open>src/registry/route-proxy.mjs\<close> for the direct and the reverse transport, those of
  \<^verbatim>\<open>src/registry/reverse-channel.mjs\<close> for the OPEN message and the response, and the texts of the raw responses.
  An object of headers is the list of its properties in order; entries of header lists are name and value
  texts, as the callers pass them. The status texts of the platform are the argument \<open>statusTexts\<close>.
\<close>

section \<open>Cookies\<close>

definition semicolon :: char where
  "semicolon = CHR 0x3B"

fun join_text :: "str \<Rightarrow> str list \<Rightarrow> str" where
  "join_text sep [] = []"
| "join_text sep [x] = x"
| "join_text sep (x # y # ys) = x @ sep @ join_text sep (y # ys)"

definition cookie_parts :: "str \<Rightarrow> str list" where
  "cookie_parts value = map js_trim (js_split semicolon value)"

definition HUB_COOKIE :: str where
  "HUB_COOKIE = ''dsh-orbit-hub-session=''"

definition domain_attribute :: "str \<Rightarrow> bool" where
  "domain_attribute t \<longleftrightarrow> js_starts_with ''domain'' (js_lower t)
     \<and> (let rest = dropWhile js_ws (drop 6 t) in rest = [] \<or> hd rest = CHR ''='')"

definition sanitizeSingleCookie :: "str \<Rightarrow> str" where
  "sanitizeSingleCookie cookieStr =
     (let parts = js_split semicolon cookieStr
      in js_join semicolon (hd parts # filter (\<lambda>part. \<not> domain_attribute (js_trim part)) (tl parts)))"

fun sanitizeSetCookieHeader :: "jsval \<Rightarrow> jsval" where
  "sanitizeSetCookieHeader (JArr vs) = JArr (map (\<lambda>v. case v of JStr s \<Rightarrow> JStr (sanitizeSingleCookie s) | _ \<Rightarrow> v) vs)"
| "sanitizeSetCookieHeader (JStr s) = JStr (sanitizeSingleCookie s)"
| "sanitizeSetCookieHeader v = v"

section \<open>Requests\<close>

definition gateway_header :: "str \<Rightarrow> bool" where
  "gateway_header lower \<longleftrightarrow> lower \<in> set [''x-dsh-authenticated-proxy'', ''x-dsh-operator-id'', ''x-csrf-token'',
     ''x-gateway-auth'', ''x-gateway-secret'']"

definition clean_client_header :: "str \<times> jsval \<Rightarrow> (str \<times> jsval) option" where
  "clean_client_header = (\<lambda>(key, val).
     let lower = js_lower key in
     if js_starts_with ''x-orbit-route-'' lower then None
     else case (lower = ''cookie'', val) of
       (True, JStr s) \<Rightarrow>
         let sanitizedCookies = join_text ''; '' (filter (\<lambda>c. \<not> js_starts_with HUB_COOKIE c) (cookie_parts s))
         in if sanitizedCookies \<noteq> [] then Some (key, JStr sanitizedCookies) else None
     | _ \<Rightarrow> if gateway_header lower then None else Some (key, val))"

definition sanitizeClientHeaders :: "(str \<times> jsval) list \<Rightarrow> (str \<times> jsval) list" where
  "sanitizeClientHeaders headers = List.map_filter clean_client_header headers"

definition clean_client_pair :: "bool \<Rightarrow> str \<Rightarrow> str \<Rightarrow> (str \<times> str) list" where
  "clean_client_pair websocket name val =
     (let lower = js_lower name in
      if lower = ''host'' then []
      else if js_starts_with ''x-orbit-route-'' lower then []
      else if gateway_header lower then []
      else if lower = ''cookie'' then
        let sanitized = join_text ''; '' (filter (\<lambda>part. \<not> js_starts_with HUB_COOKIE (js_lower part)) (cookie_parts val))
        in if sanitized \<noteq> [] then [(name, sanitized)] else []
      else if \<not> websocket \<and> lower = ''connection'' then []
      else [(name, val)])"

fun sanitizeClientHeaderPairs :: "bool \<Rightarrow> str list \<Rightarrow> (str \<times> str) list" where
  "sanitizeClientHeaderPairs websocket (name # val # rest) =
     clean_client_pair websocket name val @ sanitizeClientHeaderPairs websocket rest"
| "sanitizeClientHeaderPairs websocket _ = []"

definition clean_open_header :: "str \<times> str \<Rightarrow> (str \<times> str) list" where
  "clean_open_header = (\<lambda>(name, val).
     let lower = js_lower name in
     if js_starts_with ''x-orbit-'' lower then []
     else if gateway_header lower then []
     else if lower = ''proxy-authorization'' \<or> lower = ''proxy-connection'' then []
     else if lower = ''cookie'' then
       let v = join_text ''; '' (filter (\<lambda>part. \<not> js_starts_with HUB_COOKIE (js_lower part)) (cookie_parts val))
       in if length v > 0 then [(name, v)] else []
     else [(name, val)])"

definition sanitizeWebSocketOpenHeaders :: "(str \<times> str) list \<Rightarrow> (str \<times> str) list" where
  "sanitizeWebSocketOpenHeaders headers = concat (map clean_open_header headers)"

definition sanitizeFlowHeaders :: "(str \<times> str) list \<Rightarrow> (str \<times> str) list" where
  "sanitizeFlowHeaders headers =
     filter (\<lambda>(name, _). js_lower name \<noteq> ''connection'' \<and> js_lower name \<noteq> ''proxy-connection'')
       (sanitizeWebSocketOpenHeaders headers)"

text \<open>The headers of the OPEN message of a flow, from the raw headers of the browser's request.\<close>

definition open_headers :: "bool \<Rightarrow> str list \<Rightarrow> (str \<times> str) list" where
  "open_headers websocket rawHeaders =
     (let headers = sanitizeClientHeaderPairs websocket rawHeaders
      in if websocket then sanitizeWebSocketOpenHeaders headers else sanitizeFlowHeaders headers)"

definition forward_headers :: "(str \<times> jsval) list \<Rightarrow> (str \<times> str) list \<Rightarrow> str \<Rightarrow> (str \<times> jsval) list" where
  "forward_headers sanitizedHeaders routeHeaders routeAuthority =
     AList.update ''x-orbit-route-authority'' (JStr routeAuthority)
       (AList.update ''host'' (JStr routeAuthority)
         (fold (\<lambda>(k, v). AList.update k (JStr v)) routeHeaders sanitizedHeaders))"

section \<open>Responses\<close>

datatype header_value = One str | Many "str list"

definition add_response_header :: "str \<times> str \<Rightarrow> (str, header_value) omap \<Rightarrow> (str, header_value) omap" where
  "add_response_header = (\<lambda>(name, val) headers.
     case map_of headers name of
       None \<Rightarrow> AList.update name (One val) headers
     | Some (Many vs) \<Rightarrow> AList.update name (Many (vs @ [val])) headers
     | Some (One v) \<Rightarrow> AList.update name (Many [v, val]) headers)"

definition responseHeaderPairsToObject :: "(str \<times> str) list \<Rightarrow> (str, header_value) omap" where
  "responseHeaderPairsToObject pairs = fold add_response_header pairs []"

definition responsePairs :: "(str \<times> str) list \<Rightarrow> (str \<times> str) list" where
  "responsePairs headers =
     map (\<lambda>(name, val). if js_lower name \<noteq> ''set-cookie'' then (name, val) else (name, sanitizeSingleCookie val)) headers"

definition CRLF :: str where
  "CRLF = [CHR 0x0D, CHR 0x0A]"

definition rawHttpResponse :: "(nat \<Rightarrow> str option) \<Rightarrow> nat \<Rightarrow> (str \<times> str) list \<Rightarrow> str" where
  "rawHttpResponse statusTexts status headers =
     (let statusCode = (if status = 0 then 502 else status);
          statusText = (case statusTexts statusCode of None \<Rightarrow> ''Error'' | Some t \<Rightarrow> t);
          fields = map (\<lambda>(name, val). name @ '': '' @ val)
            (filter (\<lambda>(name, _). js_lower name \<noteq> ''transfer-encoding'') (responsePairs headers))
      in join_text CRLF ((''HTTP/1.1 '' @ dec_of_nat statusCode @ '' '' @ statusText) # fields @ [[], []]))"

definition header_lines :: "str \<times> header_value \<Rightarrow> str list" where
  "header_lines = (\<lambda>(key, value). case value of
      Many vs \<Rightarrow> map (\<lambda>v. key @ '': '' @ v) vs
    | One v \<Rightarrow> [key @ '': '' @ v])"

definition formatHttpResponse :: "nat \<Rightarrow> str \<Rightarrow> (str \<times> header_value) list \<Rightarrow> str" where
  "formatHttpResponse statusCode statusText headers =
     join_text CRLF ((''HTTP/1.1 '' @ dec_of_nat statusCode @ '' '' @ statusText)
       # concat (map header_lines headers) @ [[], []])"

definition sendSocketHttpError :: "nat \<Rightarrow> str \<Rightarrow> (str \<times> str) list \<Rightarrow> str \<Rightarrow> nat \<Rightarrow> str" where
  "sendSocketHttpError statusCode statusText headers payload byteLength =
     join_text CRLF ([''HTTP/1.1 '' @ dec_of_nat statusCode @ '' '' @ statusText, ''connection: close'',
         ''content-type: application/json'', ''content-length: '' @ dec_of_nat byteLength]
       @ map (\<lambda>(k, v). k @ '': '' @ v) headers @ [[], payload])"

section \<open>Lemmas\<close>

lemma split_join_text:
  assumes "\<forall>p \<in> set ps. semicolon \<notin> set p" "ps \<noteq> []"
  shows "js_split semicolon (join_text ''; '' ps) = hd ps # map (\<lambda>p. CHR '' '' # p) (tl ps)"
  using assms
proof (induction "''; ''" ps rule: join_text.induct)
  case (2 x)
  then show ?case by (simp add: js_split_no_sep)
next
  case (3 x y ys)
  have "js_split semicolon (CHR '' '' # join_text ''; '' (y # ys)) = (CHR '' '' # y) # map (\<lambda>p. CHR '' '' # p) ys"
    using 3 by (simp add: semicolon_def)
  then show ?case using 3(2) by (simp add: js_split_append semicolon_def)
qed simp

lemma js_trim_space: "js_trim (CHR '' '' # p) = js_trim p"
  by (simp add: js_trim_def js_ws_def Let_def)

lemma cookie_parts_clean: "p \<in> set (cookie_parts v) \<Longrightarrow> js_trim p = p \<and> semicolon \<notin> set p"
proof -
  assume "p \<in> set (cookie_parts v)"
  then obtain q where q: "q \<in> set (js_split semicolon v)" "p = js_trim q" by (auto simp: cookie_parts_def)
  have "set p \<subseteq> set q" unfolding q(2) js_trim_def by (auto dest!: set_dropWhileD)
  then show "js_trim p = p \<and> semicolon \<notin> set p" using q js_split_parts by auto
qed

lemma trim_split_join:
  assumes "\<forall>p \<in> set ps. js_trim p = p \<and> semicolon \<notin> set p" "ps \<noteq> []"
  shows "map js_trim (js_split semicolon (join_text ''; '' ps)) = ps"
proof -
  have "map js_trim (js_split semicolon (join_text ''; '' ps)) = map js_trim (hd ps # map (\<lambda>p. CHR '' '' # p) (tl ps))"
    using split_join_text [of ps] assms by simp
  also have "\<dots> = map js_trim ps" using assms(2) by (cases ps) (simp_all add: js_trim_space)
  also have "\<dots> = ps" using assms(1) by (simp add: map_idI)
  finally show ?thesis .
qed

text \<open>A sanitized cookie header has exactly the cookies of the original that pass the filter.\<close>

lemma cookie_parts_filter:
  assumes "join_text ''; '' (filter P (cookie_parts v)) \<noteq> []"
  shows "cookie_parts (join_text ''; '' (filter P (cookie_parts v))) = filter P (cookie_parts v)"
proof -
  have "filter P (cookie_parts v) \<noteq> []" using assms by (cases "filter P (cookie_parts v)") auto
  moreover have "\<forall>p \<in> set (filter P (cookie_parts v)). js_trim p = p \<and> semicolon \<notin> set p"
    using cookie_parts_clean by auto
  ultimately show ?thesis
    unfolding cookie_parts_def [of "join_text ''; '' (filter P (cookie_parts v))"] by (intro trim_split_join)
qed

section \<open>Properties\<close>

fun raw_pairs :: "str list \<Rightarrow> (str \<times> str) list" where
  "raw_pairs (name # val # rest) = (name, val) # raw_pairs rest"
| "raw_pairs _ = []"

lemma pairs_concat: "sanitizeClientHeaderPairs ws raw = concat (map (\<lambda>(n, v). clean_client_pair ws n v) (raw_pairs raw))"
  by (induction ws raw rule: sanitizeClientHeaderPairs.induct) simp_all

definition private_header :: "str \<Rightarrow> bool" where
  "private_header lower \<longleftrightarrow> js_starts_with ''x-orbit-'' lower \<or> gateway_header lower
     \<or> lower \<in> set [''host'', ''proxy-authorization'', ''proxy-connection'', ''connection'']"

text \<open>A WebSocket flow keeps the connection header, which the upgrade needs.\<close>

definition dropped_header :: "bool \<Rightarrow> str \<Rightarrow> bool" where
  "dropped_header websocket lower \<longleftrightarrow> private_header lower \<and> \<not> (websocket \<and> lower = ''connection'')"

definition guest_cookies :: "str \<Rightarrow> str list" where
  "guest_cookies v = filter (\<lambda>part. \<not> js_starts_with HUB_COOKIE (js_lower part)) (cookie_parts v)"

lemma guest_cookies_idem:
  assumes "join_text ''; '' (guest_cookies v) \<noteq> []"
  shows "cookie_parts (join_text ''; '' (guest_cookies v)) = guest_cookies v"
    "guest_cookies (join_text ''; '' (guest_cookies v)) = guest_cookies v"
  using cookie_parts_filter assms by (simp_all add: guest_cookies_def)

lemma cookie_public: "\<not> js_starts_with ''x-orbit-'' ''cookie''" "\<not> js_starts_with ''x-orbit-route-'' ''cookie''"
  "\<not> gateway_header ''cookie''" "\<not> private_header ''cookie''"
  by code_simp+

lemma gateway_connection: "\<not> gateway_header ''connection''" "\<not> js_starts_with ''x-orbit-'' ''connection''"
  "\<not> js_starts_with ''x-orbit-route-'' ''connection''"
  by code_simp+

lemma route_prefix: "js_starts_with ''x-orbit-route-'' l \<Longrightarrow> js_starts_with ''x-orbit-'' l"
  unfolding js_starts_with_def by (rule prefix_order.trans [of _ "''x-orbit-route-''"]) simp_all

text \<open>What one header becomes on its way into an OPEN message.\<close>

definition opened :: "bool \<Rightarrow> str \<times> str \<Rightarrow> (str \<times> str) list" where
  "opened websocket = (\<lambda>(n, v). if dropped_header websocket (js_lower n) then []
     else if js_lower n = ''cookie'' then (let c = join_text ''; '' (guest_cookies v) in if c = [] then [] else [(n, c)])
     else [(n, v)])"

definition open_filter :: "bool \<Rightarrow> (str \<times> str) list \<Rightarrow> (str \<times> str) list" where
  "open_filter websocket hs = (if websocket then sanitizeWebSocketOpenHeaders hs else sanitizeFlowHeaders hs)"

lemma one_opened: "open_filter ws (clean_client_pair ws n v) = opened ws (n, v)"
proof (cases "js_lower n = ''cookie''")
  case True
  let ?c = "join_text ''; '' (guest_cookies v)"
  have "clean_client_pair ws n v = (if ?c \<noteq> [] then [(n, ?c)] else [])"
    using True by (simp add: clean_client_pair_def Let_def cookie_public guest_cookies_def)
  moreover have "clean_open_header (n, ?c) = [(n, ?c)]" if "?c \<noteq> []"
    using True that guest_cookies_idem(2) [OF that] by (simp add: clean_open_header_def Let_def cookie_public flip: guest_cookies_def)
  ultimately show ?thesis using True
    by (simp add: opened_def dropped_header_def cookie_public open_filter_def sanitizeFlowHeaders_def sanitizeWebSocketOpenHeaders_def Let_def)
next
  case False
  then show ?thesis using route_prefix [of "js_lower n"]
    by (auto simp: clean_client_pair_def clean_open_header_def opened_def dropped_header_def private_header_def Let_def
        open_filter_def sanitizeFlowHeaders_def sanitizeWebSocketOpenHeaders_def gateway_connection)
qed

lemma open_headers_opened: "open_headers ws raw = concat (map (opened ws) (raw_pairs raw))"
proof -
  have app: "open_filter ws (xs @ ys) = open_filter ws xs @ open_filter ws ys" for xs ys
    by (simp add: open_filter_def sanitizeFlowHeaders_def sanitizeWebSocketOpenHeaders_def)
  have "open_filter ws (concat (map (\<lambda>(n, v). clean_client_pair ws n v) ps)) = concat (map (opened ws) ps)" for ps
  proof (induction ps)
    case Nil
    show ?case by (simp add: open_filter_def sanitizeFlowHeaders_def sanitizeWebSocketOpenHeaders_def)
  next
    case (Cons p ps)
    then show ?case by (cases p) (simp add: app one_opened)
  qed
  then show ?thesis by (simp add: open_headers_def open_filter_def pairs_concat Let_def)
qed

text \<open>C25. No credential of the Hub reaches a node over the reverse transport: among the headers of the OPEN message of
  an HTTP flow or of a WebSocket flow there is no Orbit, gateway, proxy or Host header (of an HTTP flow no connection
  header either), and no cookie that carries a Hub session. Every other header is passed on as it is, and so is every
  other cookie of the browser: the comment where the HTTP message is built says that browser cookies never travel to
  the node, which holds for the Hub session cookie only.\<close>

theorem open_headers_safe:
  assumes "hs = open_headers websocket raw"
  shows "((n, v) \<in> set hs \<longrightarrow> \<not> dropped_header websocket (js_lower n)
      \<and> (js_lower n = ''cookie'' \<longrightarrow> list_all (\<lambda>p. \<not> js_starts_with HUB_COOKIE (js_lower p)) (cookie_parts v)))
    \<and> ((n, v) \<in> set (raw_pairs raw) \<longrightarrow> \<not> dropped_header websocket (js_lower n) \<longrightarrow>
        (if js_lower n = ''cookie'' then guest_cookies v = [] \<or> guest_cookies v = [[]] \<or> (\<exists>v'. (n, v') \<in> set hs \<and> cookie_parts v' = guest_cookies v)
         else (n, v) \<in> set hs))"
proof (intro conjI impI)
  assume "(n, v) \<in> set hs"
  then obtain p where p: "p \<in> set (raw_pairs raw)" "(n, v) \<in> set (opened websocket p)"
    unfolding assms open_headers_opened by auto
  obtain n0 v0 where q: "p = (n0, v0)" by (cases p)
  have "list_all (\<lambda>p. \<not> js_starts_with HUB_COOKIE (js_lower p)) (guest_cookies v0)"
    by (simp add: guest_cookies_def list_all_iff)
  then show "\<not> dropped_header websocket (js_lower n)"
    "js_lower n = ''cookie'' \<Longrightarrow> list_all (\<lambda>p. \<not> js_starts_with HUB_COOKIE (js_lower p)) (cookie_parts v)"
    using p(2) guest_cookies_idem(1) [of v0] by (auto simp: q opened_def Let_def split: if_splits)
next
  assume r: "(n, v) \<in> set (raw_pairs raw)" "\<not> dropped_header websocket (js_lower n)"
  have sub: "x \<in> set (opened websocket (n, v)) \<Longrightarrow> x \<in> set hs" for x
    unfolding assms open_headers_opened using r(1) by auto
  have empty: "join_text ''; '' ps = [] \<Longrightarrow> ps = [] \<or> ps = [[]]" for ps
    by (induction "''; ''" ps rule: join_text.induct) auto
  show "if js_lower n = ''cookie'' then guest_cookies v = [] \<or> guest_cookies v = [[]] \<or> (\<exists>v'. (n, v') \<in> set hs \<and> cookie_parts v' = guest_cookies v)
         else (n, v) \<in> set hs"
  proof (cases "js_lower n = ''cookie''")
    case True
    then show ?thesis
      using sub [of "(n, join_text ''; '' (guest_cookies v))"] r(2) empty [of "guest_cookies v"] guest_cookies_idem(1) [of v]
      by (cases "join_text ''; '' (guest_cookies v) = []") (auto simp: opened_def Let_def)
  next
    case False
    then show ?thesis using sub [of "(n, v)"] r(2) by (simp add: opened_def)
  qed
qed

definition example_raw :: "str list" where
  "example_raw = [''Host'', ''n-1.orbit.test'', ''Cookie'', ''a=1; DSH-Orbit-Hub-Session=s3cret;b=2'', ''X-Orbit-Route-Node'', ''forged'',
     ''Accept'', ''text/html'']"

lemma example_raw_out:
  "open_headers False example_raw = [(''Cookie'', ''a=1; b=2''), (''Accept'', ''text/html'')]"
  "open_headers True (example_raw @ [''Connection'', ''Upgrade''])
    = [(''Cookie'', ''a=1; b=2''), (''Accept'', ''text/html''), (''Connection'', ''Upgrade'')]"
  by code_simp+

theorem open_headers_safe_witness:
  "\<not> dropped_header False (js_lower ''Accept'')
    \<and> list_all (\<lambda>p. \<not> js_starts_with HUB_COOKIE (js_lower p)) (cookie_parts ''a=1; b=2'')
    \<and> (''Accept'', ''text/html'') \<in> set (open_headers False example_raw)
    \<and> (''Connection'', ''Upgrade'') \<in> set (open_headers True (example_raw @ [''Connection'', ''Upgrade'']))"
proof (intro conjI)
  note safe = open_headers_safe [OF refl, where raw = example_raw and websocket = False, unfolded example_raw_out]
  show "\<not> dropped_header False (js_lower ''Accept'')" using safe [of "''Accept''" "''text/html''"] by simp
  have "js_lower ''Cookie'' = ''cookie''" by code_simp
  then show "list_all (\<lambda>p. \<not> js_starts_with HUB_COOKIE (js_lower p)) (cookie_parts ''a=1; b=2'')"
    using safe [of "''Cookie''" "''a=1; b=2''"] by simp
qed (simp_all add: example_raw_out)

lemma map_of_map_filter:
  assumes "\<And>k v k' v'. f (k, v) = Some (k', v') \<Longrightarrow> k' = k" "omap_wf hs"
  shows "map_of (List.map_filter f hs) k = (case map_of hs k of None \<Rightarrow> None | Some v \<Rightarrow> map_option snd (f (k, v)))"
  using assms(2)
proof (induction hs)
  case (Cons h hs)
  obtain k0 v0 where h: "h = (k0, v0)" by (cases h)
  have none: "map_of hs k0 = None" using Cons.prems by (simp add: h map_of_eq_None_iff)
  show ?case
  proof (cases "f (k0, v0)")
    case None
    then show ?thesis using Cons none by (auto simp: h map_filter_simps split: option.split)
  next
    case (Some p)
    then have "fst p = k0" using assms(1) by (cases p) simp
    then show ?thesis using Cons none Some by (cases p) (auto simp: h map_filter_simps split: option.split)
  qed
qed (simp add: map_filter_simps)

lemma clean_client_key: "clean_client_header (k, v) = Some (k', v') \<Longrightarrow> k' = k"
  by (auto simp: clean_client_header_def Let_def split: if_splits jsval.splits bool.splits)

lemma map_of_fold_update:
  "omap_wf rh \<Longrightarrow> map_of (fold (\<lambda>(k, v). AList.update k (JStr v)) rh hs) k =
     (case map_of rh k of None \<Rightarrow> map_of hs k | Some v \<Rightarrow> Some (JStr v))"
proof (induction rh arbitrary: hs)
  case (Cons p rh)
  obtain k0 v0 where p: "p = (k0, v0)" by (cases p)
  have "map_of rh k0 = None" using Cons.prems by (simp add: p map_of_eq_None_iff)
  then show ?case using Cons by (auto simp: p map_of_update split: option.split)
qed simp

lemma cleaned_header:
  assumes "js_lower k = k"
  shows "map_option snd (clean_client_header (k, v)) =
    (if js_starts_with ''x-orbit-route-'' k \<or> gateway_header k then None
     else case v of JStr s \<Rightarrow> if k = ''cookie'' then
             (let rest = join_text ''; '' (filter (\<lambda>c. \<not> js_starts_with HUB_COOKIE c) (cookie_parts s))
              in if rest = [] then None else Some (JStr rest)) else Some v
        | _ \<Rightarrow> Some v)"
proof (cases "k = ''cookie''")
  case True
  then show ?thesis using assms cookie_public by (cases v) (simp_all add: clean_client_header_def Let_def)
next
  case False
  then show ?thesis using assms by (cases v) (simp_all add: clean_client_header_def Let_def)
qed

text \<open>C32. The direct transport: whatever the browser sends, the request to the node carries the Host and the route
  authority that the Hub computed and the proof headers it signed; no other proof header, no gateway header and no
  cookie of a Hub session passes; the cookie header keeps its other cookies, trimmed and joined again, and every
  remaining header passes unchanged. Header names arrive in lower case.\<close>

theorem forward_headers_authentic:
  assumes "omap_wf hs" "list_all (\<lambda>(k, _). js_lower k = k) hs" "omap_wf rh"
  shows "map_of (forward_headers (sanitizeClientHeaders hs) rh auth) k =
    (if k = ''host'' \<or> k = ''x-orbit-route-authority'' then Some (JStr auth)
     else case map_of rh k of Some v \<Rightarrow> Some (JStr v)
     | None \<Rightarrow>
       if js_starts_with ''x-orbit-route-'' k \<or> gateway_header k then None
       else case (k, map_of hs k) of
         (name, Some (JStr s)) \<Rightarrow>
           if name = ''cookie'' then
             (let rest = join_text ''; '' (filter (\<lambda>c. \<not> js_starts_with HUB_COOKIE c) (cookie_parts s))
              in if rest = [] then None else Some (JStr rest))
           else Some (JStr s)
       | (_, v) \<Rightarrow> v)"
proof -
  have low: "js_lower k = k" if "map_of hs k = Some v" for v
    using assms(2) map_of_SomeD [OF that] by (auto simp: list_all_iff)
  have clean: "map_of (sanitizeClientHeaders hs) k =
      (case map_of hs k of None \<Rightarrow> None | Some v \<Rightarrow> map_option snd (clean_client_header (k, v)))"
    unfolding sanitizeClientHeaders_def by (rule map_of_map_filter [OF clean_client_key assms(1)])
  show ?thesis
  proof (cases "map_of hs k")
    case None
    then show ?thesis using clean
      by (simp add: forward_headers_def map_of_update map_of_fold_update [OF assms(3)] split: option.split)
  next
    case (Some v)
    then show ?thesis using clean cleaned_header [OF low [OF Some], of v]
      by (cases v) (simp_all add: forward_headers_def map_of_update map_of_fold_update [OF assms(3)] Let_def split: option.split)
  qed
qed

theorem forward_headers_authentic_witness:
  "let hs = [(''host'', JStr ''evil''), (''x-orbit-route-node'', JStr ''forged''), (''x-orbit-route-extra'', JStr ''x''),
             (''cookie'', JStr ''dsh-orbit-hub-session=s; a=1'')];
       out = forward_headers (sanitizeClientHeaders hs) [(''x-orbit-route-node'', ''node_1'')] ''n-1.orbit.test''
   in map_of out ''host'' = Some (JStr ''n-1.orbit.test'') \<and> map_of out ''x-orbit-route-node'' = Some (JStr ''node_1'')
    \<and> map_of out ''x-orbit-route-extra'' = None \<and> map_of out ''cookie'' = Some (JStr ''a=1'')"
proof -
  have l: "list_all (\<lambda>(k, _). js_lower k = k) [(''host'', JStr ''evil''), (''x-orbit-route-node'', JStr ''forged''),
      (''x-orbit-route-extra'', JStr ''x''), (''cookie'', JStr ''dsh-orbit-hub-session=s; a=1'')]"
    by code_simp
  have e: "js_starts_with ''x-orbit-route-'' ''x-orbit-route-extra''" "\<not> js_starts_with ''x-orbit-route-'' ''cookie''"
    by code_simp+
  have c: "join_text ''; '' (filter (\<lambda>c. \<not> js_starts_with HUB_COOKIE c) (cookie_parts ''dsh-orbit-hub-session=s; a=1'')) = ''a=1''"
    by code_simp
  note fwd = forward_headers_authentic [OF _ l, of "[(''x-orbit-route-node'', ''node_1'')]" "''n-1.orbit.test''"]
  show ?thesis
    unfolding Let_def using fwd [of "''host''"] fwd [of "''x-orbit-route-node''"] fwd [of "''x-orbit-route-extra''"] fwd [of "''cookie''"]
    by (simp add: e c cookie_public)
qed

end
