(* ===== verification/ReversePool.thy ===== *)
theory ReversePool
  imports ReverseWs RouteHeaders
begin

text \<open>
  \<^verbatim>\<open>src/registry/reverse-channel.mjs\<close>: the pool of reverse data channels of the Hub and the HTTP flows over them.
  Channels, flows and the callers of \<open>acquireChannel\<close> live in heaps (an object is its index), because the pool's
  maps, the browsers' body readers and the abort callbacks share them and outlive each other's use. A channel is
  usable until it is closed; \<open>paused\<close> is the read side of its socket and \<open>outbox\<close> the messages written to it. What
  a promise was settled with is a value of the flow or caller that waits on it; the continuation of a settled waiter
  is an event of its own (\<open>Resume\<close>), while claiming a channel and binding the flow to it are one step, since no
  other event fits between them. The size of the socket's write queue and the time are arguments of the events.

  The flows are those of \<open>executeReverseHttp\<close>: fields and branches that only the flows of
  \<open>executeReverseWebSocket\<close> use are left out, as is that function. Fields that are never read are left out too.
  The callers of \<open>executeReverseHttp\<close> always pass a body.
\<close>

section \<open>Data\<close>

record limits =
  frameMaxBytes :: nat
  softMarkBytes :: nat
  resumeBelowBytes :: nat
  hardCapBytes :: nat
  stallTimeoutMs :: int

definition DEFAULT_LIMITS :: limits where
  "DEFAULT_LIMITS = \<lparr>frameMaxBytes = 64 * 1024, softMarkBytes = 512 * 1024, resumeBelowBytes = 256 * 1024,
     hardCapBytes = 2 * 1024 * 1024, stallTimeoutMs = 30000\<rparr>"

definition CHANNEL_CAPACITY_WAIT_MS :: int where
  "CHANNEL_CAPACITY_WAIT_MS = 2000"

record pool_config =
  maxChannels :: nat
  capacityWaitMs :: int
  limits_of :: limits

definition bound_integer :: "jsval \<Rightarrow> bool" where
  "bound_integer v = (case v of JNum r \<Rightarrow> snd (quotient_of r) = 1 | _ \<Rightarrow> False)"

fun bound_value :: "jsval \<Rightarrow> rat" where
  "bound_value (JNum r) = r"
| "bound_value _ = 0"

text \<open>\<open>json\<close> is \<open>JSON.stringify\<close>; the result is the complaint, if there is one.\<close>

definition validateReversePoolBounds :: "(jsval \<Rightarrow> str) \<Rightarrow> jsval \<Rightarrow> jsval \<Rightarrow> str option" where
  "validateReversePoolBounds json idleTarget maxCh =
     (if \<not> bound_integer idleTarget \<or> bound_value idleTarget < 1 \<or> bound_value idleTarget > 16
      then Some (''reverse idle target must be an integer 1-16 (got '' @ json idleTarget @ '')'')
      else if \<not> bound_integer maxCh \<or> bound_value maxCh < 4 \<or> bound_value maxCh > 64
      then Some (''reverse max channels must be an integer 4-64 (got '' @ json maxCh @ '')'')
      else if bound_value idleTarget > bound_value maxCh
      then Some ''reverse idle target must be <= max channels''
      else None)"

text \<open>What a caller passes to \<open>executeReverseHttp\<close>, and the messages written to a channel.\<close>

record request =
  q_method :: str
  q_rawTarget :: str
  q_routeAuthority :: str
  q_routeProof :: "(str \<times> jsval) list"
  q_headers :: "(str \<times> str) list"

datatype channel_message =
    WUpgrade
  | WOpen str request
  | WData "byte list"
  | WRequestEnd str
  | WAbort str str
  | WPong "byte list"

datatype channel_state = ChIdle | ChBusy | ChClosed

record channel =
  c_node :: str
  c_key :: str
  c_session :: str
  c_state :: channel_state
  c_flow :: "nat option"
  c_closed :: bool
  c_paused :: bool
  c_ws :: parser
  c_out :: "channel_message list"

text \<open>
  The course of \<open>executeReverseHttp\<close> for one flow: sending the rest of a body chunk, waiting for the socket to drain
  with the rest still to be sent and the size of the queue, waiting for the response, or settled.
\<close>

datatype head_phase =
    HSending "byte list"
  | HDraining "byte list" nat
  | HAwaiting
  | HAnswered jsval "jsval list"
  | HFailed jsval

datatype body_read = Chunk "byte list" | EndOfBody | ReadFailed jsval

datatype generator = GenStart | GenAwait | GenYielded nat | GenDone

datatype idle_wait = IdleUnasked | IdleWaiting | IdleDone bool

record flow =
  f_channel :: nat
  f_request :: str
  f_aborted :: bool
  f_abortCode :: "jsval option"
  f_head :: head_phase
  f_queue :: "byte list list"
  f_gen :: generator
  f_reads :: "body_read list"
  f_bodyEnded :: bool
  f_idleReceived :: bool
  f_idle :: idle_wait
  f_queued :: nat
  f_lastConsumed :: int

datatype caller_state = CWaiting | CWoken | CFlow nat | CFailed str

record caller =
  k_node :: str
  k_session :: "str option"
  k_request :: request
  k_started :: int
  k_state :: caller_state

record pool =
  chans :: "channel list"
  flows :: "flow list"
  callers :: "caller list"
  channels :: "(str, nat list) omap"
  idleWaiters :: "(str, nat list) omap"

definition new_pool :: pool where
  "new_pool = \<lparr>chans = [], flows = [], callers = [], channels = [], idleWaiters = []\<rparr>"

abbreviation chan :: "pool \<Rightarrow> nat \<Rightarrow> channel" where
  "chan m i \<equiv> chans m ! i"

abbreviation fl :: "pool \<Rightarrow> nat \<Rightarrow> flow" where
  "fl m f \<equiv> flows m ! f"

abbreviation cl :: "pool \<Rightarrow> nat \<Rightarrow> caller" where
  "cl m k \<equiv> callers m ! k"

definition upd_chan :: "nat \<Rightarrow> (channel \<Rightarrow> channel) \<Rightarrow> pool \<Rightarrow> pool" where
  "upd_chan i g m = m\<lparr>chans := (chans m)[i := g (chan m i)]\<rparr>"

definition upd_flow :: "nat \<Rightarrow> (flow \<Rightarrow> flow) \<Rightarrow> pool \<Rightarrow> pool" where
  "upd_flow f g m = m\<lparr>flows := (flows m)[f := g (fl m f)]\<rparr>"

definition upd_caller :: "nat \<Rightarrow> (caller \<Rightarrow> caller) \<Rightarrow> pool \<Rightarrow> pool" where
  "upd_caller k g m = m\<lparr>callers := (callers m)[k := g (cl m k)]\<rparr>"

definition pool_of :: "pool \<Rightarrow> str \<Rightarrow> nat list" where
  "pool_of m n = (case map_of (channels m) n of None \<Rightarrow> [] | Some is \<Rightarrow> is)"

definition waiters_of :: "pool \<Rightarrow> str \<Rightarrow> nat list" where
  "waiters_of m n = (case map_of (idleWaiters m) n of None \<Rightarrow> [] | Some ks \<Rightarrow> ks)"

section \<open>Flows\<close>

definition resume_channel :: "nat \<Rightarrow> pool \<Rightarrow> pool" where
  "resume_channel i = upd_chan i (\<lambda>c. c\<lparr>c_paused := False\<rparr>)"

definition fail_flow :: "nat \<Rightarrow> jsval \<Rightarrow> pool \<Rightarrow> pool" where
  "fail_flow f code m =
     (if f_aborted (fl m f) then m
      else upd_flow f (\<lambda>x. x\<lparr>f_aborted := True, f_abortCode := Some code,
             f_head := (if f_head x = HAwaiting then HFailed code else f_head x),
             f_gen := (if f_gen x = GenAwait then GenDone else f_gen x),
             f_reads := (if f_gen x = GenAwait then f_reads x @ [ReadFailed code] else f_reads x),
             f_bodyEnded := True,
             f_idle := (if f_idle x = IdleWaiting then IdleDone True else f_idle x)\<rparr>)
           (resume_channel (f_channel (fl m f)) m))"

definition onResponse :: "nat \<Rightarrow> jsval \<Rightarrow> jsval list \<Rightarrow> pool \<Rightarrow> pool" where
  "onResponse f status headers m =
     (if f_aborted (fl m f) then m
      else upd_flow f (\<lambda>x. x\<lparr>f_head := (if f_head x = HAwaiting then HAnswered status headers else f_head x)\<rparr>) m)"

definition endBody :: "nat \<Rightarrow> pool \<Rightarrow> pool" where
  "endBody f m =
     (if f_bodyEnded (fl m f) then m
      else upd_flow f (\<lambda>x. x\<lparr>f_bodyEnded := True,
             f_gen := (if f_gen x = GenAwait then GenDone else f_gen x),
             f_reads := (if f_gen x = GenAwait then f_reads x @ [EndOfBody] else f_reads x)\<rparr>)
           (resume_channel (f_channel (fl m f)) m))"

definition consume :: "limits \<Rightarrow> int \<Rightarrow> nat \<Rightarrow> nat \<Rightarrow> pool \<Rightarrow> pool" where
  "consume lims now f n m =
     (let m1 = upd_flow f (\<lambda>x. x\<lparr>f_lastConsumed := now, f_queued := f_queued x - n\<rparr>) m
      in if f_queued (fl m1 f) < resumeBelowBytes lims then resume_channel (f_channel (fl m1 f)) m1 else m1)"

definition nextBodyChunk :: "nat \<Rightarrow> pool \<Rightarrow> pool" where
  "nextBodyChunk f = upd_flow f (\<lambda>x.
     if f_aborted x then
       x\<lparr>f_gen := GenDone,
         f_reads := f_reads x @ [ReadFailed (case f_abortCode x of None \<Rightarrow> JStr ''flow-aborted'' | Some c \<Rightarrow> c)]\<rparr>
     else case f_queue x of
       c # cs \<Rightarrow> x\<lparr>f_queue := cs, f_gen := GenYielded (length c), f_reads := f_reads x @ [Chunk c]\<rparr>
     | [] \<Rightarrow> if f_bodyEnded x then x\<lparr>f_gen := GenDone, f_reads := f_reads x @ [EndOfBody]\<rparr>
             else x\<lparr>f_gen := GenAwait\<rparr>)"

section \<open>Channels\<close>

definition CHANNEL_CFG :: parser_config where
  "CHANNEL_CFG = \<lparr>isClient = False, maxMessageBytes = 64 * 1024\<rparr>"

definition new_channel :: "str \<Rightarrow> str \<Rightarrow> str \<Rightarrow> channel" where
  "new_channel node key session = \<lparr>c_node = node, c_key = key, c_session = session, c_state = ChIdle, c_flow = None,
     c_closed = False, c_paused = False, c_ws = new_parser, c_out = [WUpgrade]\<rparr>"

definition send :: "nat \<Rightarrow> channel_message \<Rightarrow> pool \<Rightarrow> pool" where
  "send i w m = (if c_closed (chan m i) then m else upd_chan i (\<lambda>c. c\<lparr>c_out := c_out c @ [w]\<rparr>) m)"

definition onChannelClosed :: "nat \<Rightarrow> pool \<Rightarrow> pool" where
  "onChannelClosed i m =
     (let n = c_node (chan m i) in
      case map_of (channels m) n of
        None \<Rightarrow> m
      | Some is \<Rightarrow>
          let is' = removeAll i is in
          m\<lparr>channels := (if is' = [] then AList.delete n (channels m) else AList.update n is' (channels m))\<rparr>)"

definition close_channel :: "nat \<Rightarrow> str \<Rightarrow> pool \<Rightarrow> pool" where
  "close_channel i reason m =
     (if c_closed (chan m i) then m
      else
        let m1 = upd_chan i (\<lambda>c. c\<lparr>c_closed := True\<rparr>) m;
            m2 = (case c_flow (chan m1 i) of None \<Rightarrow> m1 | Some f \<Rightarrow> fail_flow f (JStr ''channel-closed'') m1);
            m3 = upd_chan i (\<lambda>c. c\<lparr>c_flow := None, c_state := ChClosed\<rparr>) m2
        in onChannelClosed i m3)"

text \<open>The waiters of \<open>acquireChannel\<close>.\<close>

definition leave :: "nat \<Rightarrow> pool \<Rightarrow> pool" where
  "leave k m =
     (let n = k_node (cl m k); ks = removeAll k (waiters_of m n)
      in m\<lparr>idleWaiters := (if ks = [] then AList.delete n (idleWaiters m) else AList.update n ks (idleWaiters m))\<rparr>)"

definition settle_waiter :: "nat \<Rightarrow> pool \<Rightarrow> pool" where
  "settle_waiter k m = (if k_state (cl m k) \<noteq> CWaiting then m else upd_caller k (\<lambda>x. x\<lparr>k_state := CWoken\<rparr>) (leave k m))"

definition cancel_waiter :: "nat \<Rightarrow> str \<Rightarrow> pool \<Rightarrow> pool" where
  "cancel_waiter k code m = (if k_state (cl m k) \<noteq> CWaiting then m else upd_caller k (\<lambda>x. x\<lparr>k_state := CFailed code\<rparr>) (leave k m))"

definition resolveIdleWaiters :: "str \<Rightarrow> str \<Rightarrow> pool \<Rightarrow> pool" where
  "resolveIdleWaiters node session m =
     (case find (\<lambda>k. k_session (cl m k) = None \<or> k_session (cl m k) = Some session) (waiters_of m node) of
        None \<Rightarrow> m
      | Some k \<Rightarrow> settle_waiter k m)"

definition fail_and_close :: "nat \<Rightarrow> nat \<Rightarrow> jsval \<Rightarrow> str \<Rightarrow> pool \<Rightarrow> pool" where
  "fail_and_close f i code reason m = close_channel i reason (fail_flow f code m)"

definition pushBody :: "limits \<Rightarrow> int \<Rightarrow> nat \<Rightarrow> byte list \<Rightarrow> pool \<Rightarrow> pool" where
  "pushBody lims now f bytes m =
     (if f_aborted (fl m f) \<or> f_bodyEnded (fl m f) then m
      else
        let i = f_channel (fl m f);
            m1 = upd_flow f (\<lambda>x. x\<lparr>f_queued := f_queued x + length bytes, f_lastConsumed := now\<rparr>) m in
        if f_queued (fl m1 f) > hardCapBytes lims then fail_and_close f i (JStr ''flow-overrun'') ''flow-overrun'' m1
        else if f_gen (fl m1 f) = GenAwait
        then upd_flow f (\<lambda>x. x\<lparr>f_gen := GenYielded (length bytes), f_reads := f_reads x @ [Chunk bytes]\<rparr>) m1
        else
          let m2 = upd_flow f (\<lambda>x. x\<lparr>f_queue := f_queue x @ [bytes]\<rparr>) m1 in
          if f_queued (fl m2 f) \<ge> softMarkBytes lims then upd_chan i (\<lambda>c. c\<lparr>c_paused := True\<rparr>) m2 else m2)"

definition on_idle :: "nat \<Rightarrow> pool \<Rightarrow> pool" where
  "on_idle i m =
     (case c_flow (chan m i) of
        None \<Rightarrow> close_channel i ''idle-without-flow'' m
      | Some f \<Rightarrow>
          let m1 = upd_flow f (\<lambda>x. x\<lparr>f_idleReceived := True\<rparr>) m in
          if \<not> f_bodyEnded (fl m1 f) then fail_and_close f i (JStr ''channel-desync'') ''channel-desync'' m1
          else
            let m2 = upd_chan i (\<lambda>c. c\<lparr>c_flow := None, c_state := ChIdle\<rparr>) m1;
                m3 = upd_flow f (\<lambda>x. x\<lparr>f_idle := (if f_idle x = IdleWaiting then IdleDone True else f_idle x)\<rparr>) m2
            in resolveIdleWaiters (c_node (chan m3 i)) (c_session (chan m3 i)) m3)"

definition names_request :: "jsval \<Rightarrow> bool" where
  "names_request v \<longleftrightarrow> v \<notin> {JUndefined, JNull, JBool False, JNum 0, JStr []}"

fun number_value :: "jsval \<Rightarrow> bool" where
  "number_value (JNum _) = True"
| "number_value JNonFinite = True"
| "number_value _ = False"

definition on_flow_message :: "nat \<Rightarrow> nat \<Rightarrow> str \<Rightarrow> (str \<times> jsval) list \<Rightarrow> pool \<Rightarrow> pool" where
  "on_flow_message i f t ps m =
     (if t = ''response'' then
        (case (number_value (js_get ''status'' ps), js_get ''headers'' ps) of
           (True, JArr headers) \<Rightarrow>
             if js_get ''requestId'' ps \<noteq> JStr (f_request (fl m f))
             then fail_and_close f i (JStr ''request-mismatch'') ''bad-node-message'' m
             else onResponse f (js_get ''status'' ps) headers m
         | _ \<Rightarrow> fail_and_close f i (JStr ''bad-response'') ''bad-node-message'' m)
      else if t = ''response-end'' then
        if js_get ''requestId'' ps \<noteq> JStr (f_request (fl m f))
        then fail_and_close f i (JStr ''request-mismatch'') ''bad-node-message'' m
        else endBody f m
      else if t = ''abort'' then
        if names_request (js_get ''requestId'' ps) \<and> js_get ''requestId'' ps \<noteq> JStr (f_request (fl m f))
        then close_channel i ''request-mismatch'' m
        else fail_and_close f i
          (if js_get ''code'' ps \<in> {JUndefined, JNull} then JStr ''node-abort'' else js_get ''code'' ps) ''node-abort'' m
      else close_channel i ''unexpected-node-message'' m)"

definition on_text :: "jsval option \<Rightarrow> nat \<Rightarrow> pool \<Rightarrow> pool" where
  "on_text parsed i m =
     (case parsed of
        None \<Rightarrow> close_channel i ''bad-json'' m
      | Some message \<Rightarrow>
      case (case message of JObj ps \<Rightarrow> (case js_get ''type'' ps of JStr t \<Rightarrow> Some (t, ps) | _ \<Rightarrow> None) | _ \<Rightarrow> None) of
        None \<Rightarrow> close_channel i ''bad-node-message'' m
      | Some (t, ps) \<Rightarrow>
          if t = ''idle'' then on_idle i m
          else case c_flow (chan m i) of
            None \<Rightarrow> close_channel i ''message-without-flow'' m
          | Some f \<Rightarrow> on_flow_message i f t ps m)"

definition on_binary :: "limits \<Rightarrow> int \<Rightarrow> nat \<Rightarrow> byte list \<Rightarrow> pool \<Rightarrow> pool" where
  "on_binary lims now i bytes m =
     (case c_flow (chan m i) of
        Some f \<Rightarrow> if \<not> f_aborted (fl m f) \<and> \<not> f_bodyEnded (fl m f) then pushBody lims now f bytes m
                  else close_channel i ''unexpected-binary'' m
      | None \<Rightarrow> close_channel i ''unexpected-binary'' m)"

fun onNodeMessage :: "limits \<Rightarrow> (byte list \<Rightarrow> jsval option) \<Rightarrow> int \<Rightarrow> nat \<Rightarrow> ws_event \<Rightarrow> pool \<Rightarrow> pool" where
  "onNodeMessage lims pj now i (TextMessage b) m = (if c_closed (chan m i) then m else on_text (pj b) i m)"
| "onNodeMessage lims pj now i (BinaryMessage b) m = (if c_closed (chan m i) then m else on_binary lims now i b m)"
| "onNodeMessage lims pj now i (Ping b) m = send i (WPong b) m"
| "onNodeMessage lims pj now i (Pong b) m = m"
| "onNodeMessage lims pj now i (CloseFrame c) m = close_channel i ''node-close'' m"
| "onNodeMessage lims pj now i (WsError e) m = close_channel i ''protocol-error'' m"

definition on_chan_data :: "limits \<Rightarrow> (byte list \<Rightarrow> jsval option) \<Rightarrow> int \<Rightarrow> nat \<Rightarrow> byte list \<Rightarrow> pool \<Rightarrow> pool" where
  "on_chan_data lims pj now i chunk m =
     (let r = feed CHANNEL_CFG chunk (c_ws (chan m i))
      in fold (onNodeMessage lims pj now i) (snd r) (upd_chan i (\<lambda>c. c\<lparr>c_ws := fst r\<rparr>) m))"

section \<open>Claiming a channel\<close>

definition claimIdleChannel :: "str \<Rightarrow> str option \<Rightarrow> pool \<Rightarrow> nat option" where
  "claimIdleChannel node session m =
     find (\<lambda>i. \<not> c_closed (chan m i) \<and> c_state (chan m i) = ChIdle \<and> (session = None \<or> session = Some (c_session (chan m i))))
       (pool_of m node)"

definition new_flow :: "int \<Rightarrow> nat \<Rightarrow> str \<Rightarrow> flow" where
  "new_flow now i rid = \<lparr>f_channel = i, f_request = rid, f_aborted = False, f_abortCode = None, f_head = HSending [],
     f_queue = [], f_gen = GenStart, f_reads = [], f_bodyEnded = False, f_idleReceived = False, f_idle = IdleUnasked,
     f_queued = 0, f_lastConsumed = now\<rparr>"

text \<open>The caller's request as it is put into the OPEN message.\<close>

definition open_message :: "str \<Rightarrow> request \<Rightarrow> channel_message" where
  "open_message rid q = WOpen rid (q\<lparr>q_headers := sanitizeFlowHeaders (q_headers q)\<rparr>)"

definition bind_flow :: "nat \<Rightarrow> nat \<Rightarrow> str \<Rightarrow> int \<Rightarrow> pool \<Rightarrow> pool" where
  "bind_flow k i rid now m =
     (if k_session (cl m k) \<noteq> None \<and> k_session (cl m k) \<noteq> Some (c_session (chan m i))
      then upd_caller k (\<lambda>x. x\<lparr>k_state := CFailed ''reverse-session-stale''\<rparr>) (close_channel i ''reverse-session-stale'' m)
      else
        let f = length (flows m);
            m1 = m\<lparr>flows := flows m @ [new_flow now i rid]\<rparr>;
            m2 = upd_chan i (\<lambda>c. c\<lparr>c_state := ChBusy, c_flow := Some f\<rparr>) m1;
            m3 = upd_caller k (\<lambda>x. x\<lparr>k_state := CFlow f\<rparr>) m2
        in send i (open_message rid (k_request (cl m k))) m3)"

text \<open>One round of \<open>acquireChannel\<close> for a caller: claim, or wait, or give up.\<close>

definition wait_or_fail :: "pool_config \<Rightarrow> int \<Rightarrow> nat \<Rightarrow> pool \<Rightarrow> pool" where
  "wait_or_fail cfg now k m =
     (if now - k_started (cl m k) < capacityWaitMs cfg
      then let n = k_node (cl m k) in
        upd_caller k (\<lambda>x. x\<lparr>k_state := CWaiting\<rparr>)
          (m\<lparr>idleWaiters := AList.update n (waiters_of m n @ [k]) (idleWaiters m)\<rparr>)
      else upd_caller k (\<lambda>x. x\<lparr>k_state := CFailed ''reverse-capacity''\<rparr>) m)"

definition acquire :: "pool_config \<Rightarrow> int \<Rightarrow> str \<Rightarrow> nat \<Rightarrow> pool \<Rightarrow> pool" where
  "acquire cfg now rid k m =
     (case claimIdleChannel (k_node (cl m k)) (k_session (cl m k)) m of
        Some i \<Rightarrow> bind_flow k i rid now m
      | None \<Rightarrow> wait_or_fail cfg now k m)"

definition executeReverseHttp :: "pool_config \<Rightarrow> int \<Rightarrow> str \<Rightarrow> str option \<Rightarrow> request \<Rightarrow> str \<Rightarrow> pool \<Rightarrow> pool" where
  "executeReverseHttp cfg now node session q rid m =
     (let k = length (callers m);
          c = \<lparr>k_node = node, k_session = session, k_request = q, k_started = now, k_state = CWoken\<rparr>
      in acquire cfg now rid k (m\<lparr>callers := callers m @ [c]\<rparr>))"

definition resume_caller :: "pool_config \<Rightarrow> int \<Rightarrow> str \<Rightarrow> nat \<Rightarrow> pool \<Rightarrow> pool" where
  "resume_caller cfg now rid k m = (if k_state (cl m k) = CWoken then acquire cfg now rid k m else m)"

section \<open>The course of one flow\<close>

text \<open>The \<open>catch\<close> of \<open>executeReverseHttp\<close>.\<close>

definition request_failed :: "nat \<Rightarrow> jsval \<Rightarrow> pool \<Rightarrow> pool" where
  "request_failed f code m =
     fail_and_close f (f_channel (fl m f)) code ''flow-error'' (upd_flow f (\<lambda>x. x\<lparr>f_head := HFailed code\<rparr>) m)"

definition body_chunk :: "nat \<Rightarrow> byte list \<Rightarrow> pool \<Rightarrow> pool" where
  "body_chunk f bytes m =
     (if f_head (fl m f) = HSending [] then upd_flow f (\<lambda>x. x\<lparr>f_head := HSending bytes\<rparr>) m else m)"

text \<open>One round of \<open>writeBytes\<close>; \<open>before\<close> and \<open>after\<close> are the sizes of the socket's write queue.\<close>

definition write_step :: "limits \<Rightarrow> nat \<Rightarrow> nat \<Rightarrow> nat \<Rightarrow> pool \<Rightarrow> pool" where
  "write_step lims f before after m =
     (case f_head (fl m f) of
        HSending bytes \<Rightarrow>
          if bytes = [] then m
          else
            let i = f_channel (fl m f) in
            if f_aborted (fl m f) \<or> c_closed (chan m i)
            then request_failed f (case f_abortCode (fl m f) of None \<Rightarrow> JStr ''channel-closed'' | Some c \<Rightarrow> c) m
            else if before > hardCapBytes lims
            then request_failed f (JStr ''flow-overrun'') (fail_and_close f i (JStr ''flow-overrun'') ''flow-overrun'' m)
            else
              let rest = drop (frameMaxBytes lims) bytes;
                  m1 = upd_chan i (\<lambda>c. c\<lparr>c_out := c_out c @ [WData (take (frameMaxBytes lims) bytes)]\<rparr>) m
              in upd_flow f (\<lambda>x. x\<lparr>f_head := (if after > softMarkBytes lims then HDraining rest after else HSending rest)\<rparr>) m1
      | _ \<Rightarrow> m)"

definition drained :: "nat \<Rightarrow> pool \<Rightarrow> pool" where
  "drained f m =
     (case f_head (fl m f) of
        HDraining rest before \<Rightarrow> upd_flow f (\<lambda>x. x\<lparr>f_head := HSending rest\<rparr>) m
      | _ \<Rightarrow> m)"

definition drain_timeout :: "nat \<Rightarrow> nat \<Rightarrow> pool \<Rightarrow> pool" where
  "drain_timeout f queue m =
     (case f_head (fl m f) of
        HDraining rest before \<Rightarrow>
          if queue \<ge> before
          then request_failed f (JStr ''flow-stall'')
                 (fail_and_close f (f_channel (fl m f)) (JStr ''flow-stall'') ''flow-stall'' m)
          else upd_flow f (\<lambda>x. x\<lparr>f_head := HSending rest\<rparr>) m
      | _ \<Rightarrow> m)"

definition body_done :: "nat \<Rightarrow> pool \<Rightarrow> pool" where
  "body_done f m =
     (if f_head (fl m f) = HSending []
      then upd_flow f (\<lambda>x. x\<lparr>f_head := HAwaiting\<rparr>) (send (f_channel (fl m f)) (WRequestEnd (f_request (fl m f))) m)
      else m)"

definition body_error :: "nat \<Rightarrow> jsval \<Rightarrow> pool \<Rightarrow> pool" where
  "body_error f code m = (if f_head (fl m f) = HSending [] then request_failed f code m else m)"

definition response_timeout :: "nat \<Rightarrow> pool \<Rightarrow> pool" where
  "response_timeout f m = (if f_head (fl m f) = HAwaiting then request_failed f (JStr ''flow-stall'') m else m)"

text \<open>The generator \<open>responseBody\<close>: the reader asks for the next chunk, or leaves.\<close>

definition answered :: "flow \<Rightarrow> bool" where
  "answered x \<longleftrightarrow> (case f_head x of HAnswered _ _ \<Rightarrow> True | _ \<Rightarrow> False)"

definition pull_body :: "limits \<Rightarrow> int \<Rightarrow> nat \<Rightarrow> pool \<Rightarrow> pool" where
  "pull_body lims now f m =
     (if \<not> answered (fl m f) then m
      else case f_gen (fl m f) of
        GenStart \<Rightarrow> nextBodyChunk f m
      | GenYielded n \<Rightarrow> nextBodyChunk f (consume lims now f n m)
      | _ \<Rightarrow> m)"

definition return_body :: "nat \<Rightarrow> pool \<Rightarrow> pool" where
  "return_body f m =
     (if \<not> answered (fl m f) then m
      else case f_gen (fl m f) of
        GenStart \<Rightarrow> upd_flow f (\<lambda>x. x\<lparr>f_gen := GenDone\<rparr>) m
      | GenYielded n \<Rightarrow> upd_flow f (\<lambda>x. x\<lparr>f_gen := GenDone\<rparr>) (endBody f m)
      | _ \<Rightarrow> m)"

definition abort_flow :: "nat \<Rightarrow> str \<Rightarrow> pool \<Rightarrow> pool" where
  "abort_flow f code m =
     (let i = f_channel (fl m f) in
      if f_aborted (fl m f) \<or> c_closed (chan m i) then m
      else close_channel i code (send i (WAbort (f_request (fl m f)) code) (fail_flow f (JStr code) m)))"

definition waitForIdle :: "nat \<Rightarrow> pool \<Rightarrow> pool" where
  "waitForIdle f m =
     (if \<not> answered (fl m f) then m
      else upd_flow f (\<lambda>x. x\<lparr>f_idle :=
        (if f_idleReceived x \<or> f_aborted x \<or> c_closed (chan m (f_channel x)) then IdleDone True else IdleWaiting)\<rparr>) m)"

definition idle_timeout :: "nat \<Rightarrow> pool \<Rightarrow> pool" where
  "idle_timeout f m =
     (if f_idle (fl m f) \<noteq> IdleWaiting then m
      else
        let m1 = upd_flow f (\<lambda>x. x\<lparr>f_idle := IdleDone False\<rparr>) m; i = f_channel (fl m f) in
        if \<not> c_closed (chan m1 i) \<and> \<not> f_aborted (fl m1 f)
        then fail_and_close f i (JStr ''channel-desync'') ''channel-desync'' m1
        else m1)"

definition stall_check :: "limits \<Rightarrow> int \<Rightarrow> nat \<Rightarrow> pool \<Rightarrow> pool" where
  "stall_check lims now f m =
     (if f_aborted (fl m f) \<or> f_bodyEnded (fl m f) then m
      else if f_queued (fl m f) \<ge> softMarkBytes lims \<and> now - f_lastConsumed (fl m f) \<ge> stallTimeoutMs lims
      then fail_and_close f (f_channel (fl m f)) (JStr ''flow-stall'') ''flow-stall'' m
      else m)"

section \<open>The manager\<close>

definition registerChannel :: "pool_config \<Rightarrow> str \<Rightarrow> str \<Rightarrow> str \<Rightarrow> pool \<Rightarrow> pool" where
  "registerChannel cfg node key session m =
     (let is = pool_of m node in
      if length is \<ge> maxChannels cfg then m
      else
        let i = length (chans m);
            m1 = m\<lparr>chans := chans m @ [new_channel node key session],
                   channels := AList.update node (is @ [i]) (channels m)\<rparr>
        in resolveIdleWaiters node session m1)"

definition idleChannels :: "str \<Rightarrow> str option \<Rightarrow> pool \<Rightarrow> nat list" where
  "idleChannels node session m =
     filter (\<lambda>i. \<not> c_closed (chan m i) \<and> c_state (chan m i) = ChIdle \<and> (session = None \<or> session = Some (c_session (chan m i))))
       (pool_of m node)"

definition hasChannelForSession :: "str \<Rightarrow> str \<Rightarrow> pool \<Rightarrow> bool" where
  "hasChannelForSession node session m \<longleftrightarrow>
     session \<noteq> [] \<and> list_ex (\<lambda>i. \<not> c_closed (chan m i) \<and> c_session (chan m i) = session) (pool_of m node)"

definition busyCount :: "str \<Rightarrow> pool \<Rightarrow> nat" where
  "busyCount node m = length (filter (\<lambda>i. \<not> c_closed (chan m i) \<and> c_state (chan m i) = ChBusy) (pool_of m node))"

definition close_all_of :: "nat list \<Rightarrow> str \<Rightarrow> pool \<Rightarrow> pool" where
  "close_all_of is reason m = fold (\<lambda>i. close_channel i reason) is m"

definition closeChannelsForNode :: "str \<Rightarrow> str \<Rightarrow> pool \<Rightarrow> pool" where
  "closeChannelsForNode node reason m =
     (let m1 = close_all_of (pool_of m node) reason m;
          m2 = m1\<lparr>channels := AList.delete node (channels m1)\<rparr>;
          m3 = fold settle_waiter (waiters_of m2 node) m2
      in m3\<lparr>idleWaiters := AList.delete node (idleWaiters m3)\<rparr>)"

definition closeChannelsForSession :: "str \<Rightarrow> str \<Rightarrow> pool \<Rightarrow> pool" where
  "closeChannelsForSession session reason m =
     (let m1 = close_all_of (filter (\<lambda>i. c_session (chan m i) = session) (concat (map snd (channels m)))) reason m
      in fold (\<lambda>k. cancel_waiter k ''reverse-session-stale'')
           (filter (\<lambda>k. k_session (cl m1 k) = Some session) (concat (map snd (idleWaiters m1)))) m1)"

definition closeChannelsForCredential :: "str \<Rightarrow> str \<Rightarrow> str \<Rightarrow> pool \<Rightarrow> nat list \<times> pool" where
  "closeChannelsForCredential node key reason m =
     (let matching = filter (\<lambda>i. c_key (chan m i) = key) (pool_of m node)
      in (matching, close_all_of matching reason m))"

definition closeAllChannels :: "str \<Rightarrow> pool \<Rightarrow> pool" where
  "closeAllChannels reason m = fold (\<lambda>n. closeChannelsForNode n reason) (map fst (channels m)) m"

section \<open>Events\<close>

datatype pool_event =
    Register str str str
  | ChanData nat int "byte list"
  | ChanGone nat str
  | Execute int str "str option" request str
  | Resume nat int str
  | WaitTimer nat
  | WaitAbort nat
  | BodyChunk nat "byte list"
  | WriteStep nat nat nat
  | Drained nat
  | DrainTimeout nat nat
  | BodyDone nat
  | BodyError nat jsval
  | ResponseTimeout nat
  | Pull nat int
  | Leave nat
  | Abort nat str
  | AwaitIdle nat
  | IdleTimeout nat
  | StallCheck nat int
  | CloseNodeChannels str str
  | CloseSessionChannels str str
  | CloseCredentialChannels str str str
  | CloseEverything str

fun pool_step :: "pool_config \<Rightarrow> (byte list \<Rightarrow> jsval option) \<Rightarrow> pool_event \<Rightarrow> pool \<Rightarrow> pool" where
  "pool_step cfg pj (Register n key s) m = registerChannel cfg n key s m"
| "pool_step cfg pj (ChanData i now chunk) m =
     (if i < length (chans m) then on_chan_data (limits_of cfg) pj now i chunk m else m)"
| "pool_step cfg pj (ChanGone i reason) m = (if i < length (chans m) then close_channel i reason m else m)"
| "pool_step cfg pj (Execute now n s q rid) m = executeReverseHttp cfg now n s q rid m"
| "pool_step cfg pj (Resume k now rid) m = (if k < length (callers m) then resume_caller cfg now rid k m else m)"
| "pool_step cfg pj (WaitTimer k) m = (if k < length (callers m) then settle_waiter k m else m)"
| "pool_step cfg pj (WaitAbort k) m = (if k < length (callers m) then cancel_waiter k ''browser-abort'' m else m)"
| "pool_step cfg pj (BodyChunk f bytes) m = (if f < length (flows m) then body_chunk f bytes m else m)"
| "pool_step cfg pj (WriteStep f before after) m =
     (if f < length (flows m) then write_step (limits_of cfg) f before after m else m)"
| "pool_step cfg pj (Drained f) m = (if f < length (flows m) then drained f m else m)"
| "pool_step cfg pj (DrainTimeout f queue) m = (if f < length (flows m) then drain_timeout f queue m else m)"
| "pool_step cfg pj (BodyDone f) m = (if f < length (flows m) then body_done f m else m)"
| "pool_step cfg pj (BodyError f code) m = (if f < length (flows m) then body_error f code m else m)"
| "pool_step cfg pj (ResponseTimeout f) m = (if f < length (flows m) then response_timeout f m else m)"
| "pool_step cfg pj (Pull f now) m = (if f < length (flows m) then pull_body (limits_of cfg) now f m else m)"
| "pool_step cfg pj (Leave f) m = (if f < length (flows m) then return_body f m else m)"
| "pool_step cfg pj (Abort f code) m = (if f < length (flows m) then abort_flow f code m else m)"
| "pool_step cfg pj (AwaitIdle f) m = (if f < length (flows m) then waitForIdle f m else m)"
| "pool_step cfg pj (IdleTimeout f) m = (if f < length (flows m) then idle_timeout f m else m)"
| "pool_step cfg pj (StallCheck f now) m = (if f < length (flows m) then stall_check (limits_of cfg) now f m else m)"
| "pool_step cfg pj (CloseNodeChannels n reason) m = closeChannelsForNode n reason m"
| "pool_step cfg pj (CloseSessionChannels s reason) m = closeChannelsForSession s reason m"
| "pool_step cfg pj (CloseCredentialChannels n key reason) m = snd (closeChannelsForCredential n key reason m)"
| "pool_step cfg pj (CloseEverything reason) m = closeAllChannels reason m"

definition pool_run :: "pool_config \<Rightarrow> (byte list \<Rightarrow> jsval option) \<Rightarrow> pool_event list \<Rightarrow> pool" where
  "pool_run cfg pj es = fold (pool_step cfg pj) es new_pool"

section \<open>Effects\<close>

definition core :: "channel \<Rightarrow> str \<times> str \<times> str \<times> channel_state \<times> nat option \<times> bool" where
  "core c = (c_node c, c_key c, c_session c, c_state c, c_flow c, c_closed c)"

text \<open>Only the flow \<open>f\<close> changes, and of the channels what is paused or written.\<close>

definition quiet :: "nat \<Rightarrow> pool \<Rightarrow> pool \<Rightarrow> bool" where
  "quiet f m m' \<longleftrightarrow> map core (chans m') = map core (chans m) \<and> length (flows m') = length (flows m)
     \<and> (\<forall>g. g \<noteq> f \<longrightarrow> fl m' g = fl m g) \<and> f_channel (fl m' f) = f_channel (fl m f) \<and> f_request (fl m' f) = f_request (fl m f)
     \<and> callers m' = callers m \<and> channels m' = channels m \<and> idleWaiters m' = idleWaiters m"

lemma quiet_refl [simp]: "quiet f m m"
  by (simp add: quiet_def)

lemma quiet_trans: "quiet f m m' \<Longrightarrow> quiet f m' m'' \<Longrightarrow> quiet f m m''"
  by (simp add: quiet_def)

lemma map_core_upd:
  assumes "\<And>c. core (g c) = core c"
  shows "map core (xs[i := g (xs ! i)]) = map core xs"
  by (cases "i < length xs") (auto simp: list_eq_iff_nth_eq nth_list_update assms list_update_beyond)

lemma quiet_upd_chan: "(\<And>c. core (g c) = core c) \<Longrightarrow> quiet f m (upd_chan i g m)"
  by (simp add: quiet_def upd_chan_def map_core_upd)

lemma quiet_upd_flow:
  "(\<And>x. f_channel (g x) = f_channel x \<and> f_request (g x) = f_request x) \<Longrightarrow> quiet f m (upd_flow f g m)"
  by (cases "f < length (flows m)") (simp_all add: quiet_def upd_flow_def list_update_beyond)

lemma quiet_resume: "quiet f m (resume_channel i m)"
  unfolding resume_channel_def by (rule quiet_upd_chan) (simp add: core_def)

lemma quiet_send: "quiet f m (send i w m)"
  unfolding send_def using quiet_upd_chan [of "\<lambda>c. c\<lparr>c_out := c_out c @ [w]\<rparr>"] by (simp add: core_def)

lemma quiet_fail: "quiet f m (fail_flow f code m)"
  unfolding fail_flow_def by (auto intro!: quiet_trans [OF quiet_resume quiet_upd_flow])

lemma quiet_endBody: "quiet f m (endBody f m)"
  unfolding endBody_def by (auto intro!: quiet_trans [OF quiet_resume quiet_upd_flow])

lemma quiet_onResponse: "quiet f m (onResponse f s hs m)"
  unfolding onResponse_def by (auto intro!: quiet_upd_flow)

lemma quiet_consume: "quiet f m (consume lims now f n m)"
  unfolding consume_def Let_def by (auto intro!: quiet_upd_flow quiet_trans [OF quiet_upd_flow quiet_resume])

lemma quiet_next: "quiet f m (nextBodyChunk f m)"
  unfolding nextBodyChunk_def by (rule quiet_upd_flow) (simp split: list.split)

lemma quiet_core: "quiet f m m' \<Longrightarrow> i < length (chans m) \<Longrightarrow> core (chan m' i) = core (chan m i)"
  unfolding quiet_def by (metis length_map nth_map)

lemma quiet_chans:
  assumes "quiet f m m'"
  shows "length (chans m') = length (chans m)"
    and "i < length (chans m) \<Longrightarrow> c_node (chan m' i) = c_node (chan m i) \<and> c_key (chan m' i) = c_key (chan m i)
      \<and> c_session (chan m' i) = c_session (chan m i) \<and> c_state (chan m' i) = c_state (chan m i)
      \<and> c_flow (chan m' i) = c_flow (chan m i) \<and> c_closed (chan m' i) = c_closed (chan m i)"
  using assms quiet_core [OF assms, of i] by (auto simp: quiet_def core_def dest: map_eq_imp_length_eq)

lemma quiet_waiters: "quiet f m m' \<Longrightarrow> pool_of m' = pool_of m \<and> waiters_of m' = waiters_of m"
  by (auto simp: quiet_def pool_of_def waiters_of_def)

lemma quiet_flows: "quiet f m m' \<Longrightarrow> f_channel (fl m' g) = f_channel (fl m g)"
  by (cases "g = f") (simp_all add: quiet_def)

section \<open>The invariant of the pool\<close>

text \<open>The channel \<open>x\<close> is exempt from having a live flow: it is about to be closed.\<close>

definition chan_ok :: "nat option \<Rightarrow> pool \<Rightarrow> nat \<Rightarrow> bool" where
  "chan_ok x m i \<longleftrightarrow> (c_closed (chan m i) \<longleftrightarrow> c_state (chan m i) = ChClosed)
     \<and> (c_flow (chan m i) \<noteq> None \<longleftrightarrow> c_state (chan m i) = ChBusy)
     \<and> (\<forall>f. c_flow (chan m i) = Some f \<longrightarrow> f < length (flows m) \<and> f_channel (fl m f) = i
          \<and> (x = Some i \<or> \<not> f_aborted (fl m f) \<and> \<not> f_idleReceived (fl m f)))"

definition open_of :: "pool \<Rightarrow> str \<Rightarrow> nat list" where
  "open_of m n = filter (\<lambda>i. c_node (chan m i) = n \<and> \<not> c_closed (chan m i)) [0..<length (chans m)]"

definition waiting :: "pool \<Rightarrow> str \<Rightarrow> nat \<Rightarrow> bool" where
  "waiting m n k \<longleftrightarrow> k < length (callers m) \<and> k_state (cl m k) = CWaiting \<and> k_node (cl m k) = n"

definition caller_ok :: "pool \<Rightarrow> nat \<Rightarrow> bool" where
  "caller_ok m k \<longleftrightarrow> (\<forall>f. k_state (cl m k) = CFlow f \<longrightarrow> f < length (flows m)
     \<and> c_node (chan m (f_channel (fl m f))) = k_node (cl m k)
     \<and> (k_session (cl m k) = None \<or> k_session (cl m k) = Some (c_session (chan m (f_channel (fl m f))))))"

definition pool_inv :: "pool_config \<Rightarrow> nat option \<Rightarrow> pool \<Rightarrow> bool" where
  "pool_inv cfg x m \<longleftrightarrow> (omap_wf (channels m) \<and> omap_wf (idleWaiters m))
     \<and> (\<forall>n. pool_of m n = open_of m n \<and> length (pool_of m n) \<le> maxChannels cfg)
     \<and> (\<forall>n. distinct (waiters_of m n) \<and> (\<forall>k. k \<in> set (waiters_of m n) \<longleftrightarrow> waiting m n k))
     \<and> (\<forall>i < length (chans m). chan_ok x m i)
     \<and> (\<forall>f < length (flows m). f_channel (fl m f) < length (chans m))
     \<and> (\<forall>k < length (callers m). caller_ok m k)"

lemma pool_invD:
  assumes "pool_inv cfg x m"
  shows "omap_wf (channels m)" "omap_wf (idleWaiters m)" "pool_of m n = open_of m n" "length (pool_of m n) \<le> maxChannels cfg"
    "distinct (waiters_of m n)" "k \<in> set (waiters_of m n) \<longleftrightarrow> waiting m n k"
    "i < length (chans m) \<Longrightarrow> chan_ok x m i" "f < length (flows m) \<Longrightarrow> f_channel (fl m f) < length (chans m)"
    "k < length (callers m) \<Longrightarrow> caller_ok m k"
  using assms unfolding pool_inv_def by blast+

lemma quiet_open: "quiet f m m' \<Longrightarrow> open_of m' n = open_of m n"
  unfolding open_of_def using quiet_chans by (intro filter_cong) auto

text \<open>A quiet change keeps the invariant, unless it ends a flow that owns its channel.\<close>

lemma pool_inv_quiet:
  assumes inv: "pool_inv cfg x m" and q: "quiet f m m'"
    and owner: "\<And>i. y \<noteq> Some i \<Longrightarrow> x \<noteq> Some i \<Longrightarrow> i < length (chans m) \<Longrightarrow> c_flow (chan m i) = Some f
      \<Longrightarrow> (\<not> f_aborted (fl m f) \<and> \<not> f_idleReceived (fl m f)) \<Longrightarrow> \<not> f_aborted (fl m' f) \<and> \<not> f_idleReceived (fl m' f)"
    and xy: "x = None \<or> x = y"
  shows "pool_inv cfg y m'"
proof -
  note c = quiet_chans [OF q] quiet_flows [OF q]
  have q': "length (flows m') = length (flows m)" "callers m' = callers m" "channels m' = channels m" "idleWaiters m' = idleWaiters m"
    using q by (simp_all add: quiet_def)
  have "chan_ok y m' i" if i: "i < length (chans m)" for i
  proof (cases "c_flow (chan m i) = Some f")
    case True
    then show ?thesis
      using pool_invD(7) [OF inv i] owner [OF _ _ i True] xy c(2) [OF i] by (auto simp: chan_ok_def c(3) q'(1))
  next
    case False
    moreover have "fl m' g = fl m g" if "g \<noteq> f" for g using q that by (simp add: quiet_def)
    ultimately show ?thesis
      using pool_invD(7) [OF inv i] xy c(2) [OF i] by (auto simp: chan_ok_def q'(1))
  qed
  moreover have "caller_ok m' k" if "k < length (callers m)" for k
    using pool_invD(9) [OF inv that] c(2) [OF pool_invD(8) [OF inv]] by (auto simp: caller_ok_def q' c(3))
  ultimately show ?thesis
    using pool_invD(1-6,8) [OF inv] c(1) quiet_waiters [OF q] quiet_open [OF q]
    unfolding pool_inv_def by (simp add: q' c(3) waiting_def)
qed

lemma fail_flow_self: "f < length (flows m) \<Longrightarrow> f_aborted (fl (fail_flow f code m) f)"
  by (simp add: fail_flow_def upd_flow_def resume_channel_def upd_chan_def)

lemma onChannelClosed_simps [simp]:
  "chans (onChannelClosed i m) = chans m" "flows (onChannelClosed i m) = flows m" "callers (onChannelClosed i m) = callers m"
  "idleWaiters (onChannelClosed i m) = idleWaiters m"
  "pool_of (onChannelClosed i m) n = (if n = c_node (chan m i) then removeAll i (pool_of m n) else pool_of m n)"
  "omap_wf (channels m) \<Longrightarrow> omap_wf (channels (onChannelClosed i m))"
  by (auto simp: onChannelClosed_def pool_of_def Let_def orbit_simps split: option.splits)

lemma close_closed: "c_closed (chan m i) \<Longrightarrow> close_channel i reason m = m"
  by (simp add: close_channel_def)

lemma close_effect:
  assumes i: "i < length (chans m)" "\<not> c_closed (chan m i)" and m': "m' = close_channel i reason m"
  shows "length (chans m') = length (chans m)"
    and "j \<noteq> i \<Longrightarrow> j < length (chans m) \<Longrightarrow> core (chan m' j) = core (chan m j)"
    and "c_node (chan m' i) = c_node (chan m i) \<and> c_key (chan m' i) = c_key (chan m i) \<and> c_session (chan m' i) = c_session (chan m i)
      \<and> c_closed (chan m' i) \<and> c_state (chan m' i) = ChClosed \<and> c_flow (chan m' i) = None"
    and "length (flows m') = length (flows m)"
    and "f_channel (fl m' g) = f_channel (fl m g) \<and> f_request (fl m' g) = f_request (fl m g)"
    and "c_flow (chan m i) \<noteq> Some g \<Longrightarrow> fl m' g = fl m g"
    and "callers m' = callers m" and "idleWaiters m' = idleWaiters m"
    and "pool_of m' n = (if n = c_node (chan m i) then removeAll i (pool_of m n) else pool_of m n)"
    and "omap_wf (channels m) \<Longrightarrow> omap_wf (channels m')"
proof -
  define m1 where "m1 = upd_chan i (\<lambda>c. c\<lparr>c_closed := True\<rparr>) m"
  define m2 where "m2 = (case c_flow (chan m i) of None \<Rightarrow> m1 | Some f \<Rightarrow> fail_flow f (JStr ''channel-closed'') m1)"
  define m3 where "m3 = upd_chan i (\<lambda>c. c\<lparr>c_flow := None, c_state := ChClosed\<rparr>) m2"
  have ci: "c_flow (chan m1 i) = c_flow (chan m i)" using i by (simp add: m1_def upd_chan_def)
  have e: "m' = onChannelClosed i m3"
    unfolding m' close_channel_def Let_def m1_def [symmetric] ci m2_def [symmetric] m3_def [symmetric] using i by simp
  have q: "\<exists>f. (c_flow (chan m i) = None \<longrightarrow> m2 = m1) \<and> (c_flow (chan m i) \<noteq> None \<longrightarrow> c_flow (chan m i) = Some f) \<and> quiet f m1 m2"
    using quiet_fail by (cases "c_flow (chan m i)") (auto simp: m2_def)
  then obtain f where "(c_flow (chan m i) = None \<longrightarrow> m2 = m1) \<and> (c_flow (chan m i) \<noteq> None \<longrightarrow> c_flow (chan m i) = Some f)
      \<and> quiet f m1 m2" ..
  then have q: "c_flow (chan m i) = None \<Longrightarrow> m2 = m1" "c_flow (chan m i) \<noteq> None \<Longrightarrow> c_flow (chan m i) = Some f"
      "quiet f m1 m2" by simp_all
  have l1: "length (chans m1) = length (chans m)" by (simp add: m1_def upd_chan_def)
  have c2: "j < length (chans m) \<Longrightarrow> core (chan m2 j) = core (chan m1 j)" for j using quiet_core [OF q(3)] l1 by simp
  have l2: "length (chans m2) = length (chans m)" using quiet_chans(1) [OF q(3)] l1 by simp
  show "length (chans m') = length (chans m)" using l2 by (simp add: e m3_def upd_chan_def)
  show "j \<noteq> i \<Longrightarrow> j < length (chans m) \<Longrightarrow> core (chan m' j) = core (chan m j)"
    using c2 [of j] by (simp add: e m3_def m1_def upd_chan_def)
  have n: "c_node (chan m3 i) = c_node (chan m i)"
    using c2 [OF i(1)] i l2 by (simp add: m3_def m1_def upd_chan_def core_def)
  show "c_node (chan m' i) = c_node (chan m i) \<and> c_key (chan m' i) = c_key (chan m i) \<and> c_session (chan m' i) = c_session (chan m i)
      \<and> c_closed (chan m' i) \<and> c_state (chan m' i) = ChClosed \<and> c_flow (chan m' i) = None"
    using c2 [OF i(1)] i l2 by (simp add: e m3_def m1_def upd_chan_def core_def)
  have m1: "flows m1 = flows m" "callers m1 = callers m" "idleWaiters m1 = idleWaiters m" "channels m1 = channels m"
    by (simp_all add: m1_def upd_chan_def)
  have m3: "flows m3 = flows m2" "callers m3 = callers m2" "idleWaiters m3 = idleWaiters m2" "channels m3 = channels m2"
    by (simp_all add: m3_def upd_chan_def)
  note q2 = q(3) [unfolded quiet_def m1]
  show "length (flows m') = length (flows m)" "callers m' = callers m" "idleWaiters m' = idleWaiters m"
    using q2 by (simp_all add: e m3)
  show "f_channel (fl m' g) = f_channel (fl m g) \<and> f_request (fl m' g) = f_request (fl m g)"
    using q2 by (cases "g = f") (simp_all add: e m3)
  show "c_flow (chan m i) \<noteq> Some g \<Longrightarrow> fl m' g = fl m g"
  proof (cases "c_flow (chan m i)")
    case None
    then show ?thesis using q(1) by (simp add: e m3 m1)
  next
    case (Some f')
    then show "c_flow (chan m i) \<noteq> Some g \<Longrightarrow> fl m' g = fl m g" using q2 q(2) by (simp add: e m3)
  qed
  have "pool_of m3 n = pool_of m n" for n using q2 by (simp add: pool_of_def m3)
  then show "pool_of m' n = (if n = c_node (chan m i) then removeAll i (pool_of m n) else pool_of m n)"
    by (simp add: e n)
  have "channels m3 = channels m" using q2 by (simp add: m3)
  then show "omap_wf (channels m) \<Longrightarrow> omap_wf (channels m')" by (simp add: e)
qed

lemma pool_inv_chans: "pool_inv cfg x m \<Longrightarrow> (\<And>i. i < length (chans m) \<Longrightarrow> chan_ok y m i) \<Longrightarrow> pool_inv cfg y m"
  unfolding pool_inv_def by blast

lemma pool_inv_exempt: "pool_inv cfg None m \<Longrightarrow> pool_inv cfg x m"
proof -
  assume inv: "pool_inv cfg None m"
  show "pool_inv cfg x m"
    by (rule pool_inv_chans [OF inv]) (use pool_invD(7) [OF inv] in \<open>simp add: chan_ok_def\<close>)
qed

lemma removeAll_filter: "removeAll i (filter P xs) = filter (\<lambda>j. P j \<and> j \<noteq> i) xs"
  by (induction xs) auto

lemma pool_inv_close:
  assumes inv: "pool_inv cfg (Some i) m" and i: "i < length (chans m)"
  shows "pool_inv cfg None (close_channel i reason m)"
proof (cases "c_closed (chan m i)")
  case True
  then have "chan_ok None m j" if "j < length (chans m)" for j
    using pool_invD(7) [OF inv that] by (cases "j = i") (auto simp: chan_ok_def)
  then show ?thesis using pool_inv_chans [OF inv] True by (simp add: close_closed)
next
  case False
  note e = close_effect [OF i False refl, where reason = reason]
  let ?m = "close_channel i reason m"
  have sames: "c_node (chan ?m j) = c_node (chan m j) \<and> c_session (chan ?m j) = c_session (chan m j)" if "j < length (chans m)" for j
    using e(2) [of j] e(3) that by (cases "j = i") (auto simp: core_def)
  have "chan_ok None ?m j" if j: "j < length (chans m)" for j
  proof (cases "j = i")
    case True
    then show ?thesis using e(3) by (simp add: chan_ok_def)
  next
    case False
    have ok: "chan_ok (Some i) m j" by (rule pool_invD(7) [OF inv j])
    have other: "c_flow (chan m i) \<noteq> Some f" if "c_flow (chan m j) = Some f" for f
      using ok pool_invD(7) [OF inv i] that False by (auto simp: chan_ok_def)
    show ?thesis using ok e(2) [OF False j] e(4,5,6) other False by (auto simp: chan_ok_def core_def)
  qed
  moreover have "open_of ?m n = (if n = c_node (chan m i) then removeAll i (open_of m n) else open_of m n)" for n
  proof -
    have "open_of ?m n = filter (\<lambda>j. (c_node (chan m j) = n \<and> \<not> c_closed (chan m j)) \<and> j \<noteq> i) [0..<length (chans m)]"
      unfolding open_of_def e(1)
    proof (rule filter_cong [OF refl])
      fix j assume "j \<in> set [0..<length (chans m)]"
      then show "(c_node (chan ?m j) = n \<and> \<not> c_closed (chan ?m j)) \<longleftrightarrow> (c_node (chan m j) = n \<and> \<not> c_closed (chan m j)) \<and> j \<noteq> i"
        using e(2) [of j] e(3) by (cases "j = i") (auto simp: core_def)
    qed
    moreover have "removeAll i (open_of m n) = open_of m n" if "n \<noteq> c_node (chan m i)"
      using that by (auto simp: open_of_def removeAll_filter intro!: filter_cong)
    ultimately show ?thesis by (auto simp: open_of_def removeAll_filter)
  qed
  moreover have "caller_ok ?m k" if "k < length (callers m)" for k
    using pool_invD(9) [OF inv that] sames [OF pool_invD(8) [OF inv]] e(4,5) by (auto simp: caller_ok_def e(7))
  moreover have "length (removeAll i (pool_of m n)) \<le> maxChannels cfg" for n
    using pool_invD(4) [OF inv, of n] length_removeAll_less_eq [of i "pool_of m n"] by linarith
  moreover have "waiters_of ?m = waiters_of m" by (rule ext) (simp add: waiters_of_def e(8))
  ultimately show ?thesis
    using pool_invD(1-6,8) [OF inv] e(1,4,5,7,8,9,10) by (simp add: pool_inv_def waiting_def del: length_removeAll_less_eq)
qed

section \<open>Every operation keeps the invariant\<close>

definition kept :: "pool_config \<Rightarrow> pool \<Rightarrow> pool \<Rightarrow> bool" where
  "kept cfg m m' \<longleftrightarrow> pool_inv cfg None m' \<and> length (chans m') = length (chans m) \<and> length (flows m') = length (flows m)
     \<and> length (callers m') = length (callers m)"

lemma kept_refl: "pool_inv cfg None m \<Longrightarrow> kept cfg m m"
  by (simp add: kept_def)

lemma kept_trans: "kept cfg m m' \<Longrightarrow> kept cfg m' m'' \<Longrightarrow> kept cfg m m''"
  by (simp add: kept_def)

lemma kept_inv: "kept cfg m m' \<Longrightarrow> pool_inv cfg None m'"
  by (simp add: kept_def)

lemma kept_calm:
  assumes "pool_inv cfg None m" "quiet f m m'"
    "f_aborted (fl m' f) = f_aborted (fl m f)" "f_idleReceived (fl m' f) = f_idleReceived (fl m f)"
  shows "kept cfg m m'"
  using pool_inv_quiet [OF assms(1,2)] assms(3,4) quiet_chans(1) [OF assms(2)] assms(2)
  by (auto simp: kept_def quiet_def)

lemma kept_close:
  assumes "pool_inv cfg (Some i) m" "i < length (chans m)"
  shows "kept cfg m (close_channel i reason m)"
proof (cases "c_closed (chan m i)")
  case True
  then show ?thesis using pool_inv_close [OF assms] by (simp add: kept_def close_closed)
next
  case False
  then show ?thesis
    using pool_inv_close [OF assms] close_effect(1,4,7) [OF assms(2) False refl, where reason = reason] by (simp add: kept_def)
qed

lemma kept_close': "pool_inv cfg None m \<Longrightarrow> i < length (chans m) \<Longrightarrow> kept cfg m (close_channel i reason m)"
  by (rule kept_close [OF pool_inv_exempt])

text \<open>A change of the flow \<open>f\<close> after which its channel is closed.\<close>

lemma kept_quiet_close:
  assumes inv: "pool_inv cfg None m" and q: "quiet f m m'" and f: "f < length (flows m)" and i: "f_channel (fl m f) = i"
  shows "kept cfg m (close_channel i reason m')"
proof -
  have "pool_inv cfg (Some i) m'"
  proof (rule pool_inv_quiet [OF inv q])
    fix j assume "Some i \<noteq> Some j" "j < length (chans m)" "c_flow (chan m j) = Some f"
    then have False using pool_invD(7) [OF inv, of j] i by (auto simp: chan_ok_def)
    then show "\<not> f_aborted (fl m' f) \<and> \<not> f_idleReceived (fl m' f)" ..
  qed simp
  moreover have "i < length (chans m')" using pool_invD(8) [OF inv f] i quiet_chans(1) [OF q] by simp
  ultimately have "kept cfg m' (close_channel i reason m')" by (rule kept_close)
  then show ?thesis using quiet_chans(1) [OF q] q by (simp add: kept_def quiet_def)
qed

lemma kept_fail_close:
  assumes "pool_inv cfg None m" "f < length (flows m)" "f_channel (fl m f) = i"
  shows "kept cfg m (fail_and_close f i code reason m)"
  unfolding fail_and_close_def by (rule kept_quiet_close [OF assms(1) quiet_fail assms(2,3)])

lemma quiet_set: "(\<And>x. f_channel (g x) = f_channel x \<and> f_request (g x) = f_request x) \<Longrightarrow> quiet f m m' \<Longrightarrow> quiet f m (upd_flow f g m')"
  by (rule quiet_trans [OF _ quiet_upd_flow])

lemma fl_upd [simp]: "f < length (flows m) \<Longrightarrow> fl (upd_flow f g m) f = g (fl m f)"
  "length (flows (upd_flow f g m)) = length (flows m)" "chans (upd_flow f g m) = chans m"
  "flows (upd_chan i h m) = flows m" "flows (resume_channel i m) = flows m" "flows (send i w m) = flows m"
  by (simp_all add: upd_flow_def upd_chan_def resume_channel_def send_def)

lemma kept_request_failed:
  assumes "pool_inv cfg None m" "f < length (flows m)"
  shows "kept cfg m (request_failed f code m)"
  unfolding request_failed_def fail_and_close_def
  by (rule kept_quiet_close [OF assms(1) quiet_trans [OF quiet_upd_flow quiet_fail] assms(2)]) simp_all

text \<open>The waiters.\<close>

lemma leave_simps [simp]:
  "chans (leave k m) = chans m" "flows (leave k m) = flows m" "channels (leave k m) = channels m" "callers (leave k m) = callers m"
  "waiters_of (leave k m) n = (if n = k_node (cl m k) then removeAll k (waiters_of m n) else waiters_of m n)"
  "omap_wf (idleWaiters m) \<Longrightarrow> omap_wf (idleWaiters (leave k m))"
  by (auto simp: leave_def waiters_of_def Let_def orbit_simps)

lemma settle_effect:
  assumes "m' = upd_caller k (\<lambda>x. x\<lparr>k_state := s\<rparr>) (leave k m)" "k < length (callers m)"
  shows "chans m' = chans m" "flows m' = flows m" "channels m' = channels m"
    "callers m' = (callers m)[k := (cl m k)\<lparr>k_state := s\<rparr>]"
    "waiters_of m' n = (if n = k_node (cl m k) then removeAll k (waiters_of m n) else waiters_of m n)"
    "omap_wf (idleWaiters m) \<Longrightarrow> omap_wf (idleWaiters m')"
proof -
  have "idleWaiters m' = idleWaiters (leave k m)" by (simp add: assms(1) upd_caller_def)
  then have w: "waiters_of m' n = waiters_of (leave k m) n" for n by (simp add: waiters_of_def)
  show "chans m' = chans m" "flows m' = flows m" "channels m' = channels m"
    "callers m' = (callers m)[k := (cl m k)\<lparr>k_state := s\<rparr>]"
    by (simp_all add: assms(1) upd_caller_def)
  show "waiters_of m' n = (if n = k_node (cl m k) then removeAll k (waiters_of m n) else waiters_of m n)"
    by (simp add: w)
  show "omap_wf (idleWaiters m) \<Longrightarrow> omap_wf (idleWaiters m')"
    using \<open>idleWaiters m' = idleWaiters (leave k m)\<close> by simp
qed

lemma kept_wake:
  assumes inv: "pool_inv cfg None m" and k: "k < length (callers m)" and s: "s = CWoken \<or> (\<exists>e. s = CFailed e)"
    and m': "m' = upd_caller k (\<lambda>x. x\<lparr>k_state := s\<rparr>) (leave k m)"
  shows "kept cfg m m'"
proof -
  note e = settle_effect [OF m' k]
  have p: "pool_of m' = pool_of m" "open_of m' = open_of m" by (auto simp: pool_of_def open_of_def e)
  have s': "s \<noteq> CWaiting" "s \<noteq> CFlow f" for f using s by auto
  have "waiting m' n j \<longleftrightarrow> waiting m n j \<and> j \<noteq> k" for n j
    using k s' by (auto simp: waiting_def e nth_list_update)
  moreover have "removeAll k (waiters_of m n) = waiters_of m n" if "n \<noteq> k_node (cl m k)" for n
    using that pool_invD(6) [OF inv, of k n] by (auto simp: waiting_def)
  ultimately have "distinct (waiters_of m' n)" "j \<in> set (waiters_of m' n) \<longleftrightarrow> waiting m' n j" for n j
    using pool_invD(5) [OF inv, of n] pool_invD(6) [OF inv, of j n] pool_invD(6) [OF inv, of k n]
    by (auto simp: e(5) distinct_removeAll) (auto simp: waiting_def)
  moreover have "caller_ok m' j" if "j < length (callers m)" for j
    using pool_invD(9) [OF inv that] s' k by (cases "j = k") (auto simp: caller_ok_def e)
  moreover have "chan_ok None m' i" if "i < length (chans m)" for i
    using pool_invD(7) [OF inv that] by (simp add: chan_ok_def e)
  ultimately have "pool_inv cfg None m'"
    using pool_invD(1-4,8) [OF inv] e(6) unfolding pool_inv_def by (simp add: e(1-4) p)
  then show ?thesis by (simp add: kept_def e)
qed

lemma kept_settle: "pool_inv cfg None m \<Longrightarrow> k < length (callers m) \<Longrightarrow> kept cfg m (settle_waiter k m)"
  unfolding settle_waiter_def by (auto intro: kept_wake kept_refl)

lemma kept_cancel: "pool_inv cfg None m \<Longrightarrow> k < length (callers m) \<Longrightarrow> kept cfg m (cancel_waiter k code m)"
  unfolding cancel_waiter_def by (auto intro: kept_wake kept_refl)

lemma kept_resolve:
  assumes inv: "pool_inv cfg None m"
  shows "kept cfg m (resolveIdleWaiters node session m)"
proof -
  have "k < length (callers m)" if "find P (waiters_of m node) = Some k" for P k
    using that pool_invD(6) [OF inv, of k node] by (auto simp: find_Some_iff waiting_def)
  then show ?thesis unfolding resolveIdleWaiters_def
    by (auto split: option.split intro!: kept_refl kept_settle inv)
qed


text \<open>The messages of the node.\<close>

lemma owner:
  assumes "pool_inv cfg None m" "i < length (chans m)" "c_flow (chan m i) = Some f"
  shows "f < length (flows m)" "f_channel (fl m f) = i" "\<not> f_aborted (fl m f)" "\<not> f_idleReceived (fl m f)"
    "\<not> c_closed (chan m i)" "c_state (chan m i) = ChBusy"
  using pool_invD(7) [OF assms(1,2)] assms(3) by (auto simp: chan_ok_def)

lemma kept_endBody: "pool_inv cfg None m \<Longrightarrow> f < length (flows m) \<Longrightarrow> kept cfg m (endBody f m)"
  by (rule kept_calm [OF _ quiet_endBody]) (simp_all add: endBody_def)

lemma kept_onResponse: "pool_inv cfg None m \<Longrightarrow> f < length (flows m) \<Longrightarrow> kept cfg m (onResponse f s hs m)"
  by (rule kept_calm [OF _ quiet_onResponse]) (simp_all add: onResponse_def)

lemma kept_send: "pool_inv cfg None m \<Longrightarrow> kept cfg m (send i w m)"
  by (rule kept_calm [OF _ quiet_send]) simp_all

lemma kept_pushBody:
  assumes inv: "pool_inv cfg None m" and f: "f < length (flows m)"
  shows "kept cfg m (pushBody lims now f bytes m)"
proof -
  define m1 where "m1 = upd_flow f (\<lambda>x. x\<lparr>f_queued := f_queued x + length bytes, f_lastConsumed := now\<rparr>) m"
  have q1: "quiet f m m1" unfolding m1_def by (rule quiet_upd_flow) simp
  have "kept cfg m m1" by (rule kept_calm [OF inv q1]) (simp_all add: m1_def f)
  then have 1: "kept cfg m m'" if "kept cfg m1 m'" for m' using that by (rule kept_trans)
  have inv1: "pool_inv cfg None m1" using \<open>kept cfg m m1\<close> by (rule kept_inv)
  have f1: "f < length (flows m1)" "f_channel (fl m1 f) = f_channel (fl m f)" using f by (simp_all add: m1_def)
  have fc: "kept cfg m1 (fail_and_close f (f_channel (fl m f)) c r m1)" for c r
    using kept_fail_close [OF inv1 f1(1) f1(2)] .
  have uf: "kept cfg m1 (upd_flow f g m1)"
    if "\<And>x. f_channel (g x) = f_channel x \<and> f_request (g x) = f_request x \<and> f_aborted (g x) = f_aborted x
      \<and> f_idleReceived (g x) = f_idleReceived x" for g
    by (rule kept_calm [OF inv1 quiet_upd_flow]) (simp_all add: that f1(1))
  have up: "kept cfg m1 (upd_chan (f_channel (fl m f)) (\<lambda>c. c\<lparr>c_paused := True\<rparr>) (upd_flow f (\<lambda>x. x\<lparr>f_queue := f_queue x @ [bytes]\<rparr>) m1))"
    by (rule kept_calm [OF inv1 quiet_trans [OF quiet_upd_flow quiet_upd_chan]]) (simp_all add: core_def f1(1))
  show ?thesis
    unfolding pushBody_def Let_def m1_def [symmetric] using fc uf up inv by (auto intro!: 1 kept_refl)
qed

text \<open>What \<open>on_idle\<close> does for a flow whose body has ended, and for another.\<close>

lemma on_idle_release:
  assumes inv: "pool_inv cfg None m" and i: "i < length (chans m)" and f: "c_flow (chan m i) = Some f" "f_bodyEnded (fl m f)"
  obtains m3 where "on_idle i m = resolveIdleWaiters (c_node (chan m i)) (c_session (chan m i)) m3" "kept cfg m m3"
    "chans m3 = (chans m)[i := (chan m i)\<lparr>c_flow := None, c_state := ChIdle\<rparr>]" "callers m3 = callers m"
    "flows m3 = (flows m)[f := (fl m f)\<lparr>f_idleReceived := True,
       f_idle := (if f_idle (fl m f) = IdleWaiting then IdleDone True else f_idle (fl m f))\<rparr>]"
proof -
  note own = owner [OF inv i f(1)]
  define m1 where "m1 = upd_flow f (\<lambda>x. x\<lparr>f_idleReceived := True\<rparr>) m"
  define m2 where "m2 = upd_chan i (\<lambda>c. c\<lparr>c_flow := None, c_state := ChIdle\<rparr>) m1"
  define m3 where "m3 = upd_flow f (\<lambda>x. x\<lparr>f_idle := (if f_idle x = IdleWaiting then IdleDone True else f_idle x)\<rparr>) m2"
  have c3: "chans m3 = (chans m)[i := (chan m i)\<lparr>c_flow := None, c_state := ChIdle\<rparr>]"
    by (simp add: m3_def m2_def m1_def upd_chan_def)
  have fs: "flows m3 = (flows m)[f := (fl m f)\<lparr>f_idleReceived := True,
      f_idle := (if f_idle (fl m f) = IdleWaiting then IdleDone True else f_idle (fl m f))\<rparr>]"
    using own(1) by (simp add: m3_def m2_def m1_def upd_chan_def upd_flow_def)
  have f_others: "fl m3 g = fl m g" if "g \<noteq> f" for g using that by (simp add: fs)
  have "f_channel (fl m3 g) = f_channel (fl m g)" for g
    by (cases "g = f") (use own(1) f_others in \<open>simp_all add: fs split del: if_split\<close>)
  note f_channels = this
  have f_length: "length (flows m3) = length (flows m)" by (simp add: fs)
  have r3: "callers m3 = callers m" "channels m3 = channels m" "idleWaiters m3 = idleWaiters m"
    by (simp_all add: m3_def m2_def m1_def upd_chan_def upd_flow_def)
  have same: "c_node (chan m3 j) = c_node (chan m j) \<and> c_session (chan m3 j) = c_session (chan m j) \<and> c_closed (chan m3 j) = c_closed (chan m j)" for j
    using i by (cases "j = i") (simp_all add: c3)
  have e: "on_idle i m = resolveIdleWaiters (c_node (chan m i)) (c_session (chan m i)) m3"
    unfolding on_idle_def Let_def f(1) option.case m1_def [symmetric] m2_def [symmetric] m3_def [symmetric]
    using f(2) own(1) same [of i] by (simp add: m1_def)
  have "chan_ok None m3 j" if j: "j < length (chans m)" for j
  proof (cases "j = i")
    case True
    then show ?thesis using own(5) i by (simp add: chan_ok_def c3)
  next
    case False
    then have "c_flow (chan m j) \<noteq> Some f" using pool_invD(7) [OF inv j] own(2) by (auto simp: chan_ok_def)
    then show ?thesis using pool_invD(7) [OF inv j] False by (auto simp: chan_ok_def c3 f_channels f_others f_length)
  qed
  moreover have "caller_ok m3 k" if "k < length (callers m)" for k
    using pool_invD(9) [OF inv that] by (auto simp: caller_ok_def r3 f_channels f_length same)
  moreover have "open_of m3 n = open_of m n" for n
    unfolding open_of_def by (simp add: same) (simp add: c3)
  moreover have "pool_of m3 = pool_of m" "waiters_of m3 = waiters_of m"
    by (auto simp: pool_of_def waiters_of_def r3)
  ultimately have "pool_inv cfg None m3"
    using pool_invD(1-6,8) [OF inv] unfolding pool_inv_def by (simp add: r3 f_channels f_length waiting_def c3)
  moreover from this have "kept cfg m m3" by (simp add: kept_def c3 f_length r3)
  ultimately show ?thesis using that [OF e _ c3 r3(1) fs] by blast
qed

lemma on_idle_desync:
  assumes "c_flow (chan m i) = Some f" "f < length (flows m)" "\<not> f_bodyEnded (fl m f)"
  shows "on_idle i m = fail_and_close f i (JStr ''channel-desync'') ''channel-desync'' (upd_flow f (\<lambda>x. x\<lparr>f_idleReceived := True\<rparr>) m)"
  using assms by (simp add: on_idle_def Let_def)

lemma kept_on_idle:
  assumes inv: "pool_inv cfg None m" and i: "i < length (chans m)"
  shows "kept cfg m (on_idle i m)"
proof (cases "c_flow (chan m i)")
  case None
  then show ?thesis by (simp add: on_idle_def kept_close' [OF inv i])
next
  case (Some f)
  note own = owner [OF inv i Some]
  show ?thesis
  proof (cases "f_bodyEnded (fl m f)")
    case True
    obtain m3 where "on_idle i m = resolveIdleWaiters (c_node (chan m i)) (c_session (chan m i)) m3" "kept cfg m m3"
      using on_idle_release [OF inv i Some True] by blast
    then show ?thesis using kept_trans [OF _ kept_resolve [OF kept_inv]] by simp
  next
    case False
    have "quiet f m (upd_flow f (\<lambda>x. x\<lparr>f_idleReceived := True\<rparr>) m)" by (rule quiet_upd_flow) simp
    then show ?thesis
      unfolding on_idle_desync [OF Some own(1) False] fail_and_close_def
      by (intro kept_quiet_close [OF inv quiet_trans [OF _ quiet_fail] own(1,2)])
  qed
qed

lemma kept_message:
  assumes inv: "pool_inv cfg None m" and i: "i < length (chans m)" and f: "c_flow (chan m i) = Some f"
  shows "kept cfg m (on_flow_message i f t ps m)"
proof -
  note own = owner [OF inv i f]
  have fc: "kept cfg m (fail_and_close f i c r m)" for c r by (rule kept_fail_close [OF inv own(1,2)])
  show ?thesis
    unfolding on_flow_message_def
    using fc kept_close' [OF inv i] kept_endBody [OF inv own(1)] kept_onResponse [OF inv own(1)]
    by (auto split: bool.split jsval.split)
qed

lemma kept_node_message:
  assumes inv: "pool_inv cfg None m" and i: "i < length (chans m)"
  shows "kept cfg m (onNodeMessage lims pj now i ev m)"
proof -
  have t: "kept cfg m (on_text p i m)" for p
    unfolding on_text_def using kept_close' [OF inv i] kept_on_idle [OF inv i] kept_message [OF inv i]
    by (auto split: option.split)
  have b: "kept cfg m (on_binary lims now i bytes m)" for bytes
    unfolding on_binary_def using kept_close' [OF inv i] kept_pushBody [OF inv owner(1) [OF inv i]]
    by (auto split: option.split)
  show ?thesis using t b kept_close' [OF inv i] kept_send [OF inv] kept_refl [OF inv] by (cases ev) auto
qed

lemma kept_chan_data:
  assumes inv: "pool_inv cfg None m" and i: "i < length (chans m)"
  shows "kept cfg m (on_chan_data lims pj now i chunk m)"
proof -
  have "kept cfg m0 (fold (onNodeMessage lims pj now i) evs m0)" if "pool_inv cfg None m0" "i < length (chans m0)" for evs m0
    using that
  proof (induction evs arbitrary: m0)
    case (Cons ev evs)
    then have k: "kept cfg m0 (onNodeMessage lims pj now i ev m0)" by (intro kept_node_message)
    then show ?case using Cons kept_trans [OF k] by (simp add: kept_def)
  qed (simp add: kept_refl)
  note loop = this
  have k: "kept cfg m (upd_chan i (\<lambda>c. c\<lparr>c_ws := p\<rparr>) m)" for p
    by (rule kept_calm [OF inv quiet_upd_chan]) (simp_all add: core_def)
  have "i < length (chans (upd_chan i (\<lambda>c. c\<lparr>c_ws := p\<rparr>) m))" for p using k [of p] i by (simp add: kept_def)
  then show ?thesis
    unfolding on_chan_data_def Let_def by (intro kept_trans [OF k loop] kept_inv [OF k])
qed

text \<open>The course of a flow.\<close>

lemma kept_flow_set:
  assumes "pool_inv cfg None m" "f < length (flows m)"
    "\<And>x. f_channel (g x) = f_channel x \<and> f_request (g x) = f_request x \<and> f_aborted (g x) = f_aborted x \<and> f_idleReceived (g x) = f_idleReceived x"
  shows "kept cfg m (upd_flow f g m)"
  by (rule kept_calm [OF assms(1) quiet_upd_flow]) (simp_all add: assms(2,3))

lemma kept_set_after:
  assumes k: "kept cfg m m'" and f: "f < length (flows m)" and g:
    "\<And>x. f_channel (g x) = f_channel x \<and> f_request (g x) = f_request x \<and> f_aborted (g x) = f_aborted x \<and> f_idleReceived (g x) = f_idleReceived x"
  shows "kept cfg m (upd_flow f g m')"
  by (rule kept_trans [OF k kept_flow_set [OF kept_inv [OF k] _ g]]) (use k f in \<open>simp add: kept_def\<close>)

lemma kept_failed_twice:
  assumes inv: "pool_inv cfg None m" and f: "f < length (flows m)" and i: "f_channel (fl m f) = i"
  shows "kept cfg m (request_failed f code (fail_and_close f i c r m))"
proof -
  note k = kept_fail_close [OF inv f i, of c r]
  show ?thesis by (rule kept_trans [OF k kept_request_failed [OF kept_inv [OF k]]]) (use k f in \<open>simp add: kept_def\<close>)
qed

lemma kept_write_step:
  assumes inv: "pool_inv cfg None m" and f: "f < length (flows m)"
  shows "kept cfg m (write_step lims f before after m)"
proof -
  have "kept cfg m (upd_chan i (\<lambda>c. c\<lparr>c_out := c_out c @ [w]\<rparr>) m)" for i w
    by (rule kept_calm [OF inv quiet_upd_chan]) (simp_all add: core_def)
  then show ?thesis
    unfolding write_step_def Let_def
    using kept_request_failed [OF inv f] kept_failed_twice [OF inv f refl] kept_refl [OF inv]
    by (auto split: head_phase.split intro!: kept_set_after f)
qed

lemma kept_flow_steps:
  assumes inv: "pool_inv cfg None m" and f: "f < length (flows m)"
  shows "kept cfg m (body_chunk f bytes m)" "kept cfg m (drained f m)" "kept cfg m (drain_timeout f queue m)"
    "kept cfg m (body_done f m)" "kept cfg m (body_error f code m)" "kept cfg m (response_timeout f m)"
    "kept cfg m (waitForIdle f m)" "kept cfg m (stall_check lims now f m)"
  unfolding body_chunk_def drained_def drain_timeout_def body_done_def body_error_def response_timeout_def waitForIdle_def stall_check_def
  using kept_refl [OF inv] kept_flow_set [OF inv f] kept_request_failed [OF inv f] kept_failed_twice [OF inv f refl]
    kept_fail_close [OF inv f refl] kept_set_after [OF kept_send [OF inv] f]
  by (auto split: head_phase.split)

lemma kept_pull_body:
  assumes inv: "pool_inv cfg None m" and f: "f < length (flows m)"
  shows "kept cfg m (pull_body lims now f m)"
proof -
  have next_: "kept cfg m' (nextBodyChunk f m')" if "pool_inv cfg None m'" "f < length (flows m')" for m'
    by (rule kept_calm [OF that(1) quiet_next]) (simp_all add: nextBodyChunk_def that(2) split: list.split)
  have con: "kept cfg m (consume lims now f n m)" for n
    by (rule kept_calm [OF inv quiet_consume]) (simp_all add: consume_def Let_def f)
  have "kept cfg m (nextBodyChunk f (consume lims now f n m))" for n
    by (rule kept_trans [OF con next_]) (use con [of n] f in \<open>simp_all add: kept_def\<close>)
  then show ?thesis
    unfolding pull_body_def using next_ [OF inv f] kept_refl [OF inv] by (auto split: generator.split)
qed

lemma kept_return_body:
  assumes inv: "pool_inv cfg None m" and f: "f < length (flows m)"
  shows "kept cfg m (return_body f m)"
  unfolding return_body_def
  using kept_refl [OF inv] kept_flow_set [OF inv f] kept_set_after [OF kept_endBody [OF inv f] f] by (auto split: generator.split)

lemma kept_abort_flow:
  assumes inv: "pool_inv cfg None m" and f: "f < length (flows m)"
  shows "kept cfg m (abort_flow f code m)"
  unfolding abort_flow_def Let_def
  using kept_refl [OF inv] kept_quiet_close [OF inv quiet_trans [OF quiet_fail quiet_send] f refl] by auto

lemma kept_idle_timeout:
  assumes inv: "pool_inv cfg None m" and f: "f < length (flows m)"
  shows "kept cfg m (idle_timeout f m)"
proof -
  note k = kept_flow_set [OF inv f, of "\<lambda>x. x\<lparr>f_idle := IdleDone False\<rparr>"]
  have "kept cfg m (fail_and_close f (f_channel (fl m f)) c r (upd_flow f (\<lambda>x. x\<lparr>f_idle := IdleDone False\<rparr>) m))" for c r
    unfolding fail_and_close_def
    by (rule kept_quiet_close [OF inv quiet_trans [OF quiet_upd_flow quiet_fail] f refl]) simp
  then show ?thesis unfolding idle_timeout_def Let_def using k kept_refl [OF inv] by auto
qed

text \<open>Claiming and waiting.\<close>

lemma claimed:
  assumes inv: "pool_inv cfg None m" and c: "claimIdleChannel node session m = Some i"
  shows "i < length (chans m)" "c_node (chan m i) = node" "\<not> c_closed (chan m i)" "c_state (chan m i) = ChIdle"
    "c_flow (chan m i) = None" "session = None \<or> session = Some (c_session (chan m i))"
proof -
  have i: "i \<in> set (open_of m node)" "c_state (chan m i) = ChIdle" "session = None \<or> session = Some (c_session (chan m i))"
    using c pool_invD(3) [OF inv, of node] by (auto simp: claimIdleChannel_def find_Some_iff)
  then show "i < length (chans m)" "c_node (chan m i) = node" "\<not> c_closed (chan m i)" "c_state (chan m i) = ChIdle"
    "session = None \<or> session = Some (c_session (chan m i))" by (auto simp: open_of_def)
  then show "c_flow (chan m i) = None" using pool_invD(7) [OF inv, of i] by (auto simp: chan_ok_def)
qed

lemma bind_effect:
  assumes inv: "pool_inv cfg None m" and k: "k < length (callers m)" "k_state (cl m k) = CWoken"
    and c: "claimIdleChannel (k_node (cl m k)) (k_session (cl m k)) m = Some i"
  obtains m3 where "bind_flow k i rid now m = send i (open_message rid (k_request (cl m k))) m3" "pool_inv cfg None m3"
    "chans m3 = (chans m)[i := (chan m i)\<lparr>c_state := ChBusy, c_flow := Some (length (flows m))\<rparr>]"
    "callers m3 = (callers m)[k := (cl m k)\<lparr>k_state := CFlow (length (flows m))\<rparr>]" "flows m3 = flows m @ [new_flow now i rid]"
proof -
  note i = claimed [OF inv c]
  define m1 where "m1 = m\<lparr>flows := flows m @ [new_flow now i rid]\<rparr>"
  define m2 where "m2 = upd_chan i (\<lambda>c. c\<lparr>c_state := ChBusy, c_flow := Some (length (flows m))\<rparr>) m1"
  define m3 where "m3 = upd_caller k (\<lambda>x. x\<lparr>k_state := CFlow (length (flows m))\<rparr>) m2"
  have e: "bind_flow k i rid now m = send i (open_message rid (k_request (cl m k))) m3"
    unfolding bind_flow_def Let_def m1_def m2_def m3_def using i(6) by auto
  have cs: "chans m3 = (chans m)[i := (chan m i)\<lparr>c_state := ChBusy, c_flow := Some (length (flows m))\<rparr>]"
    and ks: "callers m3 = (callers m)[k := (cl m k)\<lparr>k_state := CFlow (length (flows m))\<rparr>]"
    and fs: "flows m3 = flows m @ [new_flow now i rid]" and rs: "channels m3 = channels m" "idleWaiters m3 = idleWaiters m"
    by (simp_all add: m3_def m2_def m1_def upd_caller_def upd_chan_def)
  have same: "c_node (chan m3 j) = c_node (chan m j) \<and> c_session (chan m3 j) = c_session (chan m j) \<and> c_closed (chan m3 j) = c_closed (chan m j)" for j
    using i(1) by (cases "j = i") (simp_all add: cs)
  have "chan_ok None m3 j" if j: "j < length (chans m)" for j
    using pool_invD(7) [OF inv j] i by (cases "j = i") (auto simp: chan_ok_def cs fs nth_append new_flow_def)
  moreover have "caller_ok m3 j" if j: "j < length (callers m)" for j
  proof (cases "j = k")
    case True
    have "fl m3 (length (flows m)) = new_flow now i rid" by (simp add: fs)
    then show ?thesis using k i(2,6) by (auto simp: caller_ok_def ks True fs same new_flow_def)
  next
    case False
    have "fl m3 f = fl m f" if "f < length (flows m)" for f using that by (simp add: fs nth_append)
    then show ?thesis using pool_invD(9) [OF inv j] False by (auto simp: caller_ok_def ks fs same)
  qed
  moreover have "waiting m3 n j \<longleftrightarrow> waiting m n j" for n j
    using k by (cases "j = k") (auto simp: waiting_def ks)
  moreover have "open_of m3 n = open_of m n" for n
    unfolding open_of_def by (simp add: same) (simp add: cs)
  moreover have "pool_of m3 = pool_of m" "waiters_of m3 = waiters_of m"
    by (auto simp: pool_of_def waiters_of_def rs)
  moreover have "f_channel (fl m3 f) < length (chans m)" if "f < Suc (length (flows m))" for f
    using pool_invD(8) [OF inv, of f] that i(1) by (auto simp: fs nth_append new_flow_def less_Suc_eq)
  ultimately have "pool_inv cfg None m3"
    using pool_invD(1-6) [OF inv] unfolding pool_inv_def by (simp add: rs) (simp add: cs ks fs)
  then show ?thesis using that [OF e _ cs ks fs] by blast
qed

lemma inv_bind_flow:
  assumes inv: "pool_inv cfg None m" and k: "k < length (callers m)" "k_state (cl m k) = CWoken"
    and c: "claimIdleChannel (k_node (cl m k)) (k_session (cl m k)) m = Some i"
  shows "pool_inv cfg None (bind_flow k i rid now m)"
  using bind_effect [OF assms, of rid now] kept_inv [OF kept_send] by metis

lemma inv_wait_or_fail:
  assumes inv: "pool_inv cfg None m" and k: "k < length (callers m)" "k_state (cl m k) = CWoken"
  shows "pool_inv cfg None (wait_or_fail cfg now k m)"
proof -
  have inv_set: "pool_inv cfg None m'" if m': "callers m' = (callers m)[k := (cl m k)\<lparr>k_state := s\<rparr>]" "chans m' = chans m" "flows m' = flows m"
      "channels m' = channels m" "omap_wf (idleWaiters m')"
      "\<And>n. waiters_of m' n = waiters_of m n @ (if s = CWaiting \<and> n = k_node (cl m k) then [k] else [])"
      and s: "\<And>f. s \<noteq> CFlow f" for m' s
  proof -
    have p: "pool_of m' = pool_of m" "open_of m' = open_of m" by (auto simp: pool_of_def open_of_def m')
    have w: "waiting m' n j \<longleftrightarrow> waiting m n j \<or> j = k \<and> n = k_node (cl m k) \<and> s = CWaiting" for n j
      using k by (cases "j = k") (auto simp: waiting_def m')
    have "k \<notin> set (waiters_of m n)" for n using pool_invD(6) [OF inv, of k n] k by (auto simp: waiting_def)
    then have "distinct (waiters_of m' n)" "j \<in> set (waiters_of m' n) \<longleftrightarrow> waiting m' n j" for n j
      using pool_invD(5) [OF inv, of n] pool_invD(6) [OF inv, of j n] by (auto simp: m'(6) w)
    moreover have "caller_ok m' j" if "j < length (callers m)" for j
      using pool_invD(9) [OF inv that] s k by (cases "j = k") (auto simp: caller_ok_def m')
    moreover have "chan_ok None m' i" if "i < length (chans m)" for i
      using pool_invD(7) [OF inv that] by (simp add: chan_ok_def m')
    ultimately show ?thesis using pool_invD(1,3,4,8) [OF inv] m'(5) unfolding pool_inv_def by (simp add: m'(1-4) p)
  qed
  show ?thesis
  proof (cases "now - k_started (cl m k) < capacityWaitMs cfg")
    case True
    show ?thesis
      by (rule inv_set [of _ CWaiting])
        (use True pool_invD(2) [OF inv] in \<open>auto simp: wait_or_fail_def Let_def upd_caller_def waiters_of_def orbit_simps\<close>)
  next
    case False
    show ?thesis
      by (rule inv_set [of _ "CFailed ''reverse-capacity''"])
        (use False pool_invD(2) [OF inv] in \<open>auto simp: wait_or_fail_def Let_def upd_caller_def waiters_of_def\<close>)
  qed
qed

lemma inv_acquire:
  assumes inv: "pool_inv cfg None m" and k: "k < length (callers m)" "k_state (cl m k) = CWoken"
  shows "pool_inv cfg None (acquire cfg now rid k m)"
  unfolding acquire_def using inv_bind_flow [OF assms] inv_wait_or_fail [OF assms] by (simp split: option.split)

lemma inv_new_caller:
  assumes inv: "pool_inv cfg None m" and m1: "m1 = m\<lparr>callers := callers m @ [c]\<rparr>" and c: "k_state c = CWoken"
  shows "pool_inv cfg None m1"
proof -
  have "waiting m1 n k \<longleftrightarrow> waiting m n k" for n k using c by (auto simp: waiting_def m1 nth_append)
  moreover have "caller_ok m1 k" if "k < Suc (length (callers m))" for k
    using pool_invD(9) [OF inv, of k] that c by (auto simp: caller_ok_def m1 nth_append less_Suc_eq)
  moreover have "chan_ok None m1 i" if "i < length (chans m)" for i
    using pool_invD(7) [OF inv that] by (simp add: chan_ok_def m1)
  moreover have "pool_of m1 = pool_of m" "open_of m1 = open_of m" "waiters_of m1 = waiters_of m"
    by (auto simp: pool_of_def open_of_def waiters_of_def m1)
  ultimately show ?thesis
    using pool_invD(1-6,8) [OF inv] unfolding pool_inv_def by (simp add: m1)
qed

lemma inv_execute:
  assumes inv: "pool_inv cfg None m"
  shows "pool_inv cfg None (executeReverseHttp cfg now node session q rid m)"
  unfolding executeReverseHttp_def Let_def by (rule inv_acquire [OF inv_new_caller [OF inv refl]]) simp_all

lemma register_effect:
  assumes inv: "pool_inv cfg None m" and room: "length (pool_of m node) < maxChannels cfg"
  obtains m1 where "registerChannel cfg node key session m = resolveIdleWaiters node session m1" "pool_inv cfg None m1"
    "chans m1 = chans m @ [new_channel node key session]" "callers m1 = callers m" "flows m1 = flows m"
proof -
  define m1 where "m1 = m\<lparr>chans := chans m @ [new_channel node key session],
    channels := AList.update node (pool_of m node @ [length (chans m)]) (channels m)\<rparr>"
  have "pool_of m1 n = (if n = node then pool_of m n @ [length (chans m)] else pool_of m n)" for n
    by (simp add: m1_def pool_of_def orbit_simps)
  moreover have "open_of m1 n = (if n = node then open_of m n @ [length (chans m)] else open_of m n)" for n
    by (auto simp: open_of_def m1_def new_channel_def nth_append intro!: filter_cong)
  moreover have "chan_ok None m1 i" if "i < Suc (length (chans m))" for i
    using pool_invD(7) [OF inv, of i] that by (auto simp: chan_ok_def m1_def nth_append new_channel_def less_Suc_eq)
  moreover have "caller_ok m1 k" if "k < length (callers m)" for k
    using pool_invD(9) [OF inv that] pool_invD(8) [OF inv] by (auto simp: caller_ok_def m1_def nth_append)
  moreover have "waiters_of m1 = waiters_of m" by (auto simp: waiters_of_def m1_def)
  moreover have "f_channel (fl m f) < Suc (length (chans m))" if "f < length (flows m)" for f
    using pool_invD(8) [OF inv that] by simp
  ultimately have "pool_inv cfg None m1"
    using pool_invD(1-6) [OF inv] room unfolding pool_inv_def by (auto simp: waiting_def) (simp_all add: m1_def)
  then show ?thesis
    using room that [of m1] by (simp add: registerChannel_def Let_def m1_def)
qed

lemma register_full: "length (pool_of m node) \<ge> maxChannels cfg \<Longrightarrow> registerChannel cfg node key session m = m"
  by (simp add: registerChannel_def)

lemma inv_register:
  assumes inv: "pool_inv cfg None m"
  shows "pool_inv cfg None (registerChannel cfg node key session m)"
proof (cases "length (pool_of m node) < maxChannels cfg")
  case True
  show ?thesis using register_effect [OF inv True, of key session] kept_inv [OF kept_resolve] by metis
qed (simp add: register_full inv)

text \<open>Closing several channels.\<close>

lemma close_all_kept:
  assumes "pool_inv cfg None m" "\<forall>i \<in> set is. i < length (chans m)"
  shows "kept cfg m (close_all_of is reason m)"
  using assms
proof (induction "is" arbitrary: m)
  case (Cons i "is")
  have k: "kept cfg m (close_channel i reason m)" by (rule kept_close' [OF Cons.prems(1)]) (simp add: Cons.prems(2))
  have "kept cfg (close_channel i reason m) (close_all_of is reason (close_channel i reason m))"
    using Cons k by (auto simp: kept_def)
  from kept_trans [OF k this] Cons.prems show ?case by (simp add: close_all_of_def)
qed (simp add: close_all_of_def kept_refl)

lemma close_all_effect:
  assumes "pool_inv cfg None m" "\<forall>i \<in> set is. i < length (chans m)"
  shows "j < length (chans m) \<Longrightarrow> j \<notin> set is \<Longrightarrow> core (chan (close_all_of is reason m) j) = core (chan m j)"
    and "j \<in> set is \<Longrightarrow> c_closed (chan (close_all_of is reason m) j)"
    and "\<forall>i \<in> set is. c_flow (chan m i) \<noteq> Some f \<Longrightarrow> fl (close_all_of is reason m) f = fl m f"
    and "callers (close_all_of is reason m) = callers m" "idleWaiters (close_all_of is reason m) = idleWaiters m"
proof -
  let ?r = "close_all_of is reason m"
  have "(\<forall>j. j < length (chans m) \<longrightarrow> (j \<notin> set is \<longrightarrow> core (chan ?r j) = core (chan m j)) \<and> (j \<in> set is \<or> c_closed (chan m j) \<longrightarrow> c_closed (chan ?r j)))
      \<and> (\<forall>f. (\<forall>i \<in> set is. c_flow (chan m i) \<noteq> Some f) \<longrightarrow> fl ?r f = fl m f) \<and> callers ?r = callers m \<and> idleWaiters ?r = idleWaiters m"
    using assms
  proof (induction "is" arbitrary: m)
    case (Cons i "is")
    let ?m = "close_channel i reason m"
    have i: "i < length (chans m)" using Cons.prems(2) by simp
    have len: "length (chans ?m) = length (chans m)" and inv: "pool_inv cfg None ?m"
      using kept_close' [OF Cons.prems(1) i, of reason] by (simp_all add: kept_def)
    have one: "(j \<noteq> i \<longrightarrow> core (chan ?m j) = core (chan m j)) \<and> (j = i \<longrightarrow> c_closed (chan ?m j) \<and> c_flow (chan ?m j) = None)
        \<and> (c_flow (chan m i) \<noteq> Some f \<longrightarrow> fl ?m f = fl m f) \<and> callers ?m = callers m \<and> idleWaiters ?m = idleWaiters m"
      if "j < length (chans m)" for j f
    proof (cases "c_closed (chan m i)")
      case True
      then have "c_flow (chan m i) = None" using pool_invD(7) [OF Cons.prems(1) i] by (auto simp: chan_ok_def)
      then show ?thesis using True by (simp add: close_closed)
    next
      case False
      then show ?thesis using close_effect(2,3,6,7,8) [OF i False refl] that by auto
    qed
    have IH: "(\<forall>j. j < length (chans m) \<longrightarrow> (j \<notin> set is \<longrightarrow> core (chan (close_all_of is reason ?m) j) = core (chan ?m j))
        \<and> (j \<in> set is \<or> c_closed (chan ?m j) \<longrightarrow> c_closed (chan (close_all_of is reason ?m) j)))
      \<and> (\<forall>f. (\<forall>i \<in> set is. c_flow (chan ?m i) \<noteq> Some f) \<longrightarrow> fl (close_all_of is reason ?m) f = fl ?m f)
      \<and> callers (close_all_of is reason ?m) = callers ?m \<and> idleWaiters (close_all_of is reason ?m) = idleWaiters ?m"
      using Cons.IH [OF inv] Cons.prems(2) by (simp add: len)
    have e: "close_all_of (i # is) reason m = close_all_of is reason ?m" by (simp add: close_all_of_def)
    have "fl (close_all_of is reason ?m) f = fl m f" if f: "\<forall>i' \<in> set (i # is). c_flow (chan m i') \<noteq> Some f" for f
    proof -
      have "c_flow (chan ?m i') \<noteq> Some f" if "i' \<in> set is" for i'
        using one [of i'] f that Cons.prems(2) by (cases "i' = i") (auto simp: core_def)
      then show ?thesis using IH one [OF i, of f] f by simp
    qed
    moreover have "core (chan (close_all_of is reason ?m) j) = core (chan m j)" if "j < length (chans m)" "j \<notin> set (i # is)" for j
      using IH one [OF that(1)] that by simp
    moreover have "c_closed (chan (close_all_of is reason ?m) j)"
      if "j < length (chans m)" "j \<in> set (i # is) \<or> c_closed (chan m j)" for j
    proof -
      have "j \<in> set is \<or> c_closed (chan ?m j)" using one [OF that(1)] that(2) by (cases "j = i") (auto simp: core_def)
      then show ?thesis using IH that(1) by blast
    qed
    moreover have "callers (close_all_of is reason ?m) = callers m" "idleWaiters (close_all_of is reason ?m) = idleWaiters m"
      using IH one [OF i] by simp_all
    ultimately show ?case unfolding e by simp
  qed (simp add: close_all_of_def)
  then show "j < length (chans m) \<Longrightarrow> j \<notin> set is \<Longrightarrow> core (chan ?r j) = core (chan m j)"
    "j \<in> set is \<Longrightarrow> c_closed (chan ?r j)" "\<forall>i \<in> set is. c_flow (chan m i) \<noteq> Some f \<Longrightarrow> fl ?r f = fl m f"
    "callers ?r = callers m" "idleWaiters ?r = idleWaiters m"
    using assms(2) by blast+
qed

lemma kept_fold:
  assumes "\<And>k m. k \<in> set ks \<Longrightarrow> pool_inv cfg None m \<Longrightarrow> length (callers m) = n \<Longrightarrow> kept cfg m (g k m)"
    "pool_inv cfg None m" "length (callers m) = n"
  shows "kept cfg m (fold g ks m)"
  using assms
proof (induction ks arbitrary: m)
  case (Cons k ks)
  have k: "kept cfg m (g k m)" using Cons.prems by simp
  then have "kept cfg (g k m) (fold g ks (g k m))" using Cons.prems by (intro Cons.IH) (simp_all add: kept_def)
  then show ?case using kept_trans [OF k] by simp
qed (simp add: kept_refl)

lemma open_bounds: "i \<in> set (open_of m n) \<Longrightarrow> i < length (chans m)"
  by (simp add: open_of_def)

lemma pool_bounds: "pool_inv cfg None m \<Longrightarrow> \<forall>i \<in> set (pool_of m n). i < length (chans m)"
  using open_bounds by (simp add: pool_invD(3))

lemma kept_maps:
  assumes inv: "pool_inv cfg None m" and w: "omap_wf c" "omap_wf w"
    and p: "pool_of (m\<lparr>channels := c, idleWaiters := w\<rparr>) = pool_of m" "waiters_of (m\<lparr>channels := c, idleWaiters := w\<rparr>) = waiters_of m"
  shows "kept cfg m (m\<lparr>channels := c, idleWaiters := w\<rparr>)"
proof -
  have "chan_ok None (m\<lparr>channels := c, idleWaiters := w\<rparr>) i" if "i < length (chans m)" for i
    using pool_invD(7) [OF inv that] by (simp add: chan_ok_def)
  moreover have "caller_ok (m\<lparr>channels := c, idleWaiters := w\<rparr>) k" if "k < length (callers m)" for k
    using pool_invD(9) [OF inv that] by (simp add: caller_ok_def)
  moreover have "open_of (m\<lparr>channels := c, idleWaiters := w\<rparr>) = open_of m" by (rule ext) (simp add: open_of_def)
  ultimately show ?thesis
    using pool_invD(1-6,8) [OF inv] w unfolding kept_def pool_inv_def by (simp add: p waiting_def)
qed

lemma settled_gone:
  assumes "pool_inv cfg None m" "\<forall>k \<in> set ks. k < length (callers m)" "set (waiters_of m n) \<subseteq> set ks"
  shows "waiters_of (fold settle_waiter ks m) n = []"
  using assms
proof (induction ks arbitrary: m)
  case (Cons k ks)
  have k: "k < length (callers m)" using Cons.prems(2) by simp
  have kk: "kept cfg m (settle_waiter k m)" by (rule kept_settle [OF Cons.prems(1) k])
  have "waiters_of (settle_waiter k m) n = removeAll k (waiters_of m n)"
  proof (cases "k_state (cl m k) = CWaiting")
    case True
    have "k \<notin> set (waiters_of m n)" if "n \<noteq> k_node (cl m k)"
      using that pool_invD(6) [OF Cons.prems(1), of k n] by (simp add: waiting_def)
    then show ?thesis using True settle_effect(5) [OF refl k] by (simp add: settle_waiter_def)
  next
    case False
    then have "k \<notin> set (waiters_of m n)" using pool_invD(6) [OF Cons.prems(1), of k n] by (simp add: waiting_def)
    then show ?thesis using False by (simp add: settle_waiter_def)
  qed
  then show ?case using Cons.IH [of "settle_waiter k m"] Cons.prems kk by (auto simp: kept_def)
qed simp

lemma waiter_bounds: "pool_inv cfg None m \<Longrightarrow> \<forall>k \<in> set (waiters_of m n). k < length (callers m)"
  by (simp add: pool_invD(6) waiting_def)

lemma kept_close_node_pool:
  assumes inv: "pool_inv cfg None m"
  obtains m2 where "kept cfg m m2" "m2 = (close_all_of (pool_of m node) reason m)
      \<lparr>channels := AList.delete node (channels (close_all_of (pool_of m node) reason m))\<rparr>"
proof -
  define m1 where "m1 = close_all_of (pool_of m node) reason m"
  define m2 where "m2 = m1\<lparr>channels := AList.delete node (channels m1)\<rparr>"
  have k1: "kept cfg m m1" unfolding m1_def by (rule close_all_kept [OF inv pool_bounds [OF inv]])
  note inv1 = kept_inv [OF k1]
  have "i \<notin> set (open_of m1 node)" for i
  proof
    assume i: "i \<in> set (open_of m1 node)"
    then have "i < length (chans m)" using open_bounds [OF i] k1 by (simp add: kept_def)
    note eff = close_all_effect(1,2) [OF inv pool_bounds [OF inv, of node], of i reason, folded m1_def]
    show False
    proof (cases "i \<in> set (pool_of m node)")
      case True
      then show False using eff(2) i by (simp add: open_of_def)
    next
      case False
      then have "core (chan m1 i) = core (chan m i)" using eff(1) \<open>i < length (chans m)\<close> by simp
      then show False
        using i False pool_invD(3) [OF inv, of node] \<open>i < length (chans m)\<close> by (auto simp: open_of_def core_def)
    qed
  qed
  then have "pool_of m1 node = []" using pool_invD(3) [OF inv1, of node] by (metis last_in_set)
  then have "pool_of m2 = pool_of m1" by (rule_tac ext) (auto simp: m2_def pool_of_def orbit_simps)
  moreover have "waiters_of m2 = waiters_of m1" by (rule ext) (simp add: m2_def waiters_of_def)
  ultimately have k2: "kept cfg m1 m2"
    using kept_maps [OF inv1, of "AList.delete node (channels m1)" "idleWaiters m1"] pool_invD(1,2) [OF inv1] unfolding m2_def
    by simp
  show ?thesis using that [OF kept_trans [OF k1 k2]] by (simp add: m2_def m1_def)
qed

lemma kept_close_node:
  assumes inv: "pool_inv cfg None m"
  shows "kept cfg m (closeChannelsForNode node reason m)"
proof -
  obtain m2 where k2: "kept cfg m m2" and m2: "m2 = (close_all_of (pool_of m node) reason m)
      \<lparr>channels := AList.delete node (channels (close_all_of (pool_of m node) reason m))\<rparr>"
    using kept_close_node_pool [OF inv] by blast
  note inv2 = kept_inv [OF k2]
  define m3 where "m3 = fold settle_waiter (waiters_of m2 node) m2"
  have k3: "kept cfg m2 m3" unfolding m3_def
    by (rule kept_fold [OF _ inv2 refl]) (use waiter_bounds [OF inv2] kept_settle in auto)
  note inv3 = kept_inv [OF k3]
  have "waiters_of m3 node = []" unfolding m3_def by (rule settled_gone [OF inv2 waiter_bounds [OF inv2]]) simp
  then have "waiters_of (m3\<lparr>idleWaiters := AList.delete node (idleWaiters m3)\<rparr>) = waiters_of m3"
    by (rule_tac ext) (auto simp: waiters_of_def orbit_simps)
  moreover have "pool_of (m3\<lparr>idleWaiters := AList.delete node (idleWaiters m3)\<rparr>) = pool_of m3" by (rule ext) (simp add: pool_of_def)
  ultimately have k4: "kept cfg m3 (m3\<lparr>idleWaiters := AList.delete node (idleWaiters m3)\<rparr>)"
    using kept_maps [OF inv3, of "channels m3" "AList.delete node (idleWaiters m3)"] pool_invD(1,2) [OF inv3]
    by simp
  show ?thesis
    unfolding closeChannelsForNode_def Let_def m2 [symmetric] m3_def [symmetric]
    by (rule kept_trans [OF k2 kept_trans [OF k3 k4]])
qed

lemma map_lists:
  assumes "omap_wf c" "x \<in> set (concat (map snd c))"
  shows "\<exists>n xs. map_of c n = Some xs \<and> x \<in> set xs"
  using assms by fastforce

lemma listed_bounds:
  assumes inv: "pool_inv cfg None m"
  shows "i \<in> set (concat (map snd (channels m))) \<Longrightarrow> i < length (chans m)"
    and "k \<in> set (concat (map snd (idleWaiters m))) \<Longrightarrow> k < length (callers m)"
proof -
  assume "i \<in> set (concat (map snd (channels m)))"
  then obtain n xs where "map_of (channels m) n = Some xs" "i \<in> set xs" using map_lists [OF pool_invD(1) [OF inv]] by blast
  then show "i < length (chans m)" using pool_bounds [OF inv, of n] by (simp add: pool_of_def)
next
  assume "k \<in> set (concat (map snd (idleWaiters m)))"
  then obtain n xs where "map_of (idleWaiters m) n = Some xs" "k \<in> set xs" using map_lists [OF pool_invD(2) [OF inv]] by blast
  then show "k < length (callers m)" using waiter_bounds [OF inv, of n] by (simp add: waiters_of_def)
qed

lemma kept_close_session:
  assumes inv: "pool_inv cfg None m"
  shows "kept cfg m (closeChannelsForSession session reason m)"
proof -
  let ?is = "filter (\<lambda>i. c_session (chan m i) = session) (concat (map snd (channels m)))"
  have k1: "kept cfg m (close_all_of ?is reason m)" using listed_bounds(1) [OF inv] by (intro close_all_kept [OF inv]) simp
  note inv1 = kept_inv [OF k1]
  let ?m = "close_all_of ?is reason m"
  have bound: "k < length (callers ?m)"
    if "k \<in> set (filter (\<lambda>k. k_session (cl ?m k) = Some session) (concat (map snd (idleWaiters ?m))))" for k
    using that listed_bounds(2) [OF inv1] by simp
  have "kept cfg ?m (fold (\<lambda>k. cancel_waiter k ''reverse-session-stale'')
      (filter (\<lambda>k. k_session (cl ?m k) = Some session) (concat (map snd (idleWaiters ?m)))) ?m)"
  proof (rule kept_fold [OF _ inv1 refl])
    fix k m'
    assume "k \<in> set (filter (\<lambda>k. k_session (cl ?m k) = Some session) (concat (map snd (idleWaiters ?m))))"
      and m': "pool_inv cfg None m'" "length (callers m') = length (callers ?m)"
    from bound [OF this(1)] show "kept cfg m' (cancel_waiter k ''reverse-session-stale'' m')"
      by (intro kept_cancel [OF m'(1)]) (simp only: m'(2))
  qed
  then show ?thesis unfolding closeChannelsForSession_def Let_def by (rule kept_trans [OF k1])
qed


lemma inv_step:
  assumes inv: "pool_inv cfg None m"
  shows "pool_inv cfg None (pool_step cfg pj e m)"
proof (cases e)
  case (CloseEverything reason)
  show ?thesis
    unfolding CloseEverything pool_step.simps closeAllChannels_def
    by (rule kept_inv [OF kept_fold [OF _ inv refl]]) (rule kept_close_node)
next
  case (CloseCredentialChannels n key reason)
  show ?thesis
    unfolding CloseCredentialChannels pool_step.simps closeChannelsForCredential_def Let_def snd_conv
    by (rule kept_inv [OF close_all_kept [OF inv]]) (use pool_bounds [OF inv] in auto)
next
  case (Resume k now rid)
  then show ?thesis using inv inv_acquire [OF inv] by (simp add: resume_caller_def)
qed (simp_all add: inv inv_register [OF inv] inv_execute [OF inv] kept_inv [OF kept_chan_data [OF inv]] kept_inv [OF kept_close' [OF inv]]
      kept_inv [OF kept_settle [OF inv]] kept_inv [OF kept_cancel [OF inv]] kept_inv [OF kept_flow_steps(1) [OF inv]]
      kept_inv [OF kept_flow_steps(2) [OF inv]] kept_inv [OF kept_flow_steps(3) [OF inv]] kept_inv [OF kept_flow_steps(4) [OF inv]]
      kept_inv [OF kept_flow_steps(5) [OF inv]] kept_inv [OF kept_flow_steps(6) [OF inv]] kept_inv [OF kept_flow_steps(7) [OF inv]]
      kept_inv [OF kept_flow_steps(8) [OF inv]] kept_inv [OF kept_write_step [OF inv]] kept_inv [OF kept_pull_body [OF inv]]
      kept_inv [OF kept_return_body [OF inv]] kept_inv [OF kept_abort_flow [OF inv]] kept_inv [OF kept_idle_timeout [OF inv]]
      kept_inv [OF kept_close_node [OF inv]] kept_inv [OF kept_close_session [OF inv]])

lemma inv_new_pool: "pool_inv cfg None new_pool"
  by (simp add: pool_inv_def new_pool_def pool_of_def open_of_def waiters_of_def waiting_def)

lemma pool_run_snoc: "pool_run cfg pj (es @ [e]) = pool_step cfg pj e (pool_run cfg pj es)"
  by (simp add: pool_run_def)

lemma inv_run: "pool_inv cfg None (pool_run cfg pj es)"
  by (induction es rule: rev_induct) (simp_all add: pool_run_snoc inv_step, simp add: pool_run_def inv_new_pool)

end
