(* ===== verification/ReverseFlow.thy ===== *)
theory ReverseFlow
  imports ReversePool
begin

text \<open>
  What the pool of reverse channels of \<^verbatim>\<open>src/registry/reverse-channel.mjs\<close> promises, proved for every run of the
  events of \<^theory_text>\<open>ReversePool\<close>: which channels it holds and who owns them, that no waiting caller misses an idle
  channel, that a browser reads exactly the body its node sent, and how revoking a credential acts; and the runs that
  show where the code does not keep its flows apart.
\<close>

section \<open>Wakeups\<close>

definition idle_at :: "pool \<Rightarrow> str \<Rightarrow> str \<Rightarrow> nat \<Rightarrow> bool" where
  "idle_at m n s i \<longleftrightarrow> i < length (chans m) \<and> c_node (chan m i) = n \<and> c_session (chan m i) = s
     \<and> \<not> c_closed (chan m i) \<and> c_state (chan m i) = ChIdle"

definition woken_at :: "pool \<Rightarrow> str \<Rightarrow> str \<Rightarrow> nat \<Rightarrow> bool" where
  "woken_at m n s k \<longleftrightarrow> k < length (callers m) \<and> k_node (cl m k) = n \<and> k_session (cl m k) = Some s \<and> k_state (cl m k) = CWoken"

definition waits_at :: "pool \<Rightarrow> str \<Rightarrow> str \<Rightarrow> nat \<Rightarrow> bool" where
  "waits_at m n s k \<longleftrightarrow> waiting m n k \<and> k_session (cl m k) = Some s"

text \<open>While a caller waits, up to \<open>d\<close> no more channels are idle than callers are about to look for one.\<close>

definition awake :: "pool \<Rightarrow> str \<Rightarrow> str \<Rightarrow> nat \<Rightarrow> bool" where
  "awake m n s d \<longleftrightarrow> ((\<exists>k. waits_at m n s k) \<longrightarrow> card (Collect (idle_at m n s)) \<le> card (Collect (woken_at m n s)) + d)"

definition named :: "pool \<Rightarrow> bool" where
  "named m \<longleftrightarrow> (\<forall>k < length (callers m). k_session (cl m k) \<noteq> None)"

definition alert :: "pool \<Rightarrow> bool" where
  "alert m \<longleftrightarrow> named m \<and> (\<forall>n s. awake m n s 0)"

lemma finite_at [simp]: "finite (Collect (idle_at m n s))" "finite (Collect (woken_at m n s))"
  by (rule finite_subset [of _ "{..<length (chans m)}"]; auto simp: idle_at_def)
    (rule finite_subset [of _ "{..<length (callers m)}"]; auto simp: woken_at_def)

text \<open>No channel becomes idle.\<close>

definition sleepy :: "pool \<Rightarrow> pool \<Rightarrow> bool" where
  "sleepy m m' \<longleftrightarrow> callers m' = callers m \<and> (\<forall>n s i. idle_at m' n s i \<longrightarrow> idle_at m n s i)"

lemma sleepy_refl: "sleepy m m"
  by (simp add: sleepy_def)

lemma sleepy_trans: "sleepy m m' \<Longrightarrow> sleepy m' m'' \<Longrightarrow> sleepy m m''"
  by (simp add: sleepy_def)

lemma sleepy_callers:
  assumes "callers m' = callers m"
  shows "waits_at m' = waits_at m" "woken_at m' = woken_at m" "named m' = named m"
  using assms by (auto simp: fun_eq_iff waits_at_def woken_at_def waiting_def named_def)

lemma sleepy_alert:
  assumes "sleepy m m'" "alert m"
  shows "alert m'"
proof -
  have c: "callers m' = callers m" using assms(1) by (simp add: sleepy_def)
  have "card (Collect (idle_at m' n s)) \<le> card (Collect (idle_at m n s))" for n s
    using assms(1) by (intro card_mono) (auto simp: sleepy_def)
  then have "awake m' n s 0" if "awake m n s 0" for n s
    using that unfolding awake_def sleepy_callers(1,2) [OF c] by (auto intro: order_trans)
  then show ?thesis using assms(2) sleepy_callers(3) [OF c] by (simp add: alert_def)
qed

lemma quiet_sleepy:
  assumes "quiet f m m'"
  shows "sleepy m m'"
  using quiet_chans [OF assms] assms by (auto simp: sleepy_def idle_at_def quiet_def)

lemma close_sleepy: "i < length (chans m) \<Longrightarrow> sleepy m (close_channel i reason m)"
proof (cases "c_closed (chan m i)")
  case True
  then show ?thesis by (simp add: close_closed sleepy_refl)
next
  case False
  assume i: "i < length (chans m)"
  have "idle_at m n s j" if "idle_at (close_channel i reason m) n s j" for n s j
    using that close_effect(1,3) [OF i False refl, where reason = reason] close_effect(2) [OF i False refl, of j reason] by (cases "j = i") (auto simp: idle_at_def core_def)
  then show ?thesis using close_effect(7) [OF i False refl] by (simp add: sleepy_def)
qed

lemma quiet_close_sleepy:
  assumes q: "quiet f m m'" and i: "i < length (chans m)"
  shows "sleepy m (close_channel i reason m')"
proof -
  have "i < length (chans m')" using i by (simp add: quiet_chans(1) [OF q])
  then show ?thesis by (rule sleepy_trans [OF quiet_sleepy [OF q] close_sleepy])
qed

text \<open>A caller is woken, or leaves.\<close>

lemma awake_settle:
  assumes k: "k < length (callers m)" "k_state (cl m k) = CWaiting" and st: "st \<noteq> CWaiting"
    and m': "m' = upd_caller k (\<lambda>x. x\<lparr>k_state := st\<rparr>) (leave k m)" and a: "awake m n s d"
  shows "awake m' n s (if st = CWoken \<and> k_node (cl m k) = n \<and> k_session (cl m k) = Some s then d - 1 else d)"
proof -
  note e = settle_effect [OF m' k(1)]
  have w: "waits_at m n s j" if "waits_at m' n s j" for j
    using that k st by (cases "j = k") (auto simp: waits_at_def waiting_def e(4))
  have i: "idle_at m' = idle_at m" by (auto simp: fun_eq_iff idle_at_def e(1))
  have u: "woken_at m' n s j \<longleftrightarrow> woken_at m n s j \<or> j = k \<and> st = CWoken \<and> k_node (cl m k) = n \<and> k_session (cl m k) = Some s" for j
    using k by (cases "j = k") (auto simp: woken_at_def e(4))
  show ?thesis
  proof (cases "st = CWoken \<and> k_node (cl m k) = n \<and> k_session (cl m k) = Some s")
    case True
    have "Collect (woken_at m' n s) = insert k (Collect (woken_at m n s))" using u True by auto
    moreover have "k \<notin> Collect (woken_at m n s)" using k by (simp add: woken_at_def)
    ultimately show ?thesis using a w True by (auto simp: awake_def i)
  next
    case False
    then have "Collect (woken_at m' n s) = Collect (woken_at m n s)" using u by auto
    then show ?thesis using a w False by (auto simp: awake_def i)
  qed
qed

lemma named_settle:
  assumes "named m" "k < length (callers m)"
  shows "named (upd_caller k (\<lambda>x. x\<lparr>k_state := st\<rparr>) (leave k m))"
  unfolding named_def settle_effect(4) [OF refl assms(2)]
proof (intro allI impI)
  fix j assume "j < length ((callers m)[k := (cl m k)\<lparr>k_state := st\<rparr>])"
  then show "k_session ((callers m)[k := (cl m k)\<lparr>k_state := st\<rparr>] ! j) \<noteq> None"
    using assms by (cases "j = k") (auto simp: named_def)
qed

lemma alert_settle:
  assumes "alert m" "k < length (callers m)" "k_state (cl m k) = CWaiting" "st \<noteq> CWaiting"
  shows "alert (upd_caller k (\<lambda>x. x\<lparr>k_state := st\<rparr>) (leave k m))"
proof -
  have "awake (upd_caller k (\<lambda>x. x\<lparr>k_state := st\<rparr>) (leave k m)) n s 0" for n s
    using awake_settle [OF assms(2-4) refl, of n s 0] assms(1) by (simp add: alert_def split: if_splits)
  then show ?thesis using named_settle assms(1,2) by (simp add: alert_def)
qed

lemma settle_alert: "alert m \<Longrightarrow> k < length (callers m) \<Longrightarrow> alert (settle_waiter k m)"
  using alert_settle [of m k CWoken] by (simp add: settle_waiter_def)

lemma cancel_alert: "alert m \<Longrightarrow> k < length (callers m) \<Longrightarrow> alert (cancel_waiter k code m)"
  using alert_settle [of m k "CFailed code"] by (simp add: cancel_waiter_def)

text \<open>One more channel is idle than before, and one waiter is told.\<close>

lemma resolve_alert:
  assumes inv: "pool_inv cfg None m" and named: "named m"
    and a: "\<And>n' s'. awake m n' s' (if n' = n \<and> s' = s then 1 else 0)"
  shows "alert (resolveIdleWaiters n s m)"
proof (cases "find (\<lambda>k. k_session (cl m k) = None \<or> k_session (cl m k) = Some s) (waiters_of m n)")
  case None
  then have "\<not> waits_at m n s k" for k
    using pool_invD(6) [OF inv, of k n] by (auto simp: find_None_iff waits_at_def)
  then have "awake m n' s' 0" for n' s' using a [of n' s'] by (auto simp: awake_def split: if_splits)
  then show ?thesis using None named by (simp add: resolveIdleWaiters_def alert_def)
next
  case (Some k)
  then have "k \<in> set (waiters_of m n)" "k_session (cl m k) = None \<or> k_session (cl m k) = Some s"
    by (auto simp: find_Some_iff)
  then have w: "k < length (callers m)" "k_state (cl m k) = CWaiting" "k_node (cl m k) = n" "k_session (cl m k) = Some s"
    using pool_invD(6) [OF inv, of k n] named by (auto simp: waiting_def named_def)
  let ?m = "upd_caller k (\<lambda>x. x\<lparr>k_state := CWoken\<rparr>) (leave k m)"
  have "awake ?m n' s' 0" for n' s'
    using awake_settle [OF w(1,2) _ refl a [of n' s'], of CWoken] w(3,4) by (auto split: if_splits)
  then show ?thesis
    using Some w named_settle [OF named w(1)] by (simp add: resolveIdleWaiters_def settle_waiter_def alert_def)
qed

lemma one_more_idle:
  assumes inv: "pool_inv cfg None m'" and c: "callers m' = callers m" and a: "alert m"
    and i: "\<And>n' s' j. idle_at m' n' s' j \<Longrightarrow> idle_at m n' s' j \<or> j = i \<and> n' = n \<and> s' = s"
  shows "alert (resolveIdleWaiters n s m')"
proof (rule resolve_alert [OF inv])
  note c = sleepy_callers [OF c]
  show "named m'" using a by (simp add: c alert_def)
  fix n' s'
  have "awake m n' s' 0" using a by (simp add: alert_def)
  moreover have "card (Collect (idle_at m' n' s')) \<le> card (Collect (idle_at m n' s')) + (if n' = n \<and> s' = s then 1 else 0)"
  proof (cases "n' = n \<and> s' = s")
    case True
    have "Collect (idle_at m' n' s') \<subseteq> insert i (Collect (idle_at m n' s'))" using i by auto
    then have "card (Collect (idle_at m' n' s')) \<le> card (insert i (Collect (idle_at m n' s')))" by (intro card_mono) simp_all
    also have "\<dots> \<le> Suc (card (Collect (idle_at m n' s')))" by (rule card_insert_le_m1) simp_all
    finally show ?thesis using True by simp
  next
    case False
    have "Collect (idle_at m' n' s') \<subseteq> Collect (idle_at m n' s')" using i False by auto
    then have "card (Collect (idle_at m' n' s')) \<le> card (Collect (idle_at m n' s'))" by (intro card_mono) simp_all
    then show ?thesis by simp
  qed
  ultimately show "awake m' n' s' (if n' = n \<and> s' = s then 1 else 0)" by (auto simp: awake_def c)
qed

lemma on_idle_alert:
  assumes inv: "pool_inv cfg None m" and i: "i < length (chans m)" and a: "alert m"
  shows "alert (on_idle i m)"
proof (cases "c_flow (chan m i)")
  case None
  then show ?thesis using sleepy_alert [OF close_sleepy [OF i] a] by (simp add: on_idle_def)
next
  case (Some f)
  note own = owner [OF inv i Some]
  show ?thesis
  proof (cases "f_bodyEnded (fl m f)")
    case True
    obtain m3 where m3: "on_idle i m = resolveIdleWaiters (c_node (chan m i)) (c_session (chan m i)) m3" "kept cfg m m3"
      "chans m3 = (chans m)[i := (chan m i)\<lparr>c_flow := None, c_state := ChIdle\<rparr>]" "callers m3 = callers m"
      using on_idle_release [OF inv i Some True] by blast
    note c = sleepy_callers [OF m3(4)]
    have "idle_at m n s j \<or> j = i \<and> n = c_node (chan m i) \<and> s = c_session (chan m i)" if "idle_at m3 n s j" for n s j
      using that i by (cases "j = i") (auto simp: idle_at_def m3(3))
    then show ?thesis unfolding m3(1) by (rule one_more_idle [OF kept_inv [OF m3(2)] m3(4) a])
  next
    case False
    have "quiet f m (fail_flow f (JStr ''channel-desync'') (upd_flow f (\<lambda>x. x\<lparr>f_idleReceived := True\<rparr>) m))" (is "quiet f m ?m")
      by (rule quiet_trans [OF quiet_upd_flow quiet_fail]) simp
    then have "sleepy m (close_channel i ''channel-desync'' ?m)" by (rule quiet_close_sleepy [OF _ i])
    then show ?thesis
      unfolding on_idle_desync [OF Some own(1) False] fail_and_close_def by (rule sleepy_alert [OF _ a])
  qed
qed

text \<open>Everything else the node, the browser and the clocks do makes no channel idle.\<close>

lemma fail_close_sleepy: "i < length (chans m) \<Longrightarrow> sleepy m (fail_and_close f i code reason m)"
  unfolding fail_and_close_def by (rule quiet_close_sleepy [OF quiet_fail])

lemma request_failed_sleepy:
  assumes "f_channel (fl m f) < length (chans m)"
  shows "sleepy m (request_failed f code m)"
  unfolding request_failed_def fail_and_close_def
  by (rule quiet_close_sleepy [OF quiet_trans [OF quiet_upd_flow quiet_fail] assms]) simp

lemma failed_twice_sleepy:
  assumes inv: "pool_inv cfg None m" and f: "f < length (flows m)"
  shows "sleepy m (request_failed f code (fail_and_close f (f_channel (fl m f)) c r m))"
proof -
  have k: "kept cfg m (fail_and_close f (f_channel (fl m f)) c r m)" by (rule kept_fail_close [OF inv f refl])
  then have "f_channel (fl (fail_and_close f (f_channel (fl m f)) c r m) f) < length (chans (fail_and_close f (f_channel (fl m f)) c r m))"
    using pool_invD(8) [OF kept_inv [OF k], of f] f by (simp add: kept_def)
  then show ?thesis
    by (rule sleepy_trans [OF fail_close_sleepy [OF pool_invD(8) [OF inv f]] request_failed_sleepy])
qed

lemma sleepy_set_flow: "sleepy m m' \<Longrightarrow> sleepy m (upd_flow f g m')"
  by (simp add: sleepy_def idle_at_def upd_flow_def)

lemma sleepy_send: "sleepy m (send i w m)"
  by (rule quiet_sleepy [OF quiet_send])

lemma push_sleepy:
  assumes "f_channel (fl m f) < length (chans m)"
  shows "sleepy m (pushBody lims now f bytes m)"
proof -
  define m1 where "m1 = upd_flow f (\<lambda>x. x\<lparr>f_queued := f_queued x + length bytes, f_lastConsumed := now\<rparr>) m"
  have q1: "quiet f m m1" unfolding m1_def by (rule quiet_upd_flow) simp
  have "sleepy m (upd_flow f g m1)" for g by (rule sleepy_set_flow [OF quiet_sleepy [OF q1]])
  moreover have "sleepy m (upd_chan i (\<lambda>c. c\<lparr>c_paused := True\<rparr>) (upd_flow f (\<lambda>x. x\<lparr>f_queue := f_queue x @ [bytes]\<rparr>) m1))" for i
    by (rule quiet_sleepy [OF quiet_trans [OF q1 quiet_trans [OF quiet_upd_flow quiet_upd_chan]]]) (simp_all add: core_def)
  moreover have "sleepy m (fail_and_close f (f_channel (fl m f)) c r m1)" for c r
    unfolding fail_and_close_def by (rule quiet_close_sleepy [OF quiet_trans [OF q1 quiet_fail] assms])
  ultimately show ?thesis
    unfolding pushBody_def Let_def m1_def [symmetric] by (auto simp: sleepy_refl)
qed

lemma message_sleepy:
  assumes inv: "pool_inv cfg None m" and i: "i < length (chans m)" and f: "c_flow (chan m i) = Some f"
  shows "sleepy m (on_flow_message i f t ps m)"
  unfolding on_flow_message_def
  using fail_close_sleepy [OF i] close_sleepy [OF i] quiet_sleepy [OF quiet_endBody] quiet_sleepy [OF quiet_onResponse]
  by (auto split: bool.split jsval.split)

lemma node_message_alert:
  assumes inv: "pool_inv cfg None m" and i: "i < length (chans m)" and a: "alert m"
  shows "alert (onNodeMessage lims pj now i ev m)"
proof -
  note s = sleepy_alert [OF _ a]
  have t: "alert (on_text p i m)" for p
    unfolding on_text_def using s [OF close_sleepy [OF i]] on_idle_alert [OF inv i a] s [OF message_sleepy [OF inv i]]
    by (auto split: option.split)
  have b: "alert (on_binary lims now i bytes m)" for bytes
    unfolding on_binary_def using s [OF close_sleepy [OF i]] s [OF push_sleepy] owner(2) [OF inv i] i
    by (auto split: option.split)
  show ?thesis using t b s [OF close_sleepy [OF i]] s [OF sleepy_send] a by (cases ev) auto
qed

lemma chan_data_alert:
  assumes inv: "pool_inv cfg None m" and i: "i < length (chans m)" and a: "alert m"
  shows "alert (on_chan_data lims pj now i chunk m)"
proof -
  have loop: "alert (fold (onNodeMessage lims pj now i) evs m0)" if "pool_inv cfg None m0" "i < length (chans m0)" "alert m0" for evs m0
    using that
  proof (induction evs arbitrary: m0)
    case (Cons ev evs)
    then show ?case using kept_node_message [OF Cons.prems(1,2), of lims pj now ev] node_message_alert [OF Cons.prems] by (simp add: kept_def)
  qed simp
  have q: "quiet f m (upd_chan i (\<lambda>c. c\<lparr>c_ws := p\<rparr>) m)" for p f by (rule quiet_upd_chan) (simp add: core_def)
  have "kept cfg m (upd_chan i (\<lambda>c. c\<lparr>c_ws := p\<rparr>) m)" for p
    by (rule kept_calm [OF inv q]) simp_all
  then show ?thesis
    unfolding on_chan_data_def Let_def using i by (intro loop sleepy_alert [OF quiet_sleepy [OF q] a]) (simp_all add: kept_def)
qed

lemma flow_steps_sleepy:
  assumes inv: "pool_inv cfg None m" and f: "f < length (flows m)"
  shows "sleepy m (body_chunk f bytes m)" "sleepy m (drained f m)" "sleepy m (drain_timeout f queue m)"
    "sleepy m (body_done f m)" "sleepy m (body_error f code m)" "sleepy m (response_timeout f m)"
    "sleepy m (waitForIdle f m)" "sleepy m (stall_check lims now f m)" "sleepy m (write_step lims f before after m)"
    "sleepy m (pull_body lims now f m)" "sleepy m (return_body f m)" "sleepy m (abort_flow f code' m)" "sleepy m (idle_timeout f m)"
proof -
  note c = pool_invD(8) [OF inv f]
  note r = sleepy_refl sleepy_set_flow [OF sleepy_refl] sleepy_set_flow [OF sleepy_send] request_failed_sleepy [OF c]
    failed_twice_sleepy [OF inv f] fail_close_sleepy [OF c]
  show "sleepy m (body_chunk f bytes m)" "sleepy m (drained f m)" "sleepy m (drain_timeout f queue m)"
    "sleepy m (body_done f m)" "sleepy m (body_error f code m)" "sleepy m (response_timeout f m)"
    "sleepy m (waitForIdle f m)" "sleepy m (stall_check lims now f m)"
    unfolding body_chunk_def drained_def drain_timeout_def body_done_def body_error_def response_timeout_def waitForIdle_def stall_check_def
    using r by (auto split: head_phase.split)
  have "sleepy m (upd_chan i (\<lambda>c. c\<lparr>c_out := c_out c @ [w]\<rparr>) m)" for i w
    by (rule quiet_sleepy [OF quiet_upd_chan]) (simp add: core_def)
  then show "sleepy m (write_step lims f before after m)"
    unfolding write_step_def Let_def using r by (auto split: head_phase.split intro!: sleepy_set_flow)
  show "sleepy m (pull_body lims now f m)"
    unfolding pull_body_def using r quiet_sleepy [OF quiet_next] quiet_sleepy [OF quiet_trans [OF quiet_consume quiet_next]]
    by (auto split: generator.split)
  show "sleepy m (return_body f m)"
    unfolding return_body_def using r sleepy_set_flow [OF quiet_sleepy [OF quiet_endBody]] by (auto split: generator.split)
  show "sleepy m (abort_flow f code' m)"
    unfolding abort_flow_def Let_def using r quiet_close_sleepy [OF quiet_trans [OF quiet_fail quiet_send] c] by auto
  have "sleepy m (fail_and_close f (f_channel (fl m f)) c r (upd_flow f (\<lambda>x. x\<lparr>f_idle := IdleDone False\<rparr>) m))" for c r
    unfolding fail_and_close_def by (rule quiet_close_sleepy [OF quiet_trans [OF quiet_upd_flow quiet_fail] c]) simp
  then show "sleepy m (idle_timeout f m)"
    unfolding idle_timeout_def Let_def using r by auto
qed

lemma claim_none:
  assumes inv: "pool_inv cfg None m" and c: "claimIdleChannel n (Some s) m = None"
  shows "\<not> idle_at m n s i"
proof
  assume i: "idle_at m n s i"
  then have "i \<in> set (pool_of m n)" using pool_invD(3) [OF inv, of n] by (auto simp: idle_at_def open_of_def)
  then show False using c i by (auto simp: claimIdleChannel_def find_None_iff idle_at_def)
qed

lemma acquire_alert:
  assumes inv: "pool_inv cfg None m" and k: "k < length (callers m)" "k_state (cl m k) = CWoken" and a: "alert m"
  shows "alert (acquire cfg now rid k m)"
proof -
  obtain s where s: "k_session (cl m k) = Some s" using a k by (auto simp: alert_def named_def)
  let ?n = "k_node (cl m k)"
  have old: "awake m n' s' 0" for n' s' using a by (simp add: alert_def)
  have kw: "k \<in> Collect (woken_at m ?n s)" using k s by (simp add: woken_at_def)
  have named: "named m'" if "callers m' = (callers m)[k := (cl m k)\<lparr>k_state := st\<rparr>]" for m' st
    unfolding named_def that
  proof (intro allI impI)
    fix j assume "j < length ((callers m)[k := (cl m k)\<lparr>k_state := st\<rparr>])"
    then show "k_session ((callers m)[k := (cl m k)\<lparr>k_state := st\<rparr>] ! j) \<noteq> None"
      using a k by (cases "j = k") (auto simp: alert_def named_def)
  qed
  show ?thesis
  proof (cases "claimIdleChannel ?n (k_session (cl m k)) m")
    case (Some i)
    obtain m3 where m3: "bind_flow k i rid now m = send i (open_message rid (k_request (cl m k))) m3"
      "chans m3 = (chans m)[i := (chan m i)\<lparr>c_state := ChBusy, c_flow := Some (length (flows m))\<rparr>]"
      "callers m3 = (callers m)[k := (cl m k)\<lparr>k_state := CFlow (length (flows m))\<rparr>]"
      using bind_effect [OF inv k Some] by blast
    have i: "i \<in> Collect (idle_at m ?n s)" using claimed [OF inv Some] s by (auto simp: idle_at_def)
    have w: "waits_at m3 n' s' j = waits_at m n' s' j" for n' s' j
      using k by (cases "j = k") (auto simp: waits_at_def waiting_def m3(3))
    have "idle_at m3 n' s' j \<longleftrightarrow> idle_at m n' s' j \<and> j \<noteq> i" for n' s' j
      using i by (cases "j = i") (auto simp: idle_at_def m3(2))
    then have I: "Collect (idle_at m3 n' s') = Collect (idle_at m n' s') - {i}" for n' s' by auto
    have "woken_at m3 n' s' j \<longleftrightarrow> woken_at m n' s' j \<and> j \<noteq> k" for n' s' j
      using k by (cases "j = k") (auto simp: woken_at_def m3(3))
    then have W: "Collect (woken_at m3 n' s') = Collect (woken_at m n' s') - {k}" for n' s' by auto
    have "awake m3 n' s' 0" for n' s'
    proof (cases "n' = ?n \<and> s' = s")
      case True
      then show ?thesis using old [of n' s'] i kw by (auto simp: awake_def w I W)
    next
      case False
      then have "k \<notin> Collect (woken_at m n' s')" using s by (auto simp: woken_at_def)
      then have "Collect (woken_at m3 n' s') = Collect (woken_at m n' s')" by (simp add: W)
      moreover have "card (Collect (idle_at m3 n' s')) \<le> card (Collect (idle_at m n' s'))" by (intro card_mono) (auto simp: I)
      ultimately show ?thesis using old [of n' s'] by (auto simp: awake_def w)
    qed
    then have "alert m3" using named [OF m3(3)] by (simp add: alert_def)
    then show ?thesis using Some sleepy_alert [OF sleepy_send] by (simp add: acquire_def m3(1))
  next
    case None
    let ?m = "wait_or_fail cfg now k m"
    obtain st where st: "callers ?m = (callers m)[k := (cl m k)\<lparr>k_state := st\<rparr>]" "st = CWaiting \<or> (\<exists>e. st = CFailed e)"
        "chans ?m = chans m"
    proof (cases "now - k_started (cl m k) < capacityWaitMs cfg")
      case True
      then show ?thesis using that [of CWaiting] by (simp add: wait_or_fail_def Let_def upd_caller_def)
    next
      case False
      then show ?thesis using that [of "CFailed ''reverse-capacity''"] by (simp add: wait_or_fail_def upd_caller_def)
    qed
    have I: "idle_at ?m = idle_at m" by (auto simp: fun_eq_iff idle_at_def st(3))
    have "woken_at ?m n' s' j \<longleftrightarrow> woken_at m n' s' j" if "n' \<noteq> ?n \<or> s' \<noteq> s" for n' s' j
      using that st(1) s k by (cases "j = k") (auto simp: woken_at_def)
    then have W: "Collect (woken_at ?m n' s') = Collect (woken_at m n' s')" if "n' \<noteq> ?n \<or> s' \<noteq> s" for n' s' using that by auto
    have w: "waits_at m n' s' j" if "n' \<noteq> ?n \<or> s' \<noteq> s" "waits_at ?m n' s' j" for n' s' j
      using that st(1) s k by (cases "j = k") (auto simp: waits_at_def waiting_def)
    have "awake ?m n' s' 0" for n' s'
    proof (cases "n' = ?n \<and> s' = s")
      case True
      then have "Collect (idle_at ?m n' s') = {}" using claim_none [OF inv] None s by (simp add: I)
      then have "card (Collect (idle_at ?m n' s')) \<le> x" for x by (simp only: card.empty le0)
      then show ?thesis unfolding awake_def by blast
    next
      case False
      then have other: "n' \<noteq> ?n \<or> s' \<noteq> s" by blast
      show ?thesis using old [of n' s'] w [OF other] unfolding awake_def I W [OF other] by blast
    qed
    then show ?thesis using None named [OF st(1)] by (simp add: acquire_def alert_def)
  qed
qed

lemma execute_alert:
  assumes inv: "pool_inv cfg None m" and a: "alert m"
  shows "alert (executeReverseHttp cfg now node (Some s) q rid m)"
proof -
  define m1 where "m1 = m\<lparr>callers := callers m @
    [\<lparr>k_node = node, k_session = Some s, k_request = q, k_started = now, k_state = CWoken\<rparr>]\<rparr>"
  have "waits_at m1 n' s' k = waits_at m n' s' k" for n' s' k by (auto simp: waits_at_def waiting_def m1_def nth_append)
  moreover have "idle_at m1 = idle_at m" by (auto simp: fun_eq_iff idle_at_def m1_def)
  moreover have "card (Collect (woken_at m n' s')) \<le> card (Collect (woken_at m1 n' s'))" for n' s'
    by (intro card_mono) (auto simp: woken_at_def m1_def nth_append)
  moreover have "named m1" using a by (auto simp: alert_def named_def m1_def nth_append)
  moreover have "awake m n' s' 0" for n' s' using a by (simp add: alert_def)
  ultimately have a1: "alert m1" by (fastforce simp: alert_def awake_def intro: order_trans)
  have "pool_inv cfg None m1"
    by (rule inv_new_caller [OF inv m1_def]) simp
  then show ?thesis unfolding executeReverseHttp_def Let_def m1_def [symmetric] by (rule acquire_alert [OF _ _ _ a1]) (simp_all add: m1_def)
qed

lemma register_alert:
  assumes inv: "pool_inv cfg None m" and a: "alert m"
  shows "alert (registerChannel cfg node key session m)"
proof (cases "length (pool_of m node) < maxChannels cfg")
  case True
  obtain m1 where m1: "registerChannel cfg node key session m = resolveIdleWaiters node session m1" "pool_inv cfg None m1"
    "chans m1 = chans m @ [new_channel node key session]" "callers m1 = callers m"
    using register_effect [OF inv True] by blast
  have "idle_at m n s j \<or> j = length (chans m) \<and> n = node \<and> s = session" if "idle_at m1 n s j" for n s j
    using that by (auto simp: idle_at_def m1(3) nth_append new_channel_def less_Suc_eq split: if_splits)
  then show ?thesis unfolding m1(1) by (rule one_more_idle [OF m1(2,4) a])
qed (simp add: register_full a)

lemma close_all_sleepy:
  assumes "\<forall>i \<in> set is. i < length (chans m)" "pool_inv cfg None m"
  shows "sleepy m (close_all_of is reason m)"
  using assms
proof (induction "is" arbitrary: m)
  case (Cons i "is")
  then have i: "i < length (chans m)" by simp
  have "kept cfg m (close_channel i reason m)" by (rule kept_close' [OF Cons.prems(2) i])
  then have "sleepy (close_channel i reason m) (close_all_of is reason (close_channel i reason m))"
    using Cons by (simp add: kept_def)
  from sleepy_trans [OF close_sleepy [OF i] this] show ?case by (simp add: close_all_of_def)
qed (simp add: close_all_of_def sleepy_refl)

lemma fold_alert:
  assumes "\<And>k m. k \<in> set ks \<Longrightarrow> pool_inv cfg None m \<Longrightarrow> length (callers m) = n \<Longrightarrow> alert m \<Longrightarrow> kept cfg m (g k m) \<and> alert (g k m)"
    "pool_inv cfg None m" "length (callers m) = n" "alert m"
  shows "alert (fold g ks m)"
  using assms
proof (induction ks arbitrary: m)
  case (Cons k ks)
  have k: "kept cfg m (g k m)" "alert (g k m)" using Cons.prems by simp_all
  then have "alert (fold g ks (g k m))" using Cons.prems by (intro Cons.IH) (simp_all add: kept_def)
  then show ?case by simp
qed simp

lemma sleepy_maps: "sleepy m (m\<lparr>channels := c\<rparr>)" "sleepy m (m\<lparr>idleWaiters := w\<rparr>)"
  by (simp_all add: sleepy_def idle_at_def)

lemma close_node_alert:
  assumes inv: "pool_inv cfg None m" and a: "alert m"
  shows "alert (closeChannelsForNode node reason m)"
proof -
  obtain m2 where m2: "kept cfg m m2" "m2 = (close_all_of (pool_of m node) reason m)
      \<lparr>channels := AList.delete node (channels (close_all_of (pool_of m node) reason m))\<rparr>"
    using kept_close_node_pool [OF inv] by blast
  have s: "sleepy m m2" unfolding m2(2)
    by (rule sleepy_trans [OF close_all_sleepy [OF pool_bounds [OF inv] inv] sleepy_maps(1)])
  have "alert (fold settle_waiter (waiters_of m2 node) m2)"
    by (rule fold_alert [OF _ kept_inv [OF m2(1)] refl sleepy_alert [OF s a]])
      (use waiter_bounds [OF kept_inv [OF m2(1)]] kept_settle settle_alert in auto)
  then show ?thesis
    unfolding closeChannelsForNode_def Let_def m2(2) [symmetric] by (rule sleepy_alert [OF sleepy_maps(2)])
qed

lemma close_session_alert:
  assumes inv: "pool_inv cfg None m" and a: "alert m"
  shows "alert (closeChannelsForSession session reason m)"
proof -
  let ?is = "filter (\<lambda>i. c_session (chan m i) = session) (concat (map snd (channels m)))"
  let ?m = "close_all_of ?is reason m"
  have b: "\<forall>i \<in> set ?is. i < length (chans m)" using listed_bounds(1) [OF inv] by simp
  have inv1: "pool_inv cfg None ?m" by (rule kept_inv [OF close_all_kept [OF inv b]])
  have a1: "alert ?m" by (rule sleepy_alert [OF close_all_sleepy [OF b inv] a])
  show ?thesis unfolding closeChannelsForSession_def Let_def
  proof (rule fold_alert [OF _ inv1 refl a1])
    fix k m'
    assume "k \<in> set (filter (\<lambda>k. k_session (cl ?m k) = Some session) (concat (map snd (idleWaiters ?m))))"
      and m': "pool_inv cfg None m'" "length (callers m') = length (callers ?m)" "alert m'"
    then have "k < length (callers m')" using listed_bounds(2) [OF inv1] by simp
    then show "kept cfg m' (cancel_waiter k ''reverse-session-stale'' m') \<and> alert (cancel_waiter k ''reverse-session-stale'' m')"
      using kept_cancel [OF m'(1)] cancel_alert [OF m'(3)] by simp
  qed
qed

fun names_session :: "pool_event \<Rightarrow> bool" where
  "names_session (Execute now node session q rid) \<longleftrightarrow> session \<noteq> None"
| "names_session _ \<longleftrightarrow> True"

lemma alert_step:
  assumes inv: "pool_inv cfg None m" and a: "alert m" and e: "names_session e"
  shows "alert (pool_step cfg pj e m)"
proof (cases e)
  case (CloseEverything reason)
  show ?thesis
    unfolding CloseEverything pool_step.simps closeAllChannels_def
    by (rule fold_alert [OF _ inv refl a]) (simp add: kept_close_node close_node_alert)
next
  case (CloseCredentialChannels n key reason)
  show ?thesis
    unfolding CloseCredentialChannels pool_step.simps closeChannelsForCredential_def Let_def snd_conv
    by (rule sleepy_alert [OF close_all_sleepy [OF _ inv] a]) (use pool_bounds [OF inv] in auto)
next
  case (Resume k now rid)
  then show ?thesis using a acquire_alert [OF inv _ _ a] by (simp add: resume_caller_def)
next
  case (Execute now node session q rid)
  then show ?thesis using e execute_alert [OF inv a] by auto
qed (simp_all add: a register_alert [OF inv a] chan_data_alert [OF inv _ a] sleepy_alert [OF close_sleepy a] settle_alert [OF a]
      cancel_alert [OF a] sleepy_alert [OF flow_steps_sleepy(1) [OF inv] a] sleepy_alert [OF flow_steps_sleepy(2) [OF inv] a]
      sleepy_alert [OF flow_steps_sleepy(3) [OF inv] a] sleepy_alert [OF flow_steps_sleepy(4) [OF inv] a]
      sleepy_alert [OF flow_steps_sleepy(5) [OF inv] a] sleepy_alert [OF flow_steps_sleepy(6) [OF inv] a]
      sleepy_alert [OF flow_steps_sleepy(7) [OF inv] a] sleepy_alert [OF flow_steps_sleepy(8) [OF inv] a]
      sleepy_alert [OF flow_steps_sleepy(9) [OF inv] a] sleepy_alert [OF flow_steps_sleepy(10) [OF inv] a]
      sleepy_alert [OF flow_steps_sleepy(11) [OF inv] a] sleepy_alert [OF flow_steps_sleepy(12) [OF inv] a]
      sleepy_alert [OF flow_steps_sleepy(13) [OF inv] a] close_node_alert [OF inv a] close_session_alert [OF inv a])

lemma alert_run: "list_all names_session es \<Longrightarrow> alert (pool_run cfg pj es)"
proof (induction es rule: rev_induct)
  case Nil
  show ?case by (simp add: pool_run_def new_pool_def alert_def named_def awake_def waits_at_def waiting_def)
next
  case (snoc e es)
  then show ?case using alert_step [OF inv_run] by (simp add: pool_run_snoc)
qed

section \<open>The body of a response\<close>

text \<open>
  What the node says of the body of flow \<open>f\<close> with one message on channel \<open>i\<close>: a chunk, or that it ends. It counts
  while the flow owns the channel and its body has not ended.
\<close>

definition says_end :: "(byte list \<Rightarrow> jsval option) \<Rightarrow> str \<Rightarrow> byte list \<Rightarrow> bool" where
  "says_end pj rid b \<longleftrightarrow> (case pj b of
      Some (JObj ps) \<Rightarrow> js_get ''type'' ps = JStr ''response-end'' \<and> js_get ''requestId'' ps = JStr rid
    | _ \<Rightarrow> False)"

definition heard :: "(byte list \<Rightarrow> jsval option) \<Rightarrow> nat \<Rightarrow> nat \<Rightarrow> ws_event \<Rightarrow> pool \<Rightarrow> body_read list" where
  "heard pj f i ev m =
     (if c_closed (chan m i) \<or> c_flow (chan m i) \<noteq> Some f \<or> f_bodyEnded (fl m f) then []
      else case ev of
        BinaryMessage b \<Rightarrow> [Chunk b]
      | TextMessage b \<Rightarrow> if says_end pj (f_request (fl m f)) b then [EndOfBody] else []
      | _ \<Rightarrow> [])"

fun heard_all :: "limits \<Rightarrow> (byte list \<Rightarrow> jsval option) \<Rightarrow> int \<Rightarrow> nat \<Rightarrow> nat \<Rightarrow> ws_event list \<Rightarrow> pool \<Rightarrow> body_read list" where
  "heard_all lims pj now f i [] m = []"
| "heard_all lims pj now f i (ev # evs) m = heard pj f i ev m @ heard_all lims pj now f i evs (onNodeMessage lims pj now i ev m)"

definition heard_step :: "pool_config \<Rightarrow> (byte list \<Rightarrow> jsval option) \<Rightarrow> nat \<Rightarrow> pool_event \<Rightarrow> pool \<Rightarrow> body_read list" where
  "heard_step cfg pj f e m = (case e of
      ChanData i now chunk \<Rightarrow>
        if i < length (chans m)
        then let r = feed CHANNEL_CFG chunk (c_ws (chan m i))
             in heard_all (limits_of cfg) pj now f i (snd r) (upd_chan i (\<lambda>c. c\<lparr>c_ws := fst r\<rparr>) m)
        else []
    | _ \<Rightarrow> [])"

fun node_body :: "pool_config \<Rightarrow> (byte list \<Rightarrow> jsval option) \<Rightarrow> nat \<Rightarrow> pool_event list \<Rightarrow> pool \<Rightarrow> body_read list" where
  "node_body cfg pj f [] m = []"
| "node_body cfg pj f (e # es) m = heard_step cfg pj f e m @ node_body cfg pj f es (pool_step cfg pj e m)"

definition body_inv :: "body_read list \<Rightarrow> flow \<Rightarrow> bool" where
  "body_inv h x \<longleftrightarrow> (\<exists>cs t r. f_reads x = map Chunk cs @ t \<and> h = map Chunk (cs @ f_queue x) @ r
     \<and> (t = [] \<or> f_gen x = GenDone \<and> (t = [EndOfBody] \<or> (\<exists>c. t = [ReadFailed c])))
     \<and> (t = [EndOfBody] \<longrightarrow> r = [EndOfBody] \<and> f_queue x = [])
     \<and> (\<not> f_bodyEnded x \<longrightarrow> r = [])
     \<and> (f_bodyEnded x \<and> \<not> f_aborted x \<and> f_gen x \<noteq> GenDone \<longrightarrow> r = [EndOfBody])
     \<and> (\<not> f_aborted x \<longrightarrow> r = [] \<or> r = [EndOfBody])
     \<and> (f_aborted x \<longrightarrow> f_bodyEnded x) \<and> (f_gen x = GenAwait \<longrightarrow> f_queue x = [] \<and> \<not> f_bodyEnded x))"

lemma body_invI:
  assumes "f_reads x = map Chunk cs @ t" "h = map Chunk (cs @ f_queue x) @ r"
    "t = [] \<or> f_gen x = GenDone \<and> (t = [EndOfBody] \<or> (\<exists>c. t = [ReadFailed c]))"
    "t = [EndOfBody] \<Longrightarrow> r = [EndOfBody] \<and> f_queue x = []" "\<not> f_bodyEnded x \<Longrightarrow> r = []"
    "f_bodyEnded x \<Longrightarrow> \<not> f_aborted x \<Longrightarrow> f_gen x \<noteq> GenDone \<Longrightarrow> r = [EndOfBody]" "\<not> f_aborted x \<Longrightarrow> r = [] \<or> r = [EndOfBody]"
    "f_aborted x \<Longrightarrow> f_bodyEnded x" "f_gen x = GenAwait \<Longrightarrow> f_queue x = [] \<and> \<not> f_bodyEnded x"
  shows "body_inv h x"
  unfolding body_inv_def using assms by blast

lemma body_invE:
  assumes "body_inv h x"
  obtains cs t r where "f_reads x = map Chunk cs @ t" "h = map Chunk (cs @ f_queue x) @ r"
    "t = [] \<or> f_gen x = GenDone \<and> (t = [EndOfBody] \<or> (\<exists>c. t = [ReadFailed c]))"
    "t = [EndOfBody] \<longrightarrow> r = [EndOfBody] \<and> f_queue x = []" "\<not> f_bodyEnded x \<longrightarrow> r = []"
    "f_bodyEnded x \<and> \<not> f_aborted x \<and> f_gen x \<noteq> GenDone \<longrightarrow> r = [EndOfBody]" "\<not> f_aborted x \<longrightarrow> r = [] \<or> r = [EndOfBody]"
    "f_aborted x \<longrightarrow> f_bodyEnded x" "f_gen x = GenAwait \<longrightarrow> f_queue x = [] \<and> \<not> f_bodyEnded x"
  using assms unfolding body_inv_def by blast

lemma body_inv_open:
  assumes "body_inv h x" "\<not> f_bodyEnded x"
  obtains cs t where "f_reads x = map Chunk cs @ t" "h = map Chunk (cs @ f_queue x)"
    "t = [] \<or> f_gen x = GenDone \<and> (t = [EndOfBody] \<or> (\<exists>c. t = [ReadFailed c]))" "t \<noteq> [EndOfBody]"
    "f_gen x = GenAwait \<longrightarrow> f_queue x = []"
proof -
  obtain cs t r where x: "f_reads x = map Chunk cs @ t" "h = map Chunk (cs @ f_queue x) @ r"
    "t = [] \<or> f_gen x = GenDone \<and> (t = [EndOfBody] \<or> (\<exists>c. t = [ReadFailed c]))"
    "t = [EndOfBody] \<longrightarrow> r = [EndOfBody] \<and> f_queue x = []" "\<not> f_bodyEnded x \<longrightarrow> r = []"
    "f_gen x = GenAwait \<longrightarrow> f_queue x = [] \<and> \<not> f_bodyEnded x"
    using assms(1) by (rule body_invE)
  show ?thesis by (rule that [OF x(1) _ x(3)]) (use x assms(2) in auto)
qed

lemma body_inv_reading:
  assumes "body_inv h x" "f_gen x \<noteq> GenDone"
  obtains cs r where "f_reads x = map Chunk cs" "h = map Chunk (cs @ f_queue x) @ r" "\<not> f_bodyEnded x \<longrightarrow> r = []"
    "f_bodyEnded x \<and> \<not> f_aborted x \<longrightarrow> r = [EndOfBody]" "\<not> f_aborted x \<longrightarrow> r = [] \<or> r = [EndOfBody]" "f_aborted x \<longrightarrow> f_bodyEnded x"
proof -
  obtain cs t r where x: "f_reads x = map Chunk cs @ t" "h = map Chunk (cs @ f_queue x) @ r"
    "t = [] \<or> f_gen x = GenDone \<and> (t = [EndOfBody] \<or> (\<exists>c. t = [ReadFailed c]))" "\<not> f_bodyEnded x \<longrightarrow> r = []"
    "f_bodyEnded x \<and> \<not> f_aborted x \<and> f_gen x \<noteq> GenDone \<longrightarrow> r = [EndOfBody]" "\<not> f_aborted x \<longrightarrow> r = [] \<or> r = [EndOfBody]"
    "f_aborted x \<longrightarrow> f_bodyEnded x"
    using assms(1) by (rule body_invE)
  show ?thesis by (rule that [OF _ x(2,4) _ x(6,7)]) (use x(1,3,5) assms(2) in auto)
qed

text \<open>The invariant depends on the part of a flow that belongs to the body.\<close>

lemma body_inv_cong:
  assumes "f_reads x' = f_reads x" "f_queue x' = f_queue x" "f_gen x' = f_gen x" "f_bodyEnded x' = f_bodyEnded x" "f_aborted x' = f_aborted x"
  shows "body_inv h x' = body_inv h x"
  by (simp only: body_inv_def assms)

definition failed_with :: "jsval \<Rightarrow> flow \<Rightarrow> flow" where
  "failed_with code x = (if f_aborted x then x else x\<lparr>f_aborted := True, f_abortCode := Some code,
     f_head := (if f_head x = HAwaiting then HFailed code else f_head x),
     f_gen := (if f_gen x = GenAwait then GenDone else f_gen x),
     f_reads := (if f_gen x = GenAwait then f_reads x @ [ReadFailed code] else f_reads x),
     f_bodyEnded := True,
     f_idle := (if f_idle x = IdleWaiting then IdleDone True else f_idle x)\<rparr>)"

lemma failed_with_abort: "f_aborted (failed_with code x)" "f_aborted x \<Longrightarrow> failed_with code x = x"
  by (simp_all add: failed_with_def)

lemma body_inv_failed:
  assumes "body_inv h x" "hs = [] \<or> \<not> f_bodyEnded x"
  shows "body_inv (h @ hs) (failed_with code x)"
proof (cases "f_aborted x")
  case True
  then have "f_bodyEnded x" using assms(1) by (auto elim: body_invE)
  then show ?thesis using assms True by (simp add: failed_with_def)
next
  case False
  obtain cs t r where x: "f_reads x = map Chunk cs @ t" "h = map Chunk (cs @ f_queue x) @ r"
    "t = [] \<or> f_gen x = GenDone \<and> (t = [EndOfBody] \<or> (\<exists>c. t = [ReadFailed c]))"
    "t = [EndOfBody] \<longrightarrow> r = [EndOfBody] \<and> f_queue x = []" "\<not> f_bodyEnded x \<longrightarrow> r = []"
    "f_gen x = GenAwait \<longrightarrow> f_queue x = [] \<and> \<not> f_bodyEnded x"
    using assms(1) by (rule body_invE)
  have t: "hs \<noteq> [] \<Longrightarrow> t \<noteq> [EndOfBody]" using x(4,5) assms(2) by auto
  show ?thesis
  proof (cases "f_gen x = GenAwait")
    case True
    then show ?thesis using x False
      by (intro body_invI [of _ cs "[ReadFailed code]" _ "r @ hs"]) (auto simp: failed_with_def)
  next
    case g: False
    then show ?thesis using x False t
      by (intro body_invI [of _ cs t _ "r @ hs"]) (auto simp: failed_with_def)
  qed
qed

lemma body_inv_fail: "body_inv h x \<Longrightarrow> body_inv h (failed_with code x)"
  using body_inv_failed [of h x "[]"] by simp

lemma fl_fail: "fl (fail_flow f code m) g = (if g = f \<and> f < length (flows m) then failed_with code (fl m g) else fl m g)"
  by (auto simp: fail_flow_def failed_with_def upd_flow_def resume_channel_def upd_chan_def list_update_beyond)

text \<open>A change after which whatever was known of a body still holds.\<close>

definition faithful :: "pool \<Rightarrow> pool \<Rightarrow> bool" where
  "faithful m m' \<longleftrightarrow> (\<forall>f h. body_inv h (fl m f) \<longrightarrow> body_inv h (fl m' f))"

lemma faithful_refl: "faithful m m"
  by (simp add: faithful_def)

lemma faithful_trans: "faithful m m' \<Longrightarrow> faithful m' m'' \<Longrightarrow> faithful m m''"
  by (simp add: faithful_def)

lemma faithful_flows: "flows m' = flows m \<Longrightarrow> faithful m m'"
  by (simp add: faithful_def)

lemma faithful_fail: "faithful m (fail_flow f code m)"
  by (simp add: faithful_def fl_fail body_inv_fail)

lemma faithful_upd:
  assumes "\<And>x h. body_inv h x \<Longrightarrow> body_inv h (g x)"
  shows "faithful m (upd_flow f g m)"
proof -
  have "fl (upd_flow f g m) j = (if j = f \<and> f < length (flows m) then g (fl m j) else fl m j)" for j
    by (auto simp: upd_flow_def list_update_beyond)
  then show ?thesis by (simp add: faithful_def assms)
qed

lemma faithful_keep:
  assumes "\<And>x. f_reads (g x) = f_reads x \<and> f_queue (g x) = f_queue x \<and> f_gen (g x) = f_gen x
    \<and> f_bodyEnded (g x) = f_bodyEnded x \<and> f_aborted (g x) = f_aborted x"
  shows "faithful m (upd_flow f g m)"
  by (rule faithful_upd) (use assms body_inv_cong in blast)

lemma faithful_close: "faithful m (close_channel i reason m)"
  unfolding close_channel_def Let_def faithful_def by (auto simp: fl_fail body_inv_fail split: option.split)

lemma faithful_fail_close: "faithful m (fail_and_close f i code reason m)"
  unfolding fail_and_close_def by (rule faithful_trans [OF faithful_fail faithful_close])

lemma faithful_request_failed: "faithful m (request_failed f code m)"
  unfolding request_failed_def by (rule faithful_trans [OF faithful_keep faithful_fail_close]) simp

lemma flows_resolve [simp]: "flows (resolveIdleWaiters n s m) = flows m"
  by (simp add: resolveIdleWaiters_def settle_waiter_def upd_caller_def split: option.split)

lemma faithful_idle: "faithful m (on_idle i m)"
proof (cases "c_flow (chan m i)")
  case None
  then show ?thesis by (simp add: on_idle_def faithful_close)
next
  case (Some f)
  have 1: "faithful m (upd_flow f (\<lambda>x. x\<lparr>f_idleReceived := True\<rparr>) m)" (is "faithful m ?m1") by (rule faithful_keep) simp
  have 2: "faithful ?m1 (upd_chan i g ?m1)" for g by (rule faithful_flows) simp
  have 3: "faithful m' (upd_flow f (\<lambda>x. x\<lparr>f_idle := (if f_idle x = IdleWaiting then IdleDone True else f_idle x)\<rparr>) m')" for m'
    by (rule faithful_keep) simp
  have 4: "faithful m' (resolveIdleWaiters n s m')" for m' n s by (rule faithful_flows) simp
  show ?thesis
    unfolding on_idle_def Let_def Some option.case
    using faithful_trans [OF 1 faithful_fail_close] faithful_trans [OF 1 faithful_trans [OF 2 faithful_trans [OF 3 4]]] by simp
qed

text \<open>What a chunk and the end of a body do to their flow.\<close>

lemma push_body:
  assumes inv: "body_inv h (fl m f)" and f: "f < length (flows m)" "\<not> f_aborted (fl m f)" "\<not> f_bodyEnded (fl m f)"
  shows "body_inv (h @ [Chunk b]) (fl (pushBody lims now f b m) f)"
proof -
  let ?q = "\<lambda>x. x\<lparr>f_queued := f_queued x + length b, f_lastConsumed := now\<rparr>"
  obtain cs t where x: "f_reads (fl m f) = map Chunk cs @ t" "h = map Chunk (cs @ f_queue (fl m f))"
    "t = [] \<or> f_gen (fl m f) = GenDone \<and> (t = [EndOfBody] \<or> (\<exists>c. t = [ReadFailed c]))" "t \<noteq> [EndOfBody]"
    "f_gen (fl m f) = GenAwait \<longrightarrow> f_queue (fl m f) = []"
    using inv f(3) by (rule body_inv_open)
  have "body_inv h (?q (fl m f))" using inv by (subst body_inv_cong [of _ "fl m f"]) simp_all
  then have "body_inv (h @ [Chunk b]) (failed_with code (?q (fl m f)))" for code
    by (rule body_inv_failed) (simp add: f(3))
  then have over: "body_inv (h @ [Chunk b]) (fl (fail_and_close f i code reason (upd_flow f ?q m)) f)" for i code reason
    using faithful_close [of "fail_flow f code (upd_flow f ?q m)" i reason] f(1) by (simp add: faithful_def fail_and_close_def fl_fail)
  have wait: "body_inv (h @ [Chunk b]) (?q (fl m f)\<lparr>f_gen := GenYielded (length b), f_reads := f_reads (fl m f) @ [Chunk b]\<rparr>)"
    if "f_gen (fl m f) = GenAwait"
    using x that f(2,3) by (intro body_invI [of _ "cs @ [b]" "[]" _ "[]"]) auto
  have queue: "body_inv (h @ [Chunk b]) (?q (fl m f)\<lparr>f_queue := f_queue (fl m f) @ [b]\<rparr>)" if "f_gen (fl m f) \<noteq> GenAwait"
    using x that f(2,3) by (intro body_invI [of _ cs t _ "[]"]) auto
  show ?thesis
    unfolding pushBody_def Let_def using f over wait queue by (simp add: f(1))
qed

lemma end_body:
  assumes inv: "body_inv h (fl m f)" and f: "f < length (flows m)" "\<not> f_aborted (fl m f)" "\<not> f_bodyEnded (fl m f)"
  shows "body_inv (h @ [EndOfBody]) (fl (endBody f m) f)"
proof -
  obtain cs t where x: "f_reads (fl m f) = map Chunk cs @ t" "h = map Chunk (cs @ f_queue (fl m f))"
    "t = [] \<or> f_gen (fl m f) = GenDone \<and> (t = [EndOfBody] \<or> (\<exists>c. t = [ReadFailed c]))" "t \<noteq> [EndOfBody]"
    "f_gen (fl m f) = GenAwait \<longrightarrow> f_queue (fl m f) = []"
    using inv f(3) by (rule body_inv_open)
  let ?x = "(fl m f)\<lparr>f_bodyEnded := True, f_gen := (if f_gen (fl m f) = GenAwait then GenDone else f_gen (fl m f)),
    f_reads := (if f_gen (fl m f) = GenAwait then f_reads (fl m f) @ [EndOfBody] else f_reads (fl m f))\<rparr>"
  have "body_inv (h @ [EndOfBody]) ?x"
  proof (cases "f_gen (fl m f) = GenAwait")
    case True
    then show ?thesis using x f by (intro body_invI [of _ cs "[EndOfBody]" _ "[EndOfBody]"]) auto
  next
    case False
    then show ?thesis using x f by (intro body_invI [of _ cs t _ "[EndOfBody]"]) auto
  qed
  then show ?thesis using f by (cases "f_gen (fl m f) = GenAwait") (simp_all add: endBody_def)
qed

lemma other_flow: "quiet g m m' \<Longrightarrow> f \<noteq> g \<Longrightarrow> fl m' f = fl m f"
  by (simp add: quiet_def)

lemma push_other:
  assumes inv: "pool_inv cfg None m" and i: "i < length (chans m)" "c_flow (chan m i) = Some g" and fg: "f \<noteq> g"
    and b: "body_inv h (fl m f)"
  shows "body_inv h (fl (pushBody lims now g bytes m) f)"
proof -
  have u: "faithful m' (fail_and_close g j c r m')" for m' j c r by (rule faithful_fail_close)
  have s: "fl (upd_flow g k m') f = fl m' f" for k m' using fg by (simp add: upd_flow_def)
  show ?thesis
    unfolding pushBody_def Let_def using b u by (auto simp: s faithful_def)
qed

lemma message_heard:
  assumes inv: "pool_inv cfg None m" and i: "i < length (chans m)" and b: "body_inv h (fl m f)"
  shows "body_inv (h @ heard pj f i ev m) (fl (onNodeMessage lims pj now i ev m) f)"
proof (cases "c_closed (chan m i)")
  case True
  then show ?thesis using b by (cases ev) (simp_all add: heard_def close_closed send_def)
next
  case open_: False
  have calm: "body_inv h (fl m' f)" if "faithful m m'" for m' using that b by (simp add: faithful_def)
  show ?thesis
  proof (cases ev)
    case (BinaryMessage x)
    show ?thesis
    proof (cases "c_flow (chan m i)")
      case None
      then show ?thesis using open_ calm [OF faithful_close] by (simp add: BinaryMessage heard_def on_binary_def)
    next
      case (Some g)
      note own = owner [OF inv i Some]
      show ?thesis
      proof (cases "f_bodyEnded (fl m g)")
        case True
        then show ?thesis using open_ Some calm [OF faithful_close] by (auto simp: BinaryMessage heard_def on_binary_def)
      next
        case False
        then show ?thesis
          using open_ Some own(3) push_body [of h m g] push_other [OF inv i Some _ b] own(1) b
          by (cases "f = g") (simp_all add: BinaryMessage heard_def on_binary_def)
      qed
    qed
  next
    case (TextMessage x)
    show ?thesis
    proof (cases "\<exists>g ps. c_flow (chan m i) = Some g \<and> \<not> f_bodyEnded (fl m g) \<and> pj x = Some (JObj ps)
        \<and> js_get ''type'' ps = JStr ''response-end'' \<and> js_get ''requestId'' ps = JStr (f_request (fl m g))")
      case True
      then obtain g ps where g: "c_flow (chan m i) = Some g" "\<not> f_bodyEnded (fl m g)" "pj x = Some (JObj ps)"
        "js_get ''type'' ps = JStr ''response-end''" "js_get ''requestId'' ps = JStr (f_request (fl m g))" by blast
      note own = owner [OF inv i g(1)]
      have "onNodeMessage lims pj now i ev m = endBody g m"
        using open_ g by (simp add: TextMessage on_text_def on_flow_message_def)
      moreover have "heard pj f i ev m = (if f = g then [EndOfBody] else [])"
        using open_ g by (auto simp: TextMessage heard_def says_end_def)
      ultimately show ?thesis
        using end_body [of h m g] other_flow [OF quiet_endBody] own g(2) b by (cases "f = g") simp_all
    next
      case False
      then have "heard pj f i ev m = []"
        by (auto simp: TextMessage heard_def says_end_def split: option.split jsval.split)
      moreover have "faithful m (onNodeMessage lims pj now i ev m)"
      proof -
        have "faithful m (on_flow_message i g t ps m)"
          if "c_flow (chan m i) = Some g" "pj x = Some (JObj ps)" "js_get ''type'' ps = JStr t" for g t ps
        proof -
          have "faithful m (endBody g m)" if "t = ''response-end''" "js_get ''requestId'' ps = JStr (f_request (fl m g))"
            using False that \<open>c_flow (chan m i) = Some g\<close> \<open>pj x = Some (JObj ps)\<close> \<open>js_get ''type'' ps = JStr t\<close>
            by (auto simp: endBody_def faithful_refl)
          moreover have "faithful m (onResponse g s hs m)" for s hs
            unfolding onResponse_def using faithful_keep [of "\<lambda>x. x\<lparr>f_head := (if f_head x = HAwaiting then HAnswered s hs else f_head x)\<rparr>"]
            by (simp add: faithful_refl)
          ultimately show ?thesis
            unfolding on_flow_message_def using faithful_fail_close faithful_close by (auto split: bool.split jsval.split)
        qed
        then show ?thesis
          unfolding TextMessage onNodeMessage.simps on_text_def
          using faithful_close faithful_idle faithful_refl by (auto split: option.split jsval.split)
      qed
      ultimately show ?thesis using calm by simp
    qed
  next
    case (Ping x)
    then show ?thesis using b open_ by (simp add: heard_def)
  qed (use b open_ calm [OF faithful_close] in \<open>simp_all add: heard_def\<close>)
qed


text \<open>What is known of a flow that may not exist yet.\<close>

definition body_known :: "pool \<Rightarrow> nat \<Rightarrow> body_read list \<Rightarrow> bool" where
  "body_known m f h \<longleftrightarrow> (if f < length (flows m) then body_inv h (fl m f) else h = [])"

lemma known_faithful: "faithful m m' \<Longrightarrow> length (flows m') = length (flows m) \<Longrightarrow> body_known m f h \<Longrightarrow> body_known m' f h"
  by (simp add: body_known_def faithful_def split: if_splits)

lemma known_message:
  assumes inv: "pool_inv cfg None m" and i: "i < length (chans m)" and b: "body_known m f h"
  shows "body_known (onNodeMessage lims pj now i ev m) f (h @ heard pj f i ev m)"
proof -
  have l: "length (flows (onNodeMessage lims pj now i ev m)) = length (flows m)"
    using kept_node_message [OF inv i] by (simp add: kept_def)
  show ?thesis
  proof (cases "f < length (flows m)")
    case True
    then show ?thesis using message_heard [OF inv i, of h f] b by (simp add: body_known_def l)
  next
    case False
    then have "c_flow (chan m i) \<noteq> Some f" using owner(1) [OF inv i] by blast
    then show ?thesis using False b by (simp add: body_known_def l heard_def)
  qed
qed

lemma known_messages:
  assumes "pool_inv cfg None m" "i < length (chans m)" "body_known m f h"
  shows "body_known (fold (onNodeMessage lims pj now i) evs m) f (h @ heard_all lims pj now f i evs m)"
  using assms
proof (induction evs arbitrary: m h)
  case (Cons ev evs)
  have "kept cfg m (onNodeMessage lims pj now i ev m)" by (rule kept_node_message [OF Cons.prems(1,2)])
  then show ?case
    using Cons.IH [OF _ _ known_message [OF Cons.prems], of lims pj now ev] Cons.prems(2) by (simp add: kept_def)
qed simp

lemma known_data:
  assumes inv: "pool_inv cfg None m" and i: "i < length (chans m)" and b: "body_known m f h"
  shows "body_known (on_chan_data (limits_of cfg) pj now i chunk m) f (h @ heard_step cfg pj f (ChanData i now chunk) m)"
proof -
  define m1 where "m1 = upd_chan i (\<lambda>c. c\<lparr>c_ws := fst (feed CHANNEL_CFG chunk (c_ws (chan m i)))\<rparr>) m"
  have "kept cfg m m1" unfolding m1_def by (rule kept_calm [OF inv quiet_upd_chan]) (simp_all add: core_def)
  moreover have "body_known m1 f h" using b by (simp add: body_known_def m1_def)
  ultimately show ?thesis
    using known_messages [of cfg m1 i f h] i by (simp add: on_chan_data_def heard_step_def Let_def kept_def flip: m1_def)
qed

lemma faithful_consume: "faithful m (consume lims now f n m)"
proof -
  have "faithful m (upd_flow f (\<lambda>x. x\<lparr>f_lastConsumed := now, f_queued := f_queued x - n\<rparr>) m)" (is "faithful m ?m1")
    by (rule faithful_keep) simp
  then show ?thesis
    unfolding consume_def Let_def using faithful_trans [OF _ faithful_flows [of "resume_channel j ?m1" ?m1 for j]] by simp
qed

lemma consume_gen: "f_gen (fl (consume lims now f n m) f) = f_gen (fl m f) \<and> length (flows (consume lims now f n m)) = length (flows m)"
  by (cases "f < length (flows m)") (simp_all add: consume_def Let_def upd_flow_def list_update_beyond)

lemma next_body:
  assumes inv: "body_inv h (fl m f)" and f: "f < length (flows m)" and g: "f_gen (fl m f) \<noteq> GenAwait" "f_gen (fl m f) \<noteq> GenDone"
  shows "body_inv h (fl (nextBodyChunk f m) f)"
proof -
  obtain cs r where x: "f_reads (fl m f) = map Chunk cs" "h = map Chunk (cs @ f_queue (fl m f)) @ r"
    "\<not> f_bodyEnded (fl m f) \<longrightarrow> r = []" "f_bodyEnded (fl m f) \<and> \<not> f_aborted (fl m f) \<longrightarrow> r = [EndOfBody]"
    "\<not> f_aborted (fl m f) \<longrightarrow> r = [] \<or> r = [EndOfBody]" "f_aborted (fl m f) \<longrightarrow> f_bodyEnded (fl m f)"
    using inv g(2) by (rule body_inv_reading)
  show ?thesis
  proof (cases "f_aborted (fl m f)")
    case True
    then show ?thesis
      using x f by (intro body_invI [of _ cs "[ReadFailed (case f_abortCode (fl m f) of None \<Rightarrow> JStr ''flow-aborted'' | Some c \<Rightarrow> c)]" _ r])
        (simp_all add: nextBodyChunk_def)
  next
    case False
    show ?thesis
    proof (cases "f_queue (fl m f)")
      case (Cons c q)
      then show ?thesis
        using x f False by (intro body_invI [of _ "cs @ [c]" "[]" _ r]) (simp_all add: nextBodyChunk_def)
    next
      case Nil
      show ?thesis
      proof (cases "f_bodyEnded (fl m f)")
        case True
        then show ?thesis
          using x f False Nil by (intro body_invI [of _ cs "[EndOfBody]" _ r]) (simp_all add: nextBodyChunk_def)
      next
        case ne: False
        then show ?thesis
          using x f False Nil by (intro body_invI [of _ cs "[]" _ r]) (simp_all add: nextBodyChunk_def)
      qed
    qed
  qed
qed

lemma faithful_one:
  assumes "\<And>g. g \<noteq> f \<Longrightarrow> fl m' g = fl m g" "\<And>h. body_inv h (fl m f) \<Longrightarrow> body_inv h (fl m' f)"
  shows "faithful m m'"
  unfolding faithful_def using assms by metis

lemma faithful_pull:
  assumes "f < length (flows m)"
  shows "faithful m (pull_body lims now f m)"
proof -
  have next_: "faithful m' (nextBodyChunk f m')" if "f_gen (fl m' f) = GenStart \<or> (\<exists>n. f_gen (fl m' f) = GenYielded n)" "f < length (flows m')" for m'
    by (rule faithful_one [of f]) (use other_flow [OF quiet_next] next_body [of _ m' f] that in auto)
  show ?thesis
    unfolding pull_body_def
    using next_ [OF _ assms] faithful_refl faithful_trans [OF faithful_consume next_] consume_gen [of lims now f _ m] assms
    by (auto split: generator.split)
qed

lemma faithful_return:
  assumes f: "f < length (flows m)"
  shows "faithful m (return_body f m)"
proof (rule faithful_one [of f])
  show "fl (return_body f m) g = fl m g" if "g \<noteq> f" for g
    using that other_flow [OF quiet_endBody that] by (auto simp: return_body_def upd_flow_def split: generator.split)
  fix h assume b: "body_inv h (fl m f)"
  show "body_inv h (fl (return_body f m) f)"
  proof (cases "answered (fl m f) \<and> f_gen (fl m f) \<noteq> GenAwait \<and> f_gen (fl m f) \<noteq> GenDone")
    case True
    then have "f_gen (fl m f) \<noteq> GenDone" by blast
    with b obtain cs r where x: "f_reads (fl m f) = map Chunk cs" "h = map Chunk (cs @ f_queue (fl m f)) @ r"
      "\<not> f_bodyEnded (fl m f) \<longrightarrow> r = []" "f_bodyEnded (fl m f) \<and> \<not> f_aborted (fl m f) \<longrightarrow> r = [EndOfBody]"
      "\<not> f_aborted (fl m f) \<longrightarrow> r = [] \<or> r = [EndOfBody]" "f_aborted (fl m f) \<longrightarrow> f_bodyEnded (fl m f)"
      by (rule body_inv_reading)
    have e: "f_reads (fl (endBody f m) f) = f_reads (fl m f)" "f_queue (fl (endBody f m) f) = f_queue (fl m f)"
      "f_aborted (fl (endBody f m) f) = f_aborted (fl m f)" "f_bodyEnded (fl (endBody f m) f)" "length (flows (endBody f m)) = length (flows m)"
      using True f by (simp_all add: endBody_def)
    show ?thesis
    proof (cases "f_gen (fl m f)")
      case GenStart
      then show ?thesis using x True f
        by (intro body_invI [of _ cs "[]" _ r]) (simp_all add: return_body_def)
    next
      case (GenYielded n)
      then show ?thesis using x True f e
        by (intro body_invI [of _ cs "[]" _ r]) (simp_all add: return_body_def)
    qed (use True in simp_all)
  next
    case False
    then show ?thesis using b by (auto simp: return_body_def split: generator.split)
  qed
qed

lemma flows_waiters [simp]: "flows (settle_waiter k m) = flows m" "flows (cancel_waiter k code m) = flows m"
  by (simp_all add: settle_waiter_def cancel_waiter_def upd_caller_def)

lemma faithful_steps:
  assumes inv: "pool_inv cfg None m" and f: "f < length (flows m)"
  shows "faithful m (body_chunk f bytes m)" "faithful m (drained f m)" "faithful m (drain_timeout f queue m)"
    "faithful m (body_done f m)" "faithful m (body_error f code m)" "faithful m (response_timeout f m)"
    "faithful m (waitForIdle f m)" "faithful m (stall_check lims now f m)" "faithful m (write_step lims f before after m)"
    "faithful m (abort_flow f code' m)" "faithful m (idle_timeout f m)"
proof -
  have keep: "faithful m (upd_flow f g m')" if "flows m' = flows m" "\<And>x. f_reads (g x) = f_reads x \<and> f_queue (g x) = f_queue x
      \<and> f_gen (g x) = f_gen x \<and> f_bodyEnded (g x) = f_bodyEnded x \<and> f_aborted (g x) = f_aborted x" for g m'
    by (rule faithful_trans [OF faithful_flows [OF that(1)] faithful_keep [OF that(2)]])
  note r = faithful_refl faithful_fail_close faithful_request_failed faithful_trans [OF faithful_fail_close faithful_request_failed]
  show "faithful m (body_chunk f bytes m)" "faithful m (drained f m)" "faithful m (drain_timeout f queue m)"
    "faithful m (body_done f m)" "faithful m (body_error f code m)" "faithful m (response_timeout f m)"
    "faithful m (waitForIdle f m)" "faithful m (stall_check lims now f m)" "faithful m (write_step lims f before after m)"
    unfolding body_chunk_def drained_def drain_timeout_def body_done_def body_error_def response_timeout_def waitForIdle_def stall_check_def
      write_step_def Let_def
    using r keep by (auto split: head_phase.split)
  show "faithful m (abort_flow f code' m)"
    unfolding abort_flow_def Let_def
    using faithful_refl faithful_trans [OF faithful_fail faithful_trans [OF faithful_flows faithful_close]] by simp
  show "faithful m (idle_timeout f m)"
    unfolding idle_timeout_def Let_def using faithful_refl keep [OF refl] faithful_trans [OF keep [OF refl] faithful_fail_close] by simp
qed

lemma faithful_fold:
  assumes "\<And>x m. faithful m (g x m)"
  shows "faithful m (fold g xs m)"
  by (induction xs arbitrary: m) (auto intro: faithful_refl faithful_trans [OF assms])

lemma faithful_closers: "faithful m (close_all_of is reason m)" "faithful m (closeChannelsForNode n reason m)"
  "faithful m (closeChannelsForSession s reason m)" "faithful m (closeAllChannels reason m)"
proof -
  show c: "faithful m (close_all_of is reason m)" for m "is" unfolding close_all_of_def by (rule faithful_fold [OF faithful_close])
  have s: "faithful m (fold settle_waiter ks m)" "faithful m (fold (\<lambda>k. cancel_waiter k e) ks m)" for m ks e
    by (rule faithful_fold; simp add: faithful_flows)+
  have u: "faithful m (m\<lparr>channels := x\<rparr>)" "faithful m (m\<lparr>idleWaiters := y\<rparr>)" for m x y by (simp_all add: faithful_flows)
  show n: "faithful m (closeChannelsForNode n reason m)" for n m
    unfolding closeChannelsForNode_def Let_def
    by (rule faithful_trans [OF faithful_trans [OF faithful_trans [OF c u(1)] s(1)] u(2)])
  show "faithful m (closeChannelsForSession s reason m)"
    unfolding closeChannelsForSession_def Let_def by (rule faithful_trans [OF c s(2)])
  show "faithful m (closeAllChannels reason m)"
    unfolding closeAllChannels_def by (rule faithful_fold [OF n])
qed

lemma known_acquire:
  assumes inv: "pool_inv cfg None m" and k: "k < length (callers m)" "k_state (cl m k) = CWoken" and b: "body_known m f h"
  shows "body_known (acquire cfg now rid k m) f h"
proof (cases "claimIdleChannel (k_node (cl m k)) (k_session (cl m k)) m")
  case None
  then show ?thesis using b by (simp add: acquire_def body_known_def wait_or_fail_def Let_def upd_caller_def)
next
  case (Some i)
  obtain m3 where "bind_flow k i rid now m = send i (open_message rid (k_request (cl m k))) m3" "flows m3 = flows m @ [new_flow now i rid]"
    using bind_effect [OF inv k Some] by blast
  then have fs: "flows (acquire cfg now rid k m) = flows m @ [new_flow now i rid]" using Some by (simp add: acquire_def)
  have "body_inv [] (new_flow now i rid)" by (rule body_invI [of _ "[]" "[]" _ "[]"]) (simp_all add: new_flow_def)
  then show ?thesis using b by (auto simp: body_known_def fs nth_append less_Suc_eq split: if_splits)
qed

lemma known_step:
  assumes inv: "pool_inv cfg None m" and b: "body_known m f h"
  shows "body_known (pool_step cfg pj e m) f (h @ heard_step cfg pj f e m)"
proof -
  have quiet: "body_known m' f h" if "faithful m m'" "kept cfg m m'" for m'
    using known_faithful [OF that(1) _ b] that(2) by (simp add: kept_def)
  show ?thesis
  proof (cases e)
    case (ChanData i now chunk)
    then show ?thesis using known_data [OF inv _ b] b by (simp add: heard_step_def)
  next
    case (Execute now node session q rid)
    have "body_known (m\<lparr>callers := callers m @ [c]\<rparr>) f h" for c using b by (simp add: body_known_def)
    then have "body_known (pool_step cfg pj e m) f h"
      unfolding Execute pool_step.simps executeReverseHttp_def Let_def by (intro known_acquire [OF inv_new_caller [OF inv refl]]) simp_all
    then show ?thesis by (simp add: heard_step_def Execute)
  next
    case (Resume k now rid)
    then show ?thesis using known_acquire [OF inv _ _ b] b by (simp add: heard_step_def resume_caller_def)
  next
    case (Register node key session)
    have "flows (registerChannel cfg node key session m) = flows m" by (simp add: registerChannel_def Let_def)
    then show ?thesis using b by (simp add: heard_step_def Register body_known_def)
  next
    case (Pull g now)
    then show ?thesis using quiet [OF faithful_pull kept_pull_body [OF inv]] b by (simp add: heard_step_def)
  next
    case (Leave g)
    then show ?thesis using quiet [OF faithful_return kept_return_body [OF inv]] b by (simp add: heard_step_def)
  next
    case (CloseNodeChannels n reason)
    then show ?thesis using quiet faithful_closers(2) kept_close_node [OF inv] by (simp add: heard_step_def)
  next
    case (CloseSessionChannels s reason)
    then show ?thesis using quiet faithful_closers(3) kept_close_session [OF inv] by (simp add: heard_step_def)
  next
    case (CloseCredentialChannels n key reason)
    have "kept cfg m (pool_step cfg pj e m)"
      unfolding CloseCredentialChannels pool_step.simps closeChannelsForCredential_def Let_def snd_conv
      by (rule close_all_kept [OF inv]) (use pool_bounds [OF inv] in auto)
    moreover have "faithful m (pool_step cfg pj e m)"
      unfolding CloseCredentialChannels pool_step.simps closeChannelsForCredential_def Let_def snd_conv by (rule faithful_closers(1))
    ultimately show ?thesis using quiet by (simp add: heard_step_def CloseCredentialChannels)
  next
    case (CloseEverything reason)
    have "kept cfg m (pool_step cfg pj e m)"
      unfolding CloseEverything pool_step.simps closeAllChannels_def by (rule kept_fold [OF kept_close_node inv refl])
    then show ?thesis using quiet faithful_closers(4) by (simp add: heard_step_def CloseEverything)
  next
    case (ChanGone i reason)
    then show ?thesis using quiet [OF faithful_close kept_close' [OF inv]] b by (simp add: heard_step_def)
  next
    case (WaitTimer k)
    then show ?thesis using b by (simp add: heard_step_def body_known_def)
  next
    case (WaitAbort k)
    then show ?thesis using b by (simp add: heard_step_def body_known_def)
  qed (simp_all add: b heard_step_def quiet [OF faithful_steps(1) [OF inv] kept_flow_steps(1) [OF inv]] quiet [OF faithful_steps(2) [OF inv] kept_flow_steps(2) [OF inv]]
        quiet [OF faithful_steps(3) [OF inv] kept_flow_steps(3) [OF inv]] quiet [OF faithful_steps(4) [OF inv] kept_flow_steps(4) [OF inv]]
        quiet [OF faithful_steps(5) [OF inv] kept_flow_steps(5) [OF inv]] quiet [OF faithful_steps(6) [OF inv] kept_flow_steps(6) [OF inv]]
        quiet [OF faithful_steps(7) [OF inv] kept_flow_steps(7) [OF inv]] quiet [OF faithful_steps(8) [OF inv] kept_flow_steps(8) [OF inv]]
        quiet [OF faithful_steps(9) [OF inv] kept_write_step [OF inv]] quiet [OF faithful_steps(10) [OF inv] kept_abort_flow [OF inv]]
        quiet [OF faithful_steps(11) [OF inv] kept_idle_timeout [OF inv]])
qed

lemma node_body_snoc: "node_body cfg pj f (es @ [e]) m = node_body cfg pj f es m @ heard_step cfg pj f e (fold (pool_step cfg pj) es m)"
  by (induction es arbitrary: m) simp_all

lemma known_run: "body_known (pool_run cfg pj es) f (node_body cfg pj f es new_pool)"
proof (induction es rule: rev_induct)
  case Nil
  show ?case by (simp add: pool_run_def new_pool_def body_known_def)
next
  case (snoc e es)
  then show ?case using known_step [OF inv_run] by (simp add: pool_run_snoc node_body_snoc) (simp add: pool_run_def)
qed

section \<open>Runs that are computed\<close>

text \<open>A node that is heard in frames of one byte: the messages of request \<open>r0\<close> and the word \<open>idle\<close>.\<close>

definition example_pj :: "byte list \<Rightarrow> jsval option" where
  "example_pj b =
     (if b = [1] then Some (JObj [(''type'', JStr ''response''), (''requestId'', JStr ''r0''), (''status'', JNum 200), (''headers'', JArr [])])
      else if b = [2] then Some (JObj [(''type'', JStr ''response-end''), (''requestId'', JStr ''r0'')])
      else if b = [3] then Some (JObj [(''type'', JStr ''idle'')])
      else None)"

definition example_pool :: pool_config where
  "example_pool = \<lparr>maxChannels = 4, capacityWaitMs = CHANNEL_CAPACITY_WAIT_MS, limits_of = DEFAULT_LIMITS\<rparr>"

definition example_request :: request where
  "example_request = \<lparr>q_method = ''GET'', q_rawTarget = ''/'', q_routeAuthority = ''n-1.orbit.test'', q_routeProof = [], q_headers = []\<rparr>"

definition says :: "byte \<Rightarrow> byte list \<Rightarrow> byte list" where
  "says opcode payload = encodeFrame opcode payload (Some [0, 0, 0, 0])"

definition response_complete :: "byte list" where
  "response_complete = says 1 [1] @ says 2 [104, 105] @ says 1 [2] @ says 1 [3]"

lemma frames [simp]:
  "feed CHANNEL_CFG response_complete new_parser = (new_parser, [TextMessage [1], BinaryMessage [104, 105], TextMessage [2], TextMessage [3]])"
  by code_simp

definition reuse_run :: "pool_event list" where
  "reuse_run = [Register ''n1'' ''k1'' ''s1'', Execute 0 ''n1'' (Some ''s1'') example_request ''r0'', BodyChunk 0 [115],
     ChanData 0 1 response_complete, Execute 2 ''n1'' (Some ''s1'') example_request ''r1'', WriteStep 0 0 0]"

lemma early_response_mixes_requests:
  "c_out (chan (pool_run example_pool example_pj reuse_run) 0) =
     [WUpgrade, open_message ''r0'' example_request, open_message ''r1'' example_request, WData [115]]"
  by code_simp

definition abort_run :: "pool_event list" where
  "abort_run = [Register ''n1'' ''k1'' ''s1'', Execute 0 ''n1'' (Some ''s1'') example_request ''r0'', BodyDone 0,
     ChanData 0 1 response_complete, Execute 2 ''n1'' (Some ''s1'') example_request ''r1'', Pull 0 3, Abort 0 ''browser-abort'']"

lemma late_abort_hits_successor:
  "(let m = pool_run example_pool example_pj abort_run in
    f_channel (fl m 0) = 0 \<and> f_idleReceived (fl m 0) \<and> c_closed (chan m 0) \<and> f_aborted (fl m 1)
    \<and> f_abortCode (fl m 1) = Some (JStr ''channel-closed''))"
  by code_simp

definition dead_run :: "pool_event list" where
  "dead_run = [Register ''n1'' ''k1'' ''s1'', Execute 0 ''n1'' (Some ''s1'') example_request ''r0'', ChanGone 0 ''socket-close'', BodyDone 0]"

lemma dead_flow_waits:
  "(let m = pool_run example_pool example_pj dead_run in f_aborted (fl m 0) \<and> f_head (fl m 0) = HAwaiting)"
  by code_simp


section \<open>Properties\<close>

text \<open>C7. In every state that any order of node messages, browser events, timers and closings can reach, the pool of a
  node is exactly its open channels, in the order they came, and never more than the limit; a channel has a flow
  exactly when it is busy, the flow is alive, no other channel has it; and the flow a caller got runs over a
  channel of the node and the session it asked for.\<close>

theorem reverse_pool_sound:
  assumes "m = pool_run cfg pj es"
  shows "pool_of m n = filter (\<lambda>i. c_node (chan m i) = n \<and> \<not> c_closed (chan m i)) [0..<length (chans m)]
      \<and> length (pool_of m n) \<le> maxChannels cfg
    \<and> (\<forall>i < length (chans m). (c_flow (chan m i) \<noteq> None \<longleftrightarrow> c_state (chan m i) = ChBusy)
      \<and> (c_closed (chan m i) \<longleftrightarrow> c_state (chan m i) = ChClosed)
      \<and> (\<forall>f. c_flow (chan m i) = Some f \<longrightarrow> f < length (flows m) \<and> f_channel (fl m f) = i \<and> \<not> f_aborted (fl m f)))
    \<and> (\<forall>k < length (callers m). \<forall>f. k_state (cl m k) = CFlow f \<longrightarrow> c_node (chan m (f_channel (fl m f))) = k_node (cl m k)
      \<and> k_session (cl m k) \<in> {None, Some (c_session (chan m (f_channel (fl m f))))})"
proof -
  note inv = inv_run [of cfg pj es, folded assms]
  have "pool_of m n = filter (\<lambda>i. c_node (chan m i) = n \<and> \<not> c_closed (chan m i)) [0..<length (chans m)]"
    "length (pool_of m n) \<le> maxChannels cfg"
    using pool_invD(3,4) [OF inv, of n] by (simp_all add: open_of_def)
  moreover have "(c_flow (chan m i) \<noteq> None \<longleftrightarrow> c_state (chan m i) = ChBusy) \<and> (c_closed (chan m i) \<longleftrightarrow> c_state (chan m i) = ChClosed)
      \<and> (\<forall>f. c_flow (chan m i) = Some f \<longrightarrow> f < length (flows m) \<and> f_channel (fl m f) = i \<and> \<not> f_aborted (fl m f))"
    if "i < length (chans m)" for i
    using pool_invD(7) [OF inv that] by (simp add: chan_ok_def)
  moreover have "c_node (chan m (f_channel (fl m f))) = k_node (cl m k) \<and> k_session (cl m k) \<in> {None, Some (c_session (chan m (f_channel (fl m f))))}"
    if "k < length (callers m)" "k_state (cl m k) = CFlow f" for k f
    using pool_invD(9) [OF inv that(1)] that(2) by (simp add: caller_ok_def)
  ultimately show ?thesis by blast
qed

lemma example_states:
  "length (chans (pool_run example_pool example_pj reuse_run)) = 1" "length (callers (pool_run example_pool example_pj reuse_run)) = 2"
  "c_flow (chan (pool_run example_pool example_pj reuse_run) 0) = Some 1"
  "k_state (cl (pool_run example_pool example_pj reuse_run) (Suc 0)) = CFlow 1" "k_node (cl (pool_run example_pool example_pj reuse_run) (Suc 0)) = ''n1''"
  by code_simp+

theorem reverse_pool_sound_witness:
  "let m = pool_run example_pool example_pj reuse_run in
     length (pool_of m ''n1'') \<le> 4 \<and> c_state (chan m 0) = ChBusy \<and> f_channel (fl m 1) = 0 \<and> c_node (chan m 0) = ''n1''"
proof -
  define m where "m = pool_run example_pool example_pj reuse_run"
  note s = reverse_pool_sound [OF m_def, of "''n1''"]
  have i: "0 < length (chans m)" "Suc 0 < length (callers m)" by (simp_all add: m_def example_states)
  show ?thesis
    unfolding Let_def m_def [symmetric]
  proof (intro conjI)
    have "maxChannels example_pool = 4" by (simp add: example_pool_def)
    then show "length (pool_of m ''n1'') \<le> 4" using s by metis
    have "(c_flow (chan m 0) \<noteq> None \<longleftrightarrow> c_state (chan m 0) = ChBusy) \<and>
      (\<forall>f. c_flow (chan m 0) = Some f \<longrightarrow> f < length (flows m) \<and> f_channel (fl m f) = 0 \<and> \<not> f_aborted (fl m f))"
      using s i(1) by blast
    then show "c_state (chan m 0) = ChBusy" and c: "f_channel (fl m 1) = 0" using example_states(3) [folded m_def] by simp_all
    have "c_node (chan m (f_channel (fl m 1))) = k_node (cl m (Suc 0))"
      using s i(2) example_states(4) [folded m_def] by blast
    then show "c_node (chan m 0) = ''n1''" using c example_states(5) [folded m_def] by simp
  qed
qed

text \<open>C19. No wakeup is lost. If every caller names the session it wants, then in every reachable state in which a
  caller waits for a channel of a session, at most as many channels of that session are idle as callers that were
  told of one and have not looked yet; in particular none is idle when no such caller is left.\<close>

theorem pool_no_lost_wakeup:
  assumes "list_all names_session es" and "m = pool_run cfg pj es"
    and "k < length (callers m)" "k_state (cl m k) = CWaiting" "k_node (cl m k) = n" "k_session (cl m k) = Some s"
  shows "card {i. i < length (chans m) \<and> c_node (chan m i) = n \<and> c_session (chan m i) = s \<and> \<not> c_closed (chan m i) \<and> c_state (chan m i) = ChIdle}
    \<le> card {j. j < length (callers m) \<and> k_node (cl m j) = n \<and> k_session (cl m j) = Some s \<and> k_state (cl m j) = CWoken}"
proof -
  have "awake m n s 0" using alert_run [OF assms(1), of cfg pj] by (simp add: alert_def assms(2))
  moreover have "waits_at m n s k" using assms(3-6) by (simp add: waits_at_def waiting_def)
  moreover have "{i. i < length (chans m) \<and> c_node (chan m i) = n \<and> c_session (chan m i) = s \<and> \<not> c_closed (chan m i) \<and> c_state (chan m i) = ChIdle}
      = Collect (idle_at m n s)" by (auto simp: idle_at_def)
  moreover have "{j. j < length (callers m) \<and> k_node (cl m j) = n \<and> k_session (cl m j) = Some s \<and> k_state (cl m j) = CWoken}
      = Collect (woken_at m n s)" by (auto simp: woken_at_def)
  ultimately show ?thesis by (auto simp: awake_def)
qed

definition wait_run :: "pool_event list" where
  "wait_run = [Register ''n1'' ''k1'' ''s1'', Execute 0 ''n1'' (Some ''s1'') example_request ''r0'',
     Execute 1 ''n1'' (Some ''s1'') example_request ''r1'', Execute 2 ''n1'' (Some ''s1'') example_request ''r2'', BodyDone 0, ChanData 0 3 response_complete]"

lemma wait_states:
  "length (callers (pool_run example_pool example_pj wait_run)) = 3"
  "k_state (cl (pool_run example_pool example_pj wait_run) 2) = CWaiting" "k_node (cl (pool_run example_pool example_pj wait_run) 2) = ''n1''"
  "k_session (cl (pool_run example_pool example_pj wait_run) 2) = Some ''s1''" "list_all names_session wait_run"
  by code_simp+

theorem pool_no_lost_wakeup_witness:
  "let m = pool_run example_pool example_pj wait_run in
   card {i. i < length (chans m) \<and> c_node (chan m i) = ''n1'' \<and> c_session (chan m i) = ''s1'' \<and> \<not> c_closed (chan m i) \<and> c_state (chan m i) = ChIdle}
    \<le> card {j. j < length (callers m) \<and> k_node (cl m j) = ''n1'' \<and> k_session (cl m j) = Some ''s1'' \<and> k_state (cl m j) = CWoken}"
  unfolding Let_def by (rule pool_no_lost_wakeup [OF wait_states(5) refl, of 2]) (simp_all add: wait_states)

definition chunks :: "body_read list \<Rightarrow> byte list list" where
  "chunks rs = concat (map (\<lambda>r. case r of Chunk b \<Rightarrow> [b] | _ \<Rightarrow> []) rs)"

lemma chunks_simps [simp]:
  "chunks [] = []" "chunks (Chunk b # rs) = b # chunks rs" "chunks (EndOfBody # rs) = chunks rs" "chunks (ReadFailed c # rs) = chunks rs"
  "chunks (xs @ ys) = chunks xs @ chunks ys" "chunks (map Chunk bs) = bs"
  by (simp_all add: chunks_def) (induction bs, simp_all)

text \<open>C12. A browser reads exactly what its node sent for it. The chunks read and those still queued are, in order and
  without gap, the chunks the node sent while the flow owned its channel, all of them unless the flow was aborted;
  and the end of the body is read only when everything the node sent has been read and the node has said that the
  response ends.\<close>

theorem reverse_body_exact:
  assumes "m = pool_run cfg pj es" "f < length (flows m)" and "sent = node_body cfg pj f es new_pool"
  shows "prefix (chunks (f_reads (fl m f)) @ f_queue (fl m f)) (chunks sent)
    \<and> (\<not> f_aborted (fl m f) \<longrightarrow> chunks (f_reads (fl m f)) @ f_queue (fl m f) = chunks sent)
    \<and> (EndOfBody \<in> set (f_reads (fl m f)) \<longrightarrow> f_reads (fl m f) = sent \<and> f_queue (fl m f) = [])"
proof -
  have "body_inv sent (fl m f)" using known_run [of cfg pj es f] assms by (simp add: body_known_def)
  then obtain cs t r where x: "f_reads (fl m f) = map Chunk cs @ t" "sent = map Chunk (cs @ f_queue (fl m f)) @ r"
    "t = [] \<or> f_gen (fl m f) = GenDone \<and> (t = [EndOfBody] \<or> (\<exists>c. t = [ReadFailed c]))"
    "t = [EndOfBody] \<longrightarrow> r = [EndOfBody] \<and> f_queue (fl m f) = []" "\<not> f_aborted (fl m f) \<longrightarrow> r = [] \<or> r = [EndOfBody]"
    by (rule body_invE)
  have "chunks t = []" using x(3) by auto
  then have reads: "chunks (f_reads (fl m f)) = cs" by (simp add: x(1))
  have sent: "chunks sent = (cs @ f_queue (fl m f)) @ chunks r" by (simp add: x(2) flip: map_append)
  show ?thesis
  proof (intro conjI impI)
    show "prefix (chunks (f_reads (fl m f)) @ f_queue (fl m f)) (chunks sent)" unfolding reads sent by simp
    show "chunks (f_reads (fl m f)) @ f_queue (fl m f) = chunks sent" if "\<not> f_aborted (fl m f)"
      using x(5) that unfolding reads sent by auto
    assume "EndOfBody \<in> set (f_reads (fl m f))"
    then have "t = [EndOfBody]" using x(1,3) by auto
    then show "f_reads (fl m f) = sent" "f_queue (fl m f) = []" using x(1,2,4) by auto
  qed
qed

definition read_run :: "pool_event list" where
  "read_run = [Register ''n1'' ''k1'' ''s1'', Execute 0 ''n1'' (Some ''s1'') example_request ''r0'', BodyDone 0,
     ChanData 0 1 response_complete, Pull 0 2, Pull 0 3]"

lemma read_states:
  "length (flows (pool_run example_pool example_pj read_run)) = 1"
  "f_reads (fl (pool_run example_pool example_pj read_run) 0) = [Chunk [104, 105], EndOfBody]"
  by code_simp+

theorem reverse_body_exact_witness:
  "node_body example_pool example_pj 0 read_run new_pool = [Chunk [104, 105], EndOfBody]"
  using reverse_body_exact [OF refl _ refl, of 0 example_pool example_pj read_run] by (simp add: read_states)

lemma closed_flow:
  "c_flow (chan m i) = Some f \<Longrightarrow> i < length (chans m) \<Longrightarrow> f < length (flows m) \<Longrightarrow> \<not> c_closed (chan m i) \<Longrightarrow> f_aborted (fl (close_channel i reason m) f)"
  by (simp add: close_channel_def Let_def fl_fail failed_with_abort upd_chan_def)

lemma abort_persists: "f_aborted (fl m f) \<Longrightarrow> f_aborted (fl (close_all_of is reason m) f)"
proof (induction "is" arbitrary: m)
  case (Cons i "is")
  have "f_aborted (fl (close_channel i reason m) f)"
    using Cons.prems by (auto simp: close_channel_def Let_def fl_fail failed_with_abort split: option.split)
  from Cons.IH [OF this] show ?case by (simp add: close_all_of_def)
qed (simp add: close_all_of_def)

lemma closed_flows:
  assumes "pool_inv cfg None m" "\<forall>i \<in> set is. i < length (chans m)" "j \<in> set is" "c_flow (chan m j) = Some f"
  shows "f_aborted (fl (close_all_of is reason m) f)"
  using assms
proof (induction "is" arbitrary: m)
  case (Cons i "is")
  have i: "i < length (chans m)" using Cons.prems(2) by simp
  have k: "kept cfg m (close_channel i reason m)" by (rule kept_close' [OF Cons.prems(1) i])
  note own = owner [OF Cons.prems(1) _ Cons.prems(4)]
  have e: "close_all_of (i # is) reason m = close_all_of is reason (close_channel i reason m)" by (simp add: close_all_of_def)
  show ?case
  proof (cases "j = i")
    case True
    then show ?thesis unfolding e using abort_persists [OF closed_flow] Cons.prems(4) i own by simp
  next
    case False
    then have j: "j \<in> set is" "j < length (chans m)" using Cons.prems(2,3) by auto
    have "c_flow (chan (close_channel i reason m) j) = Some f"
    proof (cases "c_closed (chan m i)")
      case True
      then show ?thesis using Cons.prems(4) by (simp add: close_closed)
    next
      case open_: False
      from close_effect(2) [OF i open_ refl False j(2), of reason] show ?thesis using Cons.prems(4) by (simp add: core_def)
    qed
    then show ?thesis unfolding e using k j Cons.prems(2) by (intro Cons.IH) (simp_all add: kept_def)
  qed
qed simp

text \<open>Revoking a credential of a node closes exactly the open channels it authenticated, names them, and aborts
  exactly their flows: every other channel keeps its state and every other flow is untouched.\<close>

theorem credential_channels_exact:
  assumes "m = pool_run cfg pj es" "closeChannelsForCredential n key reason m = (ids, m')"
  shows "ids = filter (\<lambda>i. c_node (chan m i) = n \<and> \<not> c_closed (chan m i) \<and> c_key (chan m i) = key) [0..<length (chans m)]
    \<and> (\<forall>i < length (chans m). (c_closed (chan m' i) \<longleftrightarrow> c_closed (chan m i) \<or> i \<in> set ids)
         \<and> (i \<notin> set ids \<longrightarrow> c_state (chan m' i) = c_state (chan m i) \<and> c_flow (chan m' i) = c_flow (chan m i)))
    \<and> (\<forall>f. if \<exists>i \<in> set ids. c_flow (chan m i) = Some f then f_aborted (fl m' f) else fl m' f = fl m f)"
proof -
  note inv = inv_run [of cfg pj es, folded assms(1)]
  have ids: "ids = filter (\<lambda>i. c_key (chan m i) = key) (pool_of m n)" and m': "m' = close_all_of ids reason m"
    using assms(2) by (auto simp: closeChannelsForCredential_def Let_def)
  have l: "ids = filter (\<lambda>i. c_node (chan m i) = n \<and> \<not> c_closed (chan m i) \<and> c_key (chan m i) = key) [0..<length (chans m)]"
    unfolding ids pool_invD(3) [OF inv] open_of_def filter_filter by (rule filter_cong) auto
  have b: "\<forall>i \<in> set ids. i < length (chans m)" by (simp add: l)
  note e = close_all_effect(1,2) [OF inv b, where reason = reason, folded m']
  have "(c_closed (chan m' i) \<longleftrightarrow> c_closed (chan m i) \<or> i \<in> set ids)
      \<and> (i \<notin> set ids \<longrightarrow> c_state (chan m' i) = c_state (chan m i) \<and> c_flow (chan m' i) = c_flow (chan m i))" if "i < length (chans m)" for i
    using e(1) [OF that] e(2) [of i] that by (cases "i \<in> set ids") (auto simp: core_def)
  moreover have "if \<exists>i \<in> set ids. c_flow (chan m i) = Some f then f_aborted (fl m' f) else fl m' f = fl m f" for f
    using closed_flows [OF inv b, of _ f reason] close_all_effect(3) [OF inv b, of f reason] by (auto simp: m')
  ultimately show ?thesis using l by blast
qed

lemma revoke_states:
  "length (chans (pool_run example_pool example_pj wait_run)) = 1" "c_node (chan (pool_run example_pool example_pj wait_run) 0) = ''n1''"
  "c_key (chan (pool_run example_pool example_pj wait_run) 0) = ''k1''" "\<not> c_closed (chan (pool_run example_pool example_pj wait_run) 0)"
  by code_simp+

theorem credential_channels_exact_witness:
  "let m = pool_run example_pool example_pj wait_run; r = closeChannelsForCredential ''n1'' ''k1'' ''credential-revoked'' m in
     fst r = [0] \<and> c_closed (chan (snd r) 0)"
proof -
  define m where "m = pool_run example_pool example_pj wait_run"
  obtain ids m' where r: "closeChannelsForCredential ''n1'' ''k1'' ''credential-revoked'' m = (ids, m')" by fastforce
  show ?thesis
    using credential_channels_exact [OF m_def r] revoke_states [folded m_def] by (simp add: Let_def r flip: m_def)
qed

end
