(* ===== verification/RateLimiter.thy ===== *)
theory RateLimiter
  imports Prelude
begin

text \<open>
  The rate limits of \<^verbatim>\<open>src/registry/server.mjs\<close> (\<open>SlidingWindowLimiter\<close>): a map from keys to the times
  of the calls that were let through. The clock is an argument. The reference is a sliding window over the
  complete history of admissions, which keeps nothing per key and forgets nothing.
\<close>

type_synonym limiter = "(str, int list) omap"

definition entries_of :: "limiter \<Rightarrow> str \<Rightarrow> int list" where
  "entries_of l key = (case map_of l key of None \<Rightarrow> [] | Some es \<Rightarrow> es)"

text \<open>A window that has been idle for an hour is dropped once the table has more than 10000 keys.\<close>

definition IDLE_WINDOW_MS :: int where "IDLE_WINDOW_MS = 3600000"

definition stale_window :: "int \<Rightarrow> int list \<Rightarrow> bool" where
  "stale_window now es \<longleftrightarrow> es = [] \<or> last es \<le> now - IDLE_WINDOW_MS"

definition allow :: "int \<Rightarrow> str \<Rightarrow> nat \<Rightarrow> int \<Rightarrow> limiter \<Rightarrow> bool \<times> limiter" where
  "allow now key limit windowMs l =
     (let es = dropWhile (\<lambda>t. t \<le> now - windowMs) (entries_of l key) in
      if length es \<ge> limit then (False, AList.update key es l)
      else
        let l1 = AList.update key (es @ [now]) l in
        (True, if length l1 > 10000 then filter (\<lambda>(k, list). \<not> stale_window now list) l1 else l1))"

section \<open>The reference\<close>

text \<open>
  \<open>quota\<close> gives each key its limit and its window. A call is admitted when the admissions of its key in the
  last \<open>windowMs\<close> milliseconds are fewer than the limit.
\<close>

type_synonym quota = "str \<Rightarrow> nat \<times> int"

definition recent :: "int \<Rightarrow> int \<Rightarrow> str \<Rightarrow> (int \<times> str) list \<Rightarrow> int list" where
  "recent now windowMs key hist = map fst (filter (\<lambda>(t, k). k = key \<and> now - windowMs < t) hist)"

fun window_run :: "quota \<Rightarrow> (int \<times> str) list \<Rightarrow> (int \<times> str) list \<Rightarrow> bool list \<times> (int \<times> str) list" where
  "window_run quota [] hist = ([], hist)"
| "window_run quota ((now, key) # calls) hist =
     (let ok = length (recent now (snd (quota key)) key hist) < fst (quota key);
          (bs, h) = window_run quota calls (if ok then hist @ [(now, key)] else hist)
      in (ok # bs, h))"

fun limiter_run :: "quota \<Rightarrow> (int \<times> str) list \<Rightarrow> limiter \<Rightarrow> bool list" where
  "limiter_run quota [] l = []"
| "limiter_run quota ((now, key) # calls) l =
     (let (ok, l') = allow now key (fst (quota key)) (snd (quota key)) l in ok # limiter_run quota calls l')"

section \<open>The table implements the reference\<close>

lemma dropWhile_sorted: "sorted es \<Longrightarrow> dropWhile (\<lambda>t. t \<le> c) es = filter (\<lambda>t. c < t) (es :: int list)"
proof (induction es)
  case (Cons e es)
  show ?case
  proof (cases "e \<le> c")
    case False
    then have "filter (\<lambda>t. c < t) es = es" using Cons.prems by (intro filter_True) auto
    with False show ?thesis by simp
  qed (use Cons in simp)
qed simp

text \<open>The table at time \<open>now\<close>: what it holds of a key agrees with the history within the key's window.\<close>

definition tracks :: "quota \<Rightarrow> int \<Rightarrow> (int \<times> str) list \<Rightarrow> limiter \<Rightarrow> bool" where
  "tracks quota now hist l \<longleftrightarrow> omap_wf l
     \<and> (\<forall>key. sorted (entries_of l key) \<and> (\<forall>t \<in> set (entries_of l key). t \<le> now)
          \<and> filter (\<lambda>t. now - snd (quota key) < t) (entries_of l key) = recent now (snd (quota key)) key hist)"

lemma tracksD:
  assumes "tracks quota now hist l"
  shows "omap_wf l" "sorted (entries_of l key)" "t \<in> set (entries_of l key) \<Longrightarrow> t \<le> now"
    "filter (\<lambda>t. now - snd (quota key) < t) (entries_of l key) = recent now (snd (quota key)) key hist"
  using assms by (auto simp: tracks_def)

lemma tracks_later:
  assumes tr: "tracks quota now hist l" and le: "now \<le> later"
  shows "tracks quota later hist l"
proof -
  have "filter (\<lambda>t. later - w < t) es = filter (\<lambda>t. later - w < t) (filter (\<lambda>t. now - w < t) es)" for w es
    using le by (auto intro: filter_cong)
  moreover have "recent later w key hist = filter (\<lambda>t. later - w < t) (recent now w key hist)" for w key
    using le by (auto simp: recent_def filter_map comp_def intro!: arg_cong [where f = "map fst"] filter_cong)
  ultimately have "filter (\<lambda>t. later - snd (quota key) < t) (entries_of l key) = recent later (snd (quota key)) key hist" for key
    by (simp only: tracksD(4) [OF tr, symmetric])
  moreover have "t \<le> later" if "t \<in> set (entries_of l key)" for t key using tracksD(3) [OF tr that] le by simp
  ultimately show ?thesis using tracksD(1,2) [OF tr] by (simp add: tracks_def)
qed

lemma entries_of_update: "entries_of (AList.update key es l) k = (if k = key then es else entries_of l k)"
  by (simp add: entries_of_def update_conv')

lemma entries_of_filter:
  "omap_wf l \<Longrightarrow> entries_of (filter (\<lambda>(k, es). \<not> P es) l) k = (if P (entries_of l k) then [] else entries_of l k)"
  by (auto simp: entries_of_def map_of_filter_wf split: option.splits)

lemma stale_window_sorted:
  assumes "stale_window now es" "sorted es" "w \<le> IDLE_WINDOW_MS"
  shows "filter (\<lambda>t. now - w < t) es = []"
proof (cases es rule: rev_cases)
  case (snoc ys y)
  then have "t \<le> y" if "t \<in> set es" for t using assms(2) that by (auto simp: sorted_append)
  moreover have "y \<le> now - w" using assms(1,3) snoc by (simp add: stale_window_def)
  ultimately show ?thesis by (force simp: filter_empty_conv)
qed simp

text \<open>Dropping idle windows is invisible, because no window is longer than the idle time.\<close>

lemma tracks_evict:
  assumes tr: "tracks quota now hist l" and w: "\<And>k. snd (quota k) \<le> IDLE_WINDOW_MS"
  shows "tracks quota now hist (filter (\<lambda>(k, es). \<not> stale_window now es) l)"
proof -
  let ?l = "filter (\<lambda>(k, es). \<not> stale_window now es) l"
  have e: "entries_of ?l key = (if stale_window now (entries_of l key) then [] else entries_of l key)" for key
    by (rule entries_of_filter [OF tracksD(1) [OF tr]])
  have n: "recent now (snd (quota key)) key hist = []" if "stale_window now (entries_of l key)" for key
    using stale_window_sorted [OF that tracksD(2) [OF tr] w [of key]] tracksD(4) [OF tr, of key] by simp
  have "filter (\<lambda>t. now - snd (quota key) < t) (entries_of ?l key) = recent now (snd (quota key)) key hist" for key
    using tracksD(4) [OF tr, of key] n [of key] by (simp add: e)
  then show ?thesis using tracksD(1-3) [OF tr] by (simp add: tracks_def e)
qed

lemma tracks_allow:
  assumes tr: "tracks quota now hist l" and w: "\<And>k. 0 \<le> snd (quota k) \<and> snd (quota k) \<le> IDLE_WINDOW_MS"
    and a: "allow now key (fst (quota key)) (snd (quota key)) l = (ok, l')"
  shows "ok \<longleftrightarrow> length (recent now (snd (quota key)) key hist) < fst (quota key)"
    and "tracks quota now (if ok then hist @ [(now, key)] else hist) l'"
proof -
  let ?w = "snd (quota key)"
  let ?es = "recent now ?w key hist"
  have es: "dropWhile (\<lambda>t. t \<le> now - ?w) (entries_of l key) = ?es"
    using dropWhile_sorted [OF tracksD(2) [OF tr]] tracksD(4) [OF tr] by simp
  have le: "t \<le> now \<and> now - ?w < t" if "t \<in> set ?es" for t
    using that tracksD(3) [OF tr, of t key] by (auto simp: tracksD(4) [OF tr, symmetric])
  have srt: "sorted ?es" using sorted_wrt_filter [OF tracksD(2) [OF tr]] by (simp add: tracksD(4) [OF tr, symmetric])
  show ok: "ok \<longleftrightarrow> length ?es < fst (quota key)"
    using a by (auto simp: allow_def Let_def es split: if_splits)
  have push: "recent now v k (hist @ [(now, key)]) = recent now v k hist @ (if k = key \<and> 0 < v then [now] else [])" for k v
    by (simp add: recent_def)
  show "tracks quota now (if ok then hist @ [(now, key)] else hist) l'"
  proof (cases ok)
    case False
    then have "l' = AList.update key ?es l" using a by (auto simp: allow_def Let_def es split: if_splits)
    then show ?thesis
      using False tracksD [OF tr] le srt by (auto simp: tracks_def entries_of_update intro!: filter_True)
  next
    case True
    let ?l = "AList.update key (?es @ [now]) l"
    have "filter (\<lambda>t. now - ?w < t) ?es = ?es" using le by (intro filter_True) blast
    then have t: "tracks quota now (hist @ [(now, key)]) ?l"
      using tracksD [OF tr] le srt w [of key] by (auto simp: tracks_def entries_of_update push sorted_append)
    have "l' = ?l \<or> l' = filter (\<lambda>(k, es). \<not> stale_window now es) ?l"
      using True a by (auto simp: allow_def Let_def es split: if_splits)
    with t tracks_evict [OF t] w True show ?thesis by auto
  qed
qed

lemma limiter_run_window:
  assumes "tracks quota now hist l" and "\<And>k. 0 \<le> snd (quota k) \<and> snd (quota k) \<le> IDLE_WINDOW_MS"
    and "sorted (now # map fst calls)"
  shows "limiter_run quota calls l = fst (window_run quota calls hist)"
  using assms(1,3)
proof (induction calls arbitrary: now hist l)
  case (Cons c calls)
  obtain t key where c: "c = (t, key)" by (cases c)
  have tr: "tracks quota t hist l" by (rule tracks_later [OF Cons.prems(1)]) (use Cons.prems(2) c in simp)
  obtain ok l' where a: "allow t key (fst (quota key)) (snd (quota key)) l = (ok, l')" by fastforce
  note s = tracks_allow [OF tr assms(2) a]
  have "limiter_run quota calls l' = fst (window_run quota calls (if ok then hist @ [(t, key)] else hist))"
    by (rule Cons.IH [OF s(2)]) (use Cons.prems(2) c in simp)
  with s(1) show ?case by (simp add: c a split: prod.split)
qed simp

text \<open>What the reference guarantees: no stretch of one window length holds more admissions than the limit.\<close>

definition window_bounded :: "quota \<Rightarrow> (int \<times> str) list \<Rightarrow> bool" where
  "window_bounded quota hist \<longleftrightarrow>
     (\<forall>key till. length (filter (\<lambda>(t, k). k = key \<and> till - snd (quota key) < t \<and> t \<le> till) hist) \<le> fst (quota key))"

lemma window_bounded_step:
  assumes b: "window_bounded quota hist" and last: "\<And>t k. (t, k) \<in> set hist \<Longrightarrow> t \<le> now"
    and ok: "length (recent now (snd (quota key)) key hist) < fst (quota key)"
  shows "window_bounded quota (hist @ [(now, key)])"
  unfolding window_bounded_def
proof (intro allI)
  fix k till
  let ?P = "\<lambda>(t, k'). k' = k \<and> till - snd (quota k) < t \<and> t \<le> till"
  have old: "length (filter ?P hist) \<le> fst (quota k)" using b by (simp add: window_bounded_def)
  show "length (filter ?P (hist @ [(now, key)])) \<le> fst (quota k)"
  proof (cases "?P (now, key)")
    case True
    have "length (filter ?P hist) \<le> length (filter (\<lambda>(t, k'). k' = key \<and> now - snd (quota key) < t) hist)"
    proof -
      have eq: "filter ?P hist = filter ?P (filter (\<lambda>(t, k'). k' = key \<and> now - snd (quota key) < t) hist)"
        using True by (auto intro!: filter_cong)
      show ?thesis by (subst eq) (rule length_filter_le)
    qed
    with ok True show ?thesis by (simp add: recent_def)
  qed (use old in auto)
qed

lemma window_run_bounded:
  assumes "window_bounded quota hist" "\<And>t k. (t, k) \<in> set hist \<Longrightarrow> t \<le> now" "sorted (now # map fst calls)"
  shows "window_bounded quota (snd (window_run quota calls hist))"
  using assms
proof (induction calls arbitrary: now hist)
  case (Cons c calls)
  obtain t key where c: "c = (t, key)" by (cases c)
  let ?ok = "length (recent t (snd (quota key)) key hist) < fst (quota key)"
  have le: "s \<le> t" if "(s, k) \<in> set hist" for s k using Cons.prems(2) [OF that] Cons.prems(3) c by simp
  have "window_bounded quota (snd (window_run quota calls (if ?ok then hist @ [(t, key)] else hist)))"
  proof (rule Cons.IH)
    show "window_bounded quota (if ?ok then hist @ [(t, key)] else hist)"
      using Cons.prems(1) window_bounded_step [OF Cons.prems(1) le] by simp
  qed (use le Cons.prems(3) c in \<open>auto split: if_splits\<close>)
  then show ?case by (simp add: c Let_def case_prod_unfold split: if_splits)
qed simp

text \<open>C29. The limiter answers every call of a run with a clock that does not go back exactly as the sliding
  window over the complete history of admissions does, whatever it has evicted; so the calls it lets through
  under one key, in any stretch of that key's window, are at most the key's limit. The windows are at most
  the hour after which idle keys are dropped.\<close>

theorem limiter_is_sliding_window:
  assumes "\<forall>key. 0 \<le> snd (quota key) \<and> snd (quota key) \<le> IDLE_WINDOW_MS" and "sorted (map fst calls)"
  shows "limiter_run quota calls [] = fst (window_run quota calls [])
    \<and> window_bounded quota (snd (window_run quota calls []))"
proof
  have t0: "tracks quota now [] []" for now by (simp add: tracks_def entries_of_def recent_def)
  let ?now = "case calls of [] \<Rightarrow> 0 | c # _ \<Rightarrow> fst c"
  have s: "sorted (?now # map fst calls)" using assms(2) by (cases calls) auto
  show "limiter_run quota calls [] = fst (window_run quota calls [])"
    by (rule limiter_run_window [OF t0 _ s]) (use assms(1) in blast)
  show "window_bounded quota (snd (window_run quota calls []))"
    by (rule window_run_bounded [OF _ _ s]) (simp_all add: window_bounded_def)
qed

theorem limiter_is_sliding_window_witness:
  "limiter_run (\<lambda>_. (2, 60)) [(0, ''a''), (10, ''a''), (20, ''a''), (20, ''b''), (61, ''a'')] [] = [True, True, False, True, True]
   \<and> window_bounded (\<lambda>_. (2, 60)) (snd (window_run (\<lambda>_. (2, 60)) [(0, ''a''), (10, ''a''), (20, ''a''), (20, ''b''), (61, ''a'')] []))"
  using limiter_is_sliding_window [of "\<lambda>_. (2, 60)" "[(0, ''a''), (10, ''a''), (20, ''a''), (20, ''b''), (61, ''a'')]"]
  by (simp add: IDLE_WINDOW_MS_def recent_def)

end
