(* ===== verification/HubTransport.thy ===== *)
theory HubTransport
  imports Registry ReverseSession ReverseFlow RateLimiter
begin

text \<open>
  What a step of the reverse sessions (\<^verbatim>\<open>src/registry/reverse-session.mjs\<close>) and a step of the channel pool
  (\<^verbatim>\<open>src/registry/reverse-channel.mjs\<close>) look like from the outside: the Hub of \<^theory_text>\<open>ReverseHub\<close> joins the two
  through the \<open>onSessionClosed\<close> hook and must not depend on how each of them works.
\<close>

abbreviation heap :: "manager \<Rightarrow> session list" where
  "heap m \<equiv> ReverseSession.sessions m"

section \<open>What the sessions announce\<close>

text \<open>
  The part of a step of the session manager that the rest of the Hub sees: hooks are only added, a session that is
  closed in the step is announced, a ready session stays ready until it is closed, and closed sessions stay closed.
\<close>

definition ident :: "session \<Rightarrow> str \<times> str \<times> str" where
  "ident s = (s_nodeId s, s_keyId s, reverseSessionId s)"

definition tells :: "manager \<Rightarrow> manager \<Rightarrow> bool" where
  "tells m m' \<longleftrightarrow> length (heap m) \<le> length (heap m')
     \<and> (\<exists>new. hooks m' = hooks m @ new
         \<and> (\<forall>i < length (heap m). s_closed (sess m' i) \<longrightarrow> s_closed (sess m i) \<or> (\<exists>r. HookClosed i r \<in> set new)))
     \<and> (\<forall>i < length (heap m). (s_closed (sess m i) \<longrightarrow> s_closed (sess m' i))
         \<and> (s_state (sess m i) = SReady \<longrightarrow> s_state (sess m' i) = SReady \<or> s_closed (sess m' i))
         \<and> ident (sess m' i) = ident (sess m i))"

lemma tells_refl: "tells m m"
  by (simp add: tells_def)

lemma tells_trans:
  assumes "tells a b" "tells b c"
  shows "tells a c"
proof -
  obtain n1 n2 where h: "hooks b = hooks a @ n1" "hooks c = hooks b @ n2"
    and 1: "\<And>i. i < length (heap a) \<Longrightarrow> s_closed (sess b i) \<Longrightarrow> s_closed (sess a i) \<or> (\<exists>r. HookClosed i r \<in> set n1)"
    and 2: "\<And>i. i < length (heap b) \<Longrightarrow> s_closed (sess c i) \<Longrightarrow> s_closed (sess b i) \<or> (\<exists>r. HookClosed i r \<in> set n2)"
    using assms unfolding tells_def by blast
  have "s_closed (sess c i) \<Longrightarrow> s_closed (sess a i) \<or> (\<exists>r. HookClosed i r \<in> set (n1 @ n2))" if "i < length (heap a)" for i
    using 1 [OF that] 2 [of i] that assms(1) unfolding tells_def by auto
  moreover have "hooks c = hooks a @ (n1 @ n2)" by (simp add: h)
  moreover have "length (heap a) \<le> length (heap c)" using assms unfolding tells_def by simp
  moreover have "(s_closed (sess a i) \<longrightarrow> s_closed (sess c i))
      \<and> (s_state (sess a i) = SReady \<longrightarrow> s_state (sess c i) = SReady \<or> s_closed (sess c i))
      \<and> ident (sess c i) = ident (sess a i)" if "i < length (heap a)" for i
  proof -
    have "i < length (heap b)" using that assms(1) by (simp add: tells_def)
    then show ?thesis using that assms unfolding tells_def by (metis (no_types))
  qed
  ultimately show ?thesis unfolding tells_def by blast
qed

lemma tells_frame: "heap m' = heap m \<Longrightarrow> hooks m' = hooks m \<Longrightarrow> tells m m'"
  by (simp add: tells_def)

lemma tells_emit: "tells m (emit h m)"
  by (simp add: tells_def emit_def)

lemma ident_simps [simp]:
  "ident (sendFrame x s) = ident s" "ident (clear_pong s) = ident s" "ident (s\<lparr>readyTimer := b\<rparr>) = ident s"
  "ident (s\<lparr>readyTimer := b, s_state := st\<rparr>) = ident s" "ident (s\<lparr>superseded := b\<rparr>) = ident s" "ident (s\<lparr>routeReady := b\<rparr>) = ident s"
  "ident (s\<lparr>ws := w\<rparr>) = ident s" "ident (s\<lparr>armedPongs := hs\<rparr>) = ident s" "ident (s\<lparr>sockWritable := b\<rparr>) = ident s"
  "ident (s\<lparr>sockDestroyed := b\<rparr>) = ident s" "ident (s\<lparr>s_closed := c, s_state := st, readyTimer := b, pingTimer := b'\<rparr>) = ident s"
  "ident (s\<lparr>pongTimer := pt, armedPongs := hs, nextPong := k\<rparr>) = ident s" "ident (s\<lparr>awaitingPong := b\<rparr>) = ident s"
  "ident (s\<lparr>lastPongAt := t, awaitingPong := b, pongTimer := pt\<rparr>) = ident s"
  by (simp_all add: ident_def sendFrame_def)

lemma tells_upd:
  assumes "\<And>s. s_closed (f s) = s_closed s" "\<And>s. s_state s = SReady \<Longrightarrow> s_state (f s) = SReady"
    "\<And>s. ident (f s) = ident s"
  shows "tells m (upd i f m)"
proof -
  have "(s_closed (sess (upd i f m) j) = s_closed (sess m j)) \<and> (s_state (sess m j) = SReady \<longrightarrow> s_state (sess (upd i f m) j) = SReady)
      \<and> ident (sess (upd i f m) j) = ident (sess m j)" if "j < length (heap m)" for j
    using assms that by (cases "j = i") simp_all
  then show ?thesis by (simp add: tells_def)
qed

lemma tells_close: "tells m (close_session i code reason fp m)"
proof (cases "s_closed (sess m i)")
  case True
  then show ?thesis by (simp add: close_session_closed tells_refl)
next
  case False
  let ?f = "\<lambda>s. clear_pong (s\<lparr>s_closed := True, s_state := SClosed, readyTimer := False, pingTimer := False\<rparr>)"
  let ?n = "s_nodeId (sess m i)"
  define m1 where "m1 = upd i ?f m"
  define m3 where "m3 = drop_pending ?n i (if cur m1 ?n = Some i then m1\<lparr>current := AList.delete ?n (current m1)\<rparr> else m1)"
  define m5 where "m5 = emit (HookClosed i reason) (if cur m1 ?n = Some i then emit (TransClosed ?n reason) m3 else m3)"
  have s: "heap m5 = heap m1" by (simp add: m5_def m3_def)
  have h: "hooks m5 = hooks m @ (if cur m1 ?n = Some i then [TransClosed ?n reason, HookClosed i reason] else [HookClosed i reason])"
    by (simp add: m5_def m3_def m1_def emit_def)
  have j: "sess m5 j = (if j = i then ?f (sess m i) else sess m j)" if "j < length (heap m)" for j
    using that by (simp add: s) (auto simp: m1_def)
  have "length (heap m5) = length (heap m)" by (simp add: s m1_def)
  with h j have "tells m m5" unfolding tells_def
    by (auto split: if_splits)
  moreover have "tells m5 (close_session i code reason fp m)"
  proof -
    have "close_session i code reason fp m = upd i (\<lambda>s. s\<lparr>sockDestroyed := True\<rparr>)
       (if \<not> fp \<and> \<not> sockDestroyed (sess m5 i) then upd i (sendFrame (SentClose code reason)) m5 else m5)"
      using False by (simp add: close_session_def Let_def m5_def m3_def m1_def)
    moreover have "tells m5 (if b then upd i (sendFrame x) m5 else m5)" for b x
      by (simp add: tells_refl tells_upd)
    moreover have "tells k (upd i (\<lambda>s. s\<lparr>sockDestroyed := True\<rparr>) k)" for k by (rule tells_upd) simp_all
    ultimately show ?thesis by (simp only:) (rule tells_trans)
  qed
  ultimately show ?thesis by (rule tells_trans)
qed

lemma tells_promote: "tells m (promote i m)"
proof -
  define m1 where "m1 = upd i (\<lambda>s. s\<lparr>readyTimer := False, s_state := SReady\<rparr>) m"
  let ?n = "s_nodeId (sess m i)"
  define m2 where "m2 = m1\<lparr>current := AList.update ?n i (current m1)\<rparr>"
  define m3 where "m3 = (case map_of (pending m2) ?n of None \<Rightarrow> m2 | Some ids \<Rightarrow> m2\<lparr>pending := AList.update ?n (removeAll i ids) (pending m2)\<rparr>)"
  define m4 where "m4 = (case map_of (current m1) ?n of
     Some j \<Rightarrow> if j \<noteq> i then close_session j 1001 ''superseded'' False (upd j (\<lambda>s. s\<lparr>superseded := True\<rparr>) m3) else m3 | None \<Rightarrow> m3)"
  have 1: "tells m m1" unfolding m1_def by (rule tells_upd) simp_all
  have 3: "tells m1 m3" by (rule tells_frame) (auto simp: m3_def m2_def split: option.split)
  have u: "tells k (upd j (\<lambda>s. s\<lparr>superseded := True\<rparr>) k)" for j k by (rule tells_upd) simp_all
  have 4: "tells m3 m4"
    unfolding m4_def by (auto intro: tells_refl tells_trans [OF u tells_close] split: option.split)
  have "tells m m4" by (rule tells_trans [OF tells_trans [OF 1 3] 4])
  then have "tells m (emit a (emit b m4))" for a b by (blast intro: tells_trans tells_emit)
  moreover have "promote i m = (if s_closed (sess m i) \<or> superseded (sess m i) then m
      else emit (HookPromoted ?n (routeReady (sess m4 i))) (emit (TransReady ?n (routeReady (sess m4 i))) m4))"
    unfolding promote_def Let_def m4_def m3_def m2_def m1_def by (rule refl)
  ultimately show ?thesis by (simp add: tells_refl)
qed

lemma tells_control: "tells m (onControlMessage v i m)"
proof -
  have u: "tells m (upd i (\<lambda>s. s\<lparr>routeReady := b\<rparr>) m)" for b by (rule tells_upd) simp_all
  have p: "tells m (promote i (upd i (\<lambda>s. s\<lparr>routeReady := b\<rparr>) m))" for b
    by (rule tells_trans [OF u tells_promote])
  have e: "tells m (emit x (emit y (upd i (\<lambda>s. s\<lparr>routeReady := b\<rparr>) m)))" for x y b
    by (rule tells_trans [OF tells_trans [OF u tells_emit] tells_emit])
  show ?thesis
    by (auto simp: onControlMessage_def Let_def tells_refl u p e tells_close split: option.split prod.split jsval.split)
qed

lemma tells_event: "tells m (on_ws_event pj now i ev m)"
proof -
  have "tells m (onPong now i m)" "tells m (upd i (sendFrame x) m)" for x
    unfolding onPong_def by (rule tells_upd; simp)+
  then show ?thesis by (cases ev) (simp_all add: tells_control tells_close)
qed

lemma tells_foldl: "(\<And>m x. tells m (f m x)) \<Longrightarrow> tells m (foldl f m xs)"
proof (induction xs arbitrary: m)
  case (Cons x xs)
  then show ?case using tells_trans [of m "f m x"] by simp
qed (simp add: tells_refl)

lemma tells_data: "tells m (on_data pj now i chunk m)"
proof -
  have "tells m (upd i (\<lambda>s. s\<lparr>ws := w\<rparr>) m)" for w by (rule tells_upd) simp_all
  then show ?thesis unfolding on_data_def Let_def by (rule tells_trans) (rule tells_foldl, rule tells_event)
qed

lemma tells_many: "tells m (close_many ids code reason m)"
  unfolding close_many_def by (rule tells_foldl) (rule tells_close)

lemma tells_upgrade: "tells m (registerUpgrade pj now n k sid head m)"
proof -
  let ?m1 = "close_many (pending_of m n) 1001 ''superseded-pending'' m"
  let ?m2 = "?m1\<lparr>ReverseSession.sessions := heap ?m1 @ [new_session n k sid now]\<rparr>"
  let ?m3 = "if head \<noteq> [] then on_data pj now (length (heap ?m1)) head ?m2 else ?m2"
  have "tells ?m1 ?m2" by (simp add: tells_def nth_append)
  moreover have "tells ?m2 ?m3" by (simp add: tells_data tells_refl)
  ultimately have "tells m ?m3" by (meson tells_trans tells_many)
  moreover have "tells ?m3 (?m3\<lparr>pending := p\<rparr>)" for p by (rule tells_frame) simp_all
  ultimately show ?thesis unfolding registerUpgrade_def Let_def by (auto intro: tells_trans)
qed

lemma tells_close_node: "tells m (closeSessionsForNode n reason m)"
  unfolding closeSessionsForNode_def Let_def
  by (rule tells_trans [OF _ tells_many]) (simp add: tells_refl tells_close split: option.split)

lemma tells_credential: "tells m (snd (closeSessionsForCredential n k reason m))"
  by (simp add: closeSessionsForCredential_def Let_def tells_many)

lemma tells_close_all: "tells m (closeAll reason m)"
  unfolding closeAll_def Let_def
  by (rule tells_trans [OF tells_foldl tells_foldl]) (simp_all add: tells_close_node tells_many)

lemma tells_handle: "tells m (handle pj ev m)"
proof -
  have r: "tells m (ready_timeout i m)" for i
  proof -
    have "tells m (upd i (\<lambda>s. s\<lparr>readyTimer := False\<rparr>) m)" by (rule tells_upd) simp_all
    then show ?thesis by (auto simp: ready_timeout_def tells_refl intro: tells_trans tells_close)
  qed
  have p: "tells m (ping_tick i m)" for i
    unfolding ping_tick_def by (simp add: tells_refl tells_upd)
  have q: "tells m (pong_timeout i h m)" for i h
  proof -
    have "tells m (upd i (\<lambda>s. s\<lparr>armedPongs := removeAll h (armedPongs s)\<rparr>) m)" by (rule tells_upd) simp_all
    then show ?thesis by (auto simp: pong_timeout_def Let_def tells_refl intro: tells_trans tells_close)
  qed
  have w: "tells m (upd i (\<lambda>s. s\<lparr>sockWritable := b\<rparr>) m)" for i b by (rule tells_upd) simp_all
  show ?thesis
    by (cases ev) (simp_all add: r p q w tells_refl tells_close tells_data tells_upgrade tells_close_node tells_credential tells_close_all)
qed

section \<open>What the channels keep\<close>

text \<open>A step that opens no channel: the channels stay whose they are, and a closed one stays closed.\<close>

definition ages :: "pool \<Rightarrow> pool \<Rightarrow> bool" where
  "ages m m' \<longleftrightarrow> length (chans m') = length (chans m)
     \<and> (\<forall>i < length (chans m). c_node (chan m' i) = c_node (chan m i) \<and> c_key (chan m' i) = c_key (chan m i)
         \<and> c_session (chan m' i) = c_session (chan m i) \<and> (c_closed (chan m i) \<longrightarrow> c_closed (chan m' i)))"

lemma ages_refl: "ages m m"
  by (simp add: ages_def)

lemma ages_trans: "ages a b \<Longrightarrow> ages b c \<Longrightarrow> ages a c"
  by (simp add: ages_def)

lemma ages_frame: "chans m' = chans m \<Longrightarrow> ages m m'"
  by (simp add: ages_def)

lemma ages_upd:
  assumes "\<And>c. c_node (g c) = c_node c \<and> c_key (g c) = c_key c \<and> c_session (g c) = c_session c \<and> (c_closed c \<longrightarrow> c_closed (g c))"
  shows "ages m (upd_chan i g m)"
proof -
  have "(chans m)[i := g (chan m i)] ! j = (if j = i then g (chan m j) else chan m j)" if "j < length (chans m)" for j
    using that by (cases "j = i") simp_all
  note e = this
  show ?thesis unfolding ages_def by (simp add: upd_chan_def e assms)
qed

lemma ages_updI:
  assumes "ages m m'"
    and "\<And>c. c_node (g c) = c_node c \<and> c_key (g c) = c_key c \<and> c_session (g c) = c_session c \<and> (c_closed c \<longrightarrow> c_closed (g c))"
  shows "ages m (upd_chan i g m')"
  by (rule ages_trans [OF assms(1) ages_upd]) (rule assms(2))

lemma ages_frameI:
  "ages m m' \<Longrightarrow> ages m (upd_flow f h m')" "ages m m' \<Longrightarrow> ages m (upd_caller k h' m')"
  "ages m m' \<Longrightarrow> ages m (m'\<lparr>flows := fs\<rparr>)" "ages m m' \<Longrightarrow> ages m (m'\<lparr>callers := cs\<rparr>)"
  "ages m m' \<Longrightarrow> ages m (m'\<lparr>channels := c\<rparr>)" "ages m m' \<Longrightarrow> ages m (m'\<lparr>idleWaiters := w\<rparr>)"
  by (simp_all add: ages_def upd_flow_def upd_caller_def)

lemma ages_branches:
  "(P \<Longrightarrow> ages m x) \<Longrightarrow> (\<not> P \<Longrightarrow> ages m y) \<Longrightarrow> ages m (if P then x else y)"
  "(z = None \<Longrightarrow> ages m x) \<Longrightarrow> (\<And>v. z = Some v \<Longrightarrow> ages m (f v)) \<Longrightarrow> ages m (case z of None \<Rightarrow> x | Some v \<Rightarrow> f v)"
  by (auto split: option.split)

lemma ages_fold: "(\<And>x m'. x \<in> set xs \<Longrightarrow> ages m' (f x m')) \<Longrightarrow> ages m (fold f xs m)"
proof (induction xs arbitrary: m)
  case (Cons x xs)
  have "ages m (f x m)" by (rule Cons.prems) simp
  moreover have "ages (f x m) (fold f xs (f x m))" by (rule Cons.IH) (simp add: Cons.prems)
  ultimately show ?case by (simp add: ages_trans)
qed (simp add: ages_refl)

lemma quiet_ages: "quiet f m m' \<Longrightarrow> ages m m'"
  using quiet_chans by (simp add: ages_def)

lemmas ages_quiet = quiet_ages [OF quiet_resume] quiet_ages [OF quiet_send] quiet_ages [OF quiet_fail] quiet_ages [OF quiet_endBody]
  quiet_ages [OF quiet_onResponse] quiet_ages [OF quiet_consume] quiet_ages [OF quiet_next]

lemma ages_channel_gone: "ages m m' \<Longrightarrow> ages m (onChannelClosed i m')"
  unfolding onChannelClosed_def Let_def by (intro ages_branches ages_frameI)

lemma ages_close: "ages m (close_channel i reason m)"
  unfolding close_channel_def Let_def
  by (intro ages_branches ages_refl ages_channel_gone ages_updI ages_trans [OF ages_updI ages_quiet(3)]) simp_all

lemma ages_fail_close: "ages m (fail_and_close f i code reason m)"
  unfolding fail_and_close_def by (rule ages_trans [OF ages_quiet(3) ages_close])

lemma ages_waiters:
  "ages m (settle_waiter k m)" "ages m (cancel_waiter k code m)" "ages m (resolveIdleWaiters n s m)"
  by (auto simp: settle_waiter_def cancel_waiter_def resolveIdleWaiters_def ages_refl ages_frame upd_caller_def leave_def Let_def
      split: option.split)

lemma ages_push: "ages m (pushBody lims now f bytes m)"
  unfolding pushBody_def Let_def
  by (intro ages_branches ages_refl ages_frameI ages_trans [OF ages_frameI(1) ages_fail_close] ages_updI) simp_all

lemma ages_idle: "ages m (on_idle i m)"
  unfolding on_idle_def Let_def
  by (intro ages_branches ages_refl ages_close ages_trans [OF ages_frameI(1) ages_fail_close] ages_trans [OF _ ages_waiters(3)]
      ages_frameI ages_updI) simp_all

lemma ages_message: "ages m (onNodeMessage lims pj now i ev m)"
proof -
  have "ages m (on_flow_message i f t ps m)" for f t ps
    unfolding on_flow_message_def
    by (auto intro!: ages_branches ages_fail_close ages_quiet ages_close split: bool.split jsval.split)
  then have "ages m (on_text v i m)" for v
    unfolding on_text_def by (auto intro!: ages_close ages_idle split: option.split)
  moreover have "ages m (on_binary lims now i b m)" for b
    unfolding on_binary_def by (auto intro: ages_close ages_push split: option.split)
  ultimately show ?thesis by (cases ev) (simp_all add: ages_refl ages_quiet ages_close)
qed

lemma ages_data: "ages m (on_chan_data lims pj now i chunk m)"
  unfolding on_chan_data_def Let_def
  by (rule ages_trans [OF ages_updI ages_fold]) (simp_all add: ages_refl ages_message)

lemma ages_acquire: "ages m (acquire cfg now rid k m)"
proof -
  have "ages m (bind_flow k i rid now m)" for i
    unfolding bind_flow_def Let_def
    by (intro ages_branches ages_frameI ages_close ages_trans [OF _ ages_quiet(2)] ages_updI ages_refl) simp_all
  moreover have "ages m (wait_or_fail cfg now k m)"
    unfolding wait_or_fail_def Let_def by (intro ages_branches ages_frameI ages_refl)
  ultimately show ?thesis by (simp add: acquire_def split: option.split)
qed

lemma ages_request_failed: "ages m (request_failed f code m)"
  unfolding request_failed_def by (intro ages_trans [OF _ ages_fail_close] ages_frameI ages_refl)

lemma ages_flow_steps:
  "ages m (body_chunk f bytes m)" "ages m (write_step lims f before after m)" "ages m (drained f m)"
  "ages m (drain_timeout f queue m)" "ages m (body_done f m)" "ages m (body_error f code m)" "ages m (response_timeout f m)"
  "ages m (pull_body lims now f m)" "ages m (return_body f m)" "ages m (abort_flow f rsn m)" "ages m (waitForIdle f m)"
  "ages m (idle_timeout f m)" "ages m (stall_check lims now f m)"
proof -
  show "ages m (write_step lims f before after m)"
    unfolding write_step_def Let_def
    by (auto intro!: ages_branches ages_refl ages_request_failed ages_trans [OF ages_fail_close ages_request_failed] ages_frameI ages_updI
        split: head_phase.split)
  show "ages m (drain_timeout f queue m)"
    unfolding drain_timeout_def
    by (auto intro!: ages_refl ages_trans [OF ages_fail_close ages_request_failed] ages_frameI split: head_phase.split)
  show "ages m (abort_flow f rsn m)"
    unfolding abort_flow_def Let_def
    by (intro ages_branches ages_refl ages_trans [OF _ ages_close] ages_trans [OF ages_quiet(3) ages_quiet(2)])
  show "ages m (idle_timeout f m)"
    unfolding idle_timeout_def Let_def
    by (intro ages_branches ages_refl ages_frameI ages_trans [OF ages_frameI(1) ages_fail_close])
  show "ages m (pull_body lims now f m)"
    unfolding pull_body_def
    by (auto intro: ages_refl ages_quiet ages_trans [OF ages_quiet(6) ages_quiet(7)] split: generator.split)
  show "ages m (return_body f m)"
    unfolding return_body_def by (auto intro: ages_refl ages_frameI ages_quiet split: generator.split)
  show "ages m (body_done f m)"
    unfolding body_done_def by (intro ages_branches ages_refl ages_frameI ages_quiet)
qed (auto simp: body_chunk_def drained_def body_error_def response_timeout_def waitForIdle_def stall_check_def Let_def
    intro: ages_refl ages_frameI ages_request_failed ages_fail_close split: head_phase.split)

lemma ages_closings:
  "ages m (close_all_of is reason m)" "ages m (closeChannelsForNode n reason m)" "ages m (closeChannelsForSession s reason m)"
  "ages m (snd (closeChannelsForCredential n k reason m))"
proof -
  show a: "ages m (close_all_of is reason m)" for m "is"
    unfolding close_all_of_def by (rule ages_fold) (rule ages_close)
  show "ages m (closeChannelsForNode n reason m)"
    unfolding closeChannelsForNode_def Let_def
    by (intro ages_frameI ages_trans [OF _ ages_fold] ages_waiters a)
  show "ages m (closeChannelsForSession s reason m)"
    unfolding closeChannelsForSession_def Let_def by (intro ages_trans [OF _ ages_fold] ages_waiters a)
  show "ages m (snd (closeChannelsForCredential n k reason m))"
    by (simp add: closeChannelsForCredential_def Let_def a)
qed

text \<open>The events that sockets, timers and browsers cause, as opposed to the calls of the Hub.\<close>

fun pool_io :: "pool_event \<Rightarrow> bool" where
  "pool_io (Register n k s) = False"
| "pool_io (CloseNodeChannels n reason) = False"
| "pool_io (CloseSessionChannels s reason) = False"
| "pool_io (CloseCredentialChannels n k reason) = False"
| "pool_io (CloseEverything reason) = False"
| "pool_io _ = True"

lemma ages_io: "pool_io ev \<Longrightarrow> ages m (pool_step cfg pj ev m)"
  by (cases ev) (auto simp: executeReverseHttp_def resume_caller_def Let_def
      intro: ages_refl ages_data ages_close ages_acquire ages_waiters ages_flow_steps ages_trans [OF ages_frameI(4) ages_acquire])

end
