(* ===== verification/ReverseHub.thy ===== *)
theory ReverseHub
  imports HubTransport Registry RateLimiter
begin

text \<open>
  The reverse transport of the Hub as a whole: the part of \<^verbatim>\<open>src/registry/server.mjs\<close> that joins the registry,
  the session manager and the channel pool. It authenticates the WebSocket upgrades of nodes, closes the channels
  of a session when the session ends (\<open>onSessionClosed\<close>), and closes the connections of a deleted node and of a
  revoked credential (\<open>setRuntimeLifecycleHooks\<close>). The hooks run inside the step that calls them; the hooks a
  session step leaves behind are run, in their order, at its end, as closing a channel changes no session.
\<close>

section \<open>The Hub\<close>

record hub =
  h_reg :: reg
  h_limiter :: limiter
  h_sessions :: manager
  h_pool :: pool

record hub_config =
  hc_platform :: platform
  hc_pool :: pool_config
  hc_json :: "byte list \<Rightarrow> jsval option"

definition start_hub :: "reg \<Rightarrow> hub" where
  "start_hub r = \<lparr>h_reg = r, h_limiter = [], h_sessions = new_manager, h_pool = new_pool\<rparr>"

definition onSessionClosed :: "manager \<Rightarrow> hook \<Rightarrow> pool \<Rightarrow> pool" where
  "onSessionClosed m h p = (case h of
     HookClosed i reason \<Rightarrow> closeChannelsForSession (reverseSessionId (sess m i)) reason p
   | _ \<Rightarrow> p)"

definition run_sessions :: "(manager \<Rightarrow> manager) \<Rightarrow> hub \<Rightarrow> hub" where
  "run_sessions f h =
     (let m = f (h_sessions h) in
      h\<lparr>h_sessions := m,
        h_pool := fold (onSessionClosed m) (drop (length (hooks (h_sessions h))) (hooks m)) (h_pool h)\<rparr>)"

section \<open>Upgrades of the machine surface\<close>

definition RATE_PER_IP :: nat where "RATE_PER_IP = 120"
definition MINUTE_MS :: int where "MINUTE_MS = 60000"

definition machineField :: "(str, str) omap \<Rightarrow> str \<Rightarrow> denial + str" where
  "machineField headers name = (case map_of headers name of
     Some v \<Rightarrow> if v = [] then Inl bad_request else Inr v | None \<Rightarrow> Inl bad_request)"

text \<open>The fields of a signed request; a missing one is reported before anything is verified.\<close>

definition machine_request :: "str \<Rightarrow> str \<Rightarrow> str \<Rightarrow> (str, str) omap \<Rightarrow> denial + signed_request" where
  "machine_request verb path bodyHash headers =
     (case (machineField headers ''x-orbit-node'', machineField headers ''x-orbit-key'', machineField headers ''x-orbit-timestamp'',
            machineField headers ''x-orbit-nonce'', machineField headers ''x-orbit-signature'') of
        (Inr node, Inr key, Inr timestamp, Inr nonce, Inr signature) \<Rightarrow>
          Inr \<lparr>sq_node = JStr node, sq_key = JStr key, sq_method = verb, sq_path = path, sq_timestamp = JStr timestamp,
            sq_nonce = JStr nonce, sq_bodyHash = bodyHash, sq_signature = JStr signature\<rparr>
      | _ \<Rightarrow> Inl bad_request)"

text \<open>What the socket gets: a refusal with its status and code, or it now belongs to a session or to the pool.\<close>

datatype upgrade_answer = Refused nat str | HandedOver

definition refusal :: "denial \<Rightarrow> upgrade_answer" where
  "refusal d = (case d of Denied status code \<Rightarrow> Refused status (if d = internal_error then ''internal-error'' else code))"

record upgrade =
  up_url :: str
  up_headers :: "(str, str) omap"
  up_remote :: "str option"
  up_head :: "byte list"

definition remote_key :: "str option \<Rightarrow> str" where
  "remote_key remote = ''machine-ip:'' @ (case remote of None \<Rightarrow> ''unknown'' | Some a \<Rightarrow> a)"

definition EMPTY_BODY_SHA256 :: "externals \<Rightarrow> str" where
  "EMPTY_BODY_SHA256 X = x_digest X []"

definition CONTROL_PATH :: str where "CONTROL_PATH = ''/api/v1/reverse/control''"
definition CHANNEL_PATH :: str where "CHANNEL_PATH = ''/api/v1/reverse/channel''"

text \<open>The channel surface: the channel is bound to the current ready session of its node, or refused.\<close>

definition bind_channel :: "hub_config \<Rightarrow> upgrade \<Rightarrow> str \<Rightarrow> str \<Rightarrow> hub \<Rightarrow> upgrade_answer \<times> hub" where
  "bind_channel c u node key h =
     (case machineField (up_headers u) ''x-orbit-reverse-session'' of
        Inl d \<Rightarrow> (refusal d, h)
      | Inr bound \<Rightarrow>
        (case getSessionInfo (h_sessions h) node of
           None \<Rightarrow> (Refused 403 ''session-binding-invalid'', h)
         | Some (sid, _, _) \<Rightarrow>
           if bound \<noteq> sid then (Refused 403 ''session-binding-invalid'', h)
           else (HandedOver, h\<lparr>h_pool := registerChannel (hc_pool c) node key bound (h_pool h)\<rparr>)))"

definition handleReverseMachineUpgrade :: "hub_config \<Rightarrow> int \<Rightarrow> str \<Rightarrow> upgrade \<Rightarrow> hub \<Rightarrow> upgrade_answer \<times> hub" where
  "handleReverseMachineUpgrade c now sid u h =
     (if map_of (up_headers u) ''origin'' \<noteq> None then (Refused 403 ''origin-forbidden'', h)
      else
        let (ok, l) = allow now (remote_key (up_remote u)) RATE_PER_IP MINUTE_MS (h_limiter h);
            h1 = h\<lparr>h_limiter := l\<rparr> in
        if \<not> ok then (Refused 429 ''rate-limited'', h1)
        else case machine_request ''GET'' (up_url u) (EMPTY_BODY_SHA256 (p_ext (hc_platform c))) (up_headers u) of
          Inl d \<Rightarrow> (refusal d, h1)
        | Inr q \<Rightarrow>
          (case authenticateMachine (p_ext (hc_platform c)) now q (h_reg h1) of
             (Inl d, r) \<Rightarrow> (refusal d, h1\<lparr>h_reg := r\<rparr>)
           | (Inr (node, key), r) \<Rightarrow>
             let h2 = h1\<lparr>h_reg := r\<rparr> in
             if up_url u = CONTROL_PATH
             then (HandedOver, run_sessions (registerUpgrade (hc_json c) now (hn_id node) (nk_id key) sid (up_head u)) h2)
             else bind_channel c u (hn_id node) (nk_id key) h2))"

section \<open>Lifecycle hooks\<close>

definition disconnect_node :: "str \<Rightarrow> str \<Rightarrow> hub \<Rightarrow> hub" where
  "disconnect_node n reason h =
     (let h1 = run_sessions (closeSessionsForNode n reason) h in
      h1\<lparr>h_pool := closeChannelsForNode n reason (h_pool h1)\<rparr>)"

definition onNodeCredentialRevoked :: "str \<Rightarrow> str \<Rightarrow> str \<Rightarrow> hub \<Rightarrow> hub" where
  "onNodeCredentialRevoked n k reason h =
     (let sids = fst (closeSessionsForCredential n k reason (h_sessions h));
          h1 = run_sessions (\<lambda>m. snd (closeSessionsForCredential n k reason m)) h;
          p1 = snd (closeChannelsForCredential n k reason (h_pool h1))
      in h1\<lparr>h_pool := fold (\<lambda>sid. closeChannelsForSession sid reason) sids p1\<rparr>)"

text \<open>An operation of the registry, and the hooks it calls after its commit.\<close>

definition js_text :: "jsval \<Rightarrow> str" where
  "js_text v = (case v of JStr s \<Rightarrow> s | _ \<Rightarrow> [])"

definition run_hooks :: "int \<Rightarrow> reg_op \<Rightarrow> reg \<Rightarrow> hub \<Rightarrow> hub" where
  "run_hooks t op r h = (case op of
     DeleteNode actor n req why \<Rightarrow>
       (case fst (deleteNode t actor n req why r) of Inr (m, False) \<Rightarrow> disconnect_node m (js_text why) h | _ \<Rightarrow> h)
   | Maintain contactNow \<Rightarrow>
       fold (\<lambda>(n, k). onNodeCredentialRevoked n k ''rotation-overlap-ended'') (fst (maintenance t contactNow r)) h
   | _ \<Rightarrow> h)"

definition registry_call :: "platform \<Rightarrow> int \<Rightarrow> reg_op \<Rightarrow> hub \<Rightarrow> hub" where
  "registry_call P t op h = run_hooks t op (h_reg h) (h\<lparr>h_reg := reg_exec P t op (h_reg h)\<rparr>)"

section \<open>Events\<close>

text \<open>The events that sockets and timers of a session cause, as opposed to the calls of the Hub.\<close>

fun session_io :: "event \<Rightarrow> bool" where
  "session_io (Upgrade now n k sid head) = False"
| "session_io (CloseNode n reason) = False"
| "session_io (CloseCredential n k reason) = False"
| "session_io (CloseAll reason) = False"
| "session_io _ = True"

datatype hub_event =
    MachineUpgrade int str upgrade
  | SessionIo event
  | PoolIo pool_event
  | RegistryCall int reg_op
  | Disconnect str
  | Shutdown

fun hub_step :: "hub_config \<Rightarrow> hub_event \<Rightarrow> hub \<Rightarrow> hub" where
  "hub_step c (MachineUpgrade now sid u) h = snd (handleReverseMachineUpgrade c now sid u h)"
| "hub_step c (SessionIo ev) h = (if session_io ev then run_sessions (handle (hc_json c) ev) h else h)"
| "hub_step c (PoolIo ev) h = (if pool_io ev then h\<lparr>h_pool := pool_step (hc_pool c) (hc_json c) ev (h_pool h)\<rparr> else h)"
| "hub_step c (RegistryCall t op) h = registry_call (hc_platform c) t op h"
| "hub_step c (Disconnect n) h = disconnect_node n ''operator-disconnect'' h"
| "hub_step c Shutdown h = run_sessions (closeAll ''hub-shutdown'') h"

definition hub_run :: "hub_config \<Rightarrow> hub_event list \<Rightarrow> reg \<Rightarrow> hub" where
  "hub_run c es r = fold (hub_step c) es (start_hub r)"

section \<open>Connections and their credentials\<close>

text \<open>
  What the Hub asks of a table of connections: closing the connections of a node, or of a credential, leaves none
  of them open, and no other connection appears. Both the sessions and the channels provide it, and the Hub does.
\<close>

locale connection_table =
  fixes ok :: "'s \<Rightarrow> bool" and creds :: "'s \<Rightarrow> (str \<times> str) set"
    and drop_node :: "str \<Rightarrow> str \<Rightarrow> 's \<Rightarrow> 's" and drop_credential :: "str \<Rightarrow> str \<Rightarrow> str \<Rightarrow> 's \<Rightarrow> 's"
  assumes drop_node: "ok s \<Longrightarrow> ok (drop_node n reason s) \<and> creds (drop_node n reason s) \<subseteq> creds s - range (Pair n)"
    and drop_credential: "ok s \<Longrightarrow> ok (drop_credential n k reason s) \<and> creds (drop_credential n k reason s) \<subseteq> creds s - {(n, k)}"
begin

lemma drop_credentials:
  "ok s \<Longrightarrow> ok (fold (\<lambda>(n, k). drop_credential n k reason) cs s)
     \<and> creds (fold (\<lambda>(n, k). drop_credential n k reason) cs s) \<subseteq> creds s - set cs"
proof (induction cs arbitrary: s)
  case (Cons c cs)
  obtain n k where c: "c = (n, k)" by (cases c)
  note d = drop_credential [OF Cons.prems, of n k reason]
  from d have "ok (fold (\<lambda>(n, k). drop_credential n k reason) cs (drop_credential n k reason s))
     \<and> creds (fold (\<lambda>(n, k). drop_credential n k reason) cs (drop_credential n k reason s)) \<subseteq> creds (drop_credential n k reason s) - set cs"
    by (intro Cons.IH) simp
  with d show ?case by (auto simp: c)
qed simp

lemma dropped_node: "ok s \<Longrightarrow> (n, k) \<notin> creds (drop_node n reason s)"
  using drop_node [of s n reason] by auto

end

subsection \<open>The sessions\<close>

definition session_creds :: "manager \<Rightarrow> (str \<times> str) set" where
  "session_creds m = {(s_nodeId (sess m i), s_keyId (sess m i)) |i. i < length (heap m) \<and> \<not> s_closed (sess m i)}"

lemma good_creds: "good None m m' \<Longrightarrow> session_creds m' \<subseteq> session_creds m"
  unfolding session_creds_def good_def grows_def by fastforce

lemma drop_sessions_of_node:
  assumes inv: "manager_inv None m"
  shows "session_creds (closeSessionsForNode n reason m) \<subseteq> session_creds m - range (Pair n)"
proof -
  let ?m1 = "case cur m n of None \<Rightarrow> m | Some i \<Rightarrow> close_session i 1001 reason False m"
  let ?m2 = "close_many (pending_of ?m1 n) 1001 reason ?m1"
  have m2: "closeSessionsForNode n reason m = ?m2" by (simp add: closeSessionsForNode_def Let_def)
  have g1: "good None m ?m1"
    using manager_invD(2) [OF inv] by (auto simp: open_at_def good_refl inv intro: good_close split: option.split)
  note inv1 = good_inv [OF g1]
  have g2: "good None ?m1 ?m2" by (rule good_many [OF inv1 pending_bounded [OF inv1]])
  have c1: "cur ?m1 n = None"
  proof (cases "cur m n")
    case (Some i)
    then have o: "i < length (heap m)" "s_nodeId (sess m i) = n" "\<not> s_closed (sess m i)"
      using manager_invD(2) [OF inv] by (auto simp: open_at_def)
    show ?thesis using close_session_effect(2) [OF o(1,3) refl] by (simp add: Some o(2))
  qed simp
  have "s_closed (sess ?m2 i)" if i: "i < length (heap ?m2)" "s_nodeId (sess ?m2 i) = n" for i
  proof (rule ccontr)
    assume op: "\<not> s_closed (sess ?m2 i)"
    have l: "i < length (heap ?m1)" using i(1) good_length [OF g2] by simp
    have s: "\<not> s_closed (sess ?m1 i)" "s_nodeId (sess ?m1 i) = n" using g2 l op i(2) by (auto simp: good_def grows_def)
    then have "i \<in> set (pending_of ?m1 n)"
      using manager_invD(1) [OF inv1 l] c1 by (cases "s_state (sess ?m1 i)") (auto simp: session_ok_def)
    then have "s_closed (sess ?m2 i)" by (rule close_many_closed [OF inv1 pending_bounded [OF inv1]])
    with op show False ..
  qed
  then have "session_creds ?m2 \<inter> range (Pair n) = {}" by (auto simp: session_creds_def)
  then show ?thesis unfolding m2 using good_creds [OF good_trans [OF g1 g2]] by blast
qed

lemma drop_sessions_of_credential:
  assumes inv: "manager_inv None m"
  shows "session_creds (snd (closeSessionsForCredential n k reason m)) \<subseteq> session_creds m - {(n, k)}"
proof -
  let ?ms = "credential_matches m n k"
  let ?m = "close_many ?ms 1001 reason m"
  have e: "snd (closeSessionsForCredential n k reason m) = ?m" by (simp add: closeSessionsForCredential_eq)
  note b = credential_bounded [OF inv, of n k]
  have g: "good None m ?m" by (rule good_many [OF inv b])
  have "s_closed (sess ?m i)" if i: "i < length (heap ?m)" "s_nodeId (sess ?m i) = n" "s_keyId (sess ?m i) = k" for i
  proof (rule ccontr)
    assume op: "\<not> s_closed (sess ?m i)"
    have l: "i < length (heap m)" using i(1) good_length [OF g] by simp
    have s: "\<not> s_closed (sess m i)" "s_nodeId (sess m i) = n" "s_keyId (sess m i) = k"
      using g l op i(2,3) by (auto simp: good_def grows_def)
    then have "i \<in> set ?ms"
      using manager_invD(1) [OF inv l] by (cases "s_state (sess m i)") (auto simp: session_ok_def set_credential_matches)
    then have "s_closed (sess ?m i)" by (rule close_many_closed [OF inv b])
    with op show False ..
  qed
  then have "(n, k) \<notin> session_creds ?m" by (auto simp: session_creds_def)
  then show ?thesis unfolding e using good_creds [OF g] by blast
qed

interpretation session_table: connection_table "manager_inv None" session_creds closeSessionsForNode
  "\<lambda>n k reason m. snd (closeSessionsForCredential n k reason m)"
  using drop_sessions_of_node drop_sessions_of_credential good_inv [OF good_close_node] good_inv [OF good_credential]
  by unfold_locales blast+

subsection \<open>The channels\<close>

definition channel_creds :: "pool \<Rightarrow> (str \<times> str) set" where
  "channel_creds p = {(c_node (chan p i), c_key (chan p i)) |i. i < length (chans p) \<and> \<not> c_closed (chan p i)}"

lemma ages_creds: "ages p p' \<Longrightarrow> channel_creds p' \<subseteq> channel_creds p"
  unfolding channel_creds_def ages_def by fastforce

lemma ages_still_closed: "ages p p' \<Longrightarrow> i < length (chans p) \<Longrightarrow> c_closed (chan p i) \<Longrightarrow> c_closed (chan p' i)"
  by (simp add: ages_def)

lemma node_channels_closed:
  assumes inv: "pool_inv cfg None p" and i: "i < length (chans p)" "c_node (chan p i) = n"
  shows "c_closed (chan (closeChannelsForNode n reason p) i)"
proof -
  let ?p = "close_all_of (pool_of p n) reason p"
  have b: "\<forall>i \<in> set (pool_of p n). i < length (chans p)" by (rule pool_bounds [OF inv])
  have c: "c_closed (chan ?p i)"
  proof (cases "c_closed (chan p i)")
    case True
    then show ?thesis using ages_still_closed [OF ages_closings(1) i(1)] by blast
  next
    case False
    then have "i \<in> set (pool_of p n)" using i by (simp add: pool_invD(3) [OF inv] open_of_def)
    then show ?thesis by (rule close_all_effect(2) [OF inv b])
  qed
  have "ages ?p (closeChannelsForNode n reason p)"
    unfolding closeChannelsForNode_def Let_def
    by (rule ages_frameI(6), rule ages_trans [OF ages_frameI(5) ages_fold]) (rule ages_refl, rule ages_waiters)
  moreover have "i < length (chans ?p)" using ages_closings(1) [of p] i(1) by (simp add: ages_def)
  ultimately show ?thesis using c by (blast intro: ages_still_closed)
qed

lemma session_channels_closed:
  assumes inv: "pool_inv cfg None p" and i: "i < length (chans p)" "c_session (chan p i) = s"
  shows "c_closed (chan (closeChannelsForSession s reason p) i)"
proof -
  let ?is = "filter (\<lambda>i. c_session (chan p i) = s) (concat (map snd (channels p)))"
  let ?p = "close_all_of ?is reason p"
  have b: "\<forall>i \<in> set ?is. i < length (chans p)" using listed_bounds(1) [OF inv] by simp
  have c: "c_closed (chan ?p i)"
  proof (cases "c_closed (chan p i)")
    case True
    then show ?thesis using ages_still_closed [OF ages_closings(1) i(1)] by blast
  next
    case False
    then have "i \<in> set (pool_of p (c_node (chan p i)))" using i by (simp add: pool_invD(3) [OF inv] open_of_def)
    then obtain xs where xs: "map_of (channels p) (c_node (chan p i)) = Some xs" "i \<in> set xs"
      by (cases "map_of (channels p) (c_node (chan p i))") (auto simp: pool_of_def)
    from map_of_SomeD [OF xs(1)] xs(2) have "i \<in> set (concat (map snd (channels p)))" by force
    then have "i \<in> set ?is" using i(2) by simp
    then show ?thesis by (rule close_all_effect(2) [OF inv b])
  qed
  have "ages ?p (closeChannelsForSession s reason p)"
    unfolding closeChannelsForSession_def Let_def by (rule ages_fold) (rule ages_waiters)
  moreover have "i < length (chans ?p)" using ages_closings(1) [of p] i(1) by (simp add: ages_def)
  ultimately show ?thesis using c by (blast intro: ages_still_closed)
qed

lemma credential_channels_closed:
  assumes inv: "pool_inv cfg None p" and i: "i < length (chans p)" "c_node (chan p i) = n" "c_key (chan p i) = k"
  shows "c_closed (chan (snd (closeChannelsForCredential n k reason p)) i)"
proof (cases "c_closed (chan p i)")
  case True
  then show ?thesis using ages_still_closed [OF ages_closings(4) i(1)] by blast
next
  case False
  let ?is = "filter (\<lambda>i. c_key (chan p i) = k) (pool_of p n)"
  have "i \<in> set ?is" using False i by (simp add: pool_invD(3) [OF inv] open_of_def)
  moreover have "\<forall>i \<in> set ?is. i < length (chans p)" using pool_bounds [OF inv, of n] by simp
  ultimately show ?thesis using close_all_effect(2) [OF inv] by (simp add: closeChannelsForCredential_def Let_def)
qed

lemma dropped_creds:
  assumes a: "ages p p'"
    and c: "\<And>i. i < length (chans p) \<Longrightarrow> (c_node (chan p i), c_key (chan p i)) \<in> L \<Longrightarrow> c_closed (chan p' i)"
  shows "channel_creds p' \<subseteq> channel_creds p - L"
  using a c ages_creds [OF a] by (fastforce simp: channel_creds_def ages_def)

lemma kept_credential: "pool_inv cfg None p \<Longrightarrow> kept cfg p (snd (closeChannelsForCredential n k reason p))"
  using pool_bounds [of cfg p n] by (auto simp: closeChannelsForCredential_def Let_def intro: close_all_kept)

interpretation channel_table: connection_table "pool_inv cfg None" channel_creds closeChannelsForNode
  "\<lambda>n k reason p. snd (closeChannelsForCredential n k reason p)" for cfg
proof
  fix p n k reason
  assume inv: "pool_inv cfg None p"
  show "pool_inv cfg None (closeChannelsForNode n reason p)
      \<and> channel_creds (closeChannelsForNode n reason p) \<subseteq> channel_creds p - range (Pair n)"
    by (intro conjI kept_inv [OF kept_close_node [OF inv]] dropped_creds [OF ages_closings(2)])
      (rule node_channels_closed [OF inv], assumption, blast)
  show "pool_inv cfg None (snd (closeChannelsForCredential n k reason p))
      \<and> channel_creds (snd (closeChannelsForCredential n k reason p)) \<subseteq> channel_creds p - {(n, k)}"
    by (intro conjI kept_inv [OF kept_credential [OF inv]] dropped_creds [OF ages_closings(4)])
      (rule credential_channels_closed [OF inv], simp_all)
qed

subsection \<open>The Hub\<close>

text \<open>Every open channel belongs to the current session of its node.\<close>

definition bound :: "manager \<Rightarrow> pool \<Rightarrow> bool" where
  "bound m p \<longleftrightarrow> (\<forall>i < length (chans p). \<not> c_closed (chan p i) \<longrightarrow>
     (\<exists>j. cur m (c_node (chan p i)) = Some j \<and> reverseSessionId (sess m j) = c_session (chan p i)))"

definition transport_ok :: "pool_config \<Rightarrow> hub \<Rightarrow> bool" where
  "transport_ok cfg h \<longleftrightarrow> manager_inv None (h_sessions h) \<and> pool_inv cfg None (h_pool h) \<and> bound (h_sessions h) (h_pool h)"

lemma transport_okD:
  assumes "transport_ok cfg h"
  shows "manager_inv None (h_sessions h)" "pool_inv cfg None (h_pool h)" "bound (h_sessions h) (h_pool h)"
  using assms by (simp_all add: transport_ok_def)

definition hub_creds :: "hub \<Rightarrow> (str \<times> str) set" where
  "hub_creds h = session_creds (h_sessions h) \<union> channel_creds (h_pool h)"

lemma bound_ages:
  assumes "bound m p" "ages p p'"
  shows "bound m p'"
  unfolding bound_def
proof (intro allI impI)
  fix i assume i: "i < length (chans p')" "\<not> c_closed (chan p' i)"
  then have "i < length (chans p)" "\<not> c_closed (chan p i)" "c_node (chan p' i) = c_node (chan p i)" "c_session (chan p' i) = c_session (chan p i)"
    using assms(2) by (auto simp: ages_def)
  then show "\<exists>j. cur m (c_node (chan p' i)) = Some j \<and> reverseSessionId (sess m j) = c_session (chan p' i)"
    using assms(1) by (simp add: bound_def)
qed

text \<open>The hooks of one step close the channels of the sessions that it closed.\<close>

lemma hook_closed: "pool_inv cfg None p \<Longrightarrow> kept cfg p (onSessionClosed m h p) \<and> ages p (onSessionClosed m h p)"
  by (auto simp: onSessionClosed_def kept_refl ages_refl kept_close_session ages_closings split: hook.split)

lemma hooks_closed:
  assumes "pool_inv cfg None p"
  shows "kept cfg p (fold (onSessionClosed m) new p) \<and> ages p (fold (onSessionClosed m) new p)
     \<and> (\<forall>j r i. HookClosed j r \<in> set new \<longrightarrow> i < length (chans p) \<longrightarrow> c_session (chan p i) = reverseSessionId (sess m j)
          \<longrightarrow> c_closed (chan (fold (onSessionClosed m) new p) i))"
  using assms
proof (induction new arbitrary: p)
  case (Cons h new)
  let ?p = "onSessionClosed m h p"
  let ?q = "fold (onSessionClosed m) new ?p"
  note one = hook_closed [OF Cons.prems, of m h]
  have len: "length (chans ?p) = length (chans p)" using one by (simp add: ages_def)
  note IH = Cons.IH [of ?p] one
  have rest: "kept cfg ?p ?q" "ages ?p ?q" using Cons.IH [of ?p] one kept_inv by blast+
  have "c_closed (chan ?q i)"
    if h: "HookClosed j r \<in> set (h # new)" "i < length (chans p)" "c_session (chan p i) = reverseSessionId (sess m j)" for j r i
  proof (cases "h = HookClosed j r")
    case True
    then have "c_closed (chan ?p i)" using session_channels_closed [OF Cons.prems h(2,3)] by (simp add: onSessionClosed_def)
    then show ?thesis using rest(2) h(2) len by (auto simp: ages_def)
  next
    case False
    have "c_session (chan ?p i) = reverseSessionId (sess m j)" using one h(2,3) by (simp add: ages_def)
    then show ?thesis using Cons.IH [of ?p] one False h(1,2) len kept_inv by (metis set_ConsD)
  qed
  then show ?case using one rest kept_trans ages_trans by (metis fold_simps(2))
qed (simp add: kept_refl ages_refl)

lemma run_sessions_ok:
  assumes ok: "transport_ok cfg h" and inv: "manager_inv None (f (h_sessions h))" and t: "tells (h_sessions h) (f (h_sessions h))"
  shows "transport_ok cfg (run_sessions f h) \<and> ages (h_pool h) (h_pool (run_sessions f h))"
proof -
  let ?m = "h_sessions h"
  let ?m' = "f ?m"
  obtain new where new: "hooks ?m' = hooks ?m @ new"
    and cl: "\<And>i. i < length (heap ?m) \<Longrightarrow> s_closed (sess ?m' i) \<Longrightarrow> s_closed (sess ?m i) \<or> (\<exists>r. HookClosed i r \<in> set new)"
    using t unfolding tells_def by blast
  let ?p' = "fold (onSessionClosed ?m') new (h_pool h)"
  have r: "run_sessions f h = h\<lparr>h_sessions := ?m', h_pool := ?p'\<rparr>" by (simp add: run_sessions_def Let_def new)
  note hk = hooks_closed [OF transport_okD(2) [OF ok], of ?m' new]
  have "bound ?m' ?p'"
    unfolding bound_def
  proof (intro allI impI)
    fix i assume i: "i < length (chans ?p')" "\<not> c_closed (chan ?p' i)"
    then have p: "i < length (chans (h_pool h))" "\<not> c_closed (chan (h_pool h) i)"
      "c_node (chan ?p' i) = c_node (chan (h_pool h) i)" "c_session (chan ?p' i) = c_session (chan (h_pool h) i)"
      using hk by (auto simp: ages_def)
    then obtain j where j: "cur ?m (c_node (chan (h_pool h) i)) = Some j" "reverseSessionId (sess ?m j) = c_session (chan (h_pool h) i)"
      using transport_okD(3) [OF ok] by (auto simp: bound_def)
    have o: "j < length (heap ?m)" "s_nodeId (sess ?m j) = c_node (chan (h_pool h) i)" "\<not> s_closed (sess ?m j)"
      using manager_invD(2) [OF transport_okD(1) [OF ok] j(1)] by (auto simp: open_at_def)
    have rdy: "s_state (sess ?m j) = SReady"
      using manager_invD(1) [OF transport_okD(1) [OF ok] o(1)] o(3) j(1) by (simp add: session_ok_def o(2))
    have j': "ident (sess ?m' j) = ident (sess ?m j)" "j < length (heap ?m')"
      "s_state (sess ?m' j) = SReady \<or> s_closed (sess ?m' j)" using t o(1) rdy by (auto simp: tells_def)
    have "\<not> s_closed (sess ?m' j)"
    proof
      assume "s_closed (sess ?m' j)"
      then obtain r where "HookClosed j r \<in> set new" using cl [OF o(1)] o(3) by blast
      then show False using hk p(1) j(2) j'(1) i(2) by (auto simp: ident_def)
    qed
    then have "cur ?m' (s_nodeId (sess ?m' j)) = Some j"
      using manager_invD(1) [OF inv j'(2)] j'(3) by (simp add: session_ok_def)
    then show "\<exists>j. cur ?m' (c_node (chan ?p' i)) = Some j \<and> reverseSessionId (sess ?m' j) = c_session (chan ?p' i)"
      using j'(1) o(2) j(2) p(3,4) by (auto simp: ident_def)
  qed
  moreover have "pool_inv cfg None ?p'" using hk kept_inv by blast
  ultimately show ?thesis using hk inv by (simp add: transport_ok_def r)
qed

lemma run_calm:
  assumes ok: "transport_ok cfg h" and g: "good None (h_sessions h) (f (h_sessions h))" and t: "tells (h_sessions h) (f (h_sessions h))"
  shows "transport_ok cfg (run_sessions f h)" "hub_creds (run_sessions f h) \<subseteq> hub_creds h"
    "session_creds (h_sessions (run_sessions f h)) = session_creds (f (h_sessions h))" "ages (h_pool h) (h_pool (run_sessions f h))"
proof -
  note r = run_sessions_ok [where f = f, OF ok good_inv [OF g] t]
  show "transport_ok cfg (run_sessions f h)" "ages (h_pool h) (h_pool (run_sessions f h))" using r by blast+
  show e: "session_creds (h_sessions (run_sessions f h)) = session_creds (f (h_sessions h))" by (simp add: run_sessions_def Let_def)
  show "hub_creds (run_sessions f h) \<subseteq> hub_creds h"
    using good_creds [OF g] ages_creds [of "h_pool h" "h_pool (run_sessions f h)"] r unfolding hub_creds_def e by blast
qed

text \<open>A step of the pool that opens nothing.\<close>

lemma age_pool:
  assumes ok: "transport_ok cfg h" and p: "pool_inv cfg None p" "ages (h_pool h) p"
  shows "transport_ok cfg (h\<lparr>h_pool := p\<rparr>)" "hub_creds (h\<lparr>h_pool := p\<rparr>) \<subseteq> hub_creds h"
  using transport_okD [OF ok] p bound_ages [OF _ p(2)] ages_creds [OF p(2)] by (auto simp: transport_ok_def hub_creds_def)

lemma disconnect_ok:
  assumes ok: "transport_ok cfg h"
  shows "transport_ok cfg (disconnect_node n reason h) \<and> hub_creds (disconnect_node n reason h) \<subseteq> hub_creds h - range (Pair n)"
proof -
  let ?h1 = "run_sessions (closeSessionsForNode n reason) h"
  note r = run_calm [where f = "closeSessionsForNode n reason", OF ok good_close_node [OF transport_okD(1) [OF ok]] tells_close_node]
  note inv1 = transport_okD(2) [OF r(1)]
  have d: "disconnect_node n reason h = ?h1\<lparr>h_pool := closeChannelsForNode n reason (h_pool ?h1)\<rparr>"
    by (simp add: disconnect_node_def Let_def)
  note a = age_pool [OF r(1) kept_inv [OF kept_close_node [OF inv1]] ages_closings(2), of n reason]
  show ?thesis
    using a r(2) channel_table.drop_node [OF inv1, of n reason] drop_sessions_of_node [OF transport_okD(1) [OF ok], of n reason]
    unfolding d hub_creds_def by (simp add: r(3)) blast
qed

lemma fold_sessions_closed:
  "pool_inv cfg None p \<Longrightarrow> pool_inv cfg None (fold (\<lambda>sid. closeChannelsForSession sid reason) sids p)
     \<and> ages p (fold (\<lambda>sid. closeChannelsForSession sid reason) sids p)"
  using kept_fold [of sids cfg "length (callers p)" "\<lambda>sid. closeChannelsForSession sid reason" p]
  by (auto intro: kept_inv kept_close_session ages_fold ages_closings)

lemma revoke_ok:
  assumes ok: "transport_ok cfg h"
  shows "transport_ok cfg (onNodeCredentialRevoked n k reason h) \<and> hub_creds (onNodeCredentialRevoked n k reason h) \<subseteq> hub_creds h - {(n, k)}"
proof -
  let ?f = "\<lambda>m. snd (closeSessionsForCredential n k reason m)"
  let ?h1 = "run_sessions ?f h"
  let ?p1 = "snd (closeChannelsForCredential n k reason (h_pool ?h1))"
  let ?p2 = "fold (\<lambda>sid. closeChannelsForSession sid reason) (fst (closeSessionsForCredential n k reason (h_sessions h))) ?p1"
  note r = run_calm [where f = ?f, OF ok good_credential [OF transport_okD(1) [OF ok]] tells_credential]
  note inv1 = transport_okD(2) [OF r(1)]
  note c = channel_table.drop_credential [OF inv1, of n k reason]
  note p2 = fold_sessions_closed [of cfg ?p1 reason "fst (closeSessionsForCredential n k reason (h_sessions h))"]
  have a: "ages (h_pool ?h1) ?p2" using ages_trans [OF ages_closings(4)] p2 c by blast
  have d: "onNodeCredentialRevoked n k reason h = ?h1\<lparr>h_pool := ?p2\<rparr>"
    by (simp add: onNodeCredentialRevoked_def Let_def)
  note ap = age_pool [OF r(1) _ a]
  have "channel_creds ?p2 \<subseteq> channel_creds ?p1" using p2 c ages_creds by blast
  then show ?thesis
    using ap p2 c r(2) drop_sessions_of_credential [OF transport_okD(1) [OF ok], of n k reason]
    unfolding d hub_creds_def by (simp add: r(3)) blast
qed

interpretation hub_table: connection_table "transport_ok cfg" hub_creds disconnect_node onNodeCredentialRevoked for cfg
  by unfold_locales (rule disconnect_ok, assumption, rule revoke_ok, assumption)

section \<open>The registry's side\<close>

text \<open>
  A credential that has not been withdrawn: its node is active and its key has not been revoked. The registry accepts
  it (\<open>credential_accepted\<close>, the test of \<open>authenticateMachine\<close>) if moreover no rotation overlap of the key has ended.
\<close>

definition credential_active :: "str \<Rightarrow> str \<Rightarrow> reg \<Rightarrow> bool" where
  "credential_active n k r \<longleftrightarrow> (case getNodeRow n r of None \<Rightarrow> False | Some x \<Rightarrow> hn_state x = ''active'')
     \<and> (case deriveKeyRow n k r of None \<Rightarrow> False | Some x \<Rightarrow> nk_state x = ''active'')"

definition credential_accepted :: "int \<Rightarrow> str \<Rightarrow> str \<Rightarrow> reg \<Rightarrow> bool" where
  "credential_accepted now n k r \<longleftrightarrow> (case getNodeRow n r of None \<Rightarrow> False | Some x \<Rightarrow> hn_state x = ''active'')
     \<and> (case deriveKeyRow n k r of None \<Rightarrow> False | Some x \<Rightarrow> key_usable now x)"

text \<open>The view of the registry that the lemmas use.\<close>

definition accepts :: "auth_view \<Rightarrow> (str \<times> str) set" where
  "accepts v = {(n, k). map_of (av_states v) n = Some ''active''
     \<and> (\<exists>x. find (\<lambda>x. nk_node x = n \<and> nk_id x = k) (av_keys v) = Some x \<and> nk_state x = ''active'')}"

lemma credential_active_view: "credential_active n k r \<longleftrightarrow> (n, k) \<in> accepts (view r)"
proof -
  have "(case getNodeRow n r of None \<Rightarrow> False | Some x \<Rightarrow> hn_state x = ''active'') \<longleftrightarrow> map_of (av_states (view r)) n = Some ''active''"
    by (simp add: state_of_view split: option.split)
  then show ?thesis by (auto simp: credential_active_def accepts_def deriveKeyRow_def view_def split: option.split)
qed

lemma accepts_step: "auth_step A L t v v' \<Longrightarrow> accepts v - L \<subseteq> accepts v'"
proof (induction rule: auth_step.induct)
  case (admit e v n k g)
  then show ?case by (auto simp: accepts_def find_append map_add_def dest: map_of_SomeD split: option.splits)
next
  case (revive n e v k g)
  then show ?case by (auto simp: accepts_def find_append map_of_set_state split: option.splits)
next
  case (change_keys f Q v)
  have f: "find (\<lambda>x. nk_node x = n \<and> nk_id x = k) (upd_where Q f (av_keys v))
      = map_option (\<lambda>x. if Q x then f x else x) (find (\<lambda>x. nk_node x = n \<and> nk_id x = k) (av_keys v))" for n k
    by (rule find_upd) (use change_keys(1) in \<open>simp add: key_update_def\<close>)
  have "nk_state (f x) = ''active''"
    if "find (\<lambda>x. nk_node x = n \<and> nk_id x = k) (av_keys v) = Some x" "nk_state x = ''active''" "(n, k) \<notin> L" "Q x" for n k x
  proof -
    have x: "x \<in> set (av_keys v)" "nk_node x = n" "nk_id x = k" using that(1) by (auto simp: find_Some_iff)
    then have "nk_state (f x) \<noteq> ''active'' \<Longrightarrow> (n, k) \<in> withdraws Q f (av_keys v)" using that(2,4) by (auto simp: withdraws_def)
    then show ?thesis using change_keys(2) that(3) by blast
  qed
  note a = this
  show ?case
  proof (rule subrelI)
    fix n k assume "(n, k) \<in> accepts v - L"
    then obtain x where x: "map_of (av_states v) n = Some ''active''" "find (\<lambda>x. nk_node x = n \<and> nk_id x = k) (av_keys v) = Some x"
      "nk_state x = ''active''" "(n, k) \<notin> L" by (auto simp: accepts_def)
    then have "nk_state (if Q x then f x else x) = ''active''" using a [of n k x] by simp
    with x show "(n, k) \<in> accepts (v\<lparr>av_keys := upd_where Q f (av_keys v)\<rparr>)" by (simp add: accepts_def f)
  qed
next
  case (delete n v)
  then have "(n, b) \<in> L" for b by blast
  then show ?case by (auto simp: accepts_def map_of_set_state)
qed (auto simp: accepts_def find_append split: option.splits)

lemma accepts_steps:
  assumes "auth_steps A L t r r'"
  shows "accepts (view r) - L \<subseteq> accepts (view r')"
proof -
  have "(auth_step A L t)\<^sup>*\<^sup>* v v' \<Longrightarrow> accepts v - L \<subseteq> accepts v'" for v v'
    by (induction rule: rtranclp_induct) (use accepts_step in blast)+
  then show ?thesis using assms by (simp add: auth_steps_def)
qed

lemma authenticated_active:
  assumes a: "authenticateMachine X t q r = (Inr (x, key), r')"
  shows "(hn_id x, nk_id key) \<in> accepts (view r')" and "accepts (view r) \<subseteq> accepts (view r')"
proof -
  have "auth_steps {} {} t r r'" using authenticate_follows [of "{}" "\<lambda>_. {}" t r X q] by (simp add: a follows_def)
  then show s: "accepts (view r) \<subseteq> accepts (view r')" using accepts_steps [of "{}" "{}" t r r'] by simp
  obtain c where "check_machine X t q r = Inr (x, key, c)" using authenticate_ok [OF a] by blast
  then obtain n k where "getNodeRow n r = Some x" "hn_state x = ''active''" "deriveKeyRow n k r = Some key" "key_usable t key"
    using check_machine_ok [of X t q r x key c] by blast
  moreover from this have "hn_id x = n" "nk_id key = k" by (auto simp: getNodeRow_def deriveKeyRow_def find_Some_iff)
  ultimately have "credential_active (hn_id x) (nk_id key) r" by (simp add: credential_active_def key_usable_def)
  with s show "(hn_id x, nk_id key) \<in> accepts (view r')" by (auto simp: credential_active_view)
qed

lemma denied_same: "authenticateMachine X t q r = (Inl d, r') \<Longrightarrow> r' = r"
  using authenticate_denied [of X t q r] by auto

section \<open>New connections\<close>

lemma grows_creds: "grows m m' \<Longrightarrow> session_creds m' \<subseteq> session_creds m"
  unfolding session_creds_def grows_def by fastforce

lemma upgrade_creds:
  assumes inv: "manager_inv None m"
  shows "session_creds (registerUpgrade pj now n k sid head m) \<subseteq> insert (n, k) (session_creds m)"
proof -
  let ?m1 = "close_many (pending_of m n) 1001 ''superseded-pending'' m"
  let ?i = "length (heap ?m1)"
  let ?m2 = "?m1\<lparr>ReverseSession.sessions := heap ?m1 @ [new_session n k sid now]\<rparr>"
  let ?m3 = "if head \<noteq> [] then on_data pj now ?i head ?m2 else ?m2"
  have g1: "good None m ?m1" by (rule good_many [OF inv pending_bounded [OF inv]])
  have 2: "session_creds ?m2 \<subseteq> insert (n, k) (session_creds ?m1)"
    by (auto simp: session_creds_def nth_append less_Suc_eq)
  note i2 = manager_inv_append [OF good_inv [OF g1], of n k sid now]
  have "good (Some ?i) ?m2 ?m3" using good_data [OF i2] good_refl [OF i2] by simp
  then have 3: "session_creds ?m3 \<subseteq> session_creds ?m2" by (intro grows_creds) (simp add: good_def)
  have "session_creds (registerUpgrade pj now n k sid head m) = session_creds ?m3"
    unfolding registerUpgrade_def Let_def by (simp add: session_creds_def)
  then show ?thesis using 2 3 good_creds [OF g1] by blast
qed

lemma register_creds:
  assumes inv: "pool_inv cfg None p" and b: "bound m p"
    and s: "cur m n = Some j" "reverseSessionId (sess m j) = sid"
  shows "channel_creds (registerChannel cfg n k sid p) \<subseteq> insert (n, k) (channel_creds p) \<and> bound m (registerChannel cfg n k sid p)"
proof (cases "length (pool_of p n) < maxChannels cfg")
  case True
  obtain p1 where p1: "registerChannel cfg n k sid p = resolveIdleWaiters n sid p1" "chans p1 = chans p @ [new_channel n k sid]"
    using register_effect [OF inv True, of k sid] by blast
  have "channel_creds p1 \<subseteq> insert (n, k) (channel_creds p)"
    by (auto simp: channel_creds_def p1(2) nth_append new_channel_def less_Suc_eq)
  moreover have "bound m p1"
    using b s by (auto simp: bound_def p1(2) nth_append new_channel_def less_Suc_eq)
  moreover have "ages p1 (resolveIdleWaiters n sid p1)" by (rule ages_waiters)
  ultimately show ?thesis unfolding p1(1) using ages_creds bound_ages by blast
next
  case False
  then show ?thesis using b by (auto simp: register_full)
qed

lemma session_info:
  assumes inv: "manager_inv None m"
  shows "(\<exists>k rdy. getSessionInfo m n = Some (sid, k, rdy)) \<longleftrightarrow> (\<exists>j. cur m n = Some j \<and> reverseSessionId (sess m j) = sid)"
proof -
  have "s_state (sess m j) = SReady" if "cur m n = Some j" for j
    using manager_invD(2) [OF inv that] manager_invD(1) [OF inv, of j] that by (auto simp: open_at_def session_ok_def)
  then show ?thesis by (auto simp: getSessionInfo_def split: option.split)
qed

section \<open>Every event keeps the Hub in order\<close>

definition hub_ok :: "pool_config \<Rightarrow> hub \<Rightarrow> bool" where
  "hub_ok cfg h \<longleftrightarrow> transport_ok cfg h \<and> hub_creds h \<subseteq> accepts (view (h_reg h))"

lemma run_sessions_reg [simp]: "h_reg (run_sessions f h) = h_reg h"
  by (simp add: run_sessions_def Let_def)

lemma disconnect_reg [simp]: "h_reg (disconnect_node n reason h) = h_reg h"
  by (simp add: disconnect_node_def Let_def)

lemma revoked_reg [simp]: "h_reg (onNodeCredentialRevoked n k reason h) = h_reg h"
  by (simp add: onNodeCredentialRevoked_def Let_def)

lemma transport_frame [simp]:
  "transport_ok cfg (h\<lparr>h_reg := r\<rparr>) = transport_ok cfg h" "transport_ok cfg (h\<lparr>h_limiter := l\<rparr>) = transport_ok cfg h"
  "hub_creds (h\<lparr>h_reg := r\<rparr>) = hub_creds h" "hub_creds (h\<lparr>h_limiter := l\<rparr>) = hub_creds h"
  by (simp_all add: transport_ok_def hub_creds_def)

lemma control_creds:
  assumes "transport_ok cfg h"
  shows "hub_creds (run_sessions (registerUpgrade pj now n k sid head) h) \<subseteq> insert (n, k) (hub_creds h)"
proof -
  note inv = transport_okD(1) [OF assms]
  note r = run_sessions_ok [where f = "registerUpgrade pj now n k sid head", OF assms manager_inv_upgrade [OF inv] tells_upgrade]
  let ?h = "run_sessions (registerUpgrade pj now n k sid head) h"
  have "session_creds (h_sessions ?h) \<subseteq> insert (n, k) (session_creds (h_sessions h))"
    using upgrade_creds [OF inv] by (simp add: run_sessions_def Let_def)
  moreover have "channel_creds (h_pool ?h) \<subseteq> channel_creds (h_pool h)" using r ages_creds by blast
  ultimately show ?thesis by (auto simp: hub_creds_def)
qed

lemma control_ok:
  assumes ok: "hub_ok cfg h" and c: "(n, k) \<in> accepts (view (h_reg h))"
  shows "hub_ok cfg (run_sessions (registerUpgrade pj now n k sid head) h)"
proof -
  have t: "transport_ok cfg h" using ok by (simp add: hub_ok_def)
  note r = run_sessions_ok [where f = "registerUpgrade pj now n k sid head", OF t manager_inv_upgrade [OF transport_okD(1) [OF t]] tells_upgrade]
  show ?thesis using control_creds [OF t, of pj now n k sid head] r ok c by (auto simp: hub_ok_def)
qed

lemma channel_ok:
  assumes ok: "hub_ok (hc_pool c) h" and cr: "(n, k) \<in> accepts (view (h_reg h))"
  shows "hub_ok (hc_pool c) (snd (bind_channel c u n k h))"
proof -
  have t: "transport_ok (hc_pool c) h" using ok by (simp add: hub_ok_def)
  have "hub_ok (hc_pool c) (h\<lparr>h_pool := registerChannel (hc_pool c) n k sid (h_pool h)\<rparr>)"
    if s: "getSessionInfo (h_sessions h) n = Some (sid, x, y)" for sid x y
  proof -
    obtain j where "cur (h_sessions h) n = Some j" "reverseSessionId (sess (h_sessions h) j) = sid"
      using session_info [OF transport_okD(1) [OF t], of n sid] s by blast
    from register_creds [OF transport_okD(2,3) [OF t] this, of k]
    show ?thesis using inv_register [OF transport_okD(2) [OF t]] t ok cr
      by (auto simp: hub_ok_def transport_ok_def hub_creds_def)
  qed
  then show ?thesis
    unfolding bind_channel_def using ok by (auto split: sum.split option.split prod.split)
qed

lemma upgrade_ok:
  assumes ok: "hub_ok (hc_pool c) h"
  shows "hub_ok (hc_pool c) (snd (handleReverseMachineUpgrade c now sid u h))"
proof -
  obtain b l where l: "allow now (remote_key (up_remote u)) RATE_PER_IP MINUTE_MS (h_limiter h) = (b, l)" by fastforce
  let ?h1 = "h\<lparr>h_limiter := l\<rparr>"
  have ok1: "hub_ok (hc_pool c) ?h1" using ok by (simp add: hub_ok_def)
  have d: "hub_ok (hc_pool c) (?h1\<lparr>h_reg := r\<rparr>)" if "authenticateMachine X now q (h_reg h) = (Inl e, r)" for X q e r
    using ok denied_same [OF that] by (simp add: hub_ok_def)
  have s: "hub_ok (hc_pool c) (?h1\<lparr>h_reg := r\<rparr>)" "(hn_id x, nk_id key) \<in> accepts (view (h_reg (?h1\<lparr>h_reg := r\<rparr>)))"
    if "authenticateMachine X now q (h_reg h) = (Inr (x, key), r)" for X q x key r
    using ok authenticated_active [OF that] by (auto simp: hub_ok_def)
  show ?thesis
    unfolding handleReverseMachineUpgrade_def l Let_def prod.case
    by (auto simp: ok ok1 d split: sum.split prod.split intro!: control_ok channel_ok dest: s)
qed

text \<open>A registry operation withdraws credentials only together with the connections they opened.\<close>

lemma hooks_ok:
  assumes t: "transport_ok cfg h" and c: "hub_creds h - withdrawn t op r \<subseteq> accepts (view (h_reg h))"
  shows "hub_ok cfg (run_hooks t op r h)"
proof (cases op)
  case (DeleteNode actor n req why)
  show ?thesis
  proof (cases "fst (deleteNode t actor n req why r)")
    case (Inl d)
    then show ?thesis using t c by (simp add: DeleteNode run_hooks_def hub_ok_def)
  next
    case (Inr a)
    obtain m replay where a: "a = (m, replay)" by (cases a)
    show ?thesis
      using t c hub_table.drop_node [OF t, of m "js_text why"] by (cases replay) (auto simp: DeleteNode run_hooks_def Inr a hub_ok_def)
  qed
next
  case (Maintain contactNow)
  let ?cs = "fst (maintenance t contactNow r)"
  let ?h = "fold (\<lambda>(n, k). onNodeCredentialRevoked n k ''rotation-overlap-ended'') ?cs h"
  have "h_reg (fold (\<lambda>(n, k). onNodeCredentialRevoked n k reason) cs g) = h_reg g" for reason cs g
    by (induction cs arbitrary: g) auto
  then show ?thesis
    using c hub_table.drop_credentials [OF t, of "''rotation-overlap-ended''" ?cs] by (auto simp: Maintain run_hooks_def hub_ok_def)
qed (use t c in \<open>simp_all add: run_hooks_def hub_ok_def\<close>)

lemma registry_ok:
  assumes ok: "hub_ok cfg h"
  shows "hub_ok cfg (registry_call P t op h)"
  unfolding registry_call_def
proof (rule hooks_ok)
  show "transport_ok cfg (h\<lparr>h_reg := reg_exec P t op (h_reg h)\<rparr>)" using ok by (simp add: hub_ok_def)
  show "hub_creds (h\<lparr>h_reg := reg_exec P t op (h_reg h)\<rparr>) - withdrawn t op (h_reg h)
      \<subseteq> accepts (view (h_reg (h\<lparr>h_reg := reg_exec P t op (h_reg h)\<rparr>)))"
    using accepts_steps [OF exec_follows [of op t "h_reg h" P]] ok by (auto simp: hub_ok_def)
qed

lemma good_io:
  assumes "manager_inv None m" "session_io ev"
  shows "good None m (handle pj ev m)"
  using assms by (cases ev) (auto intro: good_data good_close good_upd good_timers good_refl)

lemma hub_ok_step:
  assumes ok: "hub_ok (hc_pool c) h"
  shows "hub_ok (hc_pool c) (hub_step c e h)"
proof -
  have t: "transport_ok (hc_pool c) h" and cr: "hub_creds h \<subseteq> accepts (view (h_reg h))" using ok by (simp_all add: hub_ok_def)
  note inv = transport_okD(1) [OF t]
  show ?thesis
  proof (cases e)
    case (SessionIo ev)
    then show ?thesis
      using ok cr run_calm(1,2) [where f = "handle (hc_json c) ev", OF t good_io [OF inv] tells_handle] by (auto simp: hub_ok_def)
  next
    case (PoolIo ev)
    note a = age_pool [OF t inv_step [OF transport_okD(2) [OF t]] ages_io]
    show ?thesis using ok a cr by (fastforce simp: PoolIo hub_ok_def)
  next
    case Shutdown
    then show ?thesis
      using cr run_calm(1,2) [where f = "closeAll ''hub-shutdown''", OF t good_close_all [OF inv] tells_close_all] by (auto simp: hub_ok_def)
  next
    case (Disconnect n)
    then show ?thesis using cr hub_table.drop_node [OF t, of n "''operator-disconnect''"] by (auto simp: hub_ok_def)
  qed (simp_all add: upgrade_ok [OF ok] registry_ok [OF ok])
qed

lemma hub_ok_start: "hub_ok cfg (start_hub r)"
  by (simp add: hub_ok_def transport_ok_def start_hub_def inv_new_pool hub_creds_def session_creds_def channel_creds_def bound_def
      reachable_inv [OF reachable.start], simp add: new_manager_def new_pool_def)

lemma hub_ok_run: "hub_ok (hc_pool c) (hub_run c es r)"
  unfolding hub_run_def by (induction es rule: rev_induct) (simp_all add: hub_ok_start hub_ok_step)

subsection \<open>Ended overlaps\<close>





subsection \<open>Where connections come from\<close>






section \<open>An example\<close>

text \<open>A node that opens a control session, reports ready, and opens a channel bound to it.\<close>

definition ex_hub :: hub_config where
  "ex_hub = \<lparr>hc_platform = ex_platform, hc_pool = example_pool, hc_json = example_json\<rparr>"

definition ex_upgrade :: "char \<Rightarrow> str \<Rightarrow> (str \<times> str) list \<Rightarrow> upgrade" where
  "ex_upgrade c path extra = \<lparr>up_url = path,
     up_headers = [(''x-orbit-node'', ex_id), (''x-orbit-key'', ex_kid), (''x-orbit-timestamp'', ''100''),
       (''x-orbit-nonce'', replicate 32 c), (''x-orbit-signature'', replicate 128 (CHR ''a''))] @ extra,
     up_remote = Some ''10.0.0.7'', up_head = []\<rparr>"

definition ex_connect :: "hub_event list" where
  "ex_connect = [MachineUpgrade 100000 ''s1'' (ex_upgrade (CHR ''1'') CONTROL_PATH []), SessionIo (Data 0 100010 ready_frame),
     MachineUpgrade 100020 ''s2'' (ex_upgrade (CHR ''2'') CHANNEL_PATH [(''x-orbit-reverse-session'', ''s1'')])]"

lemma ex_connected:
  "let h = hub_run ex_hub ex_connect ex_enrolled in
     length (heap (h_sessions h)) = 1 \<and> \<not> s_closed (sess (h_sessions h) 0) \<and> s_nodeId (sess (h_sessions h) 0) = ex_id
     \<and> length (chans (h_pool h)) = 1 \<and> \<not> c_closed (chan (h_pool h) 0) \<and> c_node (chan (h_pool h) 0) = ex_id \<and> c_key (chan (h_pool h) 0) = ex_kid"
  by code_simp

text \<open>A channel upgrade that names another session is refused, and so is a replay of the control upgrade.\<close>

lemma ex_refused:
  "let h = hub_run ex_hub ex_connect ex_enrolled in
     fst (handleReverseMachineUpgrade ex_hub 100030 ''s3'' (ex_upgrade (CHR ''3'') CHANNEL_PATH [(''x-orbit-reverse-session'', ''s9'')]) h)
       = Refused 403 ''session-binding-invalid''
     \<and> fst (handleReverseMachineUpgrade ex_hub 100030 ''s3'' (ex_upgrade (CHR ''1'') CONTROL_PATH []) h) = Refused 401 ''replay''"
  by code_simp

section \<open>Properties\<close>



text \<open>The example with a key whose overlap ends at 100040: at 100050 the registry refuses it, its channel is still open.\<close>

lemma ended_overlap_stays_open:
  "let r = ex_enrolled\<lparr>node_keys := map (\<lambda>k. k\<lparr>nk_revokeAfter := Some 100040\<rparr>) (node_keys ex_enrolled)\<rparr>;
       h = hub_run ex_hub ex_connect r in
     \<not> c_closed (chan (h_pool h) 0) \<and> \<not> credential_accepted 100050 ex_id ex_kid (h_reg h)"
  by code_simp

text \<open>
  C6. An open data channel is always bound to the session that its node's current ready control connection has:
  when a session is taken over, dropped or revoked, the channels of its generation are closed in the same step.
\<close>

theorem hub_channels_follow_generation:
  assumes "h = hub_run c es r" and "i < length (chans (h_pool h))" and "\<not> c_closed (chan (h_pool h) i)"
  shows "\<exists>key ready. getSessionInfo (h_sessions h) (c_node (chan (h_pool h) i)) = Some (c_session (chan (h_pool h) i), key, ready)"
proof -
  have t: "transport_ok (hc_pool c) h" using hub_ok_run [of c es r, folded assms(1)] by (simp add: hub_ok_def)
  then show ?thesis
    using session_info [OF transport_okD(1) [OF t]] transport_okD(3) [OF t] assms(2,3) by (auto simp: bound_def)
qed

theorem hub_channels_follow_generation_witness:
  "let h = hub_run ex_hub ex_connect ex_enrolled in
     \<exists>key ready. getSessionInfo (h_sessions h) (c_node (chan (h_pool h) 0)) = Some (c_session (chan (h_pool h) 0), key, ready)"
proof -
  define h where "h = hub_run ex_hub ex_connect ex_enrolled"
  show ?thesis
    unfolding Let_def h_def [symmetric]
    by (rule hub_channels_follow_generation [OF h_def]) (use ex_connected [folded h_def] in \<open>auto simp: Let_def\<close>)
qed

text \<open>
  C22. Deleting a node ends its reverse transport at once: when the deletion has been answered, every session and
  every channel of the node is closed, it has no current session, and no session of it has a channel left.
\<close>

theorem deleted_node_disconnected:
  assumes "h = hub_run c es r" and "fst (deleteNode t actor nodeId req why (h_reg h)) = Inr (n, False)"
    and "h' = hub_step c (RegistryCall t (DeleteNode actor nodeId req why)) h"
  shows "(\<forall>i < length (heap (h_sessions h')). s_nodeId (sess (h_sessions h') i) = n \<longrightarrow> s_closed (sess (h_sessions h') i))
    \<and> (\<forall>i < length (chans (h_pool h')). c_node (chan (h_pool h') i) = n \<longrightarrow> c_closed (chan (h_pool h') i))
    \<and> getSessionInfo (h_sessions h') n = None \<and> \<not> hasChannelForSession n sid (h_pool h')"
proof -
  have h': "h' = hub_run c (es @ [RegistryCall t (DeleteNode actor nodeId req why)]) r"
    by (simp add: hub_run_def assms(1,3))
  have t': "transport_ok (hc_pool c) h'" using hub_ok_run by (simp add: h' hub_ok_def)
  let ?h1 = "h\<lparr>h_reg := reg_exec (hc_platform c) t (DeleteNode actor nodeId req why) (h_reg h)\<rparr>"
  have "transport_ok (hc_pool c) ?h1" using hub_ok_run [of c es r, folded assms(1)] by (simp add: hub_ok_def)
  moreover have "h' = disconnect_node n (js_text why) ?h1"
    using assms(2) by (simp add: assms(3) registry_call_def run_hooks_def)
  ultimately have none: "(n, k) \<notin> hub_creds h'" for k using hub_table.dropped_node by blast
  then have s: "s_closed (sess (h_sessions h') i)" if "i < length (heap (h_sessions h'))" "s_nodeId (sess (h_sessions h') i) = n" for i
    using that by (auto simp: hub_creds_def session_creds_def)
  moreover have ch: "c_closed (chan (h_pool h') i)" if "i < length (chans (h_pool h'))" "c_node (chan (h_pool h') i) = n" for i
    using none that by (auto simp: hub_creds_def channel_creds_def)
  moreover have "cur (h_sessions h') n = None"
    using manager_invD(2) [OF transport_okD(1) [OF t'], of n] s by (cases "cur (h_sessions h') n") (auto simp: open_at_def)
  moreover have "\<not> hasChannelForSession n sid (h_pool h')"
    using ch by (auto simp: hasChannelForSession_def list_ex_iff pool_invD(3) [OF transport_okD(2) [OF t']] open_of_def)
  ultimately show ?thesis by (simp add: getSessionInfo_def)
qed

theorem deleted_node_disconnected_witness:
  "let h' = hub_step ex_hub (RegistryCall 100040 (DeleteNode ''op'' (JStr ex_id) (JStr (replicate 32 (CHR ''c''))) (JStr ''gone'')))
       (hub_run ex_hub ex_connect ex_enrolled)
   in getSessionInfo (h_sessions h') ex_id = None \<and> \<not> hasChannelForSession ex_id ''s1'' (h_pool h')"
proof -
  have d: "fst (deleteNode 100040 ''op'' (JStr ex_id) (JStr (replicate 32 (CHR ''c''))) (JStr ''gone'') (h_reg (hub_run ex_hub ex_connect ex_enrolled)))
      = Inr (ex_id, False)" by code_simp
  show ?thesis
    unfolding Let_def using deleted_node_disconnected [OF refl d refl, where sid = "''s1''"] by blast
qed

end
