(* ===== verification/RouteDecision.thy ===== *)
theory RouteDecision
  imports ReverseHub HostAuthority RouteControl "HOL-Library.List_Lexorder"
begin

text \<open>
  The routing decision of \<^verbatim>\<open>src/registry/route-proxy.mjs\<close> (\<open>evaluateRouteEligibility\<close>) over the registry, the
  control sessions and the channel pool, and the selector's view of it in \<^verbatim>\<open>src/registry/selector-view.mjs\<close>. The
  decision of an eligible node is an immutable snapshot; it is the only thing a flow is routed by.
\<close>

section \<open>The decision\<close>

record snapshot =
  sn_node :: str
  sn_mode :: str
  sn_origin :: "str option"
  sn_session :: "str option"
  sn_key :: hub_key

text \<open>\<open>de_reason\<close> is \<^const>\<open>None\<close> when the node is eligible; presence and readiness are absent where the code leaves them out.\<close>

record decision =
  de_reason :: "str option"
  de_presence :: "str option"
  de_ready :: "bool option"
  de_snapshot :: "snapshot option"

definition ineligible :: "str \<Rightarrow> str option \<times> bool option \<Rightarrow> decision" where
  "ineligible reason live = \<lparr>de_reason = Some reason, de_presence = fst live, de_ready = snd live, de_snapshot = None\<rparr>"

definition direct_obstacle :: "target_row option \<Rightarrow> hub_node \<Rightarrow> str option" where
  "direct_obstacle target x =
     (if (case target of None \<Rightarrow> True | Some t \<Rightarrow> rt_origin t = []) then Some ''no-route-target''
      else if hn_reachable x \<noteq> ''ok'' then Some (''node-not-reachable: '' @ hn_reachable x) else None)"

definition reverse_obstacle :: "(str \<times> str \<times> bool) option \<Rightarrow> str \<Rightarrow> pool \<Rightarrow> str option" where
  "reverse_obstacle info n p = (case info of
     None \<Rightarrow> Some ''reverse-session-offline''
   | Some (sid, _, ready) \<Rightarrow>
     if \<not> ready then Some ''reverse-route-unreachable''
     else if \<not> hasChannelForSession n sid p then Some ''reverse-capacity'' else None)"

definition evaluateRouteEligibility :: "reg \<Rightarrow> manager \<Rightarrow> pool \<Rightarrow> str \<Rightarrow> decision" where
  "evaluateRouteEligibility r m p n =
     (case getNodeRow n r of
        None \<Rightarrow> ineligible ''node-not-active'' (None, None)
      | Some x \<Rightarrow>
      if hn_state x \<noteq> ''active'' then ineligible ''node-not-active'' (None, None)
      else let mode = mode_of x;
               target = getRouteTarget n r;
               info = (if mode = ''reverse'' then getSessionInfo m n else None);
               live = (if mode = ''reverse''
                       then (Some (if info = None then ''offline'' else ''online''),
                             Some (case info of None \<Rightarrow> False | Some (_, _, ready) \<Rightarrow> ready))
                       else (None, None)) in
      case (if mode = ''direct'' then direct_obstacle target x else reverse_obstacle info n p) of
        Some reason \<Rightarrow> ineligible reason live
      | None \<Rightarrow>
      (case getActiveHubRouteKey n r of
         None \<Rightarrow> ineligible ''no-active-hub-route-key'' live
       | Some k \<Rightarrow>
       if hk_state k \<noteq> ''active'' then ineligible ''no-active-hub-route-key'' live
       else if hn_capabilitiesStale x \<or> hn_orbitCompatible x = ''stale'' \<or> hn_orbitCompatible x = ''unknown''
       then ineligible ''compatibility-evidence-stale'' live
       else if ''web.routes'' \<notin> set (hn_capabilities x) then ineligible ''web-routes-capability-missing'' live
       else \<lparr>de_reason = None,
              de_presence = (if mode = ''reverse'' then fst live else Some (getPresence m n mode)),
              de_ready = (if mode = ''reverse'' then snd live else None),
              de_snapshot = Some \<lparr>sn_node = n, sn_mode = mode,
                sn_origin = (if mode = ''direct'' then map_option rt_origin target else None),
                sn_session = (if mode = ''reverse'' then map_option fst info else None), sn_key = k\<rparr>\<rparr>))"

definition getSelectorReturnUrl :: "str option \<Rightarrow> str \<Rightarrow> domain_error + str" where
  "getSelectorReturnUrl configuredRouteDomain trustedScheme = (case configuredRouteDomain of
     None \<Rightarrow> Inr ''/''
   | Some d \<Rightarrow> if d = [] then Inr ''/'' else
     (case validateRouteDomain d of Inl e \<Rightarrow> Inl e | Inr c \<Rightarrow> Inr (trustedScheme @ ''://'' @ c @ ''/'')))"

section \<open>The selector\<close>

definition SELECTOR_REASON_MAP :: "(str, str) omap" where
  "SELECTOR_REASON_MAP =
    [(''reverse-session-offline'', ''reverse-offline''), (''reverse-route-unreachable'', ''reverse-unreachable''),
     (''reverse-capacity'', ''reverse-capacity''), (''node-not-active'', ''node-inactive''), (''no-route-target'', ''no-route-target''),
     (''node-not-reachable: unknown'', ''route-reachability-unverified''), (''node-not-reachable: unreachable'', ''route-unreachable''),
     (''no-active-hub-route-key'', ''hub-route-identity-unavailable''), (''compatibility-evidence-stale'', ''compatibility-evidence-stale''),
     (''web-routes-capability-missing'', ''web-routes-unavailable'')]"

text \<open>The code shown for a reason; the message goes with it.\<close>

definition mapEligibilityReason :: "str option \<Rightarrow> str option" where
  "mapEligibilityReason reason = (case reason of None \<Rightarrow> None | Some s \<Rightarrow>
     if s = [] then None
     else case map_of SELECTOR_REASON_MAP s of Some code \<Rightarrow> Some code
       | None \<Rightarrow> if js_starts_with ''node-not-reachable:'' s then Some ''route-unreachable'' else Some ''unavailable'')"

record selector_row =
  sl_node :: str
  sl_state :: str
  sl_identity :: identity
  sl_contact :: str
  sl_reachable :: str
  sl_compatible :: str
  sl_capabilities :: "str list"
  sl_stale :: bool
  sl_lastSeen :: "int option"
  sl_lastSeenSource :: "str option"
  sl_eligible :: bool
  sl_mode :: str
  sl_presence :: str
  sl_code :: "str option"
  sl_openUrl :: "str option"

definition buildSelectorNodeRow :: "str option \<Rightarrow> str \<Rightarrow> manager \<Rightarrow> pool \<Rightarrow> reg \<Rightarrow> hub_node \<Rightarrow> authority_error + selector_row" where
  "buildSelectorNodeRow routeDomain trustedScheme m p r x =
     (let n = hn_id x; mode = mode_of x; d = evaluateRouteEligibility r m p n;
          row = \<lparr>sl_node = n, sl_state = hn_state x, sl_identity = hn_identity x, sl_contact = hn_contact x,
            sl_reachable = (if mode = ''reverse'' then (if de_ready d = Some True then ''ok'' else ''unreachable'') else hn_reachable x),
            sl_compatible = hn_orbitCompatible x, sl_capabilities = hn_capabilities x, sl_stale = hn_capabilitiesStale x,
            sl_lastSeen = hn_lastSeen x, sl_lastSeenSource = hn_lastSeenSource x, sl_eligible = (de_reason d = None), sl_mode = mode,
            sl_presence = (case de_presence d of Some s \<Rightarrow> s | None \<Rightarrow> getPresence m n mode),
            sl_code = mapEligibilityReason (de_reason d), sl_openUrl = None\<rparr> in
      case routeDomain of
        Some domain \<Rightarrow>
          if domain = [] \<or> de_reason d \<noteq> None then Inr row
          else (case computeRouteAuthority n domain of
                  Inl e \<Rightarrow> Inl e | Inr a \<Rightarrow> Inr (row\<lparr>sl_openUrl := Some (trustedScheme @ ''://'' @ a @ ''/'')\<rparr>))
      | None \<Rightarrow> Inr row)"

text \<open>The rows in the order of the query; an exception in one of them is the answer.\<close>

fun all_rows :: "('e + 'a) list \<Rightarrow> 'e + 'a list" where
  "all_rows [] = Inr []"
| "all_rows (Inl e # xs) = Inl e"
| "all_rows (Inr x # xs) = (case all_rows xs of Inl e \<Rightarrow> Inl e | Inr ys \<Rightarrow> Inr (x # ys))"

definition buildSelectorReadModel :: "str option \<Rightarrow> str \<Rightarrow> manager \<Rightarrow> pool \<Rightarrow> reg \<Rightarrow> authority_error + selector_row list" where
  "buildSelectorReadModel routeDomain trustedScheme m p r =
     all_rows (map (buildSelectorNodeRow routeDomain trustedScheme m p r)
       (sort_key hn_mintedAt (sort_key (\<lambda>x. map of_char (hn_id x) :: nat list) (nodes r))))"

section \<open>Lemmas\<close>

text \<open>What makes a snapshot, before anything is known of the transports.\<close>

definition transport_live :: "reg \<Rightarrow> manager \<Rightarrow> pool \<Rightarrow> str \<Rightarrow> hub_node \<Rightarrow> snapshot \<Rightarrow> bool" where
  "transport_live r m p n x s =
     (if mode_of x = ''reverse''
      then sn_origin s = None \<and> (\<exists>sid key. sn_session s = Some sid \<and> getSessionInfo m n = Some (sid, key, True)
             \<and> hasChannelForSession n sid p)
      else sn_session s = None \<and> hn_reachable x = ''ok''
             \<and> (\<exists>t. getRouteTarget n r = Some t \<and> rt_origin t \<noteq> [] \<and> sn_origin s = Some (rt_origin t)))"

lemma mode_cases: "mode_of x = ''reverse'' \<or> mode_of x = ''direct''" "mode_of x = ''direct'' \<longleftrightarrow> mode_of x \<noteq> ''reverse''"
  by (simp_all add: mode_of_def)

lemma snapshot_cases:
  assumes "getNodeRow n r = Some x" "hn_state x = ''active''"
  shows "de_snapshot (evaluateRouteEligibility r m p n) =
    (case (if mode_of x = ''reverse'' then reverse_obstacle (getSessionInfo m n) n p else direct_obstacle (getRouteTarget n r) x) of
       Some _ \<Rightarrow> None
     | None \<Rightarrow> (case getActiveHubRouteKey n r of None \<Rightarrow> None | Some k \<Rightarrow>
         if hk_state k \<noteq> ''active'' \<or> hn_capabilitiesStale x \<or> hn_orbitCompatible x \<in> {''stale'', ''unknown''}
           \<or> ''web.routes'' \<notin> set (hn_capabilities x) then None
         else Some \<lparr>sn_node = n, sn_mode = mode_of x,
           sn_origin = (if mode_of x = ''reverse'' then None else map_option rt_origin (getRouteTarget n r)),
           sn_session = (if mode_of x = ''reverse'' then map_option fst (getSessionInfo m n) else None), sn_key = k\<rparr>))"
proof -
  define o1 where "o1 = (if mode_of x = ''reverse'' then reverse_obstacle (getSessionInfo m n) n p else direct_obstacle (getRouteTarget n r) x)"
  have o: "(if mode_of x = ''direct'' then direct_obstacle (getRouteTarget n r) x
      else reverse_obstacle (if mode_of x = ''reverse'' then getSessionInfo m n else None) n p) = o1"
    by (simp add: o1_def mode_cases(2))
  show ?thesis
    unfolding evaluateRouteEligibility_def assms(1) option.case Let_def o o1_def [symmetric]
    by (cases o1; cases "getActiveHubRouteKey n r") (simp_all add: assms(2) ineligible_def mode_cases(2))
qed

lemma obstacle_none:
  "reverse_obstacle i n p = None \<longleftrightarrow> (\<exists>sid key. i = Some (sid, key, True) \<and> hasChannelForSession n sid p)"
  "direct_obstacle t x = None \<longleftrightarrow> hn_reachable x = ''ok'' \<and> (\<exists>y. t = Some y \<and> rt_origin y \<noteq> [])"
  by (auto simp: reverse_obstacle_def direct_obstacle_def split: option.splits)

lemma snapshot_iff:
  "de_snapshot (evaluateRouteEligibility r m p n) = Some s \<longleftrightarrow>
     (\<exists>x k. getNodeRow n r = Some x \<and> hn_state x = ''active'' \<and> getActiveHubRouteKey n r = Some k \<and> hk_state k = ''active''
        \<and> \<not> hn_capabilitiesStale x \<and> hn_orbitCompatible x \<notin> {''stale'', ''unknown''} \<and> ''web.routes'' \<in> set (hn_capabilities x)
        \<and> sn_node s = n \<and> sn_mode s = mode_of x \<and> sn_key s = k \<and> transport_live r m p n x s)"
proof (cases "getNodeRow n r")
  case (Some x)
  show ?thesis
  proof (cases "hn_state x = ''active''")
    case True
    define ob where "ob = (if mode_of x = ''reverse'' then reverse_obstacle (getSessionInfo m n) n p else direct_obstacle (getRouteTarget n r) x)"
    note e = snapshot_cases [OF Some True, of m p, folded ob_def]
    show ?thesis
    proof (cases ob)
      case None
      show ?thesis
      proof (cases "mode_of x = ''reverse''")
        case r: True
        with None obtain sid key where "getSessionInfo m n = Some (sid, key, True)" "hasChannelForSession n sid p"
          by (auto simp: ob_def obstacle_none)
        then show ?thesis unfolding e by (cases s) (auto simp: Some True None r transport_live_def split: option.splits)
      next
        case False
        with None obtain t where "getRouteTarget n r = Some t" "rt_origin t \<noteq> []" "hn_reachable x = ''ok''"
          by (auto simp: ob_def obstacle_none)
        then show ?thesis unfolding e by (cases s) (auto simp: Some True None False transport_live_def split: option.splits)
      qed
    next
      case o: (Some y)
      then have "\<not> transport_live r m p n x s"
        using obstacle_none(1) [of "getSessionInfo m n" n p] obstacle_none(2) [of "getRouteTarget n r" x]
        by (auto simp: ob_def transport_live_def split: if_splits)
      then show ?thesis unfolding e by (simp add: o Some)
    qed
  next
    case False
    then show ?thesis by (simp add: evaluateRouteEligibility_def Some ineligible_def)
  qed
qed (simp add: evaluateRouteEligibility_def ineligible_def)

lemma reason_snapshot: "de_reason (evaluateRouteEligibility r m p n) = None \<longleftrightarrow> de_snapshot (evaluateRouteEligibility r m p n) \<noteq> None"
  by (auto simp: evaluateRouteEligibility_def ineligible_def Let_def split: option.splits)

lemma open_channel:
  assumes "pool_inv cfg None p"
  shows "hasChannelForSession n sid p \<longleftrightarrow>
    sid \<noteq> [] \<and> (\<exists>i < length (chans p). \<not> c_closed (chan p i) \<and> c_node (chan p i) = n \<and> c_session (chan p i) = sid)"
  by (auto simp: hasChannelForSession_def list_ex_iff pool_invD(3) [OF assms] open_of_def)

section \<open>An example\<close>

text \<open>The example node with fresh evidence and an active route key, in reverse mode.\<close>

definition ex_row :: hub_node where
  "ex_row = (new_node ex_id ''reverse'' 0)\<lparr>hn_capabilities := [''web.routes''], hn_capabilitiesStale := False, hn_orbitCompatible := ''pass''\<rparr>"

definition ex_routable :: reg where
  "ex_routable = ex_enrolled\<lparr>nodes := [ex_row],
     hub_keys := [(new_hub_key 0 ex_id ''hk1'' (''pub'', ''priv''))\<lparr>hk_state := ''active''\<rparr>]\<rparr>"

definition ex_routing :: "hub \<Rightarrow> decision" where
  "ex_routing h = evaluateRouteEligibility (h_reg h) (h_sessions h) (h_pool h) ex_id"

lemma ex_decisions:
  "map_option sn_session (de_snapshot (ex_routing (hub_run ex_hub ex_connect ex_routable))) = Some (Some ''s1'')"
  "de_reason (ex_routing (hub_run ex_hub (butlast ex_connect) ex_routable)) = Some ''reverse-capacity''"
  "de_reason (ex_routing (hub_run ex_hub [] ex_routable)) = Some ''reverse-session-offline''"
  "de_reason (ex_routing (hub_run ex_hub [] ex_enrolled)) = Some ''no-route-target''"
  by code_simp+

section \<open>Properties\<close>

text \<open>
  C3. In every reachable state of the Hub the router has a snapshot for a node exactly when the node is active, its
  Hub route key is active, its compatibility evidence is fresh and shows web routes, and the transport of its mode is
  live: a verified direct target, or the current ready session together with an open data channel bound to that very
  session and opened with a credential that has not been withdrawn (its node is active, its key not revoked). The
  snapshot names exactly these.
\<close>

theorem eligible_snapshot_exact:
  assumes "h = hub_run c es r"
  shows "de_snapshot (evaluateRouteEligibility (h_reg h) (h_sessions h) (h_pool h) n) = Some s \<longleftrightarrow>
    (\<exists>x k. getNodeRow n (h_reg h) = Some x \<and> hn_state x = ''active'' \<and> getActiveHubRouteKey n (h_reg h) = Some k \<and> hk_state k = ''active''
       \<and> \<not> hn_capabilitiesStale x \<and> hn_orbitCompatible x \<notin> {''stale'', ''unknown''} \<and> ''web.routes'' \<in> set (hn_capabilities x)
       \<and> sn_node s = n \<and> sn_mode s = mode_of x \<and> sn_key s = k
       \<and> (if mode_of x = ''reverse''
          then sn_origin s = None \<and> (\<exists>sid key i. sn_session s = Some sid \<and> sid \<noteq> []
                 \<and> getSessionInfo (h_sessions h) n = Some (sid, key, True)
                 \<and> i < length (chans (h_pool h)) \<and> \<not> c_closed (chan (h_pool h) i) \<and> c_node (chan (h_pool h) i) = n
                 \<and> c_session (chan (h_pool h) i) = sid \<and> credential_active n (c_key (chan (h_pool h) i)) (h_reg h))
          else sn_session s = None \<and> hn_reachable x = ''ok''
                 \<and> (\<exists>t. getRouteTarget n (h_reg h) = Some t \<and> rt_origin t \<noteq> [] \<and> sn_origin s = Some (rt_origin t))))"
proof -
  have ok: "hub_ok (hc_pool c) h" using hub_ok_run [of c es r] by (simp add: assms)
  then have p: "pool_inv (hc_pool c) None (h_pool h)" by (simp add: hub_ok_def transport_ok_def)
  have cr: "credential_active (c_node (chan (h_pool h) i)) (c_key (chan (h_pool h) i)) (h_reg h)"
    if "i < length (chans (h_pool h))" "\<not> c_closed (chan (h_pool h) i)" for i
    using ok that by (auto simp: hub_ok_def hub_creds_def channel_creds_def credential_active_view)
  show ?thesis
    unfolding snapshot_iff transport_live_def open_channel [OF p]
    using cr by (intro iff_exI conj_cong refl if_cong) (simp, metis)
qed

theorem eligible_snapshot_exact_witness:
  "let h = hub_run ex_hub ex_connect ex_routable in \<exists>s i. de_snapshot (ex_routing h) = Some s
     \<and> i < length (chans (h_pool h)) \<and> \<not> c_closed (chan (h_pool h) i) \<and> sn_session s = Some (c_session (chan (h_pool h) i))"
proof -
  define h where "h = hub_run ex_hub ex_connect ex_routable"
  obtain s where s: "de_snapshot (ex_routing h) = Some s" "sn_session s = Some ''s1''"
    using ex_decisions(1) by (auto simp: h_def)
  then have "\<exists>i < length (chans (h_pool h)). \<not> c_closed (chan (h_pool h) i) \<and> sn_session s = Some (c_session (chan (h_pool h) i))"
    using eligible_snapshot_exact [OF h_def, of ex_id s] unfolding ex_routing_def by (auto split: if_splits)
  with s(1) show ?thesis unfolding Let_def h_def [symmetric] by blast
qed

text \<open>
  C26. The selector offers a link to a node exactly when the router would take a request for it, and the link's
  authority is classified by the front door as that node's route and no other.
\<close>

theorem selector_link_routes:
  assumes "buildSelectorNodeRow (Some d) trustedScheme m p r x = Inr row" and "validateRouteDomain d = Inr c" and "last (host_name c) \<noteq> dot"
  shows "(sl_openUrl row \<noteq> None \<longleftrightarrow> de_reason (evaluateRouteEligibility r m p (hn_id x)) = None)
    \<and> (case sl_openUrl row of None \<Rightarrow> sl_code row \<noteq> None
       | Some url \<Rightarrow> sl_code row = None
         \<and> (\<exists>a. url = trustedScheme @ ''://'' @ a @ ''/'' \<and> classifyHostAuthority (Some a) (Some d) = Inr (NodeRoute (hn_id x) a)))"
proof -
  let ?e = "evaluateRouteEligibility r m p (hn_id x)"
  have d: "d \<noteq> []" using assms(2) by (auto simp: validateRouteDomain_def js_trim_def)
  show ?thesis
  proof (cases "de_reason ?e")
    case None
    then obtain a where "computeRouteAuthority (hn_id x) d = Inr a" "sl_openUrl row = Some (trustedScheme @ ''://'' @ a @ ''/'')"
      "sl_code row = None"
      using assms(1) d by (auto simp: buildSelectorNodeRow_def Let_def mapEligibilityReason_def split: sum.splits)
    then show ?thesis using None route_authority_classified [OF assms(2,3)] by auto
  next
    case (Some reason)
    then have "reason \<noteq> []" by (auto simp: evaluateRouteEligibility_def ineligible_def direct_obstacle_def reverse_obstacle_def Let_def split: option.splits if_splits)
    then have "mapEligibilityReason (de_reason ?e) \<noteq> None" by (simp add: Some mapEligibilityReason_def split: option.split)
    then show ?thesis using assms(1) Some by (auto simp: buildSelectorNodeRow_def Let_def)
  qed
qed

theorem selector_link_routes_witness:
  "let h = hub_run ex_hub ex_connect ex_routable in
     case buildSelectorNodeRow (Some ''dsh.example.com'') ''https'' (h_sessions h) (h_pool h) (h_reg h) ex_row of
       Inl _ \<Rightarrow> False
     | Inr row \<Rightarrow> (\<exists>a. sl_openUrl row = Some (''https://'' @ a @ ''/'')
         \<and> classifyHostAuthority (Some a) (Some ''dsh.example.com'') = Inr (NodeRoute ex_id a))"
proof -
  define h where "h = hub_run ex_hub ex_connect ex_routable"
  let ?b = "buildSelectorNodeRow (Some ''dsh.example.com'') ''https'' (h_sessions h) (h_pool h) (h_reg h) ex_row"
  have i: "\<not> isl ?b" unfolding h_def by code_simp
  then obtain row where row: "?b = Inr row" by (cases ?b) auto
  have e: "de_reason (evaluateRouteEligibility (h_reg h) (h_sessions h) (h_pool h) (hn_id ex_row)) = None" unfolding h_def by code_simp
  have d: "validateRouteDomain ''dsh.example.com'' = Inr ''dsh.example.com''" "last (host_name ''dsh.example.com'') \<noteq> dot" by code_simp+
  have "hn_id ex_row = ex_id" by code_simp
  then show ?thesis
    using selector_link_routes [OF row d] e unfolding Let_def h_def [symmetric] row by (auto split: option.splits)
qed

end
