(* ===== verification/Spec2Isabelle.thy ===== *)
theory Spec2Isabelle
  imports Prelude Protocol HostAuthority FlowLedger FlowTracker HubRouteKeys PairingCode ReverseSession FleetScheduler ScheduleEngine Registry QrRead RouteHeaders ReverseFlow RateLimiter ReverseHub RouteDecision
begin

text \<open>
  A verification of the core of DSH Orbit: the Hub that registers remote harness nodes, keeps their
  credentials and health, routes browsers to them and runs fleet jobs on them. The program is the
  JavaScript under \<^verbatim>\<open>src/\<close>; its logic is in \<^verbatim>\<open>src/registry/\<close>.

  Parts of the program and the theories that model them:

  \<^item> \<open>Prelude\<close>: strings, decimal numbers, JSON values, insertion-ordered maps and sets as the language has
    them, and the rules \<open>guard_simps\<close> that read a chain of early returns. \<open>JsDate\<close> is calendar arithmetic.
  \<^item> \<open>Protocol\<close> (\<^verbatim>\<open>protocol.mjs\<close>), \<open>Crypto\<close> (\<^verbatim>\<open>crypto.mjs\<close>): wire patterns, signing strings, route
    authorities and the checks around the signature primitives.
  \<^item> \<open>HostAuthority\<close> (first stage of \<^verbatim>\<open>route-proxy.mjs\<close>): classification of the Host header.
  \<^item> \<open>FlowLedger\<close>, \<open>FlowTracker\<close> (\<^verbatim>\<open>flow-tracker.mjs\<close>): live flows per node; the ledger is its contract.
  \<^item> \<open>ReplayGuard\<close>, \<open>RouteAuth\<close> (\<^verbatim>\<open>route-auth.mjs\<close>), \<open>HubRouteKeys\<close> (\<^verbatim>\<open>hub-route-keys.mjs\<close>): signed route requests,
    the nonce cache and the trust set of a node.
  \<^item> \<open>SingleUse\<close>, \<open>PairingCode\<close> (\<^verbatim>\<open>pairing-code.mjs\<close>): codes, tokens and the lockout of guessing addresses.
  \<^item> \<open>ReverseWs\<close> (\<^verbatim>\<open>reverse-ws.mjs\<close>), \<open>ReverseSession\<close> (\<^verbatim>\<open>reverse-session.mjs\<close>): the WebSocket codec at byte
    level, and the control sessions of nodes that connect to the Hub.
  \<^item> \<open>RouteHeaders\<close> (\<^verbatim>\<open>route-proxy.mjs\<close>, \<^verbatim>\<open>reverse-channel.mjs\<close>): what passes of the headers and cookies between a
    browser and a node, on the direct and on the reverse transport.
  \<^item> \<open>ReversePool\<close>, \<open>ReverseFlow\<close> (\<^verbatim>\<open>reverse-channel.mjs\<close>): the pool of data channels and the HTTP flows over them as
    one machine of events, and what it promises.
  \<^item> \<open>Redaction\<close>, \<open>FleetScheduler\<close> (\<^verbatim>\<open>fleet-scheduler.mjs\<close>): target validation, jobs and their interleaved workers.
  \<^item> \<open>ScheduleParser\<close> (\<^verbatim>\<open>schedule-parser.mjs\<close>), \<open>ScheduleEngine\<close> (\<^verbatim>\<open>schedule-engine.mjs\<close>): cron expressions and the
    engine that submits scheduled jobs to the fleet scheduler.
  \<^item> \<open>CompatReport\<close> (\<^verbatim>\<open>compatibility-report.mjs\<close>): compatibility reports from untrusted input.
  \<^item> \<open>RegistryState\<close>, \<open>HubKeyLifecycle\<close>, \<open>Enrollment\<close>, \<open>MachineAuth\<close>, \<open>NodeHealth\<close>, \<open>RouteControl\<close>,
    \<open>BrowserSessions\<close>, \<open>Maintenance\<close> (\<^verbatim>\<open>registry.mjs\<close>, \<^verbatim>\<open>capabilities.mjs\<close>, \<^verbatim>\<open>route-target.mjs\<close> and the tables of
    \<^verbatim>\<open>sqlite.mjs\<close>): the registry database as a record of tables and one function per operation.
  \<^item> \<open>QrField\<close>, \<open>QrCode\<close>, \<open>QrRead\<close> (\<^verbatim>\<open>src/plugin/qr-svg.mjs\<close>): the QR encoder for pairing links, from the field
    tables to the SVG text, and a reader after the standard's layout.
  \<^item> \<open>Registry\<close>: all registry operations as one machine, \<open>reg_exec\<close>, and its abstract relation.
  \<^item> \<open>RateLimiter\<close> (\<^verbatim>\<open>SlidingWindowLimiter\<close> of \<^verbatim>\<open>server.mjs\<close>), with a plain sliding window as its reference.
  \<^item> \<open>HubTransport\<close>, \<open>ReverseHub\<close> (the reverse transport in \<^verbatim>\<open>server.mjs\<close>: \<^verbatim>\<open>handleReverseMachineUpgrade\<close>,
    \<^verbatim>\<open>onSessionClosed\<close>, \<^verbatim>\<open>setRuntimeLifecycleHooks\<close>): registry, session manager and channel pool as one machine of events.
  \<^item> \<open>RouteDecision\<close> (\<^verbatim>\<open>evaluateRouteEligibility\<close> of \<^verbatim>\<open>route-proxy.mjs\<close>, \<^verbatim>\<open>selector-view.mjs\<close>): the routing decision over
    that machine, and the rows of the endpoint selector.

  How the components interact: the Host classification selects a node; its request is signed with a Hub
  route key whose life is in \<open>HubKeyLifecycle\<close> and verified by \<open>RouteAuth\<close> with the trust set that a
  heartbeat delivered. Pairing codes hand out pairing tokens that \<open>Enrollment\<close> consumes. Deleting a node or
  the end of a rotation revokes credentials, for which \<open>ReverseSession\<close> closes sessions and \<open>ReversePool\<close> channels; \<open>ReverseHub\<close>
  composes them in every order of upgrades, messages, timers and registry operations, and \<open>RouteDecision\<close> reads all of
  them at once. On the reverse
  transport a request is sanitized by \<open>RouteHeaders\<close> and sent over a channel of \<open>ReversePool\<close>, whose bytes the parser
  of \<open>ReverseWs\<close> reads. The schedule engine
  submits to the fleet scheduler, which reads the registry's nodes.

  State and effects: a mutable object is a record passed and returned; a \<open>Map\<close> is an insertion-ordered
  association list, a table the list of its rows; asynchronous work is a sequence of explicit steps, and
  every interleaving of them is covered by lists of steps. A throw is a value of a sum type, and a
  transaction that throws returns the state it began with. Time is an argument, in milliseconds, and
  stored times are compared as numbers: their ISO texts compare alike for years of four digits. Where that
  differs, \<open>ScheduleEngine\<close> keeps the text.

  Interfaces: \<open>replay_guard\<close> (a store of nonces; provided by the route nonce cache and by the registry's
  nonce table, where every other registry operation is a step in between), \<open>single_use\<close> (tickets; pairing
  codes), \<open>flow_ledger\<close> (accounting; the flow tracker), \<open>connection_table\<close> (closing by node and by credential; sessions,
  channels, and the Hub that holds both). Each is interpreted on the model's definitions where
  the provider is defined.

  What the lemmas show, by group: invariants of each state and their preservation by every operation;
  the behaviour of operations on every branch; the equivalence of the streaming parser, the cron search,
  the probe counter and the field tables with plain reference definitions; that a drawn QR matrix reads back by a reader after
  the standard (its format information from the copy around the upper left finder); the refinement of a key state machine by table
  rows; replay protection, single use, lockout after deletion and the harmlessness of denials for
  arbitrary sequences of operations; that bodies are delivered whole and no wakeup is lost in any interleaving of a
  channel pool, and the runs where its flows disturb each other; that each open connection belongs to a credential that is
  not withdrawn and to the current generation of its node, and that a routing decision is exactly the state it names; termination of jobs within three steps per target.

  Bounds: the cron search of \<open>ScheduleParser\<close> takes the number of steps the code allows, and its
  equivalence theorem states the horizon. The frame parser recurses on the bytes left. No other
  definition has fuel.

  Outside the model, and arguments of the definitions that use them: SHA-256, Ed25519 with its key pairs
  and random values, URL parsing, the database engine, sockets and timers. Assumed of them where a theorem
  says so: a signature verifies under the matching key (\<open>ed25519_pair\<close>), a public key verifies only what was
  signed, ISO texts are read back as the time they were written for.

  Not modelled: of \<^verbatim>\<open>server.mjs\<close> the dispatch of HTTP requests to the operations above, with the exception of the reverse
  upgrades, the lifecycle hooks, the limiter and the schedule trigger; the proxying of bodies and upgrades in
  \<^verbatim>\<open>route-proxy.mjs\<close>, the WebSocket flows of \<^verbatim>\<open>reverse-channel.mjs\<close>, the node agent under \<^verbatim>\<open>src/node/\<close>, backup and
  migrations, the plugin beyond its QR encoder, the patches and the upgrade guard, user interfaces, command line
  tools and drill scripts: they are I/O around the modelled logic or text for other programs.
\<close>

end
